(* ===== verification/Prelude.thy ===== *)
theory Prelude
  imports Main "HOL-Library.Word"
begin

text \<open>
  Shared vocabulary of the development: the machine types of the simulator
  (\<open>Addr\<close>, \<open>RegVal\<close>, \<open>InstSeqNum\<close>, \<open>ThreadID\<close>), the collections of rewrite rules that
  the component theories extend, and the generic facts on lists, options and
  counting that several components use.
\<close>

type_synonym addr = "64 word"
type_synonym regval = "64 word"
type_synonym seq_num = nat
type_synonym thread_id = nat

named_theorems rename_simps \<open>field and update rules of the rename state\<close>
named_theorems fusion_simps \<open>operand layout of fused instructions\<close>

section \<open>Occurrence counts in lists\<close>

definition occ :: "('a \<Rightarrow> bool) \<Rightarrow> 'a list \<Rightarrow> nat" where
  "occ P xs = length (filter P xs)"

lemma occ_Nil [simp]: "occ P [] = 0"
  by (simp add: occ_def)

lemma occ_Cons [simp]: "occ P (x # xs) = (if P x then Suc (occ P xs) else occ P xs)"
  by (simp add: occ_def)

lemma occ_append [simp]: "occ P (xs @ ys) = occ P xs + occ P ys"
  by (simp add: occ_def)

lemma occ_eq_0_iff: "occ P xs = 0 \<longleftrightarrow> (\<forall>x\<in>set xs. \<not> P x)"
  by (induction xs) auto

lemma occ_pos_iff: "0 < occ P xs \<longleftrightarrow> (\<exists>x\<in>set xs. P x)"
  using occ_eq_0_iff [of P xs] by auto

lemma occ_update:
  "i < length xs \<Longrightarrow>
   occ P (xs[i := v]) + (if P (xs ! i) then 1 else 0) = occ P xs + (if P v then 1 else 0)"
proof (induction xs arbitrary: i)
  case Nil
  then show ?case by simp
next
  case (Cons x xs)
  then show ?case by (cases i) auto
qed

lemma occ_last_butlast:
  "xs \<noteq> [] \<Longrightarrow> occ P xs = occ P (butlast xs) + (if P (last xs) then 1 else 0)"
  using occ_append [of P "butlast xs" "[last xs]"] by simp

lemma distinct_concat_map:
  assumes "distinct ts" and "\<And>t. distinct (f t)"
    and "\<And>t u x. x \<in> set (f t) \<Longrightarrow> x \<in> set (f u) \<Longrightarrow> t = u"
  shows "distinct (concat (map f ts))"
  using assms(1)
proof (induction ts)
  case Nil
  then show ?case by simp
next
  case (Cons t ts)
  moreover have "set (f t) \<inter> (\<Union>u\<in>set ts. set (f u)) = {}"
    using Cons.prems assms(3) [of _ t] by auto
  ultimately show ?case using assms(2) by simp
qed

section \<open>Sums over a single changed index\<close>

lemma sum_upd_lessThan:
  fixes f g :: "nat \<Rightarrow> nat"
  assumes "t < n" and "\<And>u. u \<noteq> t \<Longrightarrow> g u = f u"
  shows "(\<Sum>u<n. g u) + f t = (\<Sum>u<n. f u) + g t"
proof -
  have fin: "finite {..<n}" and mem: "t \<in> {..<n}"
    using assms(1) by auto
  have rest: "(\<Sum>u\<in>{..<n} - {t}. g u) = (\<Sum>u\<in>{..<n} - {t}. f u)"
    using assms(2) by (intro sum.cong) auto
  show ?thesis
    using sum.remove [OF fin mem, of g] sum.remove [OF fin mem, of f] rest by simp
qed

section \<open>Logarithms\<close>

text \<open>\<open>floorLog2\<close> of \<open>base/intmath.hh\<close>.\<close>

fun floorLog2 :: "nat \<Rightarrow> nat" where
  "floorLog2 n = (if n < 2 then 0 else Suc (floorLog2 (n div 2)))"

declare floorLog2.simps [simp del]

lemma floorLog2_power: "floorLog2 (2 ^ k) = k"
proof (induction k)
  case (Suc k)
  then show ?case
    using floorLog2.simps [of "2 ^ Suc k"] by simp
qed (simp add: floorLog2.simps)

lemma floorLog2_le: "0 < n \<Longrightarrow> 2 ^ floorLog2 n \<le> n"
proof (induction n rule: floorLog2.induct)
  case (1 n)
  then show ?case
    by (subst floorLog2.simps) (cases "n < 2"; fastforce)
qed

section \<open>Masks of 64-bit words\<close>

lemma unat_mask64: "n \<le> 64 \<Longrightarrow> unat (mask n :: 64 word) = 2 ^ n - 1"
proof -
  assume n: "n \<le> 64"
  have "unat (mask n :: 64 word) = (mask n :: nat)"
    by (rule bit_eqI) (use n in \<open>auto simp: bit_simps\<close>)
  then show ?thesis by (simp add: mask_eq_exp_minus_1)
qed

lemma unat_and_mask:
  fixes w :: "64 word"
  shows "unat (and w (mask n)) = unat w mod 2 ^ n"
proof -
  have "unat (and w (mask n)) = take_bit n (unat w)"
    by (simp flip: take_bit_eq_mask add: unsigned_take_bit_eq)
  then show ?thesis by (simp only: take_bit_eq_mod)
qed

end
