(* ===== verification/RegClass.thy ===== *)
theory RegClass
  imports Prelude
begin

text \<open>
  Register identifiers of the O3 core: \<open>cpu/reg_class.hh\<close> (register classes,
  \<open>RegId\<close>, \<open>PhysRegId\<close>) and the immediate-elimination operands of
  \<open>cpu/o3/regfile.hh\<close> (\<open>IEOperand\<close>, \<open>VirtRegId\<close>).

  A \<open>PhysRegId\<close> object is reached through pointers that several maps share, so its
  mutable part (\<open>numRef\<close>, the pinned-write counters) is kept in a store indexed by the
  identity \<open>phys_reg\<close> of the object.
\<close>

datatype reg_class =
  IntRegClass | FloatRegClass | VecRegClass | VecElemClass | VecPredRegClass
| CCRegClass | RMiscRegClass | MiscRegClass | InvalidRegClass

text \<open>The classes \<open>0 .. RMiscRegClass\<close> that index the per-class arrays.\<close>

definition array_classes :: "reg_class list" where
  "array_classes =
     [IntRegClass, FloatRegClass, VecRegClass, VecElemClass, VecPredRegClass,
      CCRegClass, RMiscRegClass]"

datatype reg_id = RegId (regClass: reg_class) (regIdx: nat)

definition zero_reg :: reg_id where
  "zero_reg = RegId InvalidRegClass 0"

definition isRenameable :: "reg_id \<Rightarrow> bool" where
  "isRenameable r \<longleftrightarrow> regClass r \<noteq> MiscRegClass \<and> regClass r \<noteq> InvalidRegClass"

definition isZeroReg :: "reg_id \<Rightarrow> bool" where
  "isZeroReg r \<longleftrightarrow> regClass r = InvalidRegClass"

datatype phys_reg = PhysReg (pclass: reg_class) (pidx: nat)

definition invalidPhysRegId :: phys_reg where
  "invalidPhysRegId = PhysReg InvalidRegClass 65535"

definition isFixedMapping :: "phys_reg \<Rightarrow> bool" where
  "isFixedMapping p \<longleftrightarrow> pclass p = MiscRegClass \<or> pclass p = InvalidRegClass"

record phys_meta =
  numPinnedWrites :: int
  numPinnedWritesToComplete :: int
  pinned :: bool
  numRef :: nat

definition initPhysMeta :: phys_meta where
  "initPhysMeta =
     \<lparr>numPinnedWrites = 0, numPinnedWritesToComplete = 0, pinned = False, numRef = 0\<rparr>"

definition incRef :: "phys_meta \<Rightarrow> phys_meta" where
  "incRef m = m\<lparr>numRef := numRef m + 1\<rparr>"

definition decRef :: "phys_meta \<Rightarrow> phys_meta" where
  "decRef m = m\<lparr>numRef := (if numRef m = 0 then 0 else numRef m - 1)\<rparr>"

definition setNumPinnedWrites :: "int \<Rightarrow> phys_meta \<Rightarrow> phys_meta" where
  "setNumPinnedWrites n m = m\<lparr>pinned := (n \<noteq> 0), numPinnedWrites := n\<rparr>"

definition decrNumPinnedWrites :: "phys_meta \<Rightarrow> phys_meta" where
  "decrNumPinnedWrites m = m\<lparr>numPinnedWrites := numPinnedWrites m - 1\<rparr>"

definition setNumPinnedWritesToComplete :: "int \<Rightarrow> phys_meta \<Rightarrow> phys_meta" where
  "setNumPinnedWritesToComplete n m = m\<lparr>numPinnedWritesToComplete := n\<rparr>"

section \<open>Immediate-elimination operands\<close>

datatype ie_type = IE_LUI | IE_ADD

datatype ie_operand = IEOperand (ieType: ie_type) (ieImm: int)

text \<open>The constructor takes an \<open>int\<close>: a wider argument is truncated to 32 bits.\<close>

definition to_int32 :: "int \<Rightarrow> int" where
  "to_int32 i = sint (word_of_int i :: 32 word)"

definition newIEOperand :: "ie_type \<Rightarrow> int \<Rightarrow> ie_operand" where
  "newIEOperand t i = IEOperand t (to_int32 i)"

fun ie_calculate :: "ie_operand \<Rightarrow> regval \<Rightarrow> regval" where
  "ie_calculate (IEOperand IE_LUI i) v = word_of_int i"
| "ie_calculate (IEOperand IE_ADD i) v = v + word_of_int i"

datatype virt_reg = VirtReg (PhyReg: phys_reg) (IEOper: "ie_operand option")

definition virt_correct :: "virt_reg \<Rightarrow> regval \<Rightarrow> regval" where
  "virt_correct v x = (case IEOper v of Some op \<Rightarrow> ie_calculate op x | None \<Rightarrow> x)"

text \<open>
  \<open>PhysRegFile::getReg\<close>: a physical register of the invalid class reads as zero; a
  virtual register applies its operand to the physical value.
\<close>

definition getPhysReg :: "(phys_reg \<Rightarrow> regval) \<Rightarrow> phys_reg \<Rightarrow> regval" where
  "getPhysReg rf p = (if pclass p = InvalidRegClass then 0 else rf p)"

definition getVirtReg :: "(phys_reg \<Rightarrow> regval) \<Rightarrow> virt_reg \<Rightarrow> regval" where
  "getVirtReg rf v = virt_correct v (getPhysReg rf (PhyReg v))"

definition setPhysReg :: "phys_reg \<Rightarrow> regval \<Rightarrow> (phys_reg \<Rightarrow> regval) \<Rightarrow> (phys_reg \<Rightarrow> regval)" where
  "setPhysReg p v rf = (if pclass p = InvalidRegClass then rf else rf(p := v))"

lemma numRef_ops [simp]:
  "numRef (incRef m) = numRef m + 1"
  "numRef (decRef m) = numRef m - 1"
  "numRef (setNumPinnedWrites n m) = numRef m"
  "numRef (decrNumPinnedWrites m) = numRef m"
  "numRef (setNumPinnedWritesToComplete n m) = numRef m"
  by (simp_all add: incRef_def decRef_def setNumPinnedWrites_def decrNumPinnedWrites_def
      setNumPinnedWritesToComplete_def)

lemma pclass_invalid [simp]: "pclass invalidPhysRegId = InvalidRegClass"
  by (simp add: invalidPhysRegId_def)

lemma to_int32_id:
  "- (2 ^ 31) \<le> i \<Longrightarrow> i < 2 ^ 31 \<Longrightarrow> to_int32 i = i"
  by (simp add: to_int32_def sint_sbintrunc' signed_take_bit_int_eq_self)

lemma to_int32_range: "- (2 ^ 31) \<le> to_int32 i \<and> to_int32 i < 2 ^ 31"
  using sint_ge [of "word_of_int i :: 32 word"] sint_lt [of "word_of_int i :: 32 word"]
  by (simp add: to_int32_def)

lemma word_of_int64_inj:
  assumes "(word_of_int i :: 64 word) = word_of_int j"
    and "- (2 ^ 63) \<le> i" "i < 2 ^ 63" "- (2 ^ 63) \<le> j" "j < 2 ^ 63"
  shows "i = j"
proof -
  have "sint (word_of_int x :: 64 word) = x" if "- (2 ^ 63) \<le> x" "x < 2 ^ 63" for x
    using that by (simp add: sint_sbintrunc' signed_take_bit_int_eq_self)
  then show ?thesis using assms by metis
qed

lemma getVirtReg_plain [simp]: "IEOper v = None \<Longrightarrow> getVirtReg rf v = getPhysReg rf (PhyReg v)"
  by (simp add: getVirtReg_def virt_correct_def)

lemma getPhysReg_setPhysReg:
  "getPhysReg (setPhysReg p x rf) q =
     (if q = p \<and> pclass p \<noteq> InvalidRegClass then x else getPhysReg rf q)"
  by (auto simp: getPhysReg_def setPhysReg_def)

lemma getVirtReg_setPhysReg_other:
  "PhyReg v \<noteq> p \<Longrightarrow> getVirtReg (setPhysReg p x rf) v = getVirtReg rf v"
  by (simp add: getVirtReg_def getPhysReg_setPhysReg)

end
