(* ===== verification/FreeList.thy ===== *)
theory FreeList
  imports RegClass
begin

text \<open>
  The free lists of physical registers, \<open>cpu/o3/free_list.hh\<close>: \<open>SimpleFreeList\<close> is a
  FIFO (\<open>std::queue\<close>) of register pointers, \<open>UnifiedFreeList\<close> one such queue per register
  class. The interface that renaming relies on is the locale \<open>register_pool\<close>; the
  model of \<open>SimpleFreeList\<close> interprets it.
\<close>

section \<open>SimpleFreeList\<close>

type_synonym simple_free_list = "phys_reg list"

definition sfl_addReg :: "phys_reg \<Rightarrow> simple_free_list \<Rightarrow> simple_free_list" where
  "sfl_addReg r q = q @ [r]"

fun sfl_addRegs :: "phys_reg list \<Rightarrow> simple_free_list \<Rightarrow> simple_free_list" where
  "sfl_addRegs [] q = q"
| "sfl_addRegs (r # rs) q = sfl_addRegs rs (sfl_addReg r q)"

text \<open>\<open>getReg\<close> asserts that the queue is not empty: \<open>None\<close> is the failed assertion.
  The increment of the object's reference count is in \<open>ufl_getReg\<close> below, where the store
  of objects is in scope.\<close>

fun sfl_getReg :: "simple_free_list \<Rightarrow> (phys_reg \<times> simple_free_list) option" where
  "sfl_getReg [] = None"
| "sfl_getReg (r # q) = Some (r, q)"

definition sfl_numFreeRegs :: "simple_free_list \<Rightarrow> nat" where
  "sfl_numFreeRegs q = length q"

definition sfl_hasFreeRegs :: "simple_free_list \<Rightarrow> bool" where
  "sfl_hasFreeRegs q \<longleftrightarrow> q \<noteq> []"

section \<open>UnifiedFreeList\<close>

text \<open>
  The per-class queues together with the store of register objects, since allocation
  increments the reference count of the object it hands out.
\<close>

record free_lists =
  freeLists :: "reg_class \<Rightarrow> simple_free_list"
  pmeta :: "phys_reg \<Rightarrow> phys_meta"

definition ufl_getReg :: "reg_class \<Rightarrow> 'a free_lists_scheme \<Rightarrow> (phys_reg \<times> 'a free_lists_scheme) option" where
  "ufl_getReg c s =
     (case sfl_getReg (freeLists s c) of
        None \<Rightarrow> None
      | Some (r, q) \<Rightarrow>
          Some (r, s\<lparr>freeLists := (freeLists s)(c := q),
                     pmeta := (pmeta s)(r := incRef (pmeta s r))\<rparr>))"

definition ufl_addReg :: "phys_reg \<Rightarrow> 'a free_lists_scheme \<Rightarrow> 'a free_lists_scheme" where
  "ufl_addReg r s =
     s\<lparr>freeLists := (freeLists s)(pclass r := sfl_addReg r (freeLists s (pclass r)))\<rparr>"

definition ufl_numFreeRegs :: "reg_class \<Rightarrow> 'a free_lists_scheme \<Rightarrow> nat" where
  "ufl_numFreeRegs c s = sfl_numFreeRegs (freeLists s c)"

section \<open>The pool interface\<close>

text \<open>
  What a client of a free list may rely on: \<open>content\<close> is the sequence of registers the
  pool holds; taking returns the oldest one and fails exactly on an empty pool; putting
  appends.
\<close>

locale register_pool =
  fixes take_reg :: "'q \<Rightarrow> ('r \<times> 'q) option"
    and put_reg :: "'r \<Rightarrow> 'q \<Rightarrow> 'q"
    and content :: "'q \<Rightarrow> 'r list"
    and size_of :: "'q \<Rightarrow> nat"
  assumes take_None: "take_reg q = None \<longleftrightarrow> content q = []"
    and take_Some: "take_reg q = Some (r, q') \<Longrightarrow> content q = r # content q'"
    and content_put: "content (put_reg r q) = content q @ [r]"
    and size_content: "size_of q = length (content q)"
begin

lemma take_possible: "0 < size_of q \<Longrightarrow> \<exists>r q'. take_reg q = Some (r, q')"
  using take_None [of q] size_content [of q] by (cases "take_reg q") auto

lemma take_size: "take_reg q = Some (r, q') \<Longrightarrow> size_of q = Suc (size_of q')"
  by (auto dest: take_Some simp: size_content)

lemma put_size: "size_of (put_reg r q) = Suc (size_of q)"
  by (simp add: content_put size_content)

lemma take_fresh:
  assumes "distinct (content q)" and "take_reg q = Some (r, q')"
  shows "r \<notin> set (content q') \<and> distinct (content q')"
  using assms take_Some by fastforce

lemma put_distinct:
  "distinct (content q) \<Longrightarrow> r \<notin> set (content q) \<Longrightarrow> distinct (content (put_reg r q))"
  by (simp add: content_put)

end

interpretation sfl: register_pool sfl_getReg sfl_addReg "\<lambda>q. q" sfl_numFreeRegs
proof unfold_locales
  show "\<And>q. (sfl_getReg q = None) = (q = [])"
    by (case_tac q) auto
  show "\<And>q r q'. sfl_getReg q = Some (r, q') \<Longrightarrow> q = r # q'"
    by (case_tac q) auto
qed (simp_all add: sfl_addReg_def sfl_numFreeRegs_def)

lemma sfl_addRegs_append: "sfl_addRegs rs q = q @ rs"
  by (induction rs arbitrary: q) (auto simp: sfl_addReg_def)

lemma ufl_getReg_Some:
  "ufl_getReg c s = Some (r, s') \<longleftrightarrow>
     (\<exists>q. freeLists s c = r # q \<and>
          s' = s\<lparr>freeLists := (freeLists s)(c := q), pmeta := (pmeta s)(r := incRef (pmeta s r))\<rparr>)"
  by (cases "freeLists s c") (auto simp: ufl_getReg_def)

lemma ufl_getReg_None: "ufl_getReg c s = None \<longleftrightarrow> freeLists s c = []"
  by (auto simp: ufl_getReg_def sfl.take_None split: option.splits)

lemma ufl_getReg_pool:
  "ufl_getReg c s = Some (r, s') \<Longrightarrow> sfl_getReg (freeLists s c) = Some (r, freeLists s' c)"
  by (auto simp: ufl_getReg_Some)

lemma ufl_addReg_fields [simp]:
  "freeLists (ufl_addReg r s) c =
     (if c = pclass r then freeLists s c @ [r] else freeLists s c)"
  "pmeta (ufl_addReg r s) = pmeta s"
  "free_lists.more (ufl_addReg r s) = free_lists.more s"
  by (auto simp: ufl_addReg_def sfl_addReg_def)

end
