(* ===== verification/Rename.thy ===== *)
theory Rename
  imports FreeList
begin

text \<open>
  The rename stage: the per-class map and the unified map of
  \<open>cpu/o3/rename_map.hh\<close> and \<open>cpu/o3/rename_map.cc\<close>, and the part of
  \<open>cpu/o3/rename.cc\<close> that reads and writes them (\<open>tryFreePReg\<close>, \<open>doSquash\<close>,
  \<open>removeFromHistory\<close>, \<open>renameSrcRegs\<close>, \<open>renameDestRegs\<close>, \<open>canRename\<close>,
  \<open>renameInsts\<close>), with move elimination and constant folding.

  The state holds, per thread, the map of every register class and the history buffer
  (newest entry first), and, shared by the threads, the free lists, the store of physical
  register objects and the scoreboard. A failed \<open>assert\<close>, or an access past the end of a
  map, is \<open>None\<close>.
\<close>

section \<open>State\<close>

record rename_history =
  instSeqNum :: seq_num
  archReg :: reg_id
  newPhysReg :: virt_reg
  prevPhysReg :: virt_reg

record rename_state = free_lists +
  renameMaps :: "thread_id \<Rightarrow> reg_class \<Rightarrow> virt_reg list"
  historyBuffer :: "thread_id \<Rightarrow> rename_history list"
  regScoreBoard :: "phys_reg \<Rightarrow> bool"

text \<open>What renaming reads of a dynamic instruction, and what it writes into it.\<close>

record rename_inst =
  ri_seqNum :: seq_num
  ri_srcs :: "reg_id list"
  ri_dests :: "(reg_id \<times> int) list" \<comment> \<open>with \<open>numPinnedWrites\<close> of the \<open>RegId\<close>\<close>
  ri_numTypedDest :: "reg_class \<Rightarrow> nat"
  ri_isMov :: bool
  ri_isAddImm :: bool
  ri_imm :: int
  ri_squashed :: bool

record rename_cfg =
  enableMoveElimination :: bool
  enableConstantFolding :: bool
  enableMovImmElimination :: bool
  renameWidth :: nat

record rename_out =
  ro_srcs :: "(virt_reg \<times> bool) list" \<comment> \<open>renamed source and its ready flag\<close>
  ro_dests :: "(virt_reg \<times> virt_reg) list" \<comment> \<open>new and previous mapping\<close>
  ro_folded :: bool \<comment> \<open>\<open>IsEmptyMov\<close> or \<open>IsConstantFolded\<close> was set\<close>

section \<open>SimpleRenameMap and UnifiedRenameMap\<close>

definition getMiscRegId :: "nat \<Rightarrow> phys_reg" where
  "getMiscRegId i = PhysReg MiscRegClass i"

definition lookup :: "thread_id \<Rightarrow> reg_id \<Rightarrow> rename_state \<Rightarrow> virt_reg option" where
  "lookup t r s =
     (if regClass r = InvalidRegClass then Some (VirtReg invalidPhysRegId None)
      else if regClass r = MiscRegClass then Some (VirtReg (getMiscRegId (regIdx r)) None)
      else if regIdx r < length (renameMaps s t (regClass r))
           then Some (renameMaps s t (regClass r) ! regIdx r)
           else None)"

definition map_write :: "thread_id \<Rightarrow> reg_id \<Rightarrow> virt_reg \<Rightarrow> rename_state \<Rightarrow> rename_state" where
  "map_write t r v s =
     s\<lparr>renameMaps := (renameMaps s)(t := (renameMaps s t)
         (regClass r := (renameMaps s t (regClass r))[regIdx r := v]))\<rparr>"

definition setEntry :: "thread_id \<Rightarrow> reg_id \<Rightarrow> virt_reg \<Rightarrow> rename_state \<Rightarrow> rename_state option" where
  "setEntry t r v s =
     (if pclass (PhyReg v) \<noteq> regClass r \<and> pclass (PhyReg v) \<noteq> InvalidRegClass then None
      else if \<not> isRenameable r then (if lookup t r s = Some v then Some s else None)
      else if regIdx r < length (renameMaps s t (regClass r)) then Some (map_write t r v s)
      else None)"

text \<open>
  \<open>SimpleRenameMap::rename\<close>: the four branches are the invalid class, a bypass register
  (move elimination or constant folding), a pinned register, and a fresh register.
\<close>

definition simple_rename ::
  "thread_id \<Rightarrow> reg_id \<Rightarrow> int \<Rightarrow> virt_reg option \<Rightarrow> rename_state
     \<Rightarrow> ((virt_reg \<times> virt_reg) \<times> rename_state) option" where
  "simple_rename t r npw bypass s =
     (if \<not> regIdx r < length (renameMaps s t (regClass r)) then None else
      let prev = renameMaps s t (regClass r) ! regIdx r in
      if regClass r = InvalidRegClass then
        (if pclass (PhyReg prev) = InvalidRegClass then Some ((prev, prev), s) else None)
      else case bypass of
        Some b \<Rightarrow>
          let s1 = map_write t r b s in
          Some ((b, prev),
                if PhyReg prev \<noteq> PhyReg b
                then s1\<lparr>pmeta := (pmeta s1)(PhyReg b := incRef (pmeta s1 (PhyReg b)))\<rparr>
                else s1)
      | None \<Rightarrow>
          if 0 < numPinnedWrites (pmeta s (PhyReg prev)) then
            (if npw = 0 then
               Some ((prev, prev),
                 s\<lparr>pmeta := (pmeta s)(PhyReg prev :=
                     decrNumPinnedWrites (pmeta s (PhyReg prev)))\<rparr>)
             else None)
          else case ufl_getReg (regClass r) s of
            None \<Rightarrow> None
          | Some (p, s1) \<Rightarrow>
              let v = VirtReg p None; s2 = map_write t r v s1 in
              Some ((v, prev),
                s2\<lparr>pmeta := (pmeta s2)(p :=
                    setNumPinnedWritesToComplete (npw + 1)
                      (setNumPinnedWrites npw (pmeta s2 p)))\<rparr>))"

definition unified_rename ::
  "thread_id \<Rightarrow> reg_id \<Rightarrow> int \<Rightarrow> virt_reg option \<Rightarrow> rename_state
     \<Rightarrow> ((virt_reg \<times> virt_reg) \<times> rename_state) option" where
  "unified_rename t r npw bypass s =
     (if \<not> isRenameable r
      then map_option (\<lambda>p. ((p, p), s)) (lookup t r s)
      else simple_rename t r npw bypass s)"

definition numFreeEntries :: "reg_class \<Rightarrow> rename_state \<Rightarrow> nat" where
  "numFreeEntries c s = ufl_numFreeRegs c s"

definition map_canRename :: "rename_inst \<Rightarrow> rename_state \<Rightarrow> bool" where
  "map_canRename i s \<longleftrightarrow>
     list_all (\<lambda>c. \<not> numFreeEntries c s < ri_numTypedDest i c) array_classes"

section \<open>Releasing physical registers\<close>

definition tryFreePReg :: "phys_reg \<Rightarrow> rename_state \<Rightarrow> rename_state" where
  "tryFreePReg p s =
     (if numRef (pmeta s p) = 0 \<or> pclass p = InvalidRegClass then s
      else let s1 = s\<lparr>pmeta := (pmeta s)(p := decRef (pmeta s p))\<rparr> in
           if numRef (pmeta s1 p) = 0 then ufl_addReg p s1 else s1)"

text \<open>One iteration of the loop of \<open>doSquash\<close>: undo the newest history entry.\<close>

definition undo_entry :: "thread_id \<Rightarrow> rename_history \<Rightarrow> rename_state \<Rightarrow> rename_state option" where
  "undo_entry t h s =
     (if newPhysReg h \<noteq> prevPhysReg h then
        (case setEntry t (archReg h) (prevPhysReg h) s of
           None \<Rightarrow> None
         | Some s1 \<Rightarrow>
             Some (if PhyReg (newPhysReg h) \<noteq> PhyReg (prevPhysReg h)
                   then tryFreePReg (PhyReg (newPhysReg h)) s1 else s1))
      else Some s)"

text \<open>
  \<open>doSquash\<close> removes from the front of the history buffer while the sequence number is
  greater than the squashed one.
\<close>

function doSquash :: "seq_num \<Rightarrow> thread_id \<Rightarrow> rename_state \<Rightarrow> rename_state option" where
  "doSquash sn t s =
     (case historyBuffer s t of
        [] \<Rightarrow> Some s
      | h # hs \<Rightarrow>
          if sn < instSeqNum h then
            (case undo_entry t h s of
               None \<Rightarrow> None
             | Some s1 \<Rightarrow> doSquash sn t (s1\<lparr>historyBuffer := (historyBuffer s1)(t := hs)\<rparr>))
          else Some s)"
  by pat_completeness auto
termination
  by (relation "measure (\<lambda>(sn, t, s). length (historyBuffer s t))") auto

declare doSquash.simps [simp del]

text \<open>
  \<open>removeFromHistory\<close> walks from the back (oldest entry) towards the front while the
  sequence number is at most the committed one, releasing the overwritten registers.
\<close>

definition commit_entry :: "rename_history \<Rightarrow> rename_state \<Rightarrow> rename_state" where
  "commit_entry h s =
     (if PhyReg (newPhysReg h) \<noteq> PhyReg (prevPhysReg h)
      then tryFreePReg (PhyReg (prevPhysReg h)) s else s)"

function removeFromHistory :: "seq_num \<Rightarrow> thread_id \<Rightarrow> rename_state \<Rightarrow> rename_state" where
  "removeFromHistory sn t s =
     (let hs = historyBuffer s t in
      if hs = [] then s
      else if sn < instSeqNum (last hs) then s
      else let s1 = commit_entry (last hs) s in
           removeFromHistory sn t
             (s1\<lparr>historyBuffer := (historyBuffer s1)(t := butlast hs)\<rparr>))"
  by pat_completeness auto
termination
  by (relation "measure (\<lambda>(sn, t, s). length (historyBuffer s t))") auto

declare removeFromHistory.simps [simp del]

text \<open>
  \<open>releasePhysRegs\<close>: the release point moves by at most \<open>releaseWidth\<close> towards the last
  committed sequence number, and every active thread removes its history up to it. A thread
  that committed this cycle (\<open>doneSeqNum\<close> not zero, no squash) moves the commit point and
  restarts the release point at its oldest entry. The emptiness test is on the buffer of
  thread 0, as in the source; reading the back of an empty buffer is \<open>None\<close>.
\<close>

record release_state =
  releaseSeq :: seq_num
  finalCommitSeq :: seq_num
  rename_st :: rename_state

definition release_thread ::
  "(thread_id \<Rightarrow> seq_num \<times> bool) \<Rightarrow> thread_id \<Rightarrow> release_state \<Rightarrow> release_state option" where
  "release_thread commitInfo t r =
     (let s1 = removeFromHistory (releaseSeq r) t (rename_st r);
          r1 = r\<lparr>rename_st := s1\<rparr>
      in if fst (commitInfo t) \<noteq> 0 \<and> \<not> snd (commitInfo t) then
           (if historyBuffer s1 0 = [] then
              Some (r1\<lparr>finalCommitSeq := fst (commitInfo t), releaseSeq := 0\<rparr>)
            else if historyBuffer s1 t = [] then None
            else Some (r1\<lparr>finalCommitSeq := fst (commitInfo t),
                          releaseSeq := instSeqNum (last (historyBuffer s1 t))\<rparr>))
         else Some r1)"

fun release_threads ::
  "(thread_id \<Rightarrow> seq_num \<times> bool) \<Rightarrow> thread_id list \<Rightarrow> release_state \<Rightarrow> release_state option" where
  "release_threads commitInfo [] r = Some r"
| "release_threads commitInfo (t # ts) r =
     (case release_thread commitInfo t r of
        None \<Rightarrow> None | Some r1 \<Rightarrow> release_threads commitInfo ts r1)"

definition releasePhysRegs ::
  "nat \<Rightarrow> (thread_id \<Rightarrow> seq_num \<times> bool) \<Rightarrow> thread_id list \<Rightarrow> release_state \<Rightarrow> release_state option" where
  "releasePhysRegs releaseWidth commitInfo activeThreads r =
     release_threads commitInfo activeThreads
       (r\<lparr>releaseSeq := (if releaseSeq r + releaseWidth < finalCommitSeq r
                        then releaseSeq r + releaseWidth else finalCommitSeq r)\<rparr>)"

section \<open>Renaming an instruction\<close>

definition sb_getReg :: "rename_state \<Rightarrow> phys_reg \<Rightarrow> bool" where
  "sb_getReg s p \<longleftrightarrow> (if isFixedMapping p then True else regScoreBoard s p)"

definition sb_unsetReg :: "phys_reg \<Rightarrow> rename_state \<Rightarrow> rename_state" where
  "sb_unsetReg p s =
     (if isFixedMapping p then s else s\<lparr>regScoreBoard := (regScoreBoard s)(p := False)\<rparr>)"

fun renameSrcRegs :: "thread_id \<Rightarrow> reg_id list \<Rightarrow> rename_state \<Rightarrow> (virt_reg \<times> bool) list option" where
  "renameSrcRegs t [] s = Some []"
| "renameSrcRegs t (r # rs) s =
     (case lookup t r s of
        None \<Rightarrow> None
      | Some v \<Rightarrow> map_option (\<lambda>vs. (v, sb_getReg s (PhyReg v)) # vs) (renameSrcRegs t rs s))"

text \<open>
  The bypass register of one destination and \<open>inc_ref_of_last_dest_phy_reg\<close>: the mapping
  of source 0 for an eliminated move, that mapping with the immediate added for a folded
  add-immediate, and no bypass register otherwise. A source mapping whose operand is not an
  addition stays the bypass register although the instruction is not marked as folded.
  The outer \<open>None\<close> is a failed lookup.
\<close>

definition fold_imm :: "int \<Rightarrow> virt_reg \<Rightarrow> virt_reg \<times> bool" where
  "fold_imm imm b =
     (case IEOper b of
        None \<Rightarrow> (VirtReg (PhyReg b) (Some (newIEOperand IE_ADD imm)), True)
      | Some op \<Rightarrow>
          if ieType op = IE_ADD
          then (VirtReg (PhyReg b) (Some (newIEOperand IE_ADD (ieImm op + imm))), True)
          else (b, False))"

definition lookup_src0 :: "thread_id \<Rightarrow> rename_inst \<Rightarrow> rename_state \<Rightarrow> virt_reg option" where
  "lookup_src0 t i s = (case ri_srcs i of [] \<Rightarrow> None | r # _ \<Rightarrow> lookup t r s)"

definition src0_isZeroReg :: "rename_inst \<Rightarrow> bool" where
  "src0_isZeroReg i = (case ri_srcs i of [] \<Rightarrow> False | r # _ \<Rightarrow> isZeroReg r)"

definition bypass_reg ::
  "rename_cfg \<Rightarrow> thread_id \<Rightarrow> rename_inst \<Rightarrow> rename_state
     \<Rightarrow> (virt_reg option \<times> bool) option" where
  "bypass_reg cfg t i s =
     (if enableMoveElimination cfg \<and> ri_isMov i then
        map_option (\<lambda>b. (Some b, True)) (lookup_src0 t i s)
      else if ri_isAddImm i \<and>
              (enableConstantFolding cfg \<or>
               enableMovImmElimination cfg \<and> src0_isZeroReg i) then
        map_option (\<lambda>b. (Some (fst (fold_imm (ri_imm i) b)), snd (fold_imm (ri_imm i) b)))
          (lookup_src0 t i s)
      else Some (None, False))"

definition renameDestReg ::
  "rename_cfg \<Rightarrow> thread_id \<Rightarrow> rename_inst \<Rightarrow> reg_id \<times> int \<Rightarrow> rename_state
     \<Rightarrow> ((virt_reg \<times> virt_reg \<times> bool) \<times> rename_state) option" where
  "renameDestReg cfg t i d s =
     (case bypass_reg cfg t i s of
        None \<Rightarrow> None
      | Some (b, shared) \<Rightarrow>
          (case unified_rename t (fst d) (snd d) b s of
             None \<Rightarrow> None
           | Some ((new, prev), s1) \<Rightarrow>
               let s2 = (if shared then s1 else sb_unsetReg (PhyReg new) s1);
                   h = \<lparr>instSeqNum = ri_seqNum i, archReg = fst d,
                        newPhysReg = new, prevPhysReg = prev\<rparr>
               in Some ((new, prev, shared),
                    s2\<lparr>historyBuffer := (historyBuffer s2)(t := h # historyBuffer s2 t)\<rparr>)))"

fun renameDestRegs ::
  "rename_cfg \<Rightarrow> thread_id \<Rightarrow> rename_inst \<Rightarrow> (reg_id \<times> int) list \<Rightarrow> rename_state
     \<Rightarrow> ((virt_reg \<times> virt_reg \<times> bool) list \<times> rename_state) option" where
  "renameDestRegs cfg t i [] s = Some ([], s)"
| "renameDestRegs cfg t i (d # ds) s =
     (case renameDestReg cfg t i d s of
        None \<Rightarrow> None
      | Some (r, s1) \<Rightarrow>
          map_option (\<lambda>(rs, s2). (r # rs, s2)) (renameDestRegs cfg t i ds s1))"

definition renameInst ::
  "rename_cfg \<Rightarrow> thread_id \<Rightarrow> rename_inst \<Rightarrow> rename_state \<Rightarrow> (rename_out \<times> rename_state) option" where
  "renameInst cfg t i s =
     (if \<not> map_canRename i s then None else
      case renameSrcRegs t (ri_srcs i) s of
        None \<Rightarrow> None
      | Some srcs \<Rightarrow>
          map_option
            (\<lambda>(ds, s'). (\<lparr>ro_srcs = srcs, ro_dests = map (\<lambda>(n, p, _). (n, p)) ds,
                          ro_folded = list_ex (\<lambda>(_, _, f). f) ds\<rparr>, s'))
            (renameDestRegs cfg t i (ri_dests i) s))"

text \<open>\<open>Rename::canRename\<close>: the demand of the buffered instructions, at least
  \<open>renameWidth\<close> for the main classes, against the free entries of every class.\<close>

definition demand :: "rename_cfg \<Rightarrow> rename_inst list \<Rightarrow> reg_class \<Rightarrow> nat" where
  "demand cfg is c =
     (let d = sum_list (map (\<lambda>i. ri_numTypedDest i c) (filter (\<lambda>i. \<not> ri_squashed i) is))
      in if c \<in> {IntRegClass, FloatRegClass, VecRegClass, RMiscRegClass}
         then max d (renameWidth cfg) else d)"

definition canRename :: "rename_cfg \<Rightarrow> rename_inst list \<Rightarrow> rename_state \<Rightarrow> bool" where
  "canRename cfg is s \<longleftrightarrow>
     list_all (\<lambda>c. \<not> numFreeEntries c s < demand cfg is c) array_classes"

text \<open>\<open>Rename::renameInsts\<close>: squashed instructions are skipped, every other one is
  renamed and sent on.\<close>

fun renameInsts ::
  "rename_cfg \<Rightarrow> thread_id \<Rightarrow> rename_inst list \<Rightarrow> rename_state
     \<Rightarrow> (rename_out list \<times> rename_state) option" where
  "renameInsts cfg t [] s = Some ([], s)"
| "renameInsts cfg t (i # is) s =
     (if ri_squashed i then renameInsts cfg t is s
      else case renameInst cfg t i s of
        None \<Rightarrow> None
      | Some (out, s1) \<Rightarrow>
          map_option (\<lambda>(os, s2). (out # os, s2)) (renameInsts cfg t is s1))"

section \<open>Initial state\<close>

text \<open>
  The physical registers of a class in \<open>PhysRegFile\<close>, the free lists that
  \<open>initFreeList\<close> fills with them, and the loop of the CPU constructor that maps every
  architectural register of the active threads to a fresh register. A map entry that was
  not yet set holds a null pointer, which no \<open>PhysRegId\<close> object equals.
\<close>

definition nullVirtReg :: virt_reg where
  "nullVirtReg = VirtReg (PhysReg InvalidRegClass 0) None"

definition physRegIds :: "(reg_class \<Rightarrow> nat) \<Rightarrow> reg_class \<Rightarrow> phys_reg list" where
  "physRegIds numPhys c = map (PhysReg c) [0..<numPhys c]"

definition initFreeList :: "(reg_class \<Rightarrow> nat) \<Rightarrow> reg_class \<Rightarrow> simple_free_list" where
  "initFreeList numPhys c =
     (if c \<in> set array_classes then sfl_addRegs (physRegIds numPhys c) [] else [])"

definition emptyMaps :: "(reg_class \<Rightarrow> nat) \<Rightarrow> reg_class \<Rightarrow> virt_reg list" where
  "emptyMaps numArch c = (if c \<in> set array_classes then replicate (numArch c) nullVirtReg else [])"

definition rename_state0 :: "(reg_class \<Rightarrow> nat) \<Rightarrow> (reg_class \<Rightarrow> nat) \<Rightarrow> rename_state" where
  "rename_state0 numPhys numArch =
     \<lparr>freeLists = initFreeList numPhys, pmeta = (\<lambda>_. initPhysMeta),
      renameMaps = (\<lambda>_. emptyMaps numArch), historyBuffer = (\<lambda>_. []),
      regScoreBoard = (\<lambda>_. True)\<rparr>"

definition init_entry :: "thread_id \<times> reg_id \<Rightarrow> rename_state \<Rightarrow> rename_state option" where
  "init_entry tr s =
     (case ufl_getReg (regClass (snd tr)) s of
        None \<Rightarrow> None
      | Some (p, s1) \<Rightarrow> setEntry (fst tr) (snd tr) (VirtReg p None) s1)"

fun init_entries :: "(thread_id \<times> reg_id) list \<Rightarrow> rename_state \<Rightarrow> rename_state option" where
  "init_entries [] s = Some s"
| "init_entries (tr # trs) s =
     (case init_entry tr s of None \<Rightarrow> None | Some s1 \<Rightarrow> init_entries trs s1)"

definition init_order :: "nat \<Rightarrow> (reg_class \<Rightarrow> nat) \<Rightarrow> (thread_id \<times> reg_id) list" where
  "init_order n numArch =
     concat (map (\<lambda>t. concat (map (\<lambda>c. map (\<lambda>i. (t, RegId c i)) [0..<numArch c]) array_classes))
       [0..<n])"

definition init_rename ::
  "nat \<Rightarrow> (reg_class \<Rightarrow> nat) \<Rightarrow> (reg_class \<Rightarrow> nat) \<Rightarrow> rename_state option" where
  "init_rename n numPhys numArch = init_entries (init_order n numArch) (rename_state0 numPhys numArch)"

end
