(* ===== verification/RenameInv.thy ===== *)
theory RenameInv
  imports Rename
begin

text \<open>
  The invariant of the rename stage. The reference count of a physical register is the
  number of map entries, over all threads, that name it, plus the number of history entries
  that still hold it as the mapping they replaced; a register is on its free list exactly
  when that count is zero; and undoing the history entries one by one from the front is
  always possible. Every operation of \<open>Rename\<close> keeps it.
\<close>

section \<open>The invariant\<close>

definition mrefs :: "phys_reg \<Rightarrow> (reg_class \<Rightarrow> virt_reg list) \<Rightarrow> nat" where
  "mrefs p m = occ (\<lambda>v. PhyReg v = p) (m (pclass p))"

definition hrefs :: "phys_reg \<Rightarrow> rename_history list \<Rightarrow> nat" where
  "hrefs p hs = occ (\<lambda>h. PhyReg (prevPhysReg h) = p \<and> PhyReg (newPhysReg h) \<noteq> p) hs"

definition refs :: "nat \<Rightarrow> rename_state \<Rightarrow> phys_reg \<Rightarrow> nat" where
  "refs n s p = (\<Sum>t<n. mrefs p (renameMaps s t) + hrefs p (historyBuffer s t))"

definition class_ok :: "reg_class \<Rightarrow> virt_reg \<Rightarrow> bool" where
  "class_ok c v \<longleftrightarrow> pclass (PhyReg v) = c \<or> pclass (PhyReg v) = InvalidRegClass"

definition undo_map ::
  "rename_history \<Rightarrow> (reg_class \<Rightarrow> virt_reg list) \<Rightarrow> (reg_class \<Rightarrow> virt_reg list)" where
  "undo_map h m =
     (if newPhysReg h = prevPhysReg h then m
      else m(regClass (archReg h) :=
               (m (regClass (archReg h)))[regIdx (archReg h) := prevPhysReg h]))"

fun hist_ok :: "(reg_class \<Rightarrow> virt_reg list) \<Rightarrow> rename_history list \<Rightarrow> bool" where
  "hist_ok m [] \<longleftrightarrow> True"
| "hist_ok m (h # hs) \<longleftrightarrow>
     (newPhysReg h \<noteq> prevPhysReg h \<longrightarrow>
        isRenameable (archReg h) \<and>
        regIdx (archReg h) < length (m (regClass (archReg h))) \<and>
        m (regClass (archReg h)) ! regIdx (archReg h) = newPhysReg h \<and>
        class_ok (regClass (archReg h)) (prevPhysReg h)) \<and>
     hist_ok (undo_map h m) hs"

definition refs_ok :: "nat \<Rightarrow> rename_state \<Rightarrow> bool" where
  "refs_ok n s \<longleftrightarrow> (\<forall>p. \<not> isFixedMapping p \<longrightarrow> numRef (pmeta s p) = refs n s p)"

definition free_ok :: "phys_reg set \<Rightarrow> rename_state \<Rightarrow> bool" where
  "free_ok U s \<longleftrightarrow>
     (\<forall>c. distinct (freeLists s c)) \<and>
     (\<forall>c. \<forall>p\<in>set (freeLists s c). pclass p = c) \<and>
     (\<forall>p. \<not> isFixedMapping p \<longrightarrow>
        (p \<in> set (freeLists s (pclass p)) \<longleftrightarrow> p \<in> U \<and> numRef (pmeta s p) = 0) \<and>
        (0 < numRef (pmeta s p) \<longrightarrow> p \<in> U))"

definition map_ok :: "(reg_class \<Rightarrow> virt_reg list) \<Rightarrow> bool" where
  "map_ok m \<longleftrightarrow>
     m MiscRegClass = [] \<and> m InvalidRegClass = [] \<and> (\<forall>c. \<forall>v\<in>set (m c). class_ok c v)"

definition thread_ok :: "thread_id \<Rightarrow> rename_state \<Rightarrow> bool" where
  "thread_ok t s \<longleftrightarrow>
     map_ok (renameMaps s t) \<and> hist_ok (renameMaps s t) (historyBuffer s t) \<and>
     sorted_wrt (\<ge>) (map instSeqNum (historyBuffer s t))"

definition rename_inv :: "nat \<Rightarrow> phys_reg set \<Rightarrow> rename_state \<Rightarrow> bool" where
  "rename_inv n U s \<longleftrightarrow> refs_ok n s \<and> free_ok U s \<and> (\<forall>t<n. thread_ok t s)"

section \<open>How the counts move\<close>

lemma hrefs_simps [simp]:
  "hrefs p [] = 0"
  "hrefs p (h # hs) =
     of_bool (PhyReg (prevPhysReg h) = p \<and> PhyReg (newPhysReg h) \<noteq> p) + hrefs p hs"
  "hrefs p (xs @ ys) = hrefs p xs + hrefs p ys"
  by (simp_all add: hrefs_def)

lemma mrefs_write:
  assumes "i < length (m c)" and "class_ok c (m c ! i)" and "class_ok c v"
    and "\<not> isFixedMapping p"
  shows "mrefs p (m(c := (m c)[i := v])) + of_bool (PhyReg (m c ! i) = p) =
         mrefs p m + of_bool (PhyReg v = p)"
proof (cases "pclass p = c")
  case True
  then show ?thesis
    using occ_update [OF assms(1), of "\<lambda>v. PhyReg v = p" v] by (auto simp: mrefs_def)
next
  case False
  then have "PhyReg (m c ! i) \<noteq> p" "PhyReg v \<noteq> p"
    using assms(2-4) by (auto simp: class_ok_def isFixedMapping_def)
  with False show ?thesis by (simp add: mrefs_def)
qed

lemma refs_change:
  assumes "t < n"
    and "\<And>u. u \<noteq> t \<Longrightarrow> renameMaps s' u = renameMaps s u"
    and "\<And>u. u \<noteq> t \<Longrightarrow> historyBuffer s' u = historyBuffer s u"
  shows "refs n s' p + mrefs p (renameMaps s t) + hrefs p (historyBuffer s t) =
         refs n s p + mrefs p (renameMaps s' t) + hrefs p (historyBuffer s' t)"
  using sum_upd_lessThan [OF assms(1),
      of "\<lambda>u. mrefs p (renameMaps s' u) + hrefs p (historyBuffer s' u)"
         "\<lambda>u. mrefs p (renameMaps s u) + hrefs p (historyBuffer s u)"] assms(2,3)
  by (simp add: refs_def)

lemma mrefs_le_refs:
  "t < n \<Longrightarrow> mrefs p (renameMaps s t) + hrefs p (historyBuffer s t) \<le> refs n s p"
  unfolding refs_def by (rule member_le_sum) auto

lemma mrefs_pos: "v \<in> set (m (pclass (PhyReg v))) \<Longrightarrow> 0 < mrefs (PhyReg v) m"
  by (auto simp: mrefs_def occ_pos_iff)

section \<open>Allocation and release\<close>

lemma tryFreePReg_fields [rename_simps]:
  "renameMaps (tryFreePReg p s) = renameMaps s"
  "historyBuffer (tryFreePReg p s) = historyBuffer s"
  "numRef (pmeta (tryFreePReg p s) q) =
     (if q = p \<and> pclass p \<noteq> InvalidRegClass then numRef (pmeta s q) - 1 else numRef (pmeta s q))"
  by (simp_all add: tryFreePReg_def Let_def ufl_addReg_def)

lemma free_ok_cong:
  "freeLists s' = freeLists s \<Longrightarrow> (\<And>p. numRef (pmeta s' p) = numRef (pmeta s p)) \<Longrightarrow>
   free_ok U s' = free_ok U s"
  by (simp add: free_ok_def)

lemma free_ok_tryFree:
  assumes "free_ok U s" and "\<not> isFixedMapping p" and "0 < numRef (pmeta s p)"
  shows "free_ok U (tryFreePReg p s)"
proof -
  have d: "\<And>c. distinct (freeLists s c)" and cl: "\<And>c x. x \<in> set (freeLists s c) \<Longrightarrow> pclass x = c"
    and fr: "\<And>x. \<not> isFixedMapping x \<Longrightarrow>
        (x \<in> set (freeLists s (pclass x)) \<longleftrightarrow> x \<in> U \<and> numRef (pmeta s x) = 0)"
    and us: "\<And>x. \<not> isFixedMapping x \<Longrightarrow> 0 < numRef (pmeta s x) \<Longrightarrow> x \<in> U"
    using assms(1) unfolding free_ok_def by blast+
  have inv: "pclass p \<noteq> InvalidRegClass" and p: "p \<notin> set (freeLists s (pclass p))" and u: "p \<in> U"
    using assms(2,3) fr [OF assms(2)] us [OF assms(2)] by (auto simp: isFixedMapping_def)
  have fl: "freeLists (tryFreePReg p s) e =
      freeLists s e @ (if e = pclass p \<and> numRef (pmeta s p) = 1 then [p] else [])" for e
    using inv assms(3) by (simp add: tryFreePReg_def Let_def)
  have "distinct (freeLists (tryFreePReg p s) e)" for e
    using d [of e] sfl.put_distinct [OF d p] by (cases "e = pclass p") (simp_all add: fl sfl_addReg_def)
  moreover have "x \<in> set (freeLists (tryFreePReg p s) e) \<Longrightarrow> pclass x = e" for x e
    using cl [of x e] by (auto simp: fl split: if_splits)
  moreover have "(x \<in> set (freeLists (tryFreePReg p s) (pclass x)) \<longleftrightarrow>
        x \<in> U \<and> numRef (pmeta (tryFreePReg p s) x) = 0) \<and>
      (0 < numRef (pmeta (tryFreePReg p s) x) \<longrightarrow> x \<in> U)" if "\<not> isFixedMapping x" for x
    using fr [OF that] us [OF that] p u inv assms(3)
    by (cases "x = p") (auto simp: fl tryFreePReg_fields)
  ultimately show ?thesis
    unfolding free_ok_def by blast
qed

lemma tryFree_invalid [simp]: "pclass p = InvalidRegClass \<Longrightarrow> tryFreePReg p s = s"
  by (simp add: tryFreePReg_def)

lemma free_ok_getReg:
  assumes "free_ok U s" and "ufl_getReg c s = Some (p, s')" and "c \<noteq> MiscRegClass"
    and "c \<noteq> InvalidRegClass"
  shows "free_ok U s'" and "numRef (pmeta s p) = 0" and "pclass p = c" and "p \<in> U"
proof -
  obtain q where q: "freeLists s c = p # q"
    and s': "s' = s\<lparr>freeLists := (freeLists s)(c := q), pmeta := (pmeta s)(p := incRef (pmeta s p))\<rparr>"
    using assms(2) by (auto simp: ufl_getReg_Some)
  have d: "\<And>c. distinct (freeLists s c)" and cl: "\<And>c x. x \<in> set (freeLists s c) \<Longrightarrow> pclass x = c"
    and fr: "\<And>x. \<not> isFixedMapping x \<Longrightarrow>
        (x \<in> set (freeLists s (pclass x)) \<longleftrightarrow> x \<in> U \<and> numRef (pmeta s x) = 0)"
    and us: "\<And>x. \<not> isFixedMapping x \<Longrightarrow> 0 < numRef (pmeta s x) \<Longrightarrow> x \<in> U"
    using assms(1) unfolding free_ok_def by blast+
  show pc: "pclass p = c"
    using cl [of p c] q by simp
  have nf: "\<not> isFixedMapping p"
    using pc assms(3,4) by (simp add: isFixedMapping_def)
  show z: "numRef (pmeta s p) = 0" and u: "p \<in> U"
    using fr [OF nf] pc q by simp_all
  have dq: "p \<notin> set q" "distinct q"
    using sfl.take_fresh [OF d ufl_getReg_pool [OF assms(2)]] by (simp_all add: s')
  have "distinct (freeLists s' e)" for e
    using d [of e] dq by (simp add: s')
  moreover have "x \<in> set (freeLists s' e) \<Longrightarrow> pclass x = e" for x e
    using cl [of x e] q by (simp add: s' split: if_splits)
  moreover have "(x \<in> set (freeLists s' (pclass x)) \<longleftrightarrow> x \<in> U \<and> numRef (pmeta s' x) = 0) \<and>
      (0 < numRef (pmeta s' x) \<longrightarrow> x \<in> U)" if "\<not> isFixedMapping x" for x
  proof (cases "x = p")
    case True
    then show ?thesis using dq pc u by (simp add: s')
  next
    case False
    then have "x \<in> set (freeLists s' (pclass x)) \<longleftrightarrow> x \<in> set (freeLists s (pclass x))"
      using q by (simp add: s')
    with False show ?thesis
      using fr [OF that] us [OF that] by (simp add: s')
  qed
  ultimately show "free_ok U s'"
    unfolding free_ok_def by blast
qed

section \<open>Changing one thread\<close>

text \<open>
  Every operation changes the map and the history of one thread. The invariant is kept when
  that thread stays well formed, the free lists do, and the reference counts move with the
  entries.
\<close>

lemma rename_inv_change:
  assumes "rename_inv n U s" and "t < n"
    and oth: "\<And>u. u \<noteq> t \<Longrightarrow> renameMaps s' u = renameMaps s u"
      "\<And>u. u \<noteq> t \<Longrightarrow> historyBuffer s' u = historyBuffer s u"
    and "free_ok U s'" and "thread_ok t s'"
    and num: "\<And>p. \<not> isFixedMapping p \<Longrightarrow>
      numRef (pmeta s' p) + mrefs p (renameMaps s t) + hrefs p (historyBuffer s t) =
      numRef (pmeta s p) + mrefs p (renameMaps s' t) + hrefs p (historyBuffer s' t)"
  shows "rename_inv n U s'"
proof -
  have "numRef (pmeta s' p) = refs n s' p" if "\<not> isFixedMapping p" for p
  proof -
    have "numRef (pmeta s p) = refs n s p"
      using assms(1) that by (simp add: rename_inv_def refs_ok_def)
    then show ?thesis
      using num [OF that] refs_change [OF assms(2) oth, where p = p] by simp
  qed
  moreover have "thread_ok u s'" if "u < n" for u
    using that assms(1,6) oth [of u] by (cases "u = t") (auto simp: rename_inv_def thread_ok_def)
  ultimately show ?thesis
    using assms(5) by (simp add: rename_inv_def refs_ok_def)
qed

lemma map_ok_write: "map_ok m \<Longrightarrow> class_ok c v \<Longrightarrow> map_ok (m(c := (m c)[i := v]))"
  using set_update_subset_insert [of "m c" i v] by (auto simp: map_ok_def)

lemma map_ok_undo: "map_ok m \<Longrightarrow> hist_ok m (h # hs) \<Longrightarrow> map_ok (undo_map h m)"
  by (simp add: undo_map_def map_ok_write)

lemma map_ok_nth: "map_ok m \<Longrightarrow> i < length (m c) \<Longrightarrow> class_ok c (m c ! i)"
  by (simp add: map_ok_def)

lemma hist_ok_butlast: "hist_ok m (hs @ [h]) \<Longrightarrow> hist_ok m hs"
  by (induction hs arbitrary: m) auto

lemma hist_ok_class:
  assumes "hist_ok m hs" and "h \<in> set hs" and "newPhysReg h \<noteq> prevPhysReg h"
  shows "isRenameable (archReg h) \<and> class_ok (regClass (archReg h)) (prevPhysReg h)"
  using assms by (induction hs arbitrary: m) auto

lemma class_ok_fixed:
  "isRenameable r \<Longrightarrow> class_ok (regClass r) v \<Longrightarrow>
   isFixedMapping (PhyReg v) \<longleftrightarrow> pclass (PhyReg v) = InvalidRegClass"
  by (auto simp: isRenameable_def class_ok_def isFixedMapping_def)

lemma numRef_ge:
  assumes "rename_inv n U s" and "t < n" and "\<not> isFixedMapping p"
  shows "mrefs p (renameMaps s t) + hrefs p (historyBuffer s t) \<le> numRef (pmeta s p)"
  using assms mrefs_le_refs [OF assms(2)] by (simp add: rename_inv_def refs_ok_def)

lemma mrefs_undo:
  assumes "map_ok m" and "hist_ok m (h # hs)" and "\<not> isFixedMapping p"
  shows "mrefs p (undo_map h m) + of_bool (PhyReg (newPhysReg h) = p) =
         mrefs p m + of_bool (PhyReg (prevPhysReg h) = p)"
  using assms mrefs_write [of "regIdx (archReg h)" m "regClass (archReg h)" "prevPhysReg h" p]
    map_ok_nth [OF assms(1), of "regIdx (archReg h)" "regClass (archReg h)"]
  by (auto simp: undo_map_def)

section \<open>Squash\<close>

definition rollback ::
  "rename_history list \<Rightarrow> (reg_class \<Rightarrow> virt_reg list) \<Rightarrow> (reg_class \<Rightarrow> virt_reg list)" where
  "rollback hs m = fold undo_map hs m"

lemma rollback_simps [simp]:
  "rollback [] m = m"
  "rollback (h # hs) m = rollback hs (undo_map h m)"
  "rollback (xs @ ys) m = rollback ys (rollback xs m)"
  by (simp_all add: rollback_def)

lemma undo_entry_eq:
  assumes "hist_ok (renameMaps s t) (h # hs)"
  shows "undo_entry t h s =
    Some (let s1 = s\<lparr>renameMaps := (renameMaps s)(t := undo_map h (renameMaps s t))\<rparr> in
          if PhyReg (newPhysReg h) \<noteq> PhyReg (prevPhysReg h)
          then tryFreePReg (PhyReg (newPhysReg h)) s1 else s1)"
  using assms
  by (auto simp: undo_entry_def undo_map_def setEntry_def class_ok_def map_write_def Let_def)

lemma undo_step_inv:
  assumes inv: "rename_inv n U s" and "t < n" and h: "historyBuffer s t = h # hs"
    and u: "undo_entry t h s = Some s1"
  defines "s2 \<equiv> s1\<lparr>historyBuffer := (historyBuffer s1)(t := hs)\<rparr>"
  shows "rename_inv n U s2"
    and "renameMaps s2 = (renameMaps s)(t := undo_map h (renameMaps s t))"
    and "historyBuffer s2 = (historyBuffer s)(t := hs)"
proof -
  let ?m = "renameMaps s t" and ?new = "PhyReg (newPhysReg h)" and ?prev = "PhyReg (prevPhysReg h)"
  have ok: "map_ok ?m" "hist_ok ?m (h # hs)" "sorted_wrt (\<ge>) (map instSeqNum hs)"
    using inv \<open>t < n\<close> h by (auto simp: rename_inv_def thread_ok_def)
  note ue = u [unfolded undo_entry_eq [OF ok(2)], simplified]
  show m: "renameMaps s2 = (renameMaps s)(t := undo_map h ?m)"
    and hb: "historyBuffer s2 = (historyBuffer s)(t := hs)"
    using ue by (auto simp: s2_def Let_def tryFreePReg_fields)
  have live: "0 < numRef (pmeta s ?new)" and cls: "isFixedMapping ?new \<longleftrightarrow> pclass ?new = InvalidRegClass"
    if "?new \<noteq> ?prev" "pclass ?new \<noteq> InvalidRegClass"
  proof -
    have e: "isRenameable (archReg h)" "regIdx (archReg h) < length (?m (regClass (archReg h)))"
      "?m (regClass (archReg h)) ! regIdx (archReg h) = newPhysReg h"
      using ok(2) that(1) by auto
    have r: "isRenameable (archReg h)" "class_ok (regClass (archReg h)) (newPhysReg h)"
      using e(1) map_ok_nth [OF ok(1) e(2)] e(3) by simp_all
    have mem: "newPhysReg h \<in> set (?m (regClass (archReg h)))"
      using nth_mem [OF e(2)] e(3) by simp
    show cls: "isFixedMapping ?new \<longleftrightarrow> pclass ?new = InvalidRegClass"
      using class_ok_fixed [OF r] .
    have "0 < mrefs ?new ?m"
      using r(2) mem that(2) by (auto simp: class_ok_def intro: mrefs_pos)
    then show "0 < numRef (pmeta s ?new)"
      using numRef_ge [OF inv \<open>t < n\<close>, of ?new] cls that(2) by simp
  qed
  have num: "numRef (pmeta s2 p) = numRef (pmeta s p) - of_bool (p = ?new \<and> ?new \<noteq> ?prev)"
    if "\<not> isFixedMapping p" for p
    using ue that by (auto simp: s2_def Let_def tryFreePReg_fields isFixedMapping_def)
  have "free_ok U s1"
  proof -
    let ?s = "s\<lparr>renameMaps := (renameMaps s)(t := undo_map h ?m)\<rparr>"
    have "free_ok U ?s"
      using inv free_ok_cong [of ?s s U] by (simp add: rename_inv_def)
    then show ?thesis
      using ue live cls free_ok_tryFree [of U ?s ?new]
      by (cases "pclass ?new = InvalidRegClass") (auto simp: Let_def split: if_splits)
  qed
  then have "free_ok U s2"
    using free_ok_cong [of s2 s1 U] by (simp add: s2_def)
  moreover have "thread_ok t s2"
    using ok map_ok_undo [OF ok(1,2)] by (simp add: thread_ok_def m hb)
  moreover have "numRef (pmeta s2 p) + mrefs p ?m + hrefs p (h # hs) =
      numRef (pmeta s p) + mrefs p (undo_map h ?m) + hrefs p hs" if "\<not> isFixedMapping p" for p
    using mrefs_undo [OF ok(1,2) that] num [OF that] live that
    by (cases "p = ?new"; cases "?new = ?prev") (auto simp: isFixedMapping_def)
  ultimately show "rename_inv n U s2"
    using h by (intro rename_inv_change [OF inv \<open>t < n\<close>]) (simp_all add: m hb)
qed

lemma doSquash_run:
  assumes "rename_inv n U s" and "t < n"
  shows "\<exists>s'. doSquash sn t s = Some s' \<and> rename_inv n U s' \<and>
    historyBuffer s' = (historyBuffer s)(t := dropWhile (\<lambda>h. sn < instSeqNum h) (historyBuffer s t)) \<and>
    renameMaps s' = (renameMaps s)
      (t := rollback (takeWhile (\<lambda>h. sn < instSeqNum h) (historyBuffer s t)) (renameMaps s t))"
  using assms
proof (induction sn t s rule: doSquash.induct)
  case (1 sn t s)
  show ?case
  proof (cases "historyBuffer s t")
    case Nil
    with 1(2) show ?thesis by (simp add: doSquash.simps fun_upd_idem)
  next
    case (Cons h hs)
    show ?thesis
    proof (cases "sn < instSeqNum h")
      case False
      with Cons 1(2) show ?thesis by (simp add: doSquash.simps fun_upd_idem)
    next
      case True
      have "hist_ok (renameMaps s t) (h # hs)"
        using 1(2,3) Cons by (auto simp: rename_inv_def thread_ok_def)
      then obtain s1 where s1: "undo_entry t h s = Some s1"
        using undo_entry_eq by blast
      note st = undo_step_inv [OF 1(2,3) Cons s1]
      show ?thesis
        using 1(1) [OF Cons True s1 st(1) 1(3), unfolded st(2,3)] Cons True s1
        by (simp add: doSquash.simps [of sn t s] del: fun_upd_apply) simp
    qed
  qed
qed

section \<open>Commit\<close>

lemma commit_step_inv:
  assumes inv: "rename_inv n U s" and "t < n" and h: "historyBuffer s t = hs @ [h]"
  defines "s2 \<equiv> (commit_entry h s)\<lparr>historyBuffer := (historyBuffer (commit_entry h s))(t := hs)\<rparr>"
  shows "rename_inv n U s2" and "renameMaps s2 = renameMaps s"
    and "historyBuffer s2 = (historyBuffer s)(t := hs)"
proof -
  let ?new = "PhyReg (newPhysReg h)" and ?prev = "PhyReg (prevPhysReg h)"
  show m: "renameMaps s2 = renameMaps s" and hb: "historyBuffer s2 = (historyBuffer s)(t := hs)"
    by (simp_all add: s2_def commit_entry_def tryFreePReg_fields)
  have ok: "map_ok (renameMaps s t)" "hist_ok (renameMaps s t) (hs @ [h])"
    "sorted_wrt (\<ge>) (map instSeqNum hs)"
    using inv \<open>t < n\<close> h by (auto simp: rename_inv_def thread_ok_def sorted_wrt_append)
  have fixed: "isFixedMapping ?prev \<longleftrightarrow> pclass ?prev = InvalidRegClass" if "?new \<noteq> ?prev"
  proof -
    have "newPhysReg h \<noteq> prevPhysReg h"
      using that by auto
    then show ?thesis
      using hist_ok_class [OF ok(2), of h] class_ok_fixed [of "archReg h" "prevPhysReg h"] by simp
  qed
  have live: "0 < numRef (pmeta s ?prev)" if "?new \<noteq> ?prev" "pclass ?prev \<noteq> InvalidRegClass"
    using numRef_ge [OF inv \<open>t < n\<close>, of ?prev] fixed that h by simp
  have "free_ok U (commit_entry h s)"
    using inv live fixed free_ok_tryFree [of U s ?prev]
    by (cases "pclass ?prev = InvalidRegClass") (auto simp: commit_entry_def rename_inv_def)
  then have "free_ok U s2"
    using free_ok_cong [of s2 "commit_entry h s" U] by (simp add: s2_def)
  moreover have "thread_ok t s2"
    using ok by (simp add: thread_ok_def m hb hist_ok_butlast)
  moreover have "numRef (pmeta s2 p) + hrefs p (hs @ [h]) = numRef (pmeta s p) + hrefs p hs"
    if "\<not> isFixedMapping p" for p
    using live that by (auto simp: s2_def commit_entry_def tryFreePReg_fields isFixedMapping_def)
  ultimately show "rename_inv n U s2"
    using h by (intro rename_inv_change [OF inv \<open>t < n\<close>]) (simp_all add: m hb)
qed

lemma removeFromHistory_run:
  assumes "rename_inv n U s" and "t < n"
  shows "rename_inv n U (removeFromHistory sn t s) \<and>
    renameMaps (removeFromHistory sn t s) = renameMaps s \<and>
    historyBuffer (removeFromHistory sn t s) =
      (historyBuffer s)(t := filter (\<lambda>h. sn < instSeqNum h) (historyBuffer s t))"
  using assms
proof (induction sn t s rule: removeFromHistory.induct)
  case (1 sn t s)
  have srt: "sorted_wrt (\<ge>) (map instSeqNum (historyBuffer s t))"
    using 1(2,3) by (auto simp: rename_inv_def thread_ok_def)
  show ?case
  proof (cases "historyBuffer s t" rule: rev_cases)
    case Nil
    with 1(2) show ?thesis by (simp add: removeFromHistory.simps fun_upd_idem)
  next
    case (snoc hs h)
    show ?thesis
    proof (cases "sn < instSeqNum h")
      case True
      then have "filter (\<lambda>h. sn < instSeqNum h) (historyBuffer s t) = historyBuffer s t"
        using srt snoc by (auto simp: sorted_wrt_append filter_id_conv)
      with True snoc 1(2) show ?thesis
        by (simp add: removeFromHistory.simps [of sn t s] fun_upd_idem)
    next
      case False
      note st = commit_step_inv [OF 1(2,3) snoc]
      have "historyBuffer s t \<noteq> []" "\<not> sn < instSeqNum (last (historyBuffer s t))"
        using snoc False by simp_all
      note ih = 1(1) [OF refl this refl]
      show ?thesis
        using ih st snoc False 1(3)
        by (simp add: removeFromHistory.simps [of sn t s] Let_def fun_eq_iff)
    qed
  qed
qed

section \<open>Renaming a destination\<close>

text \<open>
  All branches of \<open>rename\<close> have the same shape: the entry of the architectural register
  becomes \<open>new\<close>, and the count of \<open>new\<close> grows by one unless it names the register that
  was there before.
\<close>

definition push_hist :: "thread_id \<Rightarrow> rename_history \<Rightarrow> rename_state \<Rightarrow> rename_state" where
  "push_hist t h s = s\<lparr>historyBuffer := (historyBuffer s)(t := h # historyBuffer s t)\<rparr>"

lemma push_hist_fields [simp]:
  "renameMaps (push_hist t h s) = renameMaps s"
  "historyBuffer (push_hist t h s) = (historyBuffer s)(t := h # historyBuffer s t)"
  "pmeta (push_hist t h s) = pmeta s"
  "freeLists (push_hist t h s) = freeLists s"
  "regScoreBoard (push_hist t h s) = regScoreBoard s"
  by (simp_all add: push_hist_def)

definition rename_effect ::
  "phys_reg set \<Rightarrow> thread_id \<Rightarrow> reg_id \<Rightarrow> rename_state \<Rightarrow> virt_reg \<Rightarrow> virt_reg \<Rightarrow> rename_state \<Rightarrow> bool"
  where
  "rename_effect U t r s new prev s1 \<longleftrightarrow>
     regIdx r < length (renameMaps s t (regClass r)) \<and>
     prev = renameMaps s t (regClass r) ! regIdx r \<and> class_ok (regClass r) new \<and>
     renameMaps s1 = (renameMaps s)(t := (renameMaps s t)
       (regClass r := (renameMaps s t (regClass r))[regIdx r := new])) \<and>
     historyBuffer s1 = historyBuffer s \<and> free_ok U s1 \<and>
     (\<forall>p. \<not> isFixedMapping p \<longrightarrow>
        numRef (pmeta s1 p) =
        numRef (pmeta s p) + of_bool (p = PhyReg new \<and> PhyReg new \<noteq> PhyReg prev))"

lemma rename_push_inv:
  assumes inv: "rename_inv n U s" and "t < n" and r: "isRenameable r"
    and eff: "rename_effect U t r s new prev s1"
    and h: "archReg h = r" "newPhysReg h = new" "prevPhysReg h = prev"
    and sq: "\<forall>h'\<in>set (historyBuffer s t). instSeqNum h' \<le> instSeqNum h"
  shows "rename_inv n U (push_hist t h s1)"
    and "undo_map h (renameMaps s1 t) = renameMaps s t"
proof -
  let ?m = "renameMaps s t"
  have i: "regIdx r < length (?m (regClass r))" and prev: "prev = ?m (regClass r) ! regIdx r"
    and new: "class_ok (regClass r) new" and hb: "historyBuffer s1 = historyBuffer s"
    and m: "renameMaps s1 = (renameMaps s)
      (t := ?m(regClass r := (?m (regClass r))[regIdx r := new]))" and fr: "free_ok U s1"
    using eff by (auto simp: rename_effect_def)
  have ok: "map_ok ?m" "hist_ok ?m (historyBuffer s t)"
    "sorted_wrt (\<ge>) (map instSeqNum (historyBuffer s t))"
    using inv \<open>t < n\<close> by (auto simp: rename_inv_def thread_ok_def)
  have pc: "class_ok (regClass r) (?m (regClass r) ! regIdx r)"
    using map_ok_nth [OF ok(1) i] .
  show u: "undo_map h (renameMaps s1 t) = ?m"
    using h prev i by (auto simp: undo_map_def m fun_eq_iff)
  have "thread_ok t (push_hist t h s1)"
    using ok h i r pc prev sq u map_ok_write [OF ok(1) new] by (auto simp: thread_ok_def hb m)
  moreover have "free_ok U (push_hist t h s1)"
    using fr free_ok_cong [of "push_hist t h s1" s1 U] by simp
  moreover have "numRef (pmeta s1 p) + mrefs p ?m + hrefs p (historyBuffer s t) =
      numRef (pmeta s p) + mrefs p (renameMaps s1 t) + hrefs p (h # historyBuffer s t)"
    if "\<not> isFixedMapping p" for p
    using mrefs_write [where m = ?m, OF i pc new that] eff that h prev
    by (auto simp: m rename_effect_def split: if_splits)
  ultimately show "rename_inv n U (push_hist t h s1)"
    by (intro rename_inv_change [OF inv \<open>t < n\<close>]) (simp_all add: m hb)
qed

text \<open>A bypass register is usable when it comes from a map entry of the right class.\<close>

definition bypass_ok :: "thread_id \<Rightarrow> reg_id \<Rightarrow> virt_reg \<Rightarrow> rename_state \<Rightarrow> bool" where
  "bypass_ok t r b s \<longleftrightarrow>
     class_ok (regClass r) b \<and>
     (pclass (PhyReg b) = InvalidRegClass \<or>
      (\<exists>v\<in>set (renameMaps s t (regClass r)). PhyReg v = PhyReg b))"

lemma live_mapped:
  assumes "rename_inv n U s" and "t < n" and "isRenameable r"
    and "v \<in> set (renameMaps s t (regClass r))" and "pclass (PhyReg v) \<noteq> InvalidRegClass"
  shows "0 < numRef (pmeta s (PhyReg v))" and "\<not> isFixedMapping (PhyReg v)"
proof -
  have c: "class_ok (regClass r) v"
    using assms(1,2,4) by (auto simp: rename_inv_def thread_ok_def map_ok_def)
  then show nf: "\<not> isFixedMapping (PhyReg v)"
    using class_ok_fixed [OF assms(3)] assms(5) by simp
  have "0 < mrefs (PhyReg v) (renameMaps s t)"
    using c assms(4,5) by (intro mrefs_pos) (auto simp: class_ok_def)
  then show "0 < numRef (pmeta s (PhyReg v))"
    using numRef_ge [OF assms(1,2) nf] by simp
qed

lemma free_ok_incRef:
  assumes "free_ok U s" and "isFixedMapping p \<or> 0 < numRef (pmeta s p)"
    and "freeLists s' = freeLists s"
    and "\<And>q. numRef (pmeta s' q) = numRef (pmeta s q) + of_bool (q = p \<and> B)"
  shows "free_ok U s'"
  using assms by (auto simp: free_ok_def)

lemma rename_effect_bypass:
  assumes "rename_inv n U s" and "t < n" and r: "isRenameable r" and b: "bypass_ok t r v s"
    and run: "simple_rename t r npw (Some v) s = Some ((new, prev), s1)"
  shows "rename_effect U t r s new prev s1"
proof -
  have v: "class_ok (regClass r) v" "isFixedMapping (PhyReg v) \<or> 0 < numRef (pmeta s (PhyReg v))"
    using b live_mapped(1) [OF assms(1,2) r] by (force simp: bypass_ok_def isFixedMapping_def)+
  have eq: "new = v" "prev = renameMaps s t (regClass r) ! regIdx r"
      "regIdx r < length (renameMaps s t (regClass r))"
    and s1: "s1 = (if PhyReg prev \<noteq> PhyReg v
      then (map_write t r v s)\<lparr>pmeta := (pmeta s)(PhyReg v := incRef (pmeta s (PhyReg v)))\<rparr>
      else map_write t r v s)"
    using run r
    by (auto simp: simple_rename_def Let_def map_write_def isRenameable_def split: if_splits)
  have "free_ok U s"
    using assms(1) by (simp add: rename_inv_def)
  then have "free_ok U s1"
    by (rule free_ok_incRef [OF _ v(2), where B = "PhyReg prev \<noteq> PhyReg v"])
      (auto simp: s1 map_write_def)
  then show ?thesis
    using eq v(1) by (auto simp: rename_effect_def s1 map_write_def)
qed

lemma rename_effect_pinned:
  assumes "rename_inv n U s" and "t < n" and r: "isRenameable r"
    and pin: "0 < numPinnedWrites (pmeta s (PhyReg (renameMaps s t (regClass r) ! regIdx r)))"
    and run: "simple_rename t r npw None s = Some ((new, prev), s1)"
  shows "rename_effect U t r s new prev s1"
proof -
  have eq: "new = prev" "prev = renameMaps s t (regClass r) ! regIdx r"
      "regIdx r < length (renameMaps s t (regClass r))"
    and s1: "s1 = s\<lparr>pmeta := (pmeta s)(PhyReg prev := decrNumPinnedWrites (pmeta s (PhyReg prev)))\<rparr>"
    using run pin r by (auto simp: simple_rename_def Let_def isRenameable_def split: if_splits)
  have ok: "map_ok (renameMaps s t)" "free_ok U s"
    using assms(1,2) by (auto simp: rename_inv_def thread_ok_def)
  have "free_ok U s1"
    using ok(2) free_ok_cong [of s1 s U] by (simp add: s1)
  then show ?thesis
    using eq map_ok_nth [OF ok(1) eq(3)] by (auto simp: rename_effect_def s1)
qed

lemma rename_effect_fresh:
  assumes "rename_inv n U s" and "t < n" and r: "isRenameable r"
    and pin: "\<not> 0 < numPinnedWrites (pmeta s (PhyReg (renameMaps s t (regClass r) ! regIdx r)))"
    and run: "simple_rename t r npw None s = Some ((new, prev), s1)"
  shows "rename_effect U t r s new prev s1"
    and "numRef (pmeta s (PhyReg new)) = 0" and "IEOper new = None"
    and "pclass (PhyReg new) = regClass r"
proof -
  have cl: "regClass r \<noteq> InvalidRegClass" "regClass r \<noteq> MiscRegClass"
    using r by (auto simp: isRenameable_def)
  obtain p s0 where g: "ufl_getReg (regClass r) s = Some (p, s0)"
    and eq: "new = VirtReg p None" "prev = renameMaps s t (regClass r) ! regIdx r"
      "regIdx r < length (renameMaps s t (regClass r))"
    and s1: "s1 = (map_write t r new s0)\<lparr>pmeta := (pmeta s0)(p :=
       setNumPinnedWritesToComplete (npw + 1) (setNumPinnedWrites npw (pmeta s0 p)))\<rparr>"
    using run cl pin
    by (auto simp: simple_rename_def Let_def map_write_def split: if_splits option.splits)
  have "free_ok U s"
    using assms(1) by (simp add: rename_inv_def)
  note fr = free_ok_getReg [OF this g cl(2,1)]
  show "numRef (pmeta s (PhyReg new)) = 0" and "IEOper new = None" "pclass (PhyReg new) = regClass r"
    using fr eq by simp_all
  obtain q where s0: "s0 = s\<lparr>freeLists := (freeLists s)(regClass r := q),
      pmeta := (pmeta s)(p := incRef (pmeta s p))\<rparr>"
    using g by (auto simp: ufl_getReg_Some)
  have "PhyReg prev \<noteq> p"
    using live_mapped [OF assms(1,2) r nth_mem [OF eq(3)]] fr(2,3) cl eq(2) by auto
  moreover have "free_ok U s1"
    using fr(1) free_ok_cong [of s1 s0 U] by (simp add: s1 map_write_def)
  ultimately show "rename_effect U t r s new prev s1"
    using eq fr(3) by (auto simp: rename_effect_def s1 s0 map_write_def class_ok_def)
qed

lemma simple_rename_effect:
  assumes "rename_inv n U s" and "t < n" and "isRenameable r"
    and "simple_rename t r npw b s = Some ((new, prev), s1)"
    and "\<And>v. b = Some v \<Longrightarrow> bypass_ok t r v s"
  shows "rename_effect U t r s new prev s1"
proof (cases b)
  case None
  then show ?thesis
    using assms(1-4) rename_effect_pinned rename_effect_fresh(1) by blast
next
  case (Some v)
  then show ?thesis
    using assms rename_effect_bypass by blast
qed

section \<open>Renaming instructions\<close>

text \<open>
  An instruction marked as a move or an add-immediate has its first source in the class of
  its destination, or the zero register there.
\<close>

definition wf_dest :: "rename_inst \<Rightarrow> reg_id \<times> int \<Rightarrow> bool" where
  "wf_dest i d \<longleftrightarrow>
     ((ri_isMov i \<or> ri_isAddImm i) \<and> isRenameable (fst d) \<longrightarrow>
        ri_srcs i \<noteq> [] \<and> regClass (hd (ri_srcs i)) \<in> {regClass (fst d), InvalidRegClass})"

definition wf_rename_inst :: "rename_inst \<Rightarrow> bool" where
  "wf_rename_inst i \<longleftrightarrow> list_all (wf_dest i) (ri_dests i)"

lemma PhyReg_fold_imm [simp]: "PhyReg (fst (fold_imm imm b)) = PhyReg b"
  by (simp add: fold_imm_def split: option.split)

lemma bypass_reg_ok:
  assumes "rename_inv n U s" and "t < n" and "wf_dest i d" and r: "isRenameable (fst d)"
    and "bypass_reg cfg t i s = Some (Some v, f)"
  shows "bypass_ok t (fst d) v s"
proof -
  obtain b where b: "lookup_src0 t i s = Some b" and v: "PhyReg v = PhyReg b"
    and k: "ri_isMov i \<or> ri_isAddImm i"
    using assms(5) by (auto simp: bypass_reg_def split: if_splits)
  obtain x xs where x: "ri_srcs i = x # xs" and l: "lookup t x s = Some b"
    using b by (auto simp: lookup_src0_def split: list.splits)
  have cx: "regClass x = regClass (fst d) \<or> regClass x = InvalidRegClass"
    using assms(3) k r x by (auto simp: wf_dest_def)
  show ?thesis
  proof (cases "regClass x = InvalidRegClass")
    case True
    then show ?thesis using l v by (auto simp: lookup_def bypass_ok_def class_ok_def)
  next
    case False
    then have "b \<in> set (renameMaps s t (regClass (fst d)))"
      using l cx r by (auto simp: lookup_def isRenameable_def split: if_splits)
    moreover from this have "class_ok (regClass (fst d)) b"
      using assms(1,2) by (auto simp: rename_inv_def thread_ok_def map_ok_def)
    ultimately show ?thesis
      using v by (auto simp: bypass_ok_def class_ok_def)
  qed
qed

text \<open>
  \<open>extends\<close>: the second state differs from the first by history entries of one thread, and
  undoing them gives the first map back.
\<close>

definition extends ::
  "thread_id \<Rightarrow> (seq_num \<Rightarrow> bool) \<Rightarrow> rename_state \<Rightarrow> rename_state \<Rightarrow> bool" where
  "extends t Q s s' \<longleftrightarrow>
     (\<exists>hs. historyBuffer s' = (historyBuffer s)(t := hs @ historyBuffer s t) \<and>
           (\<forall>h\<in>set hs. Q (instSeqNum h)) \<and>
           (\<forall>u. u \<noteq> t \<longrightarrow> renameMaps s' u = renameMaps s u) \<and>
           rollback hs (renameMaps s' t) = renameMaps s t)"

lemma extends_refl: "extends t Q s s"
  by (auto simp: extends_def intro: exI [of _ "[]"])

lemma extends_trans: "extends t Q s s' \<Longrightarrow> extends t Q s' s'' \<Longrightarrow> extends t Q s s''"
  unfolding extends_def
  by (elim exE, rename_tac hs hs', rule_tac x = "hs' @ hs" in exI) auto

lemma extends_mono: "extends t Q s s' \<Longrightarrow> (\<And>x. Q x \<Longrightarrow> R x) \<Longrightarrow> extends t R s s'"
  unfolding extends_def by blast

lemma sb_unset_fields [simp]:
  "renameMaps (sb_unsetReg p s) = renameMaps s"
  "historyBuffer (sb_unsetReg p s) = historyBuffer s"
  "pmeta (sb_unsetReg p s) = pmeta s"
  "freeLists (sb_unsetReg p s) = freeLists s"
  by (simp_all add: sb_unsetReg_def)

lemma rename_effect_sb: "rename_effect U t r s new prev (sb_unsetReg p s1) = rename_effect U t r s new prev s1"
  using free_ok_cong [of "sb_unsetReg p s1" s1 U] by (simp add: rename_effect_def)

lemma extends_push:
  assumes "historyBuffer s1 = historyBuffer s" and "\<And>u. u \<noteq> t \<Longrightarrow> renameMaps s1 u = renameMaps s u"
    and "undo_map h (renameMaps s1 t) = renameMaps s t" and "Q (instSeqNum h)"
  shows "extends t Q s (push_hist t h s1)"
  using assms by (auto simp: extends_def intro!: exI [of _ "[h]"])

lemma fixed_push_inv:
  assumes inv: "rename_inv n U s" and "t < n" and h: "newPhysReg h = prevPhysReg h"
    and sq: "\<forall>h'\<in>set (historyBuffer s t). instSeqNum h' \<le> instSeqNum h"
    and s1: "renameMaps s1 = renameMaps s" "historyBuffer s1 = historyBuffer s"
      "pmeta s1 = pmeta s" "freeLists s1 = freeLists s"
  shows "rename_inv n U (push_hist t h s1)"
proof -
  have "free_ok U (push_hist t h s1)"
    using inv s1 free_ok_cong [of "push_hist t h s1" s U] by (simp add: rename_inv_def)
  moreover have "thread_ok t (push_hist t h s1)"
    using inv \<open>t < n\<close> h sq s1 by (auto simp: rename_inv_def thread_ok_def undo_map_def)
  ultimately show ?thesis
    using h by (intro rename_inv_change [OF inv \<open>t < n\<close>]) (simp_all add: s1)
qed

lemma renameDestReg_run:
  assumes inv: "rename_inv n U s" and "t < n" and wf: "wf_dest i d"
    and sq: "\<forall>h\<in>set (historyBuffer s t). instSeqNum h \<le> ri_seqNum i"
    and run: "renameDestReg cfg t i d s = Some (x, s')"
  shows "rename_inv n U s' \<and> extends t (\<lambda>k. k = ri_seqNum i) s s'"
proof -
  obtain b f new prev s1 where b: "bypass_reg cfg t i s = Some (b, f)"
    and u: "unified_rename t (fst d) (snd d) b s = Some ((new, prev), s1)"
    using run by (auto simp: renameDestReg_def Let_def split: option.splits prod.splits)
  let ?s2 = "if f then s1 else sb_unsetReg (PhyReg new) s1"
  let ?h = "\<lparr>instSeqNum = ri_seqNum i, archReg = fst d, newPhysReg = new, prevPhysReg = prev\<rparr>"
  have s': "s' = push_hist t ?h ?s2"
    using run b u by (simp add: renameDestReg_def push_hist_def Let_def)
  show ?thesis
  proof (cases "isRenameable (fst d)")
    case True
    have "rename_effect U t (fst d) s new prev s1"
      using u True bypass_reg_ok [OF inv \<open>t < n\<close> wf True] b
      by (intro simple_rename_effect [OF inv \<open>t < n\<close> True]) (auto simp: unified_rename_def)
    then have eff: "rename_effect U t (fst d) s new prev ?s2"
      by (simp add: rename_effect_sb)
    note st = rename_push_inv [OF inv \<open>t < n\<close> True eff, of ?h]
    show ?thesis
      unfolding s' using st sq eff
      by (intro conjI extends_push) (auto simp: rename_effect_def)
  next
    case False
    then have "new = prev" "s1 = s"
      using u by (auto simp: unified_rename_def)
    then show ?thesis
      unfolding s' using sq inv \<open>t < n\<close>
      by (intro conjI extends_push fixed_push_inv [where s = s]) (auto simp: undo_map_def)
  qed
qed

lemma extends_seq:
  assumes "extends t Q s s'" and "\<forall>h\<in>set (historyBuffer s t). instSeqNum h \<le> k"
    and "\<And>x. Q x \<Longrightarrow> x \<le> k"
  shows "\<forall>h\<in>set (historyBuffer s' t). instSeqNum h \<le> k"
  using assms by (auto simp: extends_def)

lemma renameDestRegs_run:
  assumes "rename_inv n U s" and "t < n" and "list_all (wf_dest i) ds"
    and "\<forall>h\<in>set (historyBuffer s t). instSeqNum h \<le> ri_seqNum i"
    and "renameDestRegs cfg t i ds s = Some (rs, s')"
  shows "rename_inv n U s' \<and> extends t (\<lambda>k. k = ri_seqNum i) s s'"
  using assms
proof (induction ds arbitrary: s rs)
  case Nil
  then show ?case by (simp add: extends_refl)
next
  case (Cons d ds)
  obtain x s1 rs' where d: "renameDestReg cfg t i d s = Some (x, s1)"
    and ds: "renameDestRegs cfg t i ds s1 = Some (rs', s')"
    using Cons.prems(5) by (auto split: option.splits)
  have w: "wf_dest i d" "list_all (wf_dest i) ds"
    using Cons.prems(3) by auto
  note st = renameDestReg_run [OF Cons.prems(1,2) w(1) Cons.prems(4) d]
  have "\<forall>h\<in>set (historyBuffer s1 t). instSeqNum h \<le> ri_seqNum i"
    by (rule extends_seq [OF conjunct2 [OF st] Cons.prems(4)]) simp
  then show ?case
    using Cons.IH [OF _ Cons.prems(2) w(2) _ ds] st extends_trans by blast
qed

lemma renameInst_run:
  assumes "rename_inv n U s" and "t < n" and "wf_rename_inst i"
    and "\<forall>h\<in>set (historyBuffer s t). instSeqNum h \<le> ri_seqNum i"
    and "renameInst cfg t i s = Some (out, s')"
  shows "rename_inv n U s' \<and> extends t (\<lambda>k. k = ri_seqNum i) s s'"
  using assms renameDestRegs_run [OF assms(1,2)]
  by (auto simp: renameInst_def wf_rename_inst_def split: if_splits option.splits)

text \<open>
  The instructions renamed in a cycle come in program order and are younger than every
  entry of the history buffer.
\<close>

definition in_order :: "thread_id \<Rightarrow> rename_inst list \<Rightarrow> rename_state \<Rightarrow> bool" where
  "in_order t is s \<longleftrightarrow>
     sorted_wrt (<) (map ri_seqNum is) \<and>
     (\<forall>i\<in>set is. \<forall>h\<in>set (historyBuffer s t). instSeqNum h < ri_seqNum i)"

lemma renameInsts_run:
  assumes "rename_inv n U s" and "t < n" and "list_all wf_rename_inst is" and "in_order t is s"
    and "renameInsts cfg t is s = Some (os, s')"
  shows "rename_inv n U s' \<and> extends t (\<lambda>k. k \<in> set (map ri_seqNum is)) s s'"
  using assms
proof (induction "is" arbitrary: s os)
  case Nil
  then show ?case by (simp add: extends_refl)
next
  case (Cons i "is")
  have io: "in_order t is s" and w: "wf_rename_inst i" "list_all wf_rename_inst is"
    and sq: "\<forall>h\<in>set (historyBuffer s t). instSeqNum h \<le> ri_seqNum i"
    using Cons.prems(3,4) by (auto simp: in_order_def less_imp_le)
  show ?case
  proof (cases "ri_squashed i")
    case True
    then show ?thesis
      using Cons.IH [OF Cons.prems(1,2) w(2) io] Cons.prems(5)
      by (fastforce elim!: extends_mono)
  next
    case False
    obtain out s1 os' where i: "renameInst cfg t i s = Some (out, s1)"
      and "is": "renameInsts cfg t is s1 = Some (os', s')"
      using Cons.prems(5) False by (auto split: option.splits)
    note st = renameInst_run [OF Cons.prems(1,2) w(1) sq i]
    have "in_order t is s1"
      using st Cons.prems(4) by (auto simp: in_order_def extends_def)
    with Cons.IH [OF _ Cons.prems(2) w(2) _ "is"] st
    have r: "rename_inv n U s'" "extends t (\<lambda>k. k \<in> set (map ri_seqNum is)) s1 s'"
      by blast+
    have "extends t (\<lambda>k. k \<in> set (map ri_seqNum (i # is))) s s1"
      using st by (elim conjE extends_mono) simp
    moreover have "extends t (\<lambda>k. k \<in> set (map ri_seqNum (i # is))) s1 s'"
      using r(2) by (rule extends_mono) simp
    ultimately show ?thesis
      using r(1) extends_trans by blast
  qed
qed

end
