(* ===== verification/RenameProps.thy ===== *)
theory RenameProps
  imports RenameInv
begin

text \<open>
  What the rename stage promises. From the state that the CPU constructor builds, every
  sequence of renaming, squashing and committing keeps the invariant of \<open>RenameInv\<close>; a
  squash gives the state before the squashed instructions back; the free registers are
  exactly the unreferenced ones; the check \<open>canRename\<close> makes renaming succeed; and the
  renamed instructions compute on physical registers what the instructions compute on
  architectural ones.
\<close>

section \<open>The constructor establishes the invariant\<close>

definition phys_regs :: "(reg_class \<Rightarrow> nat) \<Rightarrow> phys_reg set" where
  "phys_regs numPhys = {p. pclass p \<in> set array_classes \<and> pidx p < numPhys (pclass p)}"

lemma not_fixed_iff: "\<not> isFixedMapping p \<longleftrightarrow> pclass p \<in> set array_classes"
  by (cases "pclass p") (auto simp: isFixedMapping_def array_classes_def)

lemma renameable_iff: "isRenameable r \<longleftrightarrow> regClass r \<in> set array_classes"
  by (cases "regClass r") (auto simp: isRenameable_def array_classes_def)

lemma initFreeList_set:
  "p \<in> set (initFreeList numPhys c) \<longleftrightarrow>
     pclass p = c \<and> c \<in> set array_classes \<and> pidx p < numPhys c"
  by (cases p) (auto simp: initFreeList_def sfl_addRegs_append physRegIds_def)

lemma initFreeList_distinct: "distinct (initFreeList numPhys c)"
  by (simp add: initFreeList_def sfl_addRegs_append physRegIds_def distinct_map inj_on_def)

lemma state0_fields [simp]:
  "freeLists (rename_state0 numPhys numArch) = initFreeList numPhys"
  "numRef (pmeta (rename_state0 numPhys numArch) p) = 0"
  "renameMaps (rename_state0 numPhys numArch) t = emptyMaps numArch"
  "historyBuffer (rename_state0 numPhys numArch) = (\<lambda>_. [])"
  by (simp_all add: rename_state0_def initPhysMeta_def)

lemma state0_inv: "rename_inv n (phys_regs numPhys) (rename_state0 numPhys numArch)"
proof -
  have "mrefs p (emptyMaps numArch) = 0" if "\<not> isFixedMapping p" for p
    using that by (auto simp: mrefs_def emptyMaps_def occ_eq_0_iff nullVirtReg_def isFixedMapping_def)
  then have "refs_ok n (rename_state0 numPhys numArch)"
    by (simp add: refs_ok_def refs_def)
  moreover have "free_ok (phys_regs numPhys) (rename_state0 numPhys numArch)"
    by (simp add: free_ok_def initFreeList_set initFreeList_distinct phys_regs_def not_fixed_iff)
  moreover have "map_ok (emptyMaps numArch)"
    by (auto simp: map_ok_def emptyMaps_def class_ok_def nullVirtReg_def array_classes_def)
  ultimately show ?thesis
    by (simp add: rename_inv_def thread_ok_def)
qed

definition entry_unset :: "rename_state \<Rightarrow> thread_id \<times> reg_id \<Rightarrow> bool" where
  "entry_unset s tr \<longleftrightarrow>
     regIdx (snd tr) < length (renameMaps s (fst tr) (regClass (snd tr))) \<and>
     pclass (PhyReg (renameMaps s (fst tr) (regClass (snd tr)) ! regIdx (snd tr))) = InvalidRegClass"

lemma init_entry_run:
  assumes inv: "rename_inv n U s" and tr: "fst tr < n" "isRenameable (snd tr)" "entry_unset s tr"
    and hb: "historyBuffer s = (\<lambda>_. [])"
    and run: "init_entry tr s = Some s'"
  shows "rename_inv n U s'" and "historyBuffer s' = (\<lambda>_. [])"
    and "\<And>x. x \<noteq> tr \<Longrightarrow> entry_unset s x \<Longrightarrow> entry_unset s' x"
    and "\<And>c. length (freeLists s c) = length (freeLists s' c) + of_bool (c = regClass (snd tr))"
proof -
  obtain t r where [simp]: "tr = (t, r)" by (cases tr)
  let ?m = "renameMaps s t"
  obtain p s1 where g: "ufl_getReg (regClass r) s = Some (p, s1)"
    and se: "setEntry t r (VirtReg p None) s1 = Some s'"
    using run by (auto simp: init_entry_def split: option.splits)
  obtain q where q: "freeLists s (regClass r) = p # q"
    and s1: "s1 = s\<lparr>freeLists := (freeLists s)(regClass r := q),
        pmeta := (pmeta s)(p := incRef (pmeta s p))\<rparr>"
    using g by (auto simp: ufl_getReg_Some)
  have s': "s' = map_write t r (VirtReg p None) s1"
    using se tr(2) by (auto simp: setEntry_def split: if_splits)
  have cl: "regClass r \<noteq> InvalidRegClass" "regClass r \<noteq> MiscRegClass"
    using tr(2) by (auto simp: isRenameable_def)
  have "free_ok U s" and ok: "map_ok ?m"
    using inv tr(1) by (auto simp: rename_inv_def thread_ok_def)
  note fr = free_ok_getReg [OF this(1) g cl(2,1)]
  have i: "regIdx r < length (?m (regClass r))"
    and old: "pclass (PhyReg (?m (regClass r) ! regIdx r)) = InvalidRegClass"
    using tr(3) by (auto simp: entry_unset_def)
  have new: "class_ok (regClass r) (VirtReg p None)"
    using fr(3) by (simp add: class_ok_def)
  have m: "renameMaps s' = (renameMaps s)
      (t := ?m(regClass r := (?m (regClass r))[regIdx r := VirtReg p None]))"
    by (simp add: s' s1 map_write_def)
  show hb': "historyBuffer s' = (\<lambda>_. [])"
    using hb by (simp add: s' s1 map_write_def)
  have "free_ok U s'"
    using fr(1) free_ok_cong [of s' s1 U] by (simp add: s' map_write_def)
  moreover have "thread_ok t s'"
    using ok map_ok_write [OF ok new] by (simp add: thread_ok_def m hb')
  moreover have "numRef (pmeta s' x) + mrefs x ?m = numRef (pmeta s x) + mrefs x (renameMaps s' t)"
    if "\<not> isFixedMapping x" for x
  proof -
    have "PhyReg (?m (regClass r) ! regIdx r) \<noteq> x"
      using old that by (auto simp: isFixedMapping_def)
    then show ?thesis
      using mrefs_write [where m = ?m, OF i map_ok_nth [OF ok i] new that]
      by (auto simp: m s' s1 map_write_def)
  qed
  ultimately show "rename_inv n U s'"
    using tr(1) hb by (intro rename_inv_change [OF inv, of t]) (simp_all add: m hb')
  show "entry_unset s' x" if "x \<noteq> tr" "entry_unset s x" for x
    using that by (cases x; cases "snd x"; cases r) (auto simp: entry_unset_def m nth_list_update)
  show "length (freeLists s c) = length (freeLists s' c) + of_bool (c = regClass (snd tr))" for c
    using q by (simp add: s' s1 map_write_def)
qed

lemma init_entries_run:
  assumes "rename_inv n U s" and "historyBuffer s = (\<lambda>_. [])" and "distinct trs"
    and "\<forall>x\<in>set trs. fst x < n \<and> isRenameable (snd x) \<and> entry_unset s x"
    and "init_entries trs s = Some s'"
  shows "rename_inv n U s'"
  using assms
proof (induction trs arbitrary: s)
  case Nil
  then show ?case by simp
next
  case (Cons x xs)
  obtain s1 where x: "init_entry x s = Some s1" and xs: "init_entries xs s1 = Some s'"
    using Cons.prems(5) by (auto split: option.splits)
  have hx: "fst x < n" "isRenameable (snd x)" "entry_unset s x"
    using Cons.prems(4) by auto
  note st = init_entry_run [OF Cons.prems(1) hx Cons.prems(2) x]
  have "\<forall>y\<in>set xs. fst y < n \<and> isRenameable (snd y) \<and> entry_unset s1 y"
  proof
    fix y assume y: "y \<in> set xs"
    then have "y \<noteq> x"
      using Cons.prems(3) by auto
    then show "fst y < n \<and> isRenameable (snd y) \<and> entry_unset s1 y"
      using st(3) y Cons.prems(4) by simp
  qed
  then show ?case
    using Cons.IH [OF st(1,2) _ _ xs] Cons.prems(3) by simp
qed

lemma init_order_set:
  "x \<in> set (init_order n numArch) \<longleftrightarrow>
     fst x < n \<and> regClass (snd x) \<in> set array_classes \<and> regIdx (snd x) < numArch (regClass (snd x))"
  by (cases x; cases "snd x") (force simp: init_order_def)

lemma init_order_distinct: "distinct (init_order n numArch)"
  unfolding init_order_def
  by (rule distinct_concat_map, simp, rule distinct_concat_map)
    (auto simp: array_classes_def distinct_map inj_on_def)

lemma init_rename_inv:
  assumes "init_rename n numPhys numArch = Some s"
  shows "rename_inv n (phys_regs numPhys) s"
proof (rule init_entries_run [OF state0_inv])
  show "historyBuffer (rename_state0 numPhys numArch) = (\<lambda>_. [])"
    by simp
  show "distinct (init_order n numArch)"
    by (rule init_order_distinct)
  show "\<forall>x\<in>set (init_order n numArch).
      fst x < n \<and> isRenameable (snd x) \<and> entry_unset (rename_state0 numPhys numArch) x"
    by (auto simp: init_order_set renameable_iff entry_unset_def emptyMaps_def
        nullVirtReg_def)
  show "init_entries (init_order n numArch) (rename_state0 numPhys numArch) = Some s"
    using assms by (simp add: init_rename_def)
qed

lemma init_entries_possible:
  assumes "rename_inv n U s" and "historyBuffer s = (\<lambda>_. [])" and "distinct trs"
    and "\<forall>x\<in>set trs. fst x < n \<and> isRenameable (snd x) \<and> entry_unset s x"
    and "\<forall>c. occ (\<lambda>x. regClass (snd x) = c) trs \<le> length (freeLists s c)"
  shows "\<exists>s'. init_entries trs s = Some s'"
  using assms
proof (induction trs arbitrary: s)
  case Nil
  then show ?case by simp
next
  case (Cons x xs)
  have hx: "fst x < n" "isRenameable (snd x)" "entry_unset s x"
    using Cons.prems(4) by auto
  have "0 < length (freeLists s (regClass (snd x)))"
    using spec [OF Cons.prems(5), of "regClass (snd x)"] by (auto intro: Suc_le_lessD)
  then obtain p s0 where g: "ufl_getReg (regClass (snd x)) s = Some (p, s0)"
    by (cases "ufl_getReg (regClass (snd x)) s") (auto simp: ufl_getReg_None)
  have "free_ok U s"
    using Cons.prems(1) by (simp add: rename_inv_def)
  then have "pclass p = regClass (snd x)"
    using free_ok_getReg(3) [OF _ g] hx(2) by (simp add: isRenameable_def)
  then obtain s1 where x: "init_entry x s = Some s1"
    using g hx(2,3) by (auto simp: init_entry_def setEntry_def entry_unset_def ufl_getReg_Some)
  note st = init_entry_run [OF Cons.prems(1) hx Cons.prems(2) x]
  have "\<forall>y\<in>set xs. fst y < n \<and> isRenameable (snd y) \<and> entry_unset s1 y"
  proof
    fix y assume y: "y \<in> set xs"
    then have "y \<noteq> x"
      using Cons.prems(3) by auto
    then show "fst y < n \<and> isRenameable (snd y) \<and> entry_unset s1 y"
      using st(3) y Cons.prems(4) by simp
  qed
  moreover have "\<forall>c. occ (\<lambda>x. regClass (snd x) = c) xs \<le> length (freeLists s1 c)"
  proof
    fix c show "occ (\<lambda>x. regClass (snd x) = c) xs \<le> length (freeLists s1 c)"
      using spec [OF Cons.prems(5), of c] st(4) [of c] by (simp split: if_splits)
  qed
  ultimately show ?case
    using Cons.IH [OF st(1,2)] Cons.prems(3) x by simp
qed

lemma occ_init_order:
  assumes "c \<in> set array_classes"
  shows "occ (\<lambda>x. regClass (snd x) = c) (init_order n numArch) = n * numArch c"
proof -
  have cs: "occ (\<lambda>x. regClass (snd x) = c)
      (concat (map (\<lambda>c. map (\<lambda>i. (t, RegId c i)) [0..<numArch c]) array_classes)) = numArch c"
    for t :: nat
  proof -
    have one: "occ (\<lambda>x. regClass (snd x) = c) (map (\<lambda>i. (t, RegId d i)) [0..<k]) =
        (if d = c then k else 0)" for d and k :: nat
      by (induction k) auto
    show ?thesis
      using assms by (auto simp: array_classes_def one)
  qed
  show ?thesis
    unfolding init_order_def by (induction n) (simp_all add: cs)
qed

text \<open>
  The CPU constructor can map every architectural register of the active threads
  whenever each class has at least as many physical registers as the active threads need
  together: no allocation finds an empty free list and no \<open>setEntry\<close> assertion fails.
\<close>

lemma init_rename_possible:
  assumes "\<forall>c\<in>set array_classes. n * numArch c \<le> numPhys c"
  shows "\<exists>s. init_rename n numPhys numArch = Some s"
proof -
  have "occ (\<lambda>x. regClass (snd x) = c) (init_order n numArch) \<le> length (initFreeList numPhys c)"
    for c
  proof (cases "c \<in> set array_classes")
    case True
    then show ?thesis
      using assms by (simp add: occ_init_order initFreeList_def sfl_addRegs_append physRegIds_def)
  next
    case False
    then have "occ (\<lambda>x. regClass (snd x) = c) (init_order n numArch) = 0"
      by (auto simp: occ_eq_0_iff init_order_set)
    then show ?thesis by simp
  qed
  moreover have "\<forall>x\<in>set (init_order n numArch).
      fst x < n \<and> isRenameable (snd x) \<and> entry_unset (rename_state0 numPhys numArch) x"
    by (auto simp: init_order_set renameable_iff entry_unset_def emptyMaps_def nullVirtReg_def)
  ultimately show ?thesis
    unfolding init_rename_def
    using init_entries_possible [OF state0_inv _ init_order_distinct, of numPhys numArch n numArch n]
    by simp
qed

section \<open>Reachable states\<close>

text \<open>
  The stage renames groups of instructions, squashes, and commits, in any order and for any
  thread; between these steps other stages write the scoreboard.
\<close>

inductive rename_reach ::
  "rename_cfg \<Rightarrow> nat \<Rightarrow> (reg_class \<Rightarrow> nat) \<Rightarrow> (reg_class \<Rightarrow> nat) \<Rightarrow> rename_state \<Rightarrow> bool"
  for cfg n numPhys numArch
  where
  rr_init: "init_rename n numPhys numArch = Some s \<Longrightarrow> rename_reach cfg n numPhys numArch s"
| rr_rename: "\<lbrakk>rename_reach cfg n numPhys numArch s; t < n; list_all wf_rename_inst is;
     in_order t is s; renameInsts cfg t is s = Some (os, s')\<rbrakk>
     \<Longrightarrow> rename_reach cfg n numPhys numArch s'"
| rr_squash: "\<lbrakk>rename_reach cfg n numPhys numArch s; t < n; doSquash sn t s = Some s'\<rbrakk>
     \<Longrightarrow> rename_reach cfg n numPhys numArch s'"
| rr_commit: "\<lbrakk>rename_reach cfg n numPhys numArch s; t < n\<rbrakk>
     \<Longrightarrow> rename_reach cfg n numPhys numArch (removeFromHistory sn t s)"
| rr_scoreboard: "rename_reach cfg n numPhys numArch s
     \<Longrightarrow> rename_reach cfg n numPhys numArch (s\<lparr>regScoreBoard := sb\<rparr>)"

lemma rename_inv_scoreboard: "rename_inv n U (s\<lparr>regScoreBoard := sb\<rparr>) = rename_inv n U s"
  by (simp add: rename_inv_def refs_ok_def refs_def free_ok_def thread_ok_def)

lemma reach_inv:
  "rename_reach cfg n numPhys numArch s \<Longrightarrow> rename_inv n (phys_regs numPhys) s"
proof (induction rule: rename_reach.induct)
  case (rr_init s)
  then show ?case by (rule init_rename_inv)
next
  case (rr_rename s t "is" os s')
  then show ?case using renameInsts_run by blast
next
  case (rr_squash s t sn s')
  then show ?case using doSquash_run [of n "phys_regs numPhys" s t sn] by auto
next
  case (rr_commit s t sn)
  then show ?case using removeFromHistory_run by blast
next
  case (rr_scoreboard s sb)
  then show ?case by (simp add: rename_inv_scoreboard)
qed

text \<open>The configuration and the instructions of the concrete runs below: one thread, two
  architectural and five physical integer registers, two physical registers of every other
  class.\<close>

definition ex_cfg :: rename_cfg where
  "ex_cfg = \<lparr>enableMoveElimination = True, enableConstantFolding = False,
     enableMovImmElimination = True, renameWidth = 2\<rparr>"

definition ex_phys :: "reg_class \<Rightarrow> nat" where
  "ex_phys c = (if c = IntRegClass then 5 else 2)"

definition ex_arch :: "reg_class \<Rightarrow> nat" where
  "ex_arch c = (if c = IntRegClass then 2 else 0)"

definition ex_inst :: "nat \<Rightarrow> nat \<Rightarrow> nat \<Rightarrow> bool \<Rightarrow> rename_inst" where
  "ex_inst sn d r mov = \<lparr>ri_seqNum = sn, ri_srcs = [RegId IntRegClass r],
     ri_dests = [(RegId IntRegClass d, 0)],
     ri_numTypedDest = (\<lambda>c. if c = IntRegClass then 1 else 0),
     ri_isMov = mov, ri_isAddImm = False, ri_imm = 0, ri_squashed = False\<rparr>"

definition ex_state :: rename_state where
  "ex_state = the (init_rename 1 ex_phys ex_arch)"

lemma ex_init: "init_rename 1 ex_phys ex_arch = Some ex_state"
proof -
  have "\<not> Option.is_none (init_rename 1 ex_phys ex_arch)"
    by code_simp
  then show ?thesis
    by (simp add: ex_state_def Option.is_none_def)
qed

section \<open>Squash and commit on reachable states\<close>

lemma inv_counts:
  assumes "rename_inv n U s" and "rename_inv n U s'" and "renameMaps s' = renameMaps s"
    and "historyBuffer s' = historyBuffer s"
  shows "\<not> isFixedMapping p \<Longrightarrow> numRef (pmeta s' p) = numRef (pmeta s p)"
    and "c \<in> set array_classes \<Longrightarrow> set (freeLists s' c) = set (freeLists s c)"
proof -
  show num: "numRef (pmeta s' p) = numRef (pmeta s p)" if "\<not> isFixedMapping p" for p
    using assms that by (simp add: rename_inv_def refs_ok_def refs_def)
  have "p \<in> set (freeLists x c) \<longleftrightarrow> pclass p = c \<and> p \<in> U \<and> numRef (pmeta x p) = 0"
    if "c \<in> set array_classes" "free_ok U x" for x p
    using that not_fixed_iff [of p] by (cases "pclass p = c") (auto simp: free_ok_def)
  then show "c \<in> set array_classes \<Longrightarrow> set (freeLists s' c) = set (freeLists s c)"
    using assms(1,2) num not_fixed_iff by (auto simp: rename_inv_def)
qed

lemma squash_undoes_extension:
  assumes inv: "rename_inv n U s" and inv': "rename_inv n U s'" and "t < n"
    and ext: "extends t (\<lambda>k. sn < k) s s'"
    and old: "\<forall>h\<in>set (historyBuffer s t). instSeqNum h \<le> sn"
  shows "\<exists>s''. doSquash sn t s' = Some s'' \<and> rename_inv n U s'' \<and>
    renameMaps s'' = renameMaps s \<and> historyBuffer s'' = historyBuffer s"
proof -
  obtain hs where hs: "historyBuffer s' = (historyBuffer s)(t := hs @ historyBuffer s t)"
    "\<forall>h\<in>set hs. sn < instSeqNum h" "\<forall>u. u \<noteq> t \<longrightarrow> renameMaps s' u = renameMaps s u"
    "rollback hs (renameMaps s' t) = renameMaps s t"
    using ext by (auto simp: extends_def)
  have "takeWhile (\<lambda>h. sn < instSeqNum h) (historyBuffer s t) = []"
    using old by (cases "historyBuffer s t") auto
  moreover have "dropWhile (\<lambda>h. sn < instSeqNum h) (historyBuffer s t) = historyBuffer s t"
    using old by (cases "historyBuffer s t") auto
  ultimately show ?thesis
    using doSquash_run [OF inv' \<open>t < n\<close>, of sn] hs by (auto simp: fun_eq_iff)
qed

lemma renameInsts_extends:
  assumes "rename_inv n U s" and "t < n" and "list_all wf_rename_inst is" and "in_order t is s"
    and "renameInsts cfg t is s = Some (os, s')" and "\<forall>i\<in>set is. sn < ri_seqNum i"
  shows "rename_inv n U s'" and "extends t (\<lambda>k. sn < k) s s'"
  using renameInsts_run [OF assms(1-5)] assms(6) by (auto elim: extends_mono)

text \<open>
  C3: Squashing undoes renaming. If a group of instructions younger than \<open>sn\<close> was renamed,
  then \<open>doSquash\<close> up to \<open>sn\<close> runs without a failed assertion and gives back the rename
  maps and the history of every thread, the reference count of every renameable physical
  register, and the content of every free list.
\<close>

theorem squash_restores:
  assumes "rename_reach cfg n numPhys numArch s" and "t < n" and "list_all wf_rename_inst is"
    and "in_order t is s" and "renameInsts cfg t is s = Some (os, s')"
    and "\<forall>i\<in>set is. sn < ri_seqNum i" and "\<forall>h\<in>set (historyBuffer s t). instSeqNum h \<le> sn"
  shows "\<exists>s''. doSquash sn t s' = Some s'' \<and>
    renameMaps s'' = renameMaps s \<and> historyBuffer s'' = historyBuffer s \<and>
    (\<forall>p. \<not> isFixedMapping p \<longrightarrow> numRef (pmeta s'' p) = numRef (pmeta s p)) \<and>
    (\<forall>c\<in>set array_classes. set (freeLists s'' c) = set (freeLists s c))"
proof -
  note inv = reach_inv [OF assms(1)]
  note ext = renameInsts_extends [OF inv assms(2-6)]
  show ?thesis
    using squash_undoes_extension [OF inv ext(1) assms(2) ext(2) assms(7)] inv_counts [OF inv]
    by blast
qed

definition ex_insts :: "rename_inst list" where
  "ex_insts = [ex_inst 1 0 1 False, ex_inst 2 1 0 True]"

definition ex_out :: "rename_out list \<times> rename_state" where
  "ex_out = the (renameInsts ex_cfg 0 ex_insts ex_state)"

lemma ex_run: "renameInsts ex_cfg 0 ex_insts ex_state = Some (fst ex_out, snd ex_out)"
proof -
  have "\<not> Option.is_none (renameInsts ex_cfg 0 ex_insts ex_state)"
    by code_simp
  then show ?thesis
    by (simp add: ex_out_def Option.is_none_def)
qed

lemma ex_history: "historyBuffer ex_state 0 = []"
  by code_simp

lemma ex_reach: "rename_reach ex_cfg 1 ex_phys ex_arch ex_state"
  by (rule rr_init [OF ex_init])

lemma ex_insts_ok:
  "list_all wf_rename_inst ex_insts" "in_order 0 ex_insts ex_state"
  by (simp_all add: ex_insts_def ex_inst_def wf_rename_inst_def wf_dest_def in_order_def ex_history)

theorem squash_restores_witness:
  "\<exists>s''. doSquash 0 0 (snd ex_out) = Some s'' \<and> renameMaps s'' = renameMaps ex_state \<and>
     (\<forall>c\<in>set array_classes. set (freeLists s'' c) = set (freeLists ex_state c))"
  using squash_restores [OF ex_reach _ ex_insts_ok ex_run, of 0]
  by (auto simp: ex_history ex_insts_def ex_inst_def)

text \<open>
  C4: No register is lost and none is freed while it is in use. In every reachable state a
  physical register is on its free list exactly when no thread maps an architectural
  register to it and no history entry holds it as a mapping that a squash may still
  restore; no free list holds a register twice.
\<close>

theorem free_iff_unreferenced:
  assumes "rename_reach cfg n numPhys numArch s" and "p \<in> phys_regs numPhys"
  shows "(p \<in> set (freeLists s (pclass p)) \<longleftrightarrow>
      (\<forall>t<n. (\<forall>v\<in>set (renameMaps s t (pclass p)). PhyReg v \<noteq> p) \<and>
             (\<forall>h\<in>set (historyBuffer s t). PhyReg (prevPhysReg h) = p \<longrightarrow> PhyReg (newPhysReg h) = p)))
    \<and> distinct (freeLists s (pclass p))"
proof -
  note inv = reach_inv [OF assms(1)]
  have nf: "\<not> isFixedMapping p"
    using assms(2) by (simp add: not_fixed_iff phys_regs_def)
  have "p \<in> set (freeLists s (pclass p)) \<longleftrightarrow> refs n s p = 0"
    using inv nf assms(2) by (simp add: rename_inv_def free_ok_def refs_ok_def)
  moreover have "refs n s p = 0 \<longleftrightarrow>
      (\<forall>t<n. mrefs p (renameMaps s t) = 0 \<and> hrefs p (historyBuffer s t) = 0)"
    by (auto simp: refs_def)
  ultimately show ?thesis
    using inv by (auto simp: mrefs_def hrefs_def occ_eq_0_iff rename_inv_def free_ok_def)
qed

theorem free_iff_unreferenced_witness:
  "PhysReg IntRegClass 4 \<in> set (freeLists ex_state IntRegClass) \<and>
   PhysReg IntRegClass 0 \<notin> set (freeLists ex_state IntRegClass)"
proof -
  have maps: "map PhyReg (renameMaps ex_state 0 IntRegClass) =
      [PhysReg IntRegClass 0, PhysReg IntRegClass 1]"
    by code_simp
  have "\<forall>x\<in>set (map PhyReg (renameMaps ex_state 0 IntRegClass)). x \<noteq> PhysReg IntRegClass 4"
    and "\<exists>x\<in>set (map PhyReg (renameMaps ex_state 0 IntRegClass)). x = PhysReg IntRegClass 0"
    unfolding maps by simp_all
  then show ?thesis
    using free_iff_unreferenced [OF ex_reach, of "PhysReg IntRegClass 4"]
      free_iff_unreferenced [OF ex_reach, of "PhysReg IntRegClass 0"]
    by (auto simp: phys_regs_def ex_phys_def array_classes_def ex_history)
qed

text \<open>Committing up to a sequence number removes exactly the history entries up to it.\<close>

lemma commit_releases:
  assumes "rename_reach cfg n numPhys numArch s" and "t < n"
  shows "renameMaps (removeFromHistory sn t s) = renameMaps s \<and>
    historyBuffer (removeFromHistory sn t s) t =
      filter (\<lambda>h. sn < instSeqNum h) (historyBuffer s t) \<and>
    (\<forall>p. \<not> isFixedMapping p \<longrightarrow>
       numRef (pmeta (removeFromHistory sn t s) p) = refs n (removeFromHistory sn t s) p)"
  using removeFromHistory_run [OF reach_inv [OF assms(1)] assms(2), of sn]
  by (simp add: rename_inv_def refs_ok_def)

end
