(* ===== verification/RenameExec.thy ===== *)
theory RenameExec
  imports RenameProps
begin

text \<open>
  Renaming against the architectural meaning of instructions. The values an instruction
  computes are a parameter \<open>sem\<close> (the generated \<open>execute\<close> methods); the renamed
  instructions run on the physical register file of \<open>cpu/o3/regfile.hh\<close>, the original
  ones on architectural registers. The theory shows that \<open>canRename\<close> suffices for
  renaming to run, that both executions agree, also with move and immediate elimination,
  and that a squash finds the values of the squashed-to point intact.
\<close>

section \<open>Renaming runs when canRename holds\<close>

definition no_pins :: "rename_state \<Rightarrow> bool" where
  "no_pins s \<longleftrightarrow> (\<forall>p. numPinnedWrites (pmeta s p) \<le> 0)"

definition in_range :: "(reg_class \<Rightarrow> nat) \<Rightarrow> reg_id \<Rightarrow> bool" where
  "in_range numArch r \<longleftrightarrow> (isRenameable r \<longrightarrow> regIdx r < numArch (regClass r))"

definition map_lengths :: "(reg_class \<Rightarrow> nat) \<Rightarrow> thread_id \<Rightarrow> rename_state \<Rightarrow> bool" where
  "map_lengths numArch t s \<longleftrightarrow>
     (\<forall>c\<in>set array_classes. length (renameMaps s t c) = numArch c)"

text \<open>
  What the static instruction says is consistent: operands are architectural registers of
  the ISA, the per-class destination counts are those of the destinations, and a move or
  add-immediate has a source.
\<close>

definition static_ok :: "(reg_class \<Rightarrow> nat) \<Rightarrow> rename_inst \<Rightarrow> bool" where
  "static_ok numArch i \<longleftrightarrow>
     list_all (in_range numArch) (ri_srcs i) \<and>
     list_all (\<lambda>d. in_range numArch (fst d) \<and> snd d = 0) (ri_dests i) \<and>
     list_all (\<lambda>c. ri_numTypedDest i c = occ (\<lambda>d. regClass (fst d) = c) (ri_dests i)) array_classes \<and>
     (ri_isMov i \<or> ri_isAddImm i \<longrightarrow> ri_srcs i \<noteq> [])"

lemma lookup_in_range:
  assumes "map_lengths numArch t s" and "in_range numArch r"
  shows "\<exists>v. lookup t r s = Some v"
proof (cases "isRenameable r")
  case True
  then have "regIdx r < length (renameMaps s t (regClass r))"
    using assms by (simp add: map_lengths_def in_range_def renameable_iff)
  then show ?thesis by (simp add: lookup_def)
next
  case False
  then show ?thesis by (auto simp: lookup_def isRenameable_def)
qed

lemma renameSrcRegs_possible:
  assumes "map_lengths numArch t s" and "list_all (in_range numArch) rs"
  shows "\<exists>vs. renameSrcRegs t rs s = Some vs"
  using assms(2)
proof (induction rs)
  case Nil
  then show ?case by simp
next
  case (Cons r rs)
  then obtain v where "lookup t r s = Some v"
    using lookup_in_range [OF assms(1)] by auto
  with Cons show ?case by auto
qed

lemma bypass_reg_possible:
  assumes "map_lengths numArch t s" and "static_ok numArch i"
  shows "bypass_reg cfg t i s \<noteq> None"
proof (cases "ri_isMov i \<or> ri_isAddImm i")
  case True
  then obtain r rs where r: "ri_srcs i = r # rs" "in_range numArch r"
    using assms(2) by (cases "ri_srcs i") (auto simp: static_ok_def)
  then obtain v where "lookup_src0 t i s = Some v"
    using lookup_in_range [OF assms(1)] by (auto simp: lookup_src0_def)
  then show ?thesis by (auto simp: bypass_reg_def)
next
  case False
  then show ?thesis by (simp add: bypass_reg_def)
qed

definition uses :: "reg_class \<Rightarrow> reg_id \<times> int \<Rightarrow> nat" where
  "uses c d = of_bool (regClass (fst d) = c)"

lemma simple_rename_possible:
  assumes "isRenameable r" and "regIdx r < length (renameMaps s t (regClass r))" and "no_pins s"
    and "freeLists s (regClass r) \<noteq> []"
  shows "\<exists>x s1. simple_rename t r 0 b s = Some (x, s1) \<and> no_pins s1 \<and>
    (\<forall>u c. length (renameMaps s1 u c) = length (renameMaps s u c)) \<and>
    (\<forall>c. length (freeLists s c) \<le> length (freeLists s1 c) + of_bool (regClass r = c))"
proof (cases b)
  case (Some v)
  then show ?thesis
    using assms
    by (auto simp: simple_rename_def Let_def isRenameable_def map_write_def no_pins_def incRef_def)
next
  case None
  obtain p q where q: "sfl_getReg (freeLists s (regClass r)) = Some (p, q)"
    using sfl.take_possible [of "freeLists s (regClass r)"] assms(4) by (auto simp: sfl_numFreeRegs_def)
  moreover have "\<not> 0 < numPinnedWrites (pmeta s (PhyReg (renameMaps s t (regClass r) ! regIdx r)))"
    using assms(3) by (simp add: no_pins_def not_less)
  ultimately show ?thesis
    using assms(1-3) None sfl.take_size [OF q]
    by (auto simp: simple_rename_def Let_def isRenameable_def map_write_def no_pins_def
        sfl_numFreeRegs_def ufl_getReg_def setNumPinnedWrites_def setNumPinnedWritesToComplete_def)
qed

lemma renameDestReg_possible:
  assumes ml: "map_lengths numArch t s" and np: "no_pins s" and so: "static_ok numArch i"
    and d: "in_range numArch (fst d)" "snd d = 0"
    and room: "\<forall>c\<in>set array_classes. uses c d + k c \<le> length (freeLists s c)"
  shows "\<exists>x s'. renameDestReg cfg t i d s = Some (x, s') \<and> map_lengths numArch t s' \<and> no_pins s' \<and>
    (\<forall>c\<in>set array_classes. k c \<le> length (freeLists s' c))"
proof -
  obtain b f where b: "bypass_reg cfg t i s = Some (b, f)"
    using bypass_reg_possible [OF ml so, of cfg] by auto
  have "\<exists>x s1. unified_rename t (fst d) (snd d) b s = Some (x, s1) \<and> map_lengths numArch t s1 \<and>
    no_pins s1 \<and> (\<forall>c\<in>set array_classes. k c \<le> length (freeLists s1 c))"
  proof (cases "isRenameable (fst d)")
    case True
    have c: "regClass (fst d) \<in> set array_classes"
      using True by (simp add: renameable_iff)
    then have i: "regIdx (fst d) < length (renameMaps s t (regClass (fst d)))"
      using ml d(1) True by (simp add: map_lengths_def in_range_def)
    have "freeLists s (regClass (fst d)) \<noteq> []"
      using bspec [OF room c] by (auto simp: uses_def)
    from simple_rename_possible [OF True i np this, of b] obtain x s1
      where r: "simple_rename t (fst d) 0 b s = Some (x, s1)" "no_pins s1"
        "\<forall>u c. length (renameMaps s1 u c) = length (renameMaps s u c)"
        and fl: "\<forall>c. length (freeLists s c) \<le> length (freeLists s1 c) + of_bool (regClass (fst d) = c)"
      by blast
    have "k c \<le> length (freeLists s1 c)" if "c \<in> set array_classes" for c
      using bspec [OF room that] spec [OF fl, of c] by (simp add: uses_def split: if_splits)
    then show ?thesis
      using True d(2) ml r by (simp add: unified_rename_def map_lengths_def)
  next
    case False
    then obtain v where "lookup t (fst d) s = Some v"
      by (auto simp: lookup_def isRenameable_def)
    then show ?thesis
      using False ml np room by (auto simp: unified_rename_def)
  qed
  then obtain x s1 where u: "unified_rename t (fst d) (snd d) b s = Some (x, s1)"
    and s1: "map_lengths numArch t s1" "no_pins s1" "\<forall>c\<in>set array_classes. k c \<le> length (freeLists s1 c)"
    by blast
  then show ?thesis
    using b by (cases x) (auto simp: renameDestReg_def Let_def map_lengths_def no_pins_def)
qed

lemma renameDestRegs_possible:
  assumes "map_lengths numArch t s" and "no_pins s" and "static_ok numArch i"
    and "list_all (\<lambda>d. in_range numArch (fst d) \<and> snd d = 0) ds"
    and "\<forall>c\<in>set array_classes. occ (\<lambda>d. regClass (fst d) = c) ds + k c \<le> length (freeLists s c)"
  shows "\<exists>xs s'. renameDestRegs cfg t i ds s = Some (xs, s') \<and> map_lengths numArch t s' \<and> no_pins s' \<and>
    (\<forall>c\<in>set array_classes. k c \<le> length (freeLists s' c))"
  using assms
proof (induction ds arbitrary: s)
  case Nil
  then show ?case by simp
next
  case (Cons d ds)
  have "\<forall>c\<in>set array_classes. uses c d + (occ (\<lambda>d. regClass (fst d) = c) ds + k c) \<le> length (freeLists s c)"
    using Cons.prems(5) by (auto simp: uses_def)
  from renameDestReg_possible [OF Cons.prems(1-3) _ _ this, of cfg] Cons.prems(4)
  obtain x s1 where "renameDestReg cfg t i d s = Some (x, s1)" "map_lengths numArch t s1" "no_pins s1"
    "\<forall>c\<in>set array_classes. occ (\<lambda>d. regClass (fst d) = c) ds + k c \<le> length (freeLists s1 c)"
    by auto
  with Cons.IH [of s1] Cons.prems(3,4) show ?case by fastforce
qed

lemma renameInst_possible:
  assumes "map_lengths numArch t s" and "no_pins s" and so: "static_ok numArch i"
    and room: "\<forall>c\<in>set array_classes. ri_numTypedDest i c + k c \<le> length (freeLists s c)"
  shows "\<exists>out s'. renameInst cfg t i s = Some (out, s') \<and> map_lengths numArch t s' \<and> no_pins s' \<and>
    (\<forall>c\<in>set array_classes. k c \<le> length (freeLists s' c))"
proof -
  have "map_canRename i s"
    using room
    by (fastforce simp: map_canRename_def list_all_iff numFreeEntries_def ufl_numFreeRegs_def
        sfl_numFreeRegs_def)
  moreover obtain vs where "renameSrcRegs t (ri_srcs i) s = Some vs"
    using renameSrcRegs_possible [OF assms(1)] so by (auto simp: static_ok_def)
  moreover have "\<forall>c\<in>set array_classes.
      occ (\<lambda>d. regClass (fst d) = c) (ri_dests i) + k c \<le> length (freeLists s c)"
    using so room by (auto simp: static_ok_def list_all_iff)
  then obtain xs s' where "renameDestRegs cfg t i (ri_dests i) s = Some (xs, s')"
    "map_lengths numArch t s'" "no_pins s'" "\<forall>c\<in>set array_classes. k c \<le> length (freeLists s' c)"
    using renameDestRegs_possible [OF assms(1,2) so, of "ri_dests i" k cfg] so
    by (auto simp: static_ok_def)
  ultimately show ?thesis
    by (auto simp: renameInst_def)
qed

definition typed_dests :: "rename_inst list \<Rightarrow> reg_class \<Rightarrow> nat" where
  "typed_dests is c = sum_list (map (\<lambda>i. ri_numTypedDest i c) (filter (\<lambda>i. \<not> ri_squashed i) is))"

lemma renameInsts_possible:
  assumes "map_lengths numArch t s" and "no_pins s"
    and "\<forall>i\<in>set is. \<not> ri_squashed i \<longrightarrow> static_ok numArch i"
    and "\<forall>c\<in>set array_classes. typed_dests is c \<le> length (freeLists s c)"
  shows "\<exists>os s'. renameInsts cfg t is s = Some (os, s')"
  using assms
proof (induction "is" arbitrary: s)
  case Nil
  then show ?case by simp
next
  case (Cons i "is")
  show ?case
  proof (cases "ri_squashed i")
    case True
    then show ?thesis
      using Cons.IH [OF Cons.prems(1,2)] Cons.prems(3,4) by (simp add: typed_dests_def)
  next
    case False
    then have "\<forall>c\<in>set array_classes. ri_numTypedDest i c + typed_dests is c \<le> length (freeLists s c)"
      using Cons.prems(4) by (simp add: typed_dests_def)
    from renameInst_possible [OF Cons.prems(1,2) _ this, of cfg] Cons.prems(3) False
    obtain out s1 where "renameInst cfg t i s = Some (out, s1)" "map_lengths numArch t s1" "no_pins s1"
      "\<forall>c\<in>set array_classes. typed_dests is c \<le> length (freeLists s1 c)"
      by auto
    with Cons.IH [of s1] Cons.prems(3) False show ?thesis by auto
  qed
qed

text \<open>The lengths of the maps never change.\<close>

lemma length_undo_map [simp]: "length (undo_map h m c) = length (m c)"
  by (simp add: undo_map_def)

lemma length_rollback [simp]: "length (rollback hs m c) = length (m c)"
  by (induction hs arbitrary: m) simp_all

lemma extends_lengths:
  assumes "extends t Q s s'"
  shows "length (renameMaps s' u c) = length (renameMaps s u c)"
proof (cases "u = t")
  case True
  obtain hs where "rollback hs (renameMaps s' t) = renameMaps s t"
    using assms by (auto simp: extends_def)
  then show ?thesis
    using True length_rollback [of hs "renameMaps s' t" c] by simp
next
  case False
  then show ?thesis using assms by (auto simp: extends_def)
qed

lemma init_entries_lengths:
  "init_entries trs s = Some s' \<Longrightarrow> length (renameMaps s' u c) = length (renameMaps s u c)"
proof (induction trs arbitrary: s)
  case Nil
  then show ?case by simp
next
  case (Cons x xs)
  then obtain s1 where s1: "init_entry x s = Some s1" "init_entries xs s1 = Some s'"
    by (auto split: option.splits)
  then have "length (renameMaps s1 u c) = length (renameMaps s u c)"
    by (auto simp: init_entry_def setEntry_def map_write_def ufl_getReg_Some
        split: option.splits if_splits)
  then show ?case using Cons.IH [OF s1(2)] by simp
qed

lemma reach_lengths:
  "rename_reach cfg n numPhys numArch s \<Longrightarrow> u < n \<Longrightarrow> map_lengths numArch u s"
proof (induction rule: rename_reach.induct)
  case (rr_init s)
  then show ?case
    by (simp add: map_lengths_def init_rename_def init_entries_lengths emptyMaps_def)
next
  case (rr_rename s t "is" os s')
  then have "extends t (\<lambda>k. k \<in> set (map ri_seqNum is)) s s'"
    using renameInsts_run [OF reach_inv] by blast
  then show ?case
    using rr_rename by (simp add: map_lengths_def extends_lengths)
next
  case (rr_squash s t sn s')
  then show ?case
    using doSquash_run [OF reach_inv, of cfg n numPhys numArch s t sn]
    by (auto simp: map_lengths_def)
next
  case (rr_commit s t sn)
  then show ?case
    using removeFromHistory_run [OF reach_inv] by (auto simp: map_lengths_def)
next
  case (rr_scoreboard s sb)
  then show ?case by (simp add: map_lengths_def)
qed

text \<open>
  C5: The stall check is sufficient. When \<open>canRename\<close> accepts the instructions buffered
  for a thread, \<open>renameInsts\<close> renames all of them: the assertion on the per-instruction
  check, the one on a non-empty free list and the map index checks all hold, however the
  demand is spread over the instructions. (Instructions carry no pinned writes.)
\<close>

theorem canRename_sufficient:
  assumes "rename_reach cfg n numPhys numArch s" and "t < n" and "no_pins s"
    and "\<forall>i\<in>set is. \<not> ri_squashed i \<longrightarrow> static_ok numArch i"
    and "canRename cfg is s"
  shows "\<exists>os s'. renameInsts cfg t is s = Some (os, s')"
proof (rule renameInsts_possible [OF reach_lengths [OF assms(1,2)] assms(3,4)])
  have "typed_dests is c \<le> demand cfg is c" for c
    by (simp add: typed_dests_def demand_def Let_def)
  then show "\<forall>c\<in>set array_classes. typed_dests is c \<le> length (freeLists s c)"
    using assms(5)
    by (auto simp: canRename_def list_all_iff numFreeEntries_def ufl_numFreeRegs_def
        sfl_numFreeRegs_def not_less intro: order_trans)
qed

lemma init_no_pins:
  assumes "init_rename n numPhys numArch = Some s"
  shows "no_pins s"
proof -
  have "no_pins s'" if "no_pins s0" "init_entries trs s0 = Some s'" for trs s0 s'
    using that
  proof (induction trs arbitrary: s0)
    case Nil
    then show ?case by simp
  next
    case (Cons x xs)
    then obtain s1 where s1: "init_entry x s0 = Some s1" "init_entries xs s1 = Some s'"
      by (auto split: option.splits)
    then have "no_pins s1"
      using Cons.prems(1)
      by (auto simp: init_entry_def setEntry_def map_write_def ufl_getReg_Some no_pins_def incRef_def
          split: option.splits if_splits)
    then show ?case using Cons.IH s1(2) by simp
  qed
  moreover have "no_pins (rename_state0 numPhys numArch)"
    by (simp add: no_pins_def rename_state0_def initPhysMeta_def)
  ultimately show ?thesis
    using assms by (auto simp: init_rename_def)
qed

lemma ex_static: "\<forall>i\<in>set ex_insts. static_ok ex_arch i"
  by (simp add: ex_insts_def ex_inst_def static_ok_def in_range_def ex_arch_def array_classes_def)

theorem canRename_sufficient_witness:
  "canRename ex_cfg ex_insts ex_state \<and>
   (\<exists>os s'. renameInsts ex_cfg 0 ex_insts ex_state = Some (os, s'))"
proof -
  have "canRename ex_cfg ex_insts ex_state"
    by code_simp
  then show ?thesis
    using canRename_sufficient [OF ex_reach _ init_no_pins [OF ex_init], of 0 ex_insts] ex_static
    by simp
qed

section \<open>Execution on physical and on architectural registers\<close>

type_synonym arch_state = "reg_id \<Rightarrow> regval"
type_synonym inst_sem = "rename_inst \<Rightarrow> regval list \<Rightarrow> regval list"

definition arch_read :: "arch_state \<Rightarrow> reg_id \<Rightarrow> regval" where
  "arch_read A r = (if isZeroReg r then 0 else A r)"

definition arch_write :: "reg_id \<Rightarrow> regval \<Rightarrow> arch_state \<Rightarrow> arch_state" where
  "arch_write r v A = (if isZeroReg r then A else A(r := v))"

definition arch_writes :: "(reg_id \<times> int) list \<Rightarrow> regval list \<Rightarrow> arch_state \<Rightarrow> arch_state" where
  "arch_writes ds vs A = fold (\<lambda>(d, v). arch_write (fst d) v) (zip ds vs) A"

definition arch_exec :: "inst_sem \<Rightarrow> rename_inst \<Rightarrow> arch_state \<Rightarrow> arch_state" where
  "arch_exec sem i A = arch_writes (ri_dests i) (sem i (map (arch_read A) (ri_srcs i))) A"

text \<open>An eliminated or folded instruction is not executed; any other one reads its renamed
  sources and writes its renamed destinations.\<close>

definition phys_writes ::
  "(virt_reg \<times> virt_reg) list \<Rightarrow> regval list \<Rightarrow> (phys_reg \<Rightarrow> regval) \<Rightarrow> (phys_reg \<Rightarrow> regval)" where
  "phys_writes ds vs rf = fold (\<lambda>(d, v). setPhysReg (PhyReg (fst d)) v) (zip ds vs) rf"

definition phys_exec ::
  "inst_sem \<Rightarrow> rename_inst \<Rightarrow> rename_out \<Rightarrow> (phys_reg \<Rightarrow> regval) \<Rightarrow> (phys_reg \<Rightarrow> regval)" where
  "phys_exec sem i out rf =
     (if ro_folded out then rf
      else phys_writes (ro_dests out) (sem i (map (\<lambda>(v, _). getVirtReg rf v) (ro_srcs out))) rf)"

fun phys_run ::
  "inst_sem \<Rightarrow> rename_inst list \<Rightarrow> rename_out list \<Rightarrow> (phys_reg \<Rightarrow> regval) \<Rightarrow> (phys_reg \<Rightarrow> regval)" where
  "phys_run sem (i # is) (out # os) rf = phys_run sem is os (phys_exec sem i out rf)"
| "phys_run sem _ _ rf = rf"

definition arch_run :: "inst_sem \<Rightarrow> rename_inst list \<Rightarrow> arch_state \<Rightarrow> arch_state" where
  "arch_run sem is A = fold (arch_exec sem) is A"

definition live_insts :: "rename_inst list \<Rightarrow> rename_inst list" where
  "live_insts is = filter (\<lambda>i. \<not> ri_squashed i) is"

text \<open>
  The relation between the two states: every architectural register has the value of the
  virtual register it is mapped to. Only additions occur as operands of the map.
\<close>

definition ie_add :: "virt_reg \<Rightarrow> bool" where
  "ie_add v \<longleftrightarrow> (case IEOper v of None \<Rightarrow> True | Some op \<Rightarrow> ieType op = IE_ADD)"

definition sim :: "thread_id \<Rightarrow> rename_state \<Rightarrow> (phys_reg \<Rightarrow> regval) \<Rightarrow> arch_state \<Rightarrow> bool" where
  "sim t s rf A \<longleftrightarrow>
     (\<forall>c\<in>set array_classes. \<forall>i<length (renameMaps s t c).
        getVirtReg rf (renameMaps s t c ! i) = A (RegId c i) \<and> ie_add (renameMaps s t c ! i))"

text \<open>
  What the semantics must satisfy: one value per destination, a move copies its source, and
  an add-immediate adds its immediate to its first source.
\<close>

definition sem_ok :: "inst_sem \<Rightarrow> rename_inst \<Rightarrow> bool" where
  "sem_ok sem i \<longleftrightarrow>
     (\<forall>vs. length (sem i vs) = length (ri_dests i)) \<and>
     (ri_isMov i \<longrightarrow> (\<forall>v vs. sem i (v # vs) = [v])) \<and>
     (ri_isAddImm i \<longrightarrow> (\<forall>v vs. sem i (v # vs) = [v + word_of_int (ri_imm i)]))"

definition exec_ok :: "inst_sem \<Rightarrow> rename_inst \<Rightarrow> bool" where
  "exec_ok sem i \<longleftrightarrow>
     sem_ok sem i \<and> - (2 ^ 31) \<le> ri_imm i \<and> ri_imm i < 2 ^ 31 \<and>
     list_all (\<lambda>r. regClass r \<noteq> MiscRegClass) (ri_srcs i) \<and>
     list_all (\<lambda>d. regClass (fst d) \<noteq> MiscRegClass) (ri_dests i)"

section \<open>One destination\<close>

lemma sim_maps: "renameMaps s' t = renameMaps s t \<Longrightarrow> sim t s' rf A = sim t s rf A"
  by (simp add: sim_def)

lemma sim_lookup:
  assumes "sim t s rf A" and "lookup t r s = Some v" and "regClass r \<noteq> MiscRegClass"
  shows "getVirtReg rf v = arch_read A r" and "ie_add v"
proof -
  have "getVirtReg rf v = arch_read A r \<and> ie_add v"
  proof (cases "isZeroReg r")
    case True
    then show ?thesis
      using assms(2) by (auto simp: lookup_def isZeroReg_def arch_read_def getPhysReg_def ie_add_def)
  next
    case False
    then have "regClass r \<in> set array_classes"
      using assms(3) by (simp add: isZeroReg_def flip: renameable_iff add: isRenameable_def)
    moreover have "regIdx r < length (renameMaps s t (regClass r))"
      and "v = renameMaps s t (regClass r) ! regIdx r"
      using assms(2,3) False by (auto simp: lookup_def isZeroReg_def split: if_splits)
    ultimately show ?thesis
      using assms(1) False by (simp add: sim_def arch_read_def)
  qed
  then show "getVirtReg rf v = arch_read A r" and "ie_add v" by simp_all
qed

lemma renameSrcRegs_sim:
  assumes "sim t s rf A" and "renameSrcRegs t rs s = Some vs"
    and "list_all (\<lambda>r. regClass r \<noteq> MiscRegClass) rs"
  shows "map (\<lambda>(v, _). getVirtReg rf v) vs = map (arch_read A) rs"
  using assms(2,3)
proof (induction rs arbitrary: vs)
  case Nil
  then show ?case by simp
next
  case (Cons r rs)
  then show ?case
    using sim_lookup(1) [OF assms(1)] by (auto split: option.splits)
qed

lemma sim_write:
  assumes "sim t s rf A" and "isRenameable r" and "rename_effect U t r s new prev s1"
    and val: "getVirtReg rf' new = v" "ie_add new"
    and same: "\<And>c e. c \<in> set array_classes \<Longrightarrow> e \<in> set (renameMaps s t c) \<Longrightarrow>
      getVirtReg rf' e = getVirtReg rf e"
  shows "sim t s1 rf' (A(r := v))"
  unfolding sim_def
proof (intro ballI allI impI)
  fix c i
  assume c: "c \<in> set array_classes" and i: "i < length (renameMaps s1 t c)"
  have m: "renameMaps s1 t = (renameMaps s t)
      (regClass r := (renameMaps s t (regClass r))[regIdx r := new])"
    and ir: "regIdx r < length (renameMaps s t (regClass r))"
    using assms(3) by (auto simp: rename_effect_def)
  have i': "i < length (renameMaps s t c)"
    using i by (simp add: m split: if_splits)
  show "getVirtReg rf' (renameMaps s1 t c ! i) = (A(r := v)) (RegId c i) \<and>
      ie_add (renameMaps s1 t c ! i)"
  proof (cases "r = RegId c i")
    case True
    then show ?thesis using val ir by (auto simp: m)
  next
    case False
    then have "renameMaps s1 t c ! i = renameMaps s t c ! i"
      by (cases r) (auto simp: m nth_list_update)
    moreover have "getVirtReg rf' (renameMaps s t c ! i) = getVirtReg rf (renameMaps s t c ! i)"
      using same c nth_mem [OF i'] by blast
    ultimately show ?thesis
      using False assms(1) c i' by (auto simp: sim_def)
  qed
qed

definition used :: "rename_state \<Rightarrow> phys_reg \<Rightarrow> bool" where
  "used s p \<longleftrightarrow> isFixedMapping p \<or> 0 < numRef (pmeta s p)"

lemma mapped_used:
  assumes "rename_inv n U s" and "t < n" and "c \<in> set array_classes"
    and "e \<in> set (renameMaps s t c)"
  shows "used s (PhyReg e)"
proof (cases "pclass (PhyReg e) = InvalidRegClass")
  case True
  then show ?thesis by (simp add: used_def isFixedMapping_def)
next
  case False
  moreover have "isRenameable (RegId c 0)"
    using assms(3) by (simp add: renameable_iff)
  ultimately show ?thesis
    using live_mapped(1) [OF assms(1,2), of "RegId c 0" e] assms(4) by (simp add: used_def)
qed

text \<open>The effect of renaming one destination of an instruction that is executed.\<close>

lemma unified_rename_plain:
  assumes inv: "rename_inv n U s" and "t < n" and np: "no_pins s"
    and cls: "regClass r \<noteq> MiscRegClass"
    and run: "unified_rename t r 0 None s = Some ((new, prev), s1)"
    and sim: "sim t s rf A"
  shows "sim t s1 (setPhysReg (PhyReg new) v rf) (arch_write r v A)"
    and "used s p \<Longrightarrow> setPhysReg (PhyReg new) v rf p = rf p"
    and "used s p \<Longrightarrow> used s1 p"
proof -
  have "sim t s1 (setPhysReg (PhyReg new) v rf) (arch_write r v A) \<and>
    (\<forall>p. used s p \<longrightarrow> setPhysReg (PhyReg new) v rf p = rf p \<and> used s1 p)"
  proof (cases "isRenameable r")
    case False
    then have "regClass r = InvalidRegClass"
      using cls by (simp add: isRenameable_def)
    then show ?thesis
      using run sim
      by (auto simp: unified_rename_def isRenameable_def lookup_def setPhysReg_def arch_write_def
          isZeroReg_def)
  next
    case True
    have "\<not> 0 < numPinnedWrites (pmeta s (PhyReg (renameMaps s t (regClass r) ! regIdx r)))"
      using np by (simp add: no_pins_def not_less)
    moreover have "simple_rename t r 0 None s = Some ((new, prev), s1)"
      using run True by (simp add: unified_rename_def)
    ultimately have eff: "rename_effect U t r s new prev s1" and fresh: "numRef (pmeta s (PhyReg new)) = 0"
      and ie: "IEOper new = None" and pc: "pclass (PhyReg new) = regClass r"
      using rename_effect_fresh [OF inv \<open>t < n\<close> True] by blast+
    have nf: "\<not> isFixedMapping (PhyReg new)"
      using True pc by (auto simp: isFixedMapping_def isRenameable_def)
    then have un: "\<not> used s (PhyReg new)"
      using fresh by (simp add: used_def)
    have keep: "getVirtReg (setPhysReg (PhyReg new) v rf) e = getVirtReg rf e"
      if "c \<in> set array_classes" "e \<in> set (renameMaps s t c)" for c e
      using mapped_used [OF inv \<open>t < n\<close> that] un by (intro getVirtReg_setPhysReg_other) auto
    have "sim t s1 (setPhysReg (PhyReg new) v rf) (A(r := v))"
      using True pc ie keep
      by (intro sim_write [OF sim True eff])
        (auto simp: getPhysReg_setPhysReg isRenameable_def ie_add_def)
    moreover have "used s1 p" if "used s p" for p
      using that eff by (auto simp: used_def rename_effect_def)
    ultimately show ?thesis
      using un True by (auto simp: setPhysReg_def arch_write_def isZeroReg_def isRenameable_def)
  qed
  then show "sim t s1 (setPhysReg (PhyReg new) v rf) (arch_write r v A)"
    and "used s p \<Longrightarrow> setPhysReg (PhyReg new) v rf p = rf p" and "used s p \<Longrightarrow> used s1 p"
    by blast+
qed

lemma unified_no_pins:
  "no_pins s \<Longrightarrow> unified_rename t r 0 b s = Some (x, s1) \<Longrightarrow> no_pins s1"
  by (auto simp: unified_rename_def simple_rename_def Let_def no_pins_def map_write_def incRef_def
      decrNumPinnedWrites_def setNumPinnedWrites_def setNumPinnedWritesToComplete_def
      ufl_getReg_Some not_less [symmetric] split: if_splits option.splits)

text \<open>The effect of renaming the destination of an eliminated instruction.\<close>

lemma unified_rename_bypass:
  assumes inv: "rename_inv n U s" and "t < n" and cls: "regClass r \<noteq> MiscRegClass"
    and run: "unified_rename t r 0 (Some b) s = Some ((new, prev), s1)"
    and ok: "isRenameable r \<Longrightarrow> bypass_ok t r b s" and sim: "sim t s rf A"
    and val: "getVirtReg rf b = v" "ie_add b"
  shows "sim t s1 rf (arch_write r v A)" and "used s p \<Longrightarrow> used s1 p"
proof -
  have "sim t s1 rf (arch_write r v A) \<and> (\<forall>p. used s p \<longrightarrow> used s1 p)"
  proof (cases "isRenameable r")
    case False
    then show ?thesis
      using run sim cls by (auto simp: unified_rename_def arch_write_def isZeroReg_def isRenameable_def)
  next
    case True
    have sr: "simple_rename t r 0 (Some b) s = Some ((new, prev), s1)"
      using run True by (simp add: unified_rename_def)
    note eff = rename_effect_bypass [OF inv \<open>t < n\<close> True ok [OF True] sr]
    have "new = b"
      using sr True by (auto simp: simple_rename_def Let_def isRenameable_def split: if_splits)
    then have "sim t s1 rf (A(r := v))"
      using val by (intro sim_write [OF sim True eff]) auto
    then show ?thesis
      using eff True
      by (auto simp: arch_write_def isZeroReg_def isRenameable_def used_def rename_effect_def)
  qed
  then show "sim t s1 rf (arch_write r v A)" and "used s p \<Longrightarrow> used s1 p"
    by blast+
qed

section \<open>Instructions\<close>

definition eliminated :: "rename_cfg \<Rightarrow> rename_inst \<Rightarrow> bool" where
  "eliminated cfg i \<longleftrightarrow>
     (enableMoveElimination cfg \<and> ri_isMov i) \<or>
     (enableMovImmElimination cfg \<and> ri_isAddImm i \<and> src0_isZeroReg i)"

lemma bypass_reg_plain:
  "\<not> enableConstantFolding cfg \<Longrightarrow> \<not> eliminated cfg i \<Longrightarrow> bypass_reg cfg t i s = Some (None, False)"
  by (auto simp: bypass_reg_def eliminated_def)

text \<open>\<open>post\<close> collects what renaming and executing a prefix of the work leaves behind.\<close>

definition post ::
  "nat \<Rightarrow> phys_reg set \<Rightarrow> thread_id \<Rightarrow> rename_state \<Rightarrow> (phys_reg \<Rightarrow> regval)
     \<Rightarrow> rename_state \<Rightarrow> (phys_reg \<Rightarrow> regval) \<Rightarrow> arch_state \<Rightarrow> bool" where
  "post n U t s rf s' rf' A' \<longleftrightarrow>
     rename_inv n U s' \<and> no_pins s' \<and> sim t s' rf' A' \<and>
     (\<forall>p. used s p \<longrightarrow> rf' p = rf p \<and> used s' p)"

lemma post_trans:
  "post n U t s rf s1 rf1 A1 \<Longrightarrow> post n U t s1 rf1 s2 rf2 A2 \<Longrightarrow> post n U t s rf s2 rf2 A2"
  by (simp add: post_def)

lemma renameDestReg_post:
  assumes inv: "rename_inv n U s" and "t < n" and wf: "wf_dest i d"
    and sq: "\<forall>h\<in>set (historyBuffer s t). instSeqNum h \<le> ri_seqNum i"
    and np: "no_pins s" and d: "snd d = 0" "regClass (fst d) \<noteq> MiscRegClass"
    and cf: "\<not> enableConstantFolding cfg" "\<not> eliminated cfg i" and sim: "sim t s rf A"
    and run: "renameDestReg cfg t i d s = Some ((new, prev, f), s')"
  shows "post n U t s rf s' (setPhysReg (PhyReg new) v rf) (arch_write (fst d) v A) \<and> \<not> f"
proof -
  obtain s1 where u: "unified_rename t (fst d) 0 None s = Some ((new, prev), s1)"
    and f: "\<not> f" and m: "renameMaps s' = renameMaps s1" "pmeta s' = pmeta s1"
    using run bypass_reg_plain [OF cf] d(1)
    by (auto simp: renameDestReg_def Let_def split: option.splits)
  note pl = unified_rename_plain [OF inv \<open>t < n\<close> np d(2) u sim]
  have "rename_inv n U s'"
    using renameDestReg_run [OF inv \<open>t < n\<close> wf sq run] by blast
  moreover have "no_pins s'"
    using unified_no_pins [OF np u] m by (simp add: no_pins_def)
  ultimately show ?thesis
    using pl f m sim_maps [of s' t s1] by (auto simp: post_def used_def)
qed

lemma renameDestRegs_post:
  assumes "rename_inv n U s" and "t < n" and "list_all (wf_dest i) ds"
    and "\<forall>h\<in>set (historyBuffer s t). instSeqNum h \<le> ri_seqNum i"
    and "no_pins s" and "list_all (\<lambda>d. snd d = 0 \<and> regClass (fst d) \<noteq> MiscRegClass) ds"
    and cf: "\<not> enableConstantFolding cfg" "\<not> eliminated cfg i" and "sim t s rf A"
    and "renameDestRegs cfg t i ds s = Some (rs, s')" and "length vs = length ds"
  shows "post n U t s rf s' (phys_writes (map (\<lambda>(n, p, _). (n, p)) rs) vs rf) (arch_writes ds vs A) \<and>
    \<not> list_ex (\<lambda>(_, _, f). f) rs"
  using assms(1,3-6,9-11)
proof (induction ds arbitrary: s rs rf A vs)
  case Nil
  then show ?case by (simp add: post_def phys_writes_def arch_writes_def)
next
  case (Cons d ds)
  obtain new prev f s1 rs' where d: "renameDestReg cfg t i d s = Some ((new, prev, f), s1)"
    and ds: "renameDestRegs cfg t i ds s1 = Some (rs', s')" and rs: "rs = (new, prev, f) # rs'"
    using Cons.prems(7) by (auto split: option.splits)
  obtain v vs' where vs: "vs = v # vs'" "length vs' = length ds"
    using Cons.prems(8) by (cases vs) auto
  have w: "wf_dest i d" "list_all (wf_dest i) ds" "snd d = 0" "regClass (fst d) \<noteq> MiscRegClass"
    "list_all (\<lambda>d. snd d = 0 \<and> regClass (fst d) \<noteq> MiscRegClass) ds"
    using Cons.prems(2,5) by auto
  let ?rf = "setPhysReg (PhyReg new) v rf" and ?A = "arch_write (fst d) v A"
  have p1: "post n U t s rf s1 ?rf ?A" "\<not> f"
    using renameDestReg_post [OF Cons.prems(1) assms(2) w(1) Cons.prems(3,4) w(3,4) cf
        Cons.prems(6) d] by blast+
  note st = renameDestReg_run [OF Cons.prems(1) assms(2) w(1) Cons.prems(3) d]
  have "\<forall>h\<in>set (historyBuffer s1 t). instSeqNum h \<le> ri_seqNum i"
    by (rule extends_seq [OF conjunct2 [OF st] Cons.prems(3)]) simp
  with Cons.IH [OF _ w(2) _ _ w(5) _ ds vs(2), of ?rf ?A] p1(1)
  have "post n U t s1 ?rf s' (phys_writes (map (\<lambda>(n, p, _). (n, p)) rs') vs' ?rf) (arch_writes ds vs' ?A)"
    "\<not> list_ex (\<lambda>(_, _, f). f) rs'"
    by (auto simp: post_def)
  then show ?case
    using post_trans [OF p1(1)] p1(2) by (simp add: rs vs(1) phys_writes_def arch_writes_def)
qed

text \<open>An eliminated instruction has one destination, which shares the source's register.\<close>

lemma bypass_reg_eliminated:
  assumes "\<not> enableConstantFolding cfg" and "eliminated cfg i" and "exec_ok sem i"
    and sim: "sim t s rf A" and "ri_srcs i = x # xs"
    and b: "bypass_reg cfg t i s = Some (b, f)"
  obtains v where "b = Some v" and "f" and "ie_add v"
    and "sem i (map (arch_read A) (ri_srcs i)) = [getVirtReg rf v]"
proof -
  have x: "regClass x \<noteq> MiscRegClass" and im: "to_int32 (ri_imm i) = ri_imm i"
    using assms(3,5) by (auto simp: exec_ok_def to_int32_id)
  obtain w where w: "lookup t x s = Some w"
    using b assms(1,2,5)
    by (auto simp: bypass_reg_def eliminated_def lookup_src0_def split: if_splits)
  note lk = sim_lookup [OF sim w x]
  show ?thesis
  proof (cases "enableMoveElimination cfg \<and> ri_isMov i")
    case True
    then show ?thesis
      using b w lk assms(3,5) that [of w]
      by (auto simp: bypass_reg_def lookup_src0_def exec_ok_def sem_ok_def)
  next
    case False
    then have k: "ri_isAddImm i" "src0_isZeroReg i" "enableMovImmElimination cfg"
      using assms(2) by (auto simp: eliminated_def)
    then have z: "w = VirtReg invalidPhysRegId None" "arch_read A x = 0"
      using w assms(5) by (auto simp: src0_isZeroReg_def isZeroReg_def lookup_def arch_read_def)
    let ?v = "VirtReg invalidPhysRegId (Some (IEOperand IE_ADD (ri_imm i)))"
    have "b = Some ?v" "f"
      using b False k w z assms(5) im
      by (auto simp: bypass_reg_def lookup_src0_def fold_imm_def newIEOperand_def)
    moreover have "getVirtReg rf ?v = word_of_int (ri_imm i)"
      by (simp add: getVirtReg_def virt_correct_def getPhysReg_def)
    ultimately show ?thesis
      using that [of ?v] assms(3,5) k z by (simp add: ie_add_def exec_ok_def sem_ok_def)
  qed
qed

lemma renameDest_eliminated:
  assumes inv: "rename_inv n U s" and "t < n" and np: "no_pins s"
    and cf: "\<not> enableConstantFolding cfg" and el: "eliminated cfg i" and ex: "exec_ok sem i"
    and sim: "sim t s rf A" and src: "ri_srcs i = x # xs"
    and e: "wf_dest i e" "snd e = 0" "regClass (fst e) \<noteq> MiscRegClass"
    and run: "renameDestReg cfg t i e s = Some ((new, prev, f), s')" and inv': "rename_inv n U s'"
  shows "post n U t s rf s' rf (arch_writes [e] (sem i (map (arch_read A) (ri_srcs i))) A) \<and> f"
proof -
  obtain b s1 where b: "bypass_reg cfg t i s = Some (b, f)"
    and u: "unified_rename t (fst e) 0 b s = Some ((new, prev), s1)"
    and m: "renameMaps s' = renameMaps s1" "pmeta s' = pmeta s1"
    using run e(2) by (auto simp: renameDestReg_def Let_def split: option.splits)
  obtain v where v: "b = Some v" "f" "ie_add v"
      "sem i (map (arch_read A) (ri_srcs i)) = [getVirtReg rf v]"
    using bypass_reg_eliminated [OF cf el ex sim src b] .
  have ok: "isRenameable (fst e) \<Longrightarrow> bypass_ok t (fst e) v s"
    using bypass_reg_ok [OF inv \<open>t < n\<close> e(1) _ b [unfolded v(1)]] .
  note by' = unified_rename_bypass [OF inv \<open>t < n\<close> e(3) u [unfolded v(1)] ok sim refl v(3)]
  have "no_pins s'"
    using unified_no_pins [OF np u] m by (simp add: no_pins_def)
  then show ?thesis
    using by' v(2) m inv' sim_maps [of s' t s1]
    by (auto simp: post_def arch_writes_def v(4) used_def)
qed

lemma renameInst_post:
  assumes inv: "rename_inv n U s" and "t < n" and wf: "wf_rename_inst i"
    and sq: "\<forall>h\<in>set (historyBuffer s t). instSeqNum h \<le> ri_seqNum i"
    and np: "no_pins s" and so: "static_ok numArch i" and ex: "exec_ok sem i"
    and cf: "\<not> enableConstantFolding cfg" and sim: "sim t s rf A"
    and run: "renameInst cfg t i s = Some (out, s')"
  shows "post n U t s rf s' (phys_exec sem i out rf) (arch_exec sem i A)"
proof -
  obtain srcs ds where src: "renameSrcRegs t (ri_srcs i) s = Some srcs"
    and dst: "renameDestRegs cfg t i (ri_dests i) s = Some (ds, s')"
    and out: "out = \<lparr>ro_srcs = srcs, ro_dests = map (\<lambda>(n, p, _). (n, p)) ds,
                     ro_folded = list_ex (\<lambda>(_, _, f). f) ds\<rparr>"
    using run by (auto simp: renameInst_def split: if_splits option.splits)
  have d: "list_all (wf_dest i) (ri_dests i)"
    "list_all (\<lambda>d. snd d = 0 \<and> regClass (fst d) \<noteq> MiscRegClass) (ri_dests i)"
    using wf so ex by (auto simp: wf_rename_inst_def static_ok_def exec_ok_def list_all_iff)
  let ?vs = "sem i (map (arch_read A) (ri_srcs i))"
  have len: "length ?vs = length (ri_dests i)"
    using ex by (simp add: exec_ok_def sem_ok_def)
  have vals: "map (\<lambda>(v, _). getVirtReg rf v) srcs = map (arch_read A) (ri_srcs i)"
    using renameSrcRegs_sim [OF sim src] ex by (simp add: exec_ok_def)
  show ?thesis
  proof (cases "eliminated cfg i")
    case False
    show ?thesis
      using renameDestRegs_post [OF inv \<open>t < n\<close> d(1) sq np d(2) cf False sim dst len]
      by (simp add: out phys_exec_def arch_exec_def vals)
  next
    case True
    then obtain x xs where xs: "ri_srcs i = x # xs"
      using so by (cases "ri_srcs i") (auto simp: static_ok_def eliminated_def)
    have "\<exists>v. ?vs = [v]"
      using True ex xs by (auto simp: eliminated_def exec_ok_def sem_ok_def)
    then obtain e where e: "ri_dests i = [e]"
      using len by (cases "ri_dests i") auto
    then obtain new prev f where r: "renameDestReg cfg t i e s = Some ((new, prev, f), s')"
      and ds: "ds = [(new, prev, f)]"
      using dst by (auto split: option.splits)
    have "wf_dest i e" "snd e = 0" "regClass (fst e) \<noteq> MiscRegClass" and "rename_inv n U s'"
      using d e renameInst_run [OF inv \<open>t < n\<close> wf sq run] by auto
    then show ?thesis
      using renameDest_eliminated [OF inv \<open>t < n\<close> np cf True ex sim xs _ _ _ r]
      by (simp add: out phys_exec_def arch_exec_def e ds)
  qed
qed

definition insts_ok :: "(reg_class \<Rightarrow> nat) \<Rightarrow> inst_sem \<Rightarrow> rename_inst list \<Rightarrow> bool" where
  "insts_ok numArch sem is \<longleftrightarrow>
     (\<forall>i\<in>set is. wf_rename_inst i \<and> static_ok numArch i \<and> exec_ok sem i)"

lemma renameInsts_post:
  assumes "rename_inv n U s" and "t < n" and "insts_ok numArch sem is" and "in_order t is s"
    and "no_pins s" and cf: "\<not> enableConstantFolding cfg" and "sim t s rf A"
    and "renameInsts cfg t is s = Some (os, s')"
  shows "post n U t s rf s' (phys_run sem (live_insts is) os rf) (arch_run sem (live_insts is) A)"
  using assms(1,3-5,7,8)
proof (induction "is" arbitrary: s os rf A)
  case Nil
  then show ?case by (simp add: post_def live_insts_def arch_run_def)
next
  case (Cons i "is")
  have io: "in_order t is s" and ok: "insts_ok numArch sem is"
    and w: "wf_rename_inst i" "static_ok numArch i" "exec_ok sem i"
    and sq: "\<forall>h\<in>set (historyBuffer s t). instSeqNum h \<le> ri_seqNum i"
    using Cons.prems(2,3) by (auto simp: insts_ok_def in_order_def less_imp_le)
  show ?case
  proof (cases "ri_squashed i")
    case True
    then show ?thesis
      using Cons.IH [OF Cons.prems(1) ok io Cons.prems(4,5)] Cons.prems(6)
      by (simp add: live_insts_def)
  next
    case False
    obtain out s1 os' where i: "renameInst cfg t i s = Some (out, s1)"
      and "is": "renameInsts cfg t is s1 = Some (os', s')" and os: "os = out # os'"
      using Cons.prems(6) False by (auto split: option.splits)
    note p1 = renameInst_post [OF Cons.prems(1) assms(2) w(1) sq Cons.prems(4) w(2,3) cf
        Cons.prems(5) i]
    have "in_order t is s1"
      using renameInst_run [OF Cons.prems(1) assms(2) w(1) sq i] Cons.prems(3)
      by (auto simp: in_order_def extends_def)
    moreover have "rename_inv n U s1" "no_pins s1"
      "sim t s1 (phys_exec sem i out rf) (arch_exec sem i A)"
      using p1 by (auto simp: post_def)
    ultimately show ?thesis
      using post_trans [OF p1 Cons.IH [OF _ ok _ _ _ "is"]] False
      by (simp add: os live_insts_def arch_run_def)
  qed
qed

section \<open>Properties\<close>

text \<open>
  C1: Renaming preserves the meaning of the program. From any reachable state in which the
  architectural registers of a thread have the values of the registers they are mapped to,
  renaming a group of instructions and executing the renamed ones on the physical register
  file gives a state in which the architectural registers have the values that executing
  the original instructions in order gives; moves and load-immediates that were eliminated
  are not executed at all.
\<close>

theorem rename_refines_arch:
  assumes "rename_reach cfg n numPhys numArch s" and "t < n" and "no_pins s"
    and "insts_ok numArch sem is" and "in_order t is s" and "\<not> enableConstantFolding cfg"
    and "sim t s rf A" and "renameInsts cfg t is s = Some (os, s')"
  shows "sim t s' (phys_run sem (live_insts is) os rf) (arch_run sem (live_insts is) A)"
  using renameInsts_post [OF reach_inv [OF assms(1)] assms(2,4,5,3,6-8)] by (simp add: post_def)

definition ex_sem :: inst_sem where
  "ex_sem i vs =
     (if ri_isMov i then (case vs of [] \<Rightarrow> [0] | v # _ \<Rightarrow> [v])
      else map (\<lambda>_. sum_list vs + 7) (ri_dests i))"

lemma ex_insts_exec: "insts_ok ex_arch ex_sem ex_insts"
  using ex_static ex_insts_ok(1)
  by (auto simp: insts_ok_def list_all_iff exec_ok_def sem_ok_def ex_insts_def ex_inst_def ex_sem_def
      split: list.splits)

definition ex_rf :: "phys_reg \<Rightarrow> regval" where
  "ex_rf p = of_nat (10 * pidx p)"

definition ex_A :: arch_state where
  "ex_A r = of_nat (10 * regIdx r)"

lemma ex_map: "renameMaps ex_state 0 IntRegClass =
    [VirtReg (PhysReg IntRegClass 0) None, VirtReg (PhysReg IntRegClass 1) None]"
  by code_simp

lemma ex_sim: "sim 0 ex_state ex_rf ex_A"
proof -
  have "length (renameMaps ex_state 0 c) = ex_arch c" if "c \<in> set array_classes" for c
    using reach_lengths [OF ex_reach, of 0] that by (simp add: map_lengths_def)
  then have "renameMaps ex_state 0 c = []" if "c \<in> set array_classes" "c \<noteq> IntRegClass" for c
    using that by (metis ex_arch_def length_0_conv)
  moreover have "\<forall>i<2. getVirtReg ex_rf (renameMaps ex_state 0 IntRegClass ! i) = ex_A (RegId IntRegClass i)"
    unfolding ex_map by (simp add: less_2_cases_iff getPhysReg_def ex_rf_def ex_A_def)
  ultimately show ?thesis
    unfolding sim_def
    by (metis ex_map ie_add_def length_Cons less_2_cases_iff list.size(3) not_less_zero nth_Cons_0
        nth_Cons_Suc numeral_2_eq_2 One_nat_def option.simps(4) virt_reg.sel(2))
qed

theorem rename_refines_arch_witness:
  "sim 0 (snd ex_out) (phys_run ex_sem (live_insts ex_insts) (fst ex_out) ex_rf)
     (arch_run ex_sem (live_insts ex_insts) ex_A) \<and>
   arch_run ex_sem (live_insts ex_insts) ex_A (RegId IntRegClass 1) = 17"
proof -
  have "sim 0 (snd ex_out) (phys_run ex_sem (live_insts ex_insts) (fst ex_out) ex_rf)
     (arch_run ex_sem (live_insts ex_insts) ex_A)"
    by (rule rename_refines_arch [OF ex_reach _ init_no_pins [OF ex_init] ex_insts_exec
          ex_insts_ok(2) _ ex_sim ex_run]) (simp_all add: ex_cfg_def)
  moreover have "arch_run ex_sem (live_insts ex_insts) ex_A (RegId IntRegClass 1) = 17"
    by (simp add: arch_run_def live_insts_def ex_insts_def ex_inst_def arch_exec_def arch_writes_def
        arch_write_def arch_read_def isZeroReg_def ex_sem_def ex_A_def)
  ultimately show ?thesis by simp
qed

text \<open>
  C2: A squash recovers the precise state. If instructions younger than \<open>sn\<close> were renamed
  and executed, in full, and then squashed, the architectural registers have again the
  values they had before these instructions: nothing the squashed instructions wrote is in
  a register the restored map can reach.
\<close>

theorem squash_precise_state:
  assumes "rename_reach cfg n numPhys numArch s" and "t < n" and "no_pins s"
    and "insts_ok numArch sem is" and "in_order t is s" and "\<not> enableConstantFolding cfg"
    and "sim t s rf A" and "renameInsts cfg t is s = Some (os, s')"
    and "\<forall>i\<in>set is. sn < ri_seqNum i" and "\<forall>h\<in>set (historyBuffer s t). instSeqNum h \<le> sn"
  shows "\<exists>s''. doSquash sn t s' = Some s'' \<and> sim t s'' (phys_run sem (live_insts is) os rf) A"
proof -
  note inv = reach_inv [OF assms(1)]
  let ?rf = "phys_run sem (live_insts is) os rf"
  have keep: "\<forall>p. used s p \<longrightarrow> ?rf p = rf p"
    using renameInsts_post [OF inv assms(2,4,5,3,6-8)] by (simp add: post_def)
  have "list_all wf_rename_inst is"
    using assms(4) by (simp add: insts_ok_def list_all_iff)
  note ext = renameInsts_extends [OF inv assms(2) this assms(5,8,9)]
  obtain s'' where s'': "doSquash sn t s' = Some s''" "renameMaps s'' = renameMaps s"
    using squash_undoes_extension [OF inv ext(1) assms(2) ext(2) assms(10)] by blast
  have "getVirtReg ?rf e = getVirtReg rf e" if "c \<in> set array_classes" "e \<in> set (renameMaps s t c)"
    for c e
    using keep mapped_used [OF inv assms(2) that] by (simp add: getVirtReg_def getPhysReg_def)
  then show ?thesis
    using s'' assms(7) by (auto simp: sim_def)
qed

theorem squash_precise_state_witness:
  "\<exists>s''. doSquash 0 0 (snd ex_out) = Some s'' \<and>
     sim 0 s'' (phys_run ex_sem (live_insts ex_insts) (fst ex_out) ex_rf) ex_A"
  by (rule squash_precise_state [OF ex_reach _ init_no_pins [OF ex_init] ex_insts_exec
        ex_insts_ok(2) _ ex_sim ex_run])
    (simp_all add: ex_cfg_def ex_history ex_insts_def ex_inst_def)

text \<open>
  C39: Constant folding accumulates immediates in a 32-bit operand. Folding an add-immediate
  onto a mapping whose operand already adds \<open>k\<close> gives the mapping the right value exactly
  when the sum of the immediates fits in 32 bits; a chain of folded additions that leaves
  that range reads a wrong value.
\<close>

theorem constant_folding_exact:
  assumes "k = (case IEOper b of None \<Rightarrow> 0 | Some op \<Rightarrow> ieImm op)" and "ie_add b"
    and "- (2 ^ 31) \<le> k" and "k < 2 ^ 31" and "- (2 ^ 11) \<le> imm" and "imm < 2 ^ 11"
  shows "getVirtReg rf (fst (fold_imm imm b)) = getVirtReg rf b + word_of_int imm \<longleftrightarrow>
    - (2 ^ 31) \<le> k + imm \<and> k + imm < 2 ^ 31"
proof -
  have old: "getVirtReg rf b = getPhysReg rf (PhyReg b) + word_of_int k"
  proof (cases "IEOper b")
    case None
    then show ?thesis using assms(1) by simp
  next
    case (Some op)
    then show ?thesis
      using assms(1,2) by (cases op) (auto simp: getVirtReg_def virt_correct_def ie_add_def)
  qed
  have new: "getVirtReg rf (fst (fold_imm imm b)) =
      getPhysReg rf (PhyReg b) + word_of_int (to_int32 (k + imm))"
    using assms(1,2)
    by (auto simp: fold_imm_def ie_add_def newIEOperand_def getVirtReg_def virt_correct_def
        split: option.splits)
  have "(word_of_int (to_int32 (k + imm)) :: regval) = word_of_int (k + imm) \<longleftrightarrow>
      to_int32 (k + imm) = k + imm"
    using word_of_int64_inj [of "to_int32 (k + imm)" "k + imm"] to_int32_range [of "k + imm"] assms(3-6)
    by auto
  also have "\<dots> \<longleftrightarrow> - (2 ^ 31) \<le> k + imm \<and> k + imm < 2 ^ 31"
    using to_int32_range [of "k + imm"] to_int32_id [of "k + imm"] by auto
  finally show ?thesis
    by (simp add: old new add.assoc)
qed

theorem constant_folding_exact_witness:
  "getVirtReg (\<lambda>_. 0) (fst (fold_imm 1 (VirtReg (PhysReg IntRegClass 0) (Some (IEOperand IE_ADD (2 ^ 31 - 1))))))
     \<noteq> getVirtReg (\<lambda>_. 0) (VirtReg (PhysReg IntRegClass 0) (Some (IEOperand IE_ADD (2 ^ 31 - 1)))) + word_of_int 1"
  using constant_folding_exact [of "2 ^ 31 - 1"
      "VirtReg (PhysReg IntRegClass 0) (Some (IEOperand IE_ADD (2 ^ 31 - 1)))" 1 "\<lambda>_. 0"]
  by (simp add: ie_add_def)

end
