(* ===== verification/Fusion.thy ===== *)
theory Fusion
  imports RenameExec
begin

text \<open>
  Instruction fusion, \<open>arch/riscv/insts/fusion.hh\<close> and \<open>arch/riscv/insts/fusion.cc\<close>:
  the fused instruction classes with their constructors and execute methods, on top of the
  semantics of the RISC-V instructions they combine (\<open>arch/riscv/isa/decoder.isa\<close>).

  A constructor that panics, or indexes an array out of bounds, is \<open>None\<close>. The execute
  methods run on the physical register file with the renamed operands of the fused
  instruction, so the theorems compare them, through renaming, with the instructions
  executed one after the other on architectural registers.
\<close>

section \<open>Instructions\<close>

datatype alu_op =
  Slli | Srli | Srai | Slliw | Srliw | Sraiw | Add | Addw | Addi | Addiw
| Andi | And | Ori | Or | Xori | Xor | Orc_b | Zext_h | Sext_h | Mul | Mulw
| Lui | Auipc | Slti

datatype load_op = Ld | Lw | Lh | Lb | Lwu | Lhu | Lbu

datatype br_op = Beq | Bne | Blt | Bge | Bltu | Bgeu

datatype compressed_op =
  C_slli | C_srli | C_addi | C_addiw | C_add | C_addw | C_and | C_andi | C_or | C_xor
| C_mul | C_zext_h | C_sext_h | C_lui
| C_ld | C_ldsp | C_lw | C_lwsp | C_lh | C_lhu | C_lbu

datatype rv_op = Alu alu_op | Load load_op | Br br_op | Compressed compressed_op | OtherOp nat

text \<open>The instruction a compressed one abbreviates.\<close>

fun c_op :: "compressed_op \<Rightarrow> rv_op" where
  "c_op C_slli = Alu Slli" | "c_op C_srli = Alu Srli" | "c_op C_addi = Alu Addi"
| "c_op C_addiw = Alu Addiw" | "c_op C_add = Alu Add" | "c_op C_addw = Alu Addw"
| "c_op C_and = Alu And" | "c_op C_andi = Alu Andi" | "c_op C_or = Alu Or"
| "c_op C_xor = Alu Xor" | "c_op C_mul = Alu Mul" | "c_op C_zext_h = Alu Zext_h"
| "c_op C_sext_h = Alu Sext_h" | "c_op C_lui = Alu Lui" | "c_op C_ld = Load Ld"
| "c_op C_ldsp = Load Ld" | "c_op C_lw = Load Lw" | "c_op C_lwsp = Load Lw"
| "c_op C_lh = Load Lh" | "c_op C_lhu = Load Lhu" | "c_op C_lbu = Load Lbu"

fun base_op :: "rv_op \<Rightarrow> rv_op" where
  "base_op (Compressed c) = c_op c"
| "base_op x = x"

text \<open>What the fused classes and the tables read of an instruction.\<close>

record rv_inst =
  rv_op :: rv_op
  rv_imm :: int
  rv_srcs :: "reg_id list"
  rv_dests :: "reg_id list"
  rv_pc :: addr

text \<open>
  \<open>srcRegIdx\<close> and \<open>destRegIdx\<close> index the operand arrays unchecked. A generated
  instruction class declares its source array directly before its destination array, so an
  index past the last source reads a destination: the fusion code reads \<open>srcRegIdx(1)\<close> of
  loads, which have one source.
\<close>

definition rv_srcRegIdx :: "rv_inst \<Rightarrow> nat \<Rightarrow> reg_id" where
  "rv_srcRegIdx x i =
     (let arr = rv_srcs x @ rv_dests x in if i < length arr then arr ! i else zero_reg)"

definition rv_destRegIdx :: "rv_inst \<Rightarrow> nat \<Rightarrow> reg_id" where
  "rv_destRegIdx x i = (if i < length (rv_dests x) then rv_dests x ! i else zero_reg)"

section \<open>Semantics of the combined instructions\<close>

definition sext32 :: "regval \<Rightarrow> regval" where
  "sext32 v = scast (ucast v :: 32 word)"

definition orc_b :: "regval \<Rightarrow> regval" where
  "orc_b v = fold (\<lambda>k r. or r
       (if and (drop_bit (8 * k) v) 0xFF = 0 then 0 else push_bit (8 * k) 0xFF)) [0..<8] 0"

definition arg :: "regval list \<Rightarrow> nat \<Rightarrow> regval" where
  "arg vs i = (if i < length vs then vs ! i else 0)"

fun alu :: "alu_op \<Rightarrow> int \<Rightarrow> addr \<Rightarrow> regval \<Rightarrow> regval \<Rightarrow> regval" where
  "alu Slli i pc a b = push_bit (nat i) a"
| "alu Srli i pc a b = drop_bit (nat i) a"
| "alu Srai i pc a b = signed_drop_bit (nat i) a"
| "alu Slliw i pc a b = sext32 (push_bit (nat i) a)"
| "alu Srliw i pc a b = scast (drop_bit (nat i) (ucast a :: 32 word))"
| "alu Sraiw i pc a b = scast (signed_drop_bit (nat i) (ucast a :: 32 word))"
| "alu Add i pc a b = a + b"
| "alu Addw i pc a b = sext32 (a + b)"
| "alu Addi i pc a b = a + word_of_int i"
| "alu Addiw i pc a b = sext32 (a + word_of_int i)"
| "alu Andi i pc a b = and a (word_of_int i)"
| "alu And i pc a b = and a b"
| "alu Ori i pc a b = or a (word_of_int i)"
| "alu Or i pc a b = or a b"
| "alu Xori i pc a b = xor a (word_of_int i)"
| "alu Xor i pc a b = xor a b"
| "alu Orc_b i pc a b = orc_b a"
| "alu Zext_h i pc a b = ucast (ucast a :: 16 word)"
| "alu Sext_h i pc a b = scast (ucast a :: 16 word)"
| "alu Mul i pc a b = a * b"
| "alu Mulw i pc a b = sext32 (a * b)"
| "alu Lui i pc a b = word_of_int i"
| "alu Auipc i pc a b = pc + word_of_int i"
| "alu Slti i pc a b = (if sint a < i then 1 else 0)"

definition rv_value :: "rv_inst \<Rightarrow> regval list \<Rightarrow> regval" where
  "rv_value x vs =
     (case base_op (rv_op x) of
        Alu p \<Rightarrow> alu p (rv_imm x) (rv_pc x) (arg vs 0) (arg vs 1) | _ \<Rightarrow> 0)"

fun br_taken :: "br_op \<Rightarrow> regval \<Rightarrow> regval \<Rightarrow> bool" where
  "br_taken Beq a b \<longleftrightarrow> a = b"
| "br_taken Bne a b \<longleftrightarrow> a \<noteq> b"
| "br_taken Blt a b \<longleftrightarrow> sint a < sint b"
| "br_taken Bge a b \<longleftrightarrow> sint b \<le> sint a"
| "br_taken Bltu a b \<longleftrightarrow> a < b"
| "br_taken Bgeu a b \<longleftrightarrow> b \<le> a"

text \<open>The next program counter of a branch; all branches of the tables are 4 bytes long.\<close>

definition rv_npc :: "rv_inst \<Rightarrow> regval list \<Rightarrow> addr" where
  "rv_npc x vs =
     rv_pc x + (case base_op (rv_op x) of
                  Br p \<Rightarrow> if br_taken p (arg vs 0) (arg vs 1) then word_of_int (rv_imm x) else 4
                | _ \<Rightarrow> 4)"

text \<open>Loads: the access size, and the register value of the bytes read.\<close>

fun load_size :: "load_op \<Rightarrow> nat" where
  "load_size Ld = 8" | "load_size Lw = 4" | "load_size Lwu = 4"
| "load_size Lh = 2" | "load_size Lhu = 2" | "load_size Lb = 1" | "load_size Lbu = 1"

definition operWid8 :: "rv_inst \<Rightarrow> nat" where
  "operWid8 x = (case base_op (rv_op x) of Load p \<Rightarrow> load_size p | _ \<Rightarrow> 0)"

type_synonym memory = "addr \<Rightarrow> 8 word"

definition mem_read :: "memory \<Rightarrow> addr \<Rightarrow> nat \<Rightarrow> 8 word list" where
  "mem_read m a n = map (\<lambda>i. m (a + of_nat i)) [0..<n]"

definition bytes_value :: "8 word list \<Rightarrow> regval" where
  "bytes_value bs = foldr (\<lambda>b acc. or (ucast b) (push_bit 8 acc)) bs 0"

fun load_ext :: "load_op \<Rightarrow> regval \<Rightarrow> regval" where
  "load_ext Lw v = sext32 v"
| "load_ext Lh v = scast (ucast v :: 16 word)"
| "load_ext Lb v = scast (ucast v :: 8 word)"
| "load_ext _ v = v"

definition load_value :: "rv_inst \<Rightarrow> 8 word list \<Rightarrow> regval" where
  "load_value x bs =
     (case base_op (rv_op x) of Load p \<Rightarrow> load_ext p (bytes_value bs) | _ \<Rightarrow> 0)"

section \<open>The fused instruction classes\<close>

datatype fusion_kind =
  ChainFusionInst | AluBrFusionInst | MaccFusionInst
| AluLoadFusionInst nat | SlliAddLoadFusionInst nat | SeqLoadFusionInst nat

record fusion =
  fu_kind :: fusion_kind
  fu_name :: string
  fu_first :: rv_inst
  fu_second :: rv_inst
  fu_third :: "rv_inst option"
  fu_dests :: "reg_id list"
  fu_srcs :: "reg_id list"

definition FuseTmpReg :: reg_id where
  "FuseTmpReg = RegId RMiscRegClass 2"

text \<open>\<open>_numTypedDestRegs[classValue()]++\<close>: the array has no slot for the zero register,
  whose class value is -1.\<close>

definition typed_slot :: "reg_id \<Rightarrow> bool" where
  "typed_slot r \<longleftrightarrow> isRenameable r"

definition newFusion ::
  "fusion_kind \<Rightarrow> string \<Rightarrow> rv_inst \<Rightarrow> rv_inst \<Rightarrow> rv_inst option \<Rightarrow> reg_id list \<Rightarrow> reg_id list
     \<Rightarrow> fusion option" where
  "newFusion k n a b c ds ss =
     (if list_all typed_slot ds
      then Some \<lparr>fu_kind = k, fu_name = n, fu_first = a, fu_second = b, fu_third = c,
                 fu_dests = ds, fu_srcs = ss\<rparr>
      else None)"

definition newChain :: "string \<Rightarrow> rv_inst \<Rightarrow> rv_inst \<Rightarrow> fusion option" where
  "newChain n a b =
     (if rv_destRegIdx a 0 \<noteq> rv_destRegIdx b 0 then None
      else newFusion ChainFusionInst n a b None [rv_destRegIdx a 0]
        (rv_srcs a @ map (\<lambda>r. if r = rv_destRegIdx a 0 then FuseTmpReg else r) (rv_srcs b)))"

definition newAluBr :: "string \<Rightarrow> rv_inst \<Rightarrow> rv_inst \<Rightarrow> fusion option" where
  "newAluBr n a b =
     (if rv_destRegIdx a 0 \<noteq> rv_srcRegIdx b 0 \<and> rv_destRegIdx a 0 \<noteq> rv_srcRegIdx b 1 then None
      else newFusion AluBrFusionInst n a b None [rv_destRegIdx a 0]
        (rv_srcs a @ filter (\<lambda>r. r \<noteq> rv_destRegIdx a 0) (rv_srcs b)))"

definition newMacc :: "string \<Rightarrow> rv_inst \<Rightarrow> rv_inst \<Rightarrow> fusion option" where
  "newMacc n a b =
     (if rv_destRegIdx a 0 \<noteq> rv_srcRegIdx b 0 \<and> rv_destRegIdx a 0 \<noteq> rv_srcRegIdx b 1 then None
      else if length (filter (\<lambda>r. r = rv_destRegIdx a 0) (rv_srcs b)) = length (rv_srcs b) then None
      else newFusion MaccFusionInst n a b None [rv_destRegIdx b 0]
        (rv_srcs a @ FuseTmpReg # take 1 (filter (\<lambda>r. r \<noteq> rv_destRegIdx a 0) (rv_srcs b))))"

definition newAluLoad :: "nat \<Rightarrow> string \<Rightarrow> rv_inst \<Rightarrow> rv_inst \<Rightarrow> fusion option" where
  "newAluLoad memsize n a b =
     (if rv_destRegIdx a 0 \<noteq> rv_srcRegIdx b 1 then None
      else if rv_destRegIdx b 0 \<noteq> rv_srcRegIdx b 0 then None
      else if operWid8 b \<noteq> memsize then None
      else newFusion (AluLoadFusionInst memsize) n a b None [rv_destRegIdx b 0]
        (rv_srcs a @ [FuseTmpReg]))"

definition newSlliAddLoad :: "nat \<Rightarrow> string \<Rightarrow> rv_inst \<Rightarrow> rv_inst \<Rightarrow> rv_inst \<Rightarrow> fusion option" where
  "newSlliAddLoad memsize n a b c =
     (if rv_destRegIdx a 0 \<noteq> rv_srcRegIdx b 0 \<and> rv_destRegIdx a 0 \<noteq> rv_srcRegIdx b 1 then None
      else if rv_destRegIdx b 0 \<noteq> rv_srcRegIdx c 1 then None
      else if rv_destRegIdx c 0 \<noteq> rv_srcRegIdx c 0 then None
      else newFusion (SlliAddLoadFusionInst memsize) n a b (Some c) [rv_destRegIdx c 0]
        [rv_srcRegIdx a 0,
         rv_srcRegIdx b (if rv_srcRegIdx b 0 = rv_destRegIdx a 0 then 1 else 0)])"

text \<open>The loads of the table all have the default memory access flags.\<close>

definition newSeqLoad :: "nat \<Rightarrow> string \<Rightarrow> rv_inst \<Rightarrow> rv_inst \<Rightarrow> fusion option" where
  "newSeqLoad memsize n a b =
     (if rv_srcRegIdx a 0 \<noteq> rv_srcRegIdx b 0 then None
      else if rv_imm a + int (operWid8 a) \<noteq> rv_imm b then None
      else if memsize \<noteq> operWid8 a + operWid8 b then None
      else newFusion (SeqLoadFusionInst memsize) n a b None [rv_destRegIdx a 0, rv_destRegIdx b 0]
        [rv_srcRegIdx a 0])"

section \<open>Execution on renamed operands\<close>

type_synonym regfile = "phys_reg \<Rightarrow> regval"

definition nthv :: "virt_reg list \<Rightarrow> nat \<Rightarrow> virt_reg" where
  "nthv vs i = (if i < length vs then vs ! i else VirtReg invalidPhysRegId None)"

definition fuseTmp :: "fusion \<Rightarrow> virt_reg list \<Rightarrow> virt_reg option" where
  "fuseTmp f vs = map_option snd (List.find (\<lambda>(r, v). r = FuseTmpReg) (zip (fu_srcs f) vs))"

text \<open>A part executes: read its renamed sources, write its renamed destination.\<close>

definition part_execute :: "rv_inst \<Rightarrow> virt_reg list \<Rightarrow> phys_reg \<Rightarrow> regfile \<Rightarrow> regfile" where
  "part_execute x vs d rf = setPhysReg d (rv_value x (map (getVirtReg rf) vs)) rf"

definition chain_execute :: "fusion \<Rightarrow> virt_reg list \<Rightarrow> virt_reg list \<Rightarrow> regfile \<Rightarrow> regfile" where
  "chain_execute f vs ds rf =
     (let d = PhyReg (nthv ds 0);
          d1 = (case fuseTmp f vs of Some v \<Rightarrow> PhyReg v | None \<Rightarrow> d);
          k = length (rv_srcs (fu_first f))
      in part_execute (fu_second f) (drop k vs) d
           (part_execute (fu_first f) (take k vs) d1 rf))"

text \<open>\<open>AluBrFusionInst::execute\<close> also sets the next program counter, that of the branch.\<close>

definition alubr_execute ::
  "fusion \<Rightarrow> virt_reg list \<Rightarrow> virt_reg list \<Rightarrow> regfile \<Rightarrow> regfile \<times> addr" where
  "alubr_execute f vs ds rf =
     (let a = fu_first f; b = fu_second f; d = nthv ds 0;
          bs = (if rv_srcRegIdx b 0 = rv_destRegIdx a 0 then [d, nthv vs 1] else [nthv vs 1, d]);
          rf1 = part_execute a [nthv vs 0] (PhyReg d) rf
      in (rf1, rv_npc b (map (getVirtReg rf1) bs)))"

definition macc_execute ::
  "fusion \<Rightarrow> virt_reg list \<Rightarrow> virt_reg list \<Rightarrow> regfile \<Rightarrow> regfile option" where
  "macc_execute f vs ds rf =
     (case fuseTmp f vs of
        None \<Rightarrow> None
      | Some tmp \<Rightarrow>
          let a = fu_first f; b = fu_second f; k = length (rv_srcs a);
              bs = (if rv_srcRegIdx b 0 = rv_destRegIdx a 0 then [nthv vs k, nthv vs (k + 1)]
                    else [nthv vs (k + 1), nthv vs k])
          in Some (part_execute b bs (PhyReg (nthv ds 0))
                    (part_execute a (take k vs) (PhyReg tmp) rf)))"

text \<open>\<open>initiateAcc\<close> of the load classes: the effective address and the registers written
  before the access. \<open>completeAcc\<close>: the registers after the bytes have arrived.\<close>

definition aluLoad_initiateAcc ::
  "fusion \<Rightarrow> virt_reg list \<Rightarrow> regfile \<Rightarrow> addr \<times> regfile" where
  "aluLoad_initiateAcc f vs rf =
     (let a = fu_first f; b = fu_second f; k = length (rv_srcs a);
          rf1 = part_execute a (take k vs) (PhyReg (nthv vs k)) rf
      in (getVirtReg rf1 (nthv vs k) + word_of_int (rv_imm b), rf1))"

definition aluLoad_completeAcc ::
  "fusion \<Rightarrow> virt_reg list \<Rightarrow> 8 word list \<Rightarrow> regfile \<Rightarrow> regfile" where
  "aluLoad_completeAcc f ds bs rf =
     setPhysReg (PhyReg (nthv ds 0)) (load_value (fu_second f) bs) rf"

definition slliAddLoad_initiateAcc :: "fusion \<Rightarrow> rv_inst \<Rightarrow> virt_reg list \<Rightarrow> regfile \<Rightarrow> addr" where
  "slliAddLoad_initiateAcc f c vs rf =
     push_bit (nat (rv_imm (fu_first f))) (getVirtReg rf (nthv vs 0)) +
     getVirtReg rf (nthv vs 1) + word_of_int (rv_imm c)"

definition slliAddLoad_completeAcc ::
  "rv_inst \<Rightarrow> virt_reg list \<Rightarrow> 8 word list \<Rightarrow> regfile \<Rightarrow> regfile" where
  "slliAddLoad_completeAcc c ds bs rf = setPhysReg (PhyReg (nthv ds 0)) (load_value c bs) rf"

definition seqLoad_initiateAcc :: "fusion \<Rightarrow> virt_reg list \<Rightarrow> regfile \<Rightarrow> addr" where
  "seqLoad_initiateAcc f vs rf =
     getVirtReg rf (nthv vs 0) + word_of_int (rv_imm (fu_first f))"

definition seqLoad_completeAcc ::
  "fusion \<Rightarrow> virt_reg list \<Rightarrow> 8 word list \<Rightarrow> regfile \<Rightarrow> regfile" where
  "seqLoad_completeAcc f ds bs rf =
     (let n0 = operWid8 (fu_first f)
      in setPhysReg (PhyReg (nthv ds 1)) (load_value (fu_second f) (drop n0 bs))
           (setPhysReg (PhyReg (nthv ds 0)) (load_value (fu_first f) (take n0 bs)) rf))"

definition correctMisalign :: "fusion \<Rightarrow> addr \<Rightarrow> bool" where
  "correctMisalign f a =
     (case fu_kind f of
        SeqLoadFusionInst _ \<Rightarrow>
          unat a mod operWid8 (fu_first f) = 0 \<and>
          unat (a + of_nat (operWid8 (fu_first f))) mod operWid8 (fu_second f) = 0
      | _ \<Rightarrow> False)"

end
