(* ===== verification/FusionExec.thy ===== *)
theory FusionExec
  imports Fusion
begin

text \<open>
  A fused instruction, renamed as one instruction and executed on physical registers, does
  what its parts do one after the other on architectural registers. The temporary register
  \<open>FuseTmpReg\<close> is the only architectural register that may differ, and, for the classes
  that forget a destination of a part, that destination.
\<close>

section \<open>Fused instructions in the rename stage\<close>

definition isAddImmOp :: "rv_inst \<Rightarrow> bool" where
  "isAddImmOp x \<longleftrightarrow> base_op (rv_op x) = Alu Addi"

text \<open>The chain, branch and multiply classes take the union of the flags of their parts, the
  load classes those of the load.\<close>

definition fu_isAddImm :: "fusion \<Rightarrow> bool" where
  "fu_isAddImm f \<longleftrightarrow>
     (case fu_kind f of
        ChainFusionInst \<Rightarrow> isAddImmOp (fu_first f) \<or> isAddImmOp (fu_second f)
      | AluBrFusionInst \<Rightarrow> isAddImmOp (fu_first f) \<or> isAddImmOp (fu_second f)
      | MaccFusionInst \<Rightarrow> isAddImmOp (fu_first f) \<or> isAddImmOp (fu_second f)
      | _ \<Rightarrow> False)"

text \<open>What renaming reads of the fused instruction; \<open>getImm\<close> of a fused instruction is the
  default 0.\<close>

definition fusion_rename_inst :: "seq_num \<Rightarrow> fusion \<Rightarrow> rename_inst" where
  "fusion_rename_inst sn f =
     \<lparr>ri_seqNum = sn, ri_srcs = fu_srcs f, ri_dests = map (\<lambda>d. (d, 0)) (fu_dests f),
      ri_numTypedDest = (\<lambda>c. occ (\<lambda>d. regClass d = c) (fu_dests f)),
      ri_isMov = False, ri_isAddImm = fu_isAddImm f, ri_imm = 0, ri_squashed = False\<rparr>"

text \<open>A reachable state in which an instruction with number \<open>sn\<close> can be renamed in order,
  with the immediate eliminations switched off, as they are by default.\<close>

definition fusion_ctx ::
  "rename_cfg \<Rightarrow> nat \<Rightarrow> (reg_class \<Rightarrow> nat) \<Rightarrow> (reg_class \<Rightarrow> nat) \<Rightarrow> thread_id \<Rightarrow> seq_num
     \<Rightarrow> rename_state \<Rightarrow> bool" where
  "fusion_ctx cfg n numPhys numArch t sn s \<longleftrightarrow>
     rename_reach cfg n numPhys numArch s \<and> t < n \<and> no_pins s \<and>
     (\<forall>h\<in>set (historyBuffer s t). instSeqNum h \<le> sn) \<and>
     \<not> enableConstantFolding cfg \<and> \<not> enableMovImmElimination cfg"

lemma bypass_reg_no_imm:
  "\<not> enableConstantFolding cfg \<Longrightarrow> \<not> enableMovImmElimination cfg \<Longrightarrow>
   bypass_reg cfg t (i\<lparr>ri_isAddImm := x\<rparr>) s = bypass_reg cfg t i s"
  by (simp add: bypass_reg_def lookup_src0_def)

lemma renameDestRegs_no_imm:
  assumes "\<not> enableConstantFolding cfg" "\<not> enableMovImmElimination cfg"
  shows "renameDestRegs cfg t (i\<lparr>ri_isAddImm := x\<rparr>) ds s = renameDestRegs cfg t i ds s"
  by (induction ds arbitrary: s)
    (simp_all add: renameDestReg_def bypass_reg_no_imm [OF assms] split: option.splits)

text \<open>A destination that was renamed, not eliminated: a register no map, history or
  fixed mapping refers to before.\<close>

definition fresh_dest :: "rename_state \<Rightarrow> virt_reg \<Rightarrow> bool" where
  "fresh_dest s v \<longleftrightarrow>
     IEOper v = None \<and> pclass (PhyReg v) \<noteq> InvalidRegClass \<and> \<not> used s (PhyReg v)"

text \<open>What the execute methods find: sources looked up in the map before renaming, fresh
  destinations, and writes that carry the correspondence of registers over.\<close>

definition renamed_as ::
  "thread_id \<Rightarrow> rename_state \<Rightarrow> rename_state \<Rightarrow> fusion \<Rightarrow> virt_reg list \<Rightarrow> virt_reg list \<Rightarrow> bool" where
  "renamed_as t s s' f vs ds \<longleftrightarrow>
     length vs = length (fu_srcs f) \<and> length ds = length (fu_dests f) \<and>
     (\<forall>i<length vs. lookup t (fu_srcs f ! i) s = Some (vs ! i) \<and> used s (PhyReg (vs ! i))) \<and>
     (\<forall>d\<in>set ds. fresh_dest s d) \<and>
     (\<forall>rf A xs. sim t s rf A \<and> length xs = length ds \<longrightarrow>
        sim t s' (fold (\<lambda>(d, x). setPhysReg (PhyReg d) x) (zip ds xs) rf)
          (fold (\<lambda>(r, x) A. A(r := x)) (zip (fu_dests f) xs) A))"

lemma renameDestReg_fresh:
  assumes "rename_inv n U s" and "t < n" and "no_pins s" and "typed_slot (fst d)"
    and "bypass_reg cfg t i s = Some (None, False)"
    and "renameDestReg cfg t i d s = Some ((new, prev, f), s')"
  shows "fresh_dest s new"
proof -
  have r: "isRenameable (fst d)" using assms(4) by (simp add: typed_slot_def)
  obtain s1 where "simple_rename t (fst d) (snd d) None s = Some ((new, prev), s1)"
    using assms(5,6) r by (auto simp: renameDestReg_def unified_rename_def Let_def split: option.splits)
  moreover have "\<not> 0 < numPinnedWrites (pmeta s (PhyReg (renameMaps s t (regClass (fst d)) ! regIdx (fst d))))"
    using assms(3) by (simp add: no_pins_def not_less)
  ultimately have "numRef (pmeta s (PhyReg new)) = 0" "IEOper new = None"
    "pclass (PhyReg new) = regClass (fst d)"
    using rename_effect_fresh [OF assms(1,2) r] by blast+
  then show ?thesis
    using r by (auto simp: fresh_dest_def used_def isFixedMapping_def isRenameable_def)
qed

lemma renameDestRegs_fresh:
  assumes "rename_inv n U s" and "t < n" and "list_all (wf_dest i) ds"
    and "\<forall>h\<in>set (historyBuffer s t). instSeqNum h \<le> ri_seqNum i"
    and "no_pins s" and "list_all (\<lambda>d. snd d = 0 \<and> typed_slot (fst d)) ds"
    and cf: "\<not> enableConstantFolding cfg" "\<not> eliminated cfg i" and "sim t s rf A"
    and "renameDestRegs cfg t i ds s = Some (rs, s')"
  shows "\<forall>r\<in>set rs. fresh_dest s (fst r)"
  using assms(1,3-6,9,10)
proof (induction ds arbitrary: s rs rf A)
  case Nil
  then show ?case by simp
next
  case (Cons d ds)
  obtain new prev f s1 rs' where d: "renameDestReg cfg t i d s = Some ((new, prev, f), s1)"
    and ds: "renameDestRegs cfg t i ds s1 = Some (rs', s')" and rs: "rs = (new, prev, f) # rs'"
    using Cons.prems(7) by (auto split: option.splits)
  have w: "wf_dest i d" "list_all (wf_dest i) ds" "snd d = 0" "typed_slot (fst d)"
    "regClass (fst d) \<noteq> MiscRegClass" "list_all (\<lambda>d. snd d = 0 \<and> typed_slot (fst d)) ds"
    using Cons.prems(2,5) by (auto simp: typed_slot_def isRenameable_def)
  have po: "post n U t s rf s1 (setPhysReg (PhyReg new) 0 rf) (arch_write (fst d) 0 A)"
    using renameDestReg_post [OF Cons.prems(1) assms(2) w(1) Cons.prems(3,4) w(3,5) cf Cons.prems(6) d]
    by blast
  note st = renameDestReg_run [OF Cons.prems(1) assms(2) w(1) Cons.prems(3) d]
  have "\<forall>h\<in>set (historyBuffer s1 t). instSeqNum h \<le> ri_seqNum i"
    by (rule extends_seq [OF conjunct2 [OF st] Cons.prems(3)]) simp
  with Cons.IH [OF _ w(2) _ _ w(6) _ ds] po have "\<forall>r\<in>set rs'. fresh_dest s1 (fst r)"
    by (auto simp: post_def)
  then have "\<forall>r\<in>set rs'. fresh_dest s (fst r)"
    using po by (auto simp: post_def fresh_dest_def)
  moreover have "fresh_dest s new"
    by (rule renameDestReg_fresh [OF Cons.prems(1) assms(2) Cons.prems(4) w(4) bypass_reg_plain [OF cf] d])
  ultimately show ?case by (simp add: rs)
qed

lemma renameSrcRegs_lookup:
  "renameSrcRegs t rs s = Some vs \<Longrightarrow>
   length vs = length rs \<and> (\<forall>i<length vs. lookup t (rs ! i) s = Some (fst (vs ! i)))"
  by (induction rs arbitrary: vs) (auto simp: nth_Cons split: option.splits nat.splits)

lemma lookup_used:
  assumes "rename_inv n U s" and "t < n" and "lookup t r s = Some v"
  shows "used s (PhyReg v)"
proof (cases "isRenameable r")
  case True
  then have "v \<in> set (renameMaps s t (regClass r))"
    using assms(3) by (auto simp: lookup_def isRenameable_def split: if_splits)
  moreover have "regClass r \<in> set array_classes"
    using True by (simp add: renameable_iff)
  ultimately show ?thesis using mapped_used [OF assms(1,2)] by blast
next
  case False
  then show ?thesis
    using assms(3)
    by (auto simp: lookup_def isRenameable_def used_def isFixedMapping_def getMiscRegId_def)
qed

lemma writes_fold:
  assumes "list_all typed_slot rs" and "length xs = length rs"
  shows "arch_writes (map (\<lambda>d. (d, 0)) rs) xs A = fold (\<lambda>(r, x) A. A(r := x)) (zip rs xs) A"
  using assms(2,1)
  by (induction xs rs arbitrary: A rule: list_induct2)
    (simp_all add: arch_writes_def arch_write_def typed_slot_def isRenameable_def isZeroReg_def)

lemma fused_rename:
  assumes ctx: "fusion_ctx cfg n numPhys numArch t sn s"
    and cls: "list_all typed_slot (fu_dests f)" and sim: "sim t s rf A"
    and run: "renameInst cfg t (fusion_rename_inst sn f) s = Some (out, s')"
  shows "renamed_as t s s' f (map fst (ro_srcs out)) (map fst (ro_dests out))"
proof -
  let ?i = "fusion_rename_inst sn f" and ?j = "(fusion_rename_inst sn f)\<lparr>ri_isAddImm := False\<rparr>"
  let ?ds = "map (\<lambda>d. (d, 0 :: int)) (fu_dests f)"
  obtain ds where src: "renameSrcRegs t (fu_srcs f) s = Some (ro_srcs out)"
    and dst: "renameDestRegs cfg t ?i ?ds s = Some (ds, s')"
    and out: "ro_dests out = map (\<lambda>(n, p, _). (n, p)) ds"
    using run by (auto simp: renameInst_def fusion_rename_inst_def split: if_splits option.splits)
  have dst': "renameDestRegs cfg t ?j ?ds s = Some (ds, s')"
    using dst ctx by (subst renameDestRegs_no_imm) (auto simp: fusion_ctx_def)
  have c: "t < n" "no_pins s" "\<not> enableConstantFolding cfg"
    and inv: "rename_inv n (phys_regs numPhys) s"
    using ctx reach_inv by (auto simp: fusion_ctx_def)
  have w: "list_all (wf_dest ?j) ?ds" "list_all (\<lambda>d. snd d = 0 \<and> regClass (fst d) \<noteq> MiscRegClass) ?ds"
    "list_all (\<lambda>d. snd d = 0 \<and> typed_slot (fst d)) ?ds"
    "\<not> eliminated cfg ?j" "\<forall>h\<in>set (historyBuffer s t). instSeqNum h \<le> ri_seqNum ?j"
    using cls ctx
    by (auto simp: list_all_iff wf_dest_def fusion_rename_inst_def typed_slot_def isRenameable_def
        eliminated_def fusion_ctx_def)
  have "length ds = length xs" if "renameDestRegs cfg t k xs s = Some (ds, s'')" for k xs ds s s''
    using that by (induction xs arbitrary: s ds) (auto split: option.splits)
  from this [OF dst] have len: "length (ro_dests out) = length (fu_dests f)"
    using out by simp
  have fresh: "\<forall>d\<in>set (map fst (ro_dests out)). fresh_dest s d"
    using renameDestRegs_fresh [OF inv c(1) w(1,5) c(2) w(3) c(3) w(4) sim dst'] out by auto
  have "sim t s' (fold (\<lambda>(d, x). setPhysReg (PhyReg d) x) (zip (map fst (ro_dests out)) xs) rf)
      (fold (\<lambda>(r, x) A. A(r := x)) (zip (fu_dests f) xs) A)"
    if "sim t s rf A" "length xs = length (fu_dests f)" for rf A xs
    using renameDestRegs_post [OF inv c(1) w(1,5) c(2) w(2) c(3) w(4) that(1) dst', of xs] that(2)
    by (simp add: post_def out phys_writes_def writes_fold [OF cls] zip_map1 fold_map comp_def split_def)
  then show ?thesis
    using len fresh renameSrcRegs_lookup [OF src] lookup_used [OF inv c(1)]
    by (auto simp: renamed_as_def)
qed

text \<open>Reading sources, before the destination is written and after.\<close>

lemma renamed_reads:
  assumes "renamed_as t s s' f vs ds" and "sim t s rf A"
    and "list_all (\<lambda>r. regClass r \<noteq> MiscRegClass) (fu_srcs f)"
  shows "map (getVirtReg rf) vs = map (arch_read A) (fu_srcs f)"
  using assms sim_lookup(1) [OF assms(2)]
  by (auto simp: renamed_as_def list_all_iff intro!: nth_equalityI)

lemma renamed_src_kept:
  assumes "renamed_as t s s' f vs ds" and "v \<in> set vs" and "d \<in> set ds"
  shows "getVirtReg (setPhysReg (PhyReg d) x rf) v = getVirtReg rf v"
proof (rule getVirtReg_setPhysReg_other)
  have "used s (PhyReg v)"
    using assms(1,2) by (auto simp: renamed_as_def in_set_conv_nth)
  moreover have "\<not> used s (PhyReg d)"
    using assms(1,3) by (simp add: renamed_as_def fresh_dest_def)
  ultimately show "PhyReg v \<noteq> PhyReg d" by auto
qed

lemma renamed_dest_read:
  "renamed_as t s s' f vs ds \<Longrightarrow> d \<in> set ds \<Longrightarrow> getVirtReg (setPhysReg (PhyReg d) x rf) d = x"
  by (simp add: renamed_as_def fresh_dest_def getPhysReg_setPhysReg)

lemma renamed_writes:
  assumes "renamed_as t s s' f vs ds" and "sim t s rf A" and "length xs = length ds"
  shows "sim t s' (fold (\<lambda>(d, x). setPhysReg (PhyReg d) x) (zip ds xs) rf)
    (fold (\<lambda>(r, x) A. A(r := x)) (zip (fu_dests f) xs) A)"
  using assms unfolding renamed_as_def by blast

lemma renamed_write1:
  assumes "renamed_as t s s' f vs ds" and "fu_dests f = [r]" and "sim t s rf A"
  shows "\<exists>d. ds = [d] \<and> sim t s' (setPhysReg (PhyReg d) x rf) (A(r := x))"
proof -
  obtain d where d: "ds = [d]"
    using assms by (auto simp: renamed_as_def length_Suc_conv)
  then show ?thesis
    using renamed_writes [OF assms(1,3), of "[x]"] assms(2) by simp
qed

section \<open>The temporary register\<close>

text \<open>
  No instruction has \<open>FuseTmpReg\<close> as a destination, so the register it was mapped to at
  the start backs it for ever: no other architectural register of the thread maps to it.
\<close>

definition tmp_private :: "thread_id \<Rightarrow> rename_state \<Rightarrow> bool" where
  "tmp_private t s \<longleftrightarrow>
     2 < length (renameMaps s t RMiscRegClass) \<and>
     IEOper (renameMaps s t RMiscRegClass ! 2) = None \<and>
     pclass (PhyReg (renameMaps s t RMiscRegClass ! 2)) \<noteq> InvalidRegClass \<and>
     (\<forall>c\<in>set array_classes. \<forall>i<length (renameMaps s t c).
        RegId c i \<noteq> FuseTmpReg \<longrightarrow>
        PhyReg (renameMaps s t c ! i) \<noteq> PhyReg (renameMaps s t RMiscRegClass ! 2))"

lemma lookup_tmp:
  "tmp_private t s \<Longrightarrow> lookup t FuseTmpReg s = Some (renameMaps s t RMiscRegClass ! 2)"
  by (simp add: tmp_private_def lookup_def FuseTmpReg_def)

lemma sim_tmp:
  assumes "sim t s rf A" and "tmp_private t s" and "lookup t FuseTmpReg s = Some v"
  shows "sim t s (setPhysReg (PhyReg v) x rf) (A(FuseTmpReg := x))"
    and "getVirtReg (setPhysReg (PhyReg v) x rf) v = x"
proof -
  have v: "v = renameMaps s t RMiscRegClass ! 2"
    using assms lookup_tmp by simp
  have p: "IEOper v = None" "pclass (PhyReg v) \<noteq> InvalidRegClass"
    using assms(2) v by (simp_all add: tmp_private_def)
  then show gv: "getVirtReg (setPhysReg (PhyReg v) x rf) v = x"
    by (simp add: getPhysReg_setPhysReg)
  show "sim t s (setPhysReg (PhyReg v) x rf) (A(FuseTmpReg := x))"
    unfolding sim_def
  proof (intro ballI allI impI)
    fix c i
    assume c: "c \<in> set array_classes" and i: "i < length (renameMaps s t c)"
    have ie: "ie_add (renameMaps s t c ! i)" "getVirtReg rf (renameMaps s t c ! i) = A (RegId c i)"
      using assms(1) c i by (simp_all add: sim_def)
    show "getVirtReg (setPhysReg (PhyReg v) x rf) (renameMaps s t c ! i) =
        (A(FuseTmpReg := x)) (RegId c i) \<and> ie_add (renameMaps s t c ! i)"
    proof (cases "RegId c i = FuseTmpReg")
      case True
      then show ?thesis using gv v ie by (simp add: FuseTmpReg_def)
    next
      case False
      then have "PhyReg (renameMaps s t c ! i) \<noteq> PhyReg v"
        using assms(2) c i v by (simp add: tmp_private_def)
      then show ?thesis
        using False ie by (simp add: getVirtReg_setPhysReg_other)
    qed
  qed
qed

section \<open>Parts on architectural registers\<close>

definition rv_result :: "rv_inst \<Rightarrow> arch_state \<Rightarrow> regval" where
  "rv_result x A = rv_value x (map (arch_read A) (rv_srcs x))"

definition rv_step :: "rv_inst \<Rightarrow> arch_state \<Rightarrow> arch_state" where
  "rv_step x A = arch_write (rv_destRegIdx x 0) (rv_result x A) A"

definition load_addr :: "rv_inst \<Rightarrow> arch_state \<Rightarrow> addr" where
  "load_addr x A = arch_read A (rv_srcRegIdx x 0) + word_of_int (rv_imm x)"

definition load_step :: "memory \<Rightarrow> rv_inst \<Rightarrow> arch_state \<Rightarrow> arch_state" where
  "load_step m x A =
     arch_write (rv_destRegIdx x 0) (load_value x (mem_read m (load_addr x A) (operWid8 x))) A"

text \<open>Operands an instruction of the ISA can have.\<close>

definition plain_srcs :: "rv_inst \<Rightarrow> bool" where
  "plain_srcs x \<longleftrightarrow> list_all (\<lambda>r. regClass r \<noteq> MiscRegClass \<and> r \<noteq> FuseTmpReg) (rv_srcs x)"

lemma newFusion_Some:
  "newFusion k nm a b c ds ss = Some f \<Longrightarrow>
   list_all typed_slot ds \<and>
   f = \<lparr>fu_kind = k, fu_name = nm, fu_first = a, fu_second = b, fu_third = c, fu_dests = ds, fu_srcs = ss\<rparr>"
  by (simp add: newFusion_def split: if_splits)

lemma arch_write_typed [simp]: "typed_slot r \<Longrightarrow> arch_write r v A = A(r := v)"
  by (simp add: arch_write_def typed_slot_def isRenameable_def isZeroReg_def)

lemma typed_not_zero: "typed_slot r \<Longrightarrow> \<not> isZeroReg r"
  by (simp add: typed_slot_def isRenameable_def isZeroReg_def)

lemma FuseTmpReg_class [simp]: "regClass FuseTmpReg = RMiscRegClass"
  by (simp add: FuseTmpReg_def)

text \<open>Reading through the temporary register is reading the first destination.\<close>

lemma read_through_tmp:
  assumes "list_all (\<lambda>r. r \<noteq> FuseTmpReg) rs" and "typed_slot d"
  shows "map (arch_read (A(FuseTmpReg := x))) (map (\<lambda>r. if r = d then FuseTmpReg else r) rs) =
    map (arch_read (A(d := x))) rs"
  using assms typed_not_zero by (auto simp: list_all_iff arch_read_def isZeroReg_def)

lemma renamed_tmp:
  assumes "renamed_as t s s' f vs ds" and "FuseTmpReg \<in> set (fu_srcs f)"
  shows "\<exists>v. fuseTmp f vs = Some v \<and> lookup t FuseTmpReg s = Some v"
proof -
  have len: "length vs = length (fu_srcs f)"
    and lk: "\<And>i. i < length vs \<Longrightarrow> lookup t (fu_srcs f ! i) s = Some (vs ! i)"
    using assms(1) by (auto simp: renamed_as_def)
  obtain i where "i < length vs" "fu_srcs f ! i = FuseTmpReg"
    using len assms(2) by (auto simp: in_set_conv_nth)
  then have "(FuseTmpReg, vs ! i) \<in> set (zip (fu_srcs f) vs)"
    using len by (auto simp: set_zip intro!: exI [of _ i])
  then have "List.find (\<lambda>(r, v). r = FuseTmpReg) (zip (fu_srcs f) vs) \<noteq> None"
    by (auto simp: find_None_iff)
  then obtain r v where fv: "List.find (\<lambda>(r, v). r = FuseTmpReg) (zip (fu_srcs f) vs) = Some (r, v)"
    by auto
  have "P p \<and> p \<in> set xs" if "List.find P xs = Some p" for P xs and p :: "reg_id \<times> virt_reg"
    using that by (induction xs) (auto split: if_splits)
  from this [OF fv] obtain j where "j < length vs" "fu_srcs f ! j = FuseTmpReg" "vs ! j = v"
    using len by (auto simp: set_zip)
  then show ?thesis using fv lk [of j] by (auto simp: fuseTmp_def)
qed

lemma rf_take_drop:
  assumes "map g vs = map h (xs @ ys)"
  shows "map g (take (length xs) vs) = map h xs" and "map g (drop (length xs) vs) = map h ys"
proof -
  have "map g (take (length xs) vs) = take (length xs) (map g vs)"
    and "map g (drop (length xs) vs) = drop (length xs) (map g vs)"
    by (simp_all add: take_map drop_map)
  then show "map g (take (length xs) vs) = map h xs" and "map g (drop (length xs) vs) = map h ys"
    by (simp_all add: assms)
qed

lemma drop_two: "length vs = k + 2 \<Longrightarrow> drop k vs = [nthv vs k, nthv vs (k + 1)]"
  by (simp add: nthv_def Cons_nth_drop_Suc [symmetric])

section \<open>Chains\<close>

text \<open>
  C20: Chain fusion is correct. A pair of instructions with the same destination, the second
  reading the first one's result, renamed and executed as one instruction, leaves every
  architectural register with the value the two leave when executed one after the other;
  only the fusion temporary, which no program can name, also changes.
\<close>

theorem chain_fusion_correct:
  assumes "fusion_ctx cfg n numPhys numArch t sn s" and "tmp_private t s" and "sim t s rf A"
    and "newChain nm a b = Some f" and "rv_destRegIdx a 0 \<in> set (rv_srcs b)"
    and "plain_srcs a" and "plain_srcs b"
    and "renameInst cfg t (fusion_rename_inst sn f) s = Some (out, s')"
  shows "sim t s' (chain_execute f (map fst (ro_srcs out)) (map fst (ro_dests out)) rf)
           ((rv_step b (rv_step a A))(FuseTmpReg := rv_result a A))"
proof -
  let ?d = "rv_destRegIdx a 0" and ?x = "rv_result a A" and ?vs = "map fst (ro_srcs out)"
  let ?A = "A(FuseTmpReg := ?x)"
  have d: "typed_slot ?d" "rv_destRegIdx b 0 = ?d" and f: "fu_first f = a" "fu_second f = b" "fu_dests f = [?d]"
    "fu_srcs f = rv_srcs a @ map (\<lambda>r. if r = ?d then FuseTmpReg else r) (rv_srcs b)"
    using assms(4) newFusion_Some by (fastforce simp: newChain_def split: if_splits)+
  have "list_all typed_slot (fu_dests f)" using d f by simp
  note R = fused_rename [OF assms(1) this assms(3,8)]
  have cls: "list_all (\<lambda>r. regClass r \<noteq> MiscRegClass) (fu_srcs f)"
    and tb: "list_all (\<lambda>r. r \<noteq> FuseTmpReg) (rv_srcs b)" and ts: "FuseTmpReg \<in> set (fu_srcs f)"
    using assms(5-7) f(4) by (auto simp: plain_srcs_def list_all_iff)
  obtain tv where tv: "fuseTmp f ?vs = Some tv" "lookup t FuseTmpReg s = Some tv"
    using renamed_tmp [OF R ts] by blast
  let ?rf = "setPhysReg (PhyReg tv) ?x rf"
  note s1 = sim_tmp(1) [OF assms(3,2) tv(2), of ?x]
  have first: "map (getVirtReg rf) (take (length (rv_srcs a)) ?vs) = map (arch_read A) (rv_srcs a)"
    by (rule rf_take_drop(1) [OF renamed_reads [OF R assms(3) cls, unfolded f(4)]])
  have second: "map (getVirtReg ?rf) (drop (length (rv_srcs a)) ?vs) = map (arch_read (A(?d := ?x))) (rv_srcs b)"
    unfolding read_through_tmp [OF tb d(1), symmetric]
    by (rule rf_take_drop(2) [OF renamed_reads [OF R s1 cls, unfolded f(4)]])
  have "?d \<noteq> FuseTmpReg"
    using assms(5) tb by (auto simp: list_all_iff)
  then have "(rv_step b (rv_step a A))(FuseTmpReg := ?x) = ?A(?d := rv_result b (A(?d := ?x)))"
    using d by (auto simp: rv_step_def)
  then show ?thesis
    using renamed_write1 [OF R f(3) s1, of "rv_result b (A(?d := ?x))"] first second tv f
    by (auto simp: chain_execute_def part_execute_def nthv_def rv_result_def)
qed

section \<open>Branches\<close>

text \<open>
  C23: Fusion of an instruction that has one source with the branch that tests its result is
  correct, when exactly one of the two sources of the branch is the result: the destination has
  the value of the first instruction and the next program counter is the one the branch computes
  after it. (When both sources are the result the fused instruction lacks the source it reads.)
\<close>

theorem alubr_fusion_correct:
  assumes "fusion_ctx cfg n numPhys numArch t sn s" and "sim t s rf A"
    and "newAluBr nm a b = Some f" and "rv_srcs a = [r]" and "rv_srcs b = [p, q]"
    and "(p = rv_destRegIdx a 0) \<noteq> (q = rv_destRegIdx a 0)"
    and "plain_srcs a" and "plain_srcs b"
    and "renameInst cfg t (fusion_rename_inst sn f) s = Some (out, s')"
  shows "sim t s' (fst (alubr_execute f (map fst (ro_srcs out)) (map fst (ro_dests out)) rf))
           (rv_step a A) \<and>
         snd (alubr_execute f (map fst (ro_srcs out)) (map fst (ro_dests out)) rf) =
           rv_npc b (map (arch_read (rv_step a A)) (rv_srcs b))"
proof -
  let ?d = "rv_destRegIdx a 0" and ?x = "rv_result a A" and ?vs = "map fst (ro_srcs out)"
  let ?o = "if p = ?d then q else p"
  have f: "typed_slot ?d" "fu_first f = a" "fu_second f = b" "fu_dests f = [?d]" "fu_srcs f = [r, ?o]"
    using assms(3-6) newFusion_Some by (fastforce simp: newAluBr_def split: if_splits)+
  have "list_all typed_slot (fu_dests f)" using f by simp
  note R = fused_rename [OF assms(1) this assms(2,9)]
  have cls: "list_all (\<lambda>r. regClass r \<noteq> MiscRegClass) (fu_srcs f)"
    using assms(4,5,7,8) f(5) by (auto simp: plain_srcs_def)
  obtain v w where vs: "?vs = [v, w]"
    using R f(5) by (auto simp: renamed_as_def length_Suc_conv)
  have rd: "getVirtReg rf v = arch_read A r" "getVirtReg rf w = arch_read A ?o"
    using renamed_reads [OF R assms(2) cls] f(5) vs by simp_all
  obtain new where nw: "map fst (ro_dests out) = [new]"
    and sm: "sim t s' (setPhysReg (PhyReg new) ?x rf) (A(?d := ?x))"
    using renamed_write1 [OF R f(4) assms(2), of ?x] by auto
  have rf1: "part_execute a [v] (PhyReg new) rf = setPhysReg (PhyReg new) ?x rf"
    using rd assms(4) by (simp add: part_execute_def rv_result_def)
  have "sim t s' (fst (alubr_execute f ?vs (map fst (ro_dests out)) rf)) (rv_step a A)"
    using sm rf1 f vs nw by (simp add: alubr_execute_def Let_def nthv_def rv_step_def)
  moreover have "getVirtReg (setPhysReg (PhyReg new) ?x rf) w = arch_read (A(?d := ?x)) ?o"
    using renamed_src_kept [OF R, of w new ?x rf] vs nw rd assms(6) by (auto simp: arch_read_def)
  moreover have "getVirtReg (setPhysReg (PhyReg new) ?x rf) new = arch_read (A(?d := ?x)) ?d"
    using renamed_dest_read [OF R, of new] nw typed_not_zero [OF f(1)] by (simp add: arch_read_def)
  ultimately show ?thesis
    using rf1 f vs nw assms(5,6)
    by (auto simp: alubr_execute_def Let_def nthv_def rv_step_def rv_srcRegIdx_def)
qed

section \<open>Multiply-accumulate\<close>

text \<open>
  C34: Multiply-accumulate fusion computes the sum of the two instructions, but it writes
  only the destination of the addition: when the product had a register of its own, that
  register keeps its old value. The addition has exactly one source that is the product.
\<close>

theorem macc_fusion_result:
  assumes "fusion_ctx cfg n numPhys numArch t sn s" and "tmp_private t s" and "sim t s rf A"
    and "newMacc nm a b = Some f" and "rv_srcs b = [p, q]"
    and "(p = rv_destRegIdx a 0) \<noteq> (q = rv_destRegIdx a 0)" and "typed_slot (rv_destRegIdx a 0)"
    and "plain_srcs a" and "plain_srcs b" and "rv_destRegIdx b 0 \<noteq> FuseTmpReg"
    and "renameInst cfg t (fusion_rename_inst sn f) s = Some (out, s')"
  shows "\<exists>rf'. macc_execute f (map fst (ro_srcs out)) (map fst (ro_dests out)) rf = Some rf' \<and>
    sim t s' rf' (A(FuseTmpReg := rv_result a A,
                    rv_destRegIdx b 0 := rv_step b (rv_step a A) (rv_destRegIdx b 0)))"
proof -
  let ?d = "rv_destRegIdx a 0" and ?e = "rv_destRegIdx b 0" and ?x = "rv_result a A"
  let ?vs = "map fst (ro_srcs out)" and ?o = "if p = ?d then q else p" and ?k = "length (rv_srcs a)"
  have f: "typed_slot ?e" "fu_first f = a" "fu_second f = b" "fu_dests f = [?e]"
    "fu_srcs f = rv_srcs a @ [FuseTmpReg, ?o]"
    using assms(4-6) newFusion_Some by (fastforce simp: newMacc_def split: if_splits)+
  have "list_all typed_slot (fu_dests f)" using f by simp
  note R = fused_rename [OF assms(1) this assms(3,11)]
  have cls: "list_all (\<lambda>r. regClass r \<noteq> MiscRegClass) (fu_srcs f)" and o: "?o \<noteq> FuseTmpReg" "?o \<noteq> ?d"
    using assms(5,6,8,9) f(5) by (auto simp: plain_srcs_def list_all_iff)
  obtain tv where tv: "fuseTmp f ?vs = Some tv" "lookup t FuseTmpReg s = Some tv"
    using renamed_tmp [OF R] f(5) by auto
  let ?rf = "setPhysReg (PhyReg tv) ?x rf"
  note s1 = sim_tmp(1) [OF assms(3,2) tv(2), of ?x]
  have first: "map (getVirtReg rf) (take ?k ?vs) = map (arch_read A) (rv_srcs a)"
    by (rule rf_take_drop(1) [OF renamed_reads [OF R assms(3) cls, unfolded f(5)]])
  have len: "length ?vs = ?k + 2"
    using R f(5) by (simp add: renamed_as_def)
  have "map (getVirtReg ?rf) (drop ?k ?vs) = map (arch_read (A(FuseTmpReg := ?x))) [FuseTmpReg, ?o]"
    by (rule rf_take_drop(2) [OF renamed_reads [OF R s1 cls, unfolded f(5)]])
  moreover have "drop ?k ?vs = [nthv ?vs ?k, nthv ?vs (?k + 1)]"
    by (rule drop_two [OF len])
  ultimately have rd: "getVirtReg ?rf (nthv ?vs ?k) = ?x" "getVirtReg ?rf (nthv ?vs (?k + 1)) = arch_read A ?o"
    using o by (simp_all add: arch_read_def isZeroReg_def)
  have val: "map (getVirtReg ?rf) (if rv_srcRegIdx b 0 = ?d then [nthv ?vs ?k, nthv ?vs (?k + 1)]
        else [nthv ?vs (?k + 1), nthv ?vs ?k]) = map (arch_read (A(?d := ?x))) (rv_srcs b)"
    using rd assms(5,6) typed_not_zero [OF assms(7)] by (auto simp: rv_srcRegIdx_def arch_read_def)
  have "rv_step b (rv_step a A) ?e = rv_result b (A(?d := ?x))"
    using f(1) assms(7) by (simp add: rv_step_def)
  moreover obtain new where "map fst (ro_dests out) = [new]"
    "sim t s' (setPhysReg (PhyReg new) (rv_result b (A(?d := ?x))) ?rf)
      (A(FuseTmpReg := ?x, ?e := rv_result b (A(?d := ?x))))"
    using renamed_write1 [OF R f(4) s1, of "rv_result b (A(?d := ?x))"] by auto
  ultimately show ?thesis
    using first val tv f
    by (simp add: macc_execute_def Let_def part_execute_def rv_result_def nthv_def [of "[_]"])
qed

section \<open>Loads\<close>

lemma mem_read_split:
  "take n (mem_read m a (n + k)) = mem_read m a n"
  "drop n (mem_read m a (n + k)) = mem_read m (a + of_nat n) k"
proof -
  show "take n (mem_read m a (n + k)) = mem_read m a n"
    by (simp add: mem_read_def take_map take_upt)
  show "drop n (mem_read m a (n + k)) = mem_read m (a + of_nat n) k"
    by (rule nth_equalityI) (simp_all add: mem_read_def add.assoc)
qed

text \<open>
  C22: Fusion of an address computation with the load through it is correct: the address is
  the one the load computes after the first instruction, and with the bytes memory holds
  there every architectural register ends with its sequential value.
\<close>

theorem alu_load_fusion_correct:
  assumes "fusion_ctx cfg n numPhys numArch t sn s" and "tmp_private t s" and "sim t s rf A"
    and "newAluLoad memsize nm a b = Some f" and "rv_srcs b = [base]" and "rv_dests b = [d]"
    and "plain_srcs a" and "plain_srcs b"
    and "renameInst cfg t (fusion_rename_inst sn f) s = Some (out, s')"
    and "aluLoad_initiateAcc f (map fst (ro_srcs out)) rf = (ea, rf1)"
  shows "ea = load_addr b (rv_step a A) \<and>
    sim t s' (aluLoad_completeAcc f (map fst (ro_dests out)) (mem_read m ea memsize) rf1)
      ((load_step m b (rv_step a A))(FuseTmpReg := rv_result a A))"
proof -
  let ?x = "rv_result a A" and ?vs = "map fst (ro_srcs out)" and ?k = "length (rv_srcs a)"
  have f: "typed_slot d" "fu_first f = a" "fu_second f = b" "fu_dests f = [d]"
    "fu_srcs f = rv_srcs a @ [FuseTmpReg]" and d: "rv_destRegIdx a 0 = d" "base = d" "memsize = operWid8 b"
    using assms(4-6) newFusion_Some
    by (fastforce simp: newAluLoad_def rv_srcRegIdx_def rv_destRegIdx_def split: if_splits)+
  have "list_all typed_slot (fu_dests f)" using f by simp
  note R = fused_rename [OF assms(1) this assms(3,9)]
  have cls: "list_all (\<lambda>r. regClass r \<noteq> MiscRegClass) (fu_srcs f)" and dt: "d \<noteq> FuseTmpReg"
    using assms(5,7,8) d f(5) by (auto simp: plain_srcs_def list_all_iff)
  have len: "length ?vs = ?k + 1"
    using R f(5) by (simp add: renamed_as_def)
  then have tv: "lookup t FuseTmpReg s = Some (nthv ?vs ?k)"
    using R f(5) by (auto simp: renamed_as_def nthv_def nth_append)
  let ?rf = "setPhysReg (PhyReg (nthv ?vs ?k)) ?x rf"
  note s1 = sim_tmp [OF assms(3,2) tv, of ?x]
  have "map (getVirtReg rf) (take ?k ?vs) = map (arch_read A) (rv_srcs a)"
    by (rule rf_take_drop(1) [OF renamed_reads [OF R assms(3) cls, unfolded f(5)]])
  then have init: "rf1 = ?rf" "ea = ?x + word_of_int (rv_imm b)"
    using assms(10) s1(2) f by (auto simp: aluLoad_initiateAcc_def Let_def part_execute_def rv_result_def)
  have st: "rv_step a A = A(d := ?x)"
    using d f(1) by (simp add: rv_step_def)
  then have ea: "ea = load_addr b (rv_step a A)"
    using init assms(5) d typed_not_zero [OF f(1)] by (simp add: load_addr_def rv_srcRegIdx_def arch_read_def)
  let ?v = "load_value b (mem_read m ea memsize)"
  have "(load_step m b (rv_step a A))(FuseTmpReg := ?x) = A(FuseTmpReg := ?x, d := ?v)"
    using ea st assms(6) d f(1) dt by (auto simp: load_step_def rv_destRegIdx_def)
  then show ?thesis
    using renamed_write1 [OF R f(4) s1(1), of ?v] init ea f
    by (auto simp: aluLoad_completeAcc_def nthv_def [of "[_]"])
qed

text \<open>
  C21: Fusion of two loads of adjacent addresses is correct: one access of the combined size
  at the first address gives both registers what the two loads give them.
\<close>

theorem seq_load_fusion_correct:
  assumes "fusion_ctx cfg n numPhys numArch t sn s" and "sim t s rf A"
    and "newSeqLoad memsize nm a b = Some f" and "rv_srcs a = [base]" and "rv_srcs b = [base']"
    and "plain_srcs a" and "rv_destRegIdx a 0 \<noteq> base"
    and "renameInst cfg t (fusion_rename_inst sn f) s = Some (out, s')"
  shows "sim t s' (seqLoad_completeAcc f (map fst (ro_dests out))
      (mem_read m (seqLoad_initiateAcc f (map fst (ro_srcs out)) rf) memsize) rf)
    (load_step m b (load_step m a A))"
proof -
  let ?vs = "map fst (ro_srcs out)" and ?d = "rv_destRegIdx a 0" and ?e = "rv_destRegIdx b 0"
  have f: "typed_slot ?d" "typed_slot ?e" "fu_first f = a" "fu_second f = b" "fu_dests f = [?d, ?e]"
    "fu_srcs f = [base]" and eq: "base' = base" "rv_imm b = rv_imm a + int (operWid8 a)"
      "memsize = operWid8 a + operWid8 b"
    using assms(3-5) newFusion_Some by (fastforce simp: newSeqLoad_def rv_srcRegIdx_def split: if_splits)+
  have "list_all typed_slot (fu_dests f)" using f by simp
  note R = fused_rename [OF assms(1) this assms(2,8)]
  have cls: "list_all (\<lambda>r. regClass r \<noteq> MiscRegClass) (fu_srcs f)"
    using assms(4,6) f(6) by (simp add: plain_srcs_def)
  obtain v where vs: "?vs = [v]"
    using R f(6) by (auto simp: renamed_as_def length_Suc_conv)
  then have ea: "seqLoad_initiateAcc f ?vs rf = load_addr a A"
    using renamed_reads [OF R assms(2) cls] f assms(4)
    by (simp add: seqLoad_initiateAcc_def nthv_def load_addr_def rv_srcRegIdx_def)
  obtain d e where ds: "map fst (ro_dests out) = [d, e]"
    using R f(5) by (auto simp: renamed_as_def length_Suc_conv)
  have la: "load_addr b (load_step m a A) = load_addr a A + of_nat (operWid8 a)"
    using assms(4,5,7) f(1) eq
    by (simp add: load_addr_def load_step_def rv_srcRegIdx_def arch_read_def add.assoc)
  let ?x = "load_value a (mem_read m (load_addr a A) (operWid8 a))"
    and ?y = "load_value b (mem_read m (load_addr a A + of_nat (operWid8 a)) (operWid8 b))"
  have "load_step m b (load_step m a A) = A(?d := ?x, ?e := ?y)"
    using f(1,2) la by (simp add: load_step_def)
  then show ?thesis
    using renamed_writes [OF R assms(2), of "[?x, ?y]"] ds f ea eq
    by (simp add: seqLoad_completeAcc_def Let_def nthv_def mem_read_split)
qed

section \<open>Shift, add and load\<close>

text \<open>
  C35: Fusion of a shift, an addition and a load computes the address of the load and gives
  its destination the sequential value, when exactly one source of the addition is the
  shifted value. It writes only the destination of the load, which is also that of the
  addition: a shifted value with a register of its own is not written there.
\<close>

theorem slli_add_load_fusion_result:
  assumes "fusion_ctx cfg n numPhys numArch t sn s" and "sim t s rf A"
    and "newSlliAddLoad memsize nm a b c = Some f" and "memsize = operWid8 c"
    and "base_op (rv_op a) = Alu Slli" and "base_op (rv_op b) = Alu Add"
    and "rv_srcs a = [r]" and "rv_srcs b = [p, q]" and "rv_srcs c = [base]" and "rv_dests c = [d]"
    and "(p = rv_destRegIdx a 0) \<noteq> (q = rv_destRegIdx a 0)" and "typed_slot (rv_destRegIdx a 0)"
    and "plain_srcs a" and "plain_srcs b"
    and "renameInst cfg t (fusion_rename_inst sn f) s = Some (out, s')"
    and "slliAddLoad_initiateAcc f c (map fst (ro_srcs out)) rf = ea"
  shows "ea = load_addr c (rv_step b (rv_step a A)) \<and>
    sim t s' (slliAddLoad_completeAcc c (map fst (ro_dests out)) (mem_read m ea memsize) rf)
      (A(d := load_step m c (rv_step b (rv_step a A)) d))"
proof -
  let ?d = "rv_destRegIdx a 0" and ?o = "if p = rv_destRegIdx a 0 then q else p"
  let ?vs = "map fst (ro_srcs out)" and ?x = "rv_result a A"
  have f: "typed_slot d" "fu_first f = a" "fu_dests f = [d]" "fu_srcs f = [r, ?o]"
    and d: "rv_destRegIdx b 0 = d" "base = d"
    using assms(3,7-11) newFusion_Some
    by (fastforce simp: newSlliAddLoad_def rv_srcRegIdx_def rv_destRegIdx_def split: if_splits)+
  have "list_all typed_slot (fu_dests f)" using f by simp
  note R = fused_rename [OF assms(1) this assms(2,15)]
  have cls: "list_all (\<lambda>r. regClass r \<noteq> MiscRegClass) (fu_srcs f)"
    using assms(7,8,13,14) f(4) by (auto simp: plain_srcs_def)
  obtain v w where vs: "?vs = [v, w]"
    using R f(4) by (auto simp: renamed_as_def length_Suc_conv)
  have rd: "getVirtReg rf v = arch_read A r" "getVirtReg rf w = arch_read A ?o"
    using renamed_reads [OF R assms(2) cls] f(4) vs by simp_all
  have x: "?x = push_bit (nat (rv_imm a)) (arch_read A r)"
    using assms(5,7) by (simp add: rv_result_def rv_value_def arg_def)
  have y: "rv_result b (A(?d := ?x)) = ?x + arch_read A ?o"
    using assms(6,8,11) typed_not_zero [OF assms(12)]
    by (auto simp: rv_result_def rv_value_def arg_def arch_read_def)
  have st: "rv_step b (rv_step a A) = A(?d := ?x, d := ?x + arch_read A ?o)"
    using d(1) f(1) assms(12) y by (simp add: rv_step_def)
  then have ea: "ea = load_addr c (rv_step b (rv_step a A))"
    using assms(9,16) rd vs x d(2) f(2) typed_not_zero [OF f(1)]
    by (simp add: slliAddLoad_initiateAcc_def nthv_def load_addr_def rv_srcRegIdx_def arch_read_def)
  then have "load_step m c (rv_step b (rv_step a A)) d = load_value c (mem_read m ea memsize)"
    using assms(4,10) f(1) by (simp add: load_step_def rv_destRegIdx_def)
  then show ?thesis
    using ea renamed_write1 [OF R f(3) assms(2), of "load_value c (mem_read m ea memsize)"]
    by (auto simp: slliAddLoad_completeAcc_def nthv_def)
qed

text \<open>
  C36: The class does not compute the sequential address when both sources of the addition
  are the shifted value: the second operand is read from the register before the shift,
  although neither the check nor the constructor excludes the case.
\<close>

theorem slli_add_load_double_source:
  assumes "fusion_ctx cfg n numPhys numArch t sn s" and "sim t s rf A"
    and "newSlliAddLoad memsize nm a b c = Some f"
    and "base_op (rv_op a) = Alu Slli" and "base_op (rv_op b) = Alu Add"
    and "rv_srcs a = [r]" and "rv_srcs b = [rv_destRegIdx a 0, rv_destRegIdx a 0]"
    and "rv_srcs c = [base]" and "rv_dests c = [d]" and "typed_slot (rv_destRegIdx a 0)"
    and "plain_srcs a" and "plain_srcs b"
    and "renameInst cfg t (fusion_rename_inst sn f) s = Some (out, s')"
  shows "slliAddLoad_initiateAcc f c (map fst (ro_srcs out)) rf =
      rv_result a A + A (rv_destRegIdx a 0) + word_of_int (rv_imm c) \<and>
    load_addr c (rv_step b (rv_step a A)) =
      rv_result a A + rv_result a A + word_of_int (rv_imm c)"
proof -
  let ?d = "rv_destRegIdx a 0" and ?vs = "map fst (ro_srcs out)"
  have f: "typed_slot d" "fu_first f = a" "fu_dests f = [d]" "fu_srcs f = [r, ?d]"
    and d: "rv_destRegIdx b 0 = d" "base = d"
    using assms(3,6-9) newFusion_Some
    by (fastforce simp: newSlliAddLoad_def rv_srcRegIdx_def rv_destRegIdx_def split: if_splits)+
  have "list_all typed_slot (fu_dests f)" using f by simp
  note R = fused_rename [OF assms(1) this assms(2,13)]
  have cls: "list_all (\<lambda>r. regClass r \<noteq> MiscRegClass) (fu_srcs f)"
    using assms(6,7,11,12) f(4) by (auto simp: plain_srcs_def)
  obtain v w where vs: "?vs = [v, w]"
    using R f(4) by (auto simp: renamed_as_def length_Suc_conv)
  have "getVirtReg rf v = arch_read A r" "getVirtReg rf w = arch_read A ?d"
    using renamed_reads [OF R assms(2) cls] f(4) vs by simp_all
  then show ?thesis
    using assms(4-10) d f(1,2) vs typed_not_zero [OF assms(10)] typed_not_zero [OF f(1)]
    by (simp add: slliAddLoad_initiateAcc_def nthv_def load_addr_def rv_step_def rv_result_def
        rv_value_def arg_def arch_read_def rv_srcRegIdx_def)
qed

section \<open>Concrete instances\<close>

definition fx_phys :: "reg_class \<Rightarrow> nat" where
  "fx_phys c = (if c = IntRegClass then 8 else 4)"

definition fx_arch :: "reg_class \<Rightarrow> nat" where
  "fx_arch c = (if c = IntRegClass then 4 else if c = RMiscRegClass then 3 else 0)"

definition fx_cfg :: rename_cfg where
  "fx_cfg = \<lparr>enableMoveElimination = True, enableConstantFolding = False,
     enableMovImmElimination = False, renameWidth = 2\<rparr>"

definition fx_state :: rename_state where
  "fx_state = the (init_rename 1 fx_phys fx_arch)"

lemma not_none_pair: "\<not> Option.is_none x \<Longrightarrow> x = Some (fst (the x), snd (the x))"
  by (simp add: Option.is_none_def)

lemma fx_init: "init_rename 1 fx_phys fx_arch = Some fx_state"
proof -
  have "\<not> Option.is_none (init_rename 1 fx_phys fx_arch)"
    by code_simp
  then show ?thesis
    by (simp add: fx_state_def Option.is_none_def)
qed

lemma fx_ctx: "fusion_ctx fx_cfg 1 fx_phys fx_arch 0 1 fx_state"
proof -
  have "historyBuffer fx_state 0 = []"
    by code_simp
  then show ?thesis
    using rr_init [OF fx_init] init_no_pins [OF fx_init] by (simp add: fusion_ctx_def fx_cfg_def)
qed

lemma fx_private: "tmp_private 0 fx_state"
  by code_simp

lemma fx_sim: "sim 0 fx_state ex_rf ex_A"
  by code_simp

definition fx_inst :: "rv_op \<Rightarrow> int \<Rightarrow> nat list \<Rightarrow> nat list \<Rightarrow> rv_inst" where
  "fx_inst p i ss ds = \<lparr>rv_op = p, rv_imm = i, rv_srcs = map (RegId IntRegClass) ss,
     rv_dests = map (RegId IntRegClass) ds, rv_pc = 0x80000000\<rparr>"

definition fx_out :: "fusion \<Rightarrow> rename_out \<times> rename_state" where
  "fx_out f = the (renameInst fx_cfg 0 (fusion_rename_inst 1 f) fx_state)"

lemma fx_run:
  "\<not> Option.is_none (renameInst fx_cfg 0 (fusion_rename_inst 1 f) fx_state) \<Longrightarrow>
   renameInst fx_cfg 0 (fusion_rename_inst 1 f) fx_state = Some (fst (fx_out f), snd (fx_out f))"
  unfolding fx_out_def by (rule not_none_pair)

lemma fx_plain [simp]: "plain_srcs (fx_inst p i ss ds)"
  by (simp add: plain_srcs_def fx_inst_def FuseTmpReg_def list_all_iff)

lemma fx_typed [simp]: "typed_slot (RegId IntRegClass i)"
  by (simp add: typed_slot_def isRenameable_def)

definition fx_slli :: rv_inst where
  "fx_slli = fx_inst (Alu Slli) 1 [2] [1]"

definition fx_add :: rv_inst where
  "fx_add = fx_inst (Compressed C_add) 0 [1, 3] [1]"

definition fx_chain :: fusion where
  "fx_chain = the (newChain ''sll1add'' fx_slli fx_add)"

lemma fx_chain: "newChain ''sll1add'' fx_slli fx_add = Some fx_chain"
  by (simp add: fx_chain_def fx_slli_def fx_add_def newChain_def newFusion_def fx_inst_def rv_destRegIdx_def)

theorem chain_fusion_correct_witness:
  "sim 0 (snd (fx_out fx_chain))
     (chain_execute fx_chain (map fst (ro_srcs (fst (fx_out fx_chain))))
        (map fst (ro_dests (fst (fx_out fx_chain)))) ex_rf)
     ((rv_step fx_add (rv_step fx_slli ex_A))(FuseTmpReg := rv_result fx_slli ex_A)) \<and>
   rv_step fx_add (rv_step fx_slli ex_A) (RegId IntRegClass 1) = 70"
proof -
  have "\<not> Option.is_none (renameInst fx_cfg 0 (fusion_rename_inst 1 fx_chain) fx_state)"
    by code_simp
  then show ?thesis
    using chain_fusion_correct [OF fx_ctx fx_private fx_sim fx_chain _ _ _ fx_run]
    by (simp add: fx_slli_def fx_add_def) (simp add: fx_inst_def rv_destRegIdx_def rv_step_def
        arch_write_def isZeroReg_def rv_result_def rv_value_def arg_def arch_read_def ex_A_def)
qed

definition fx_andi :: rv_inst where
  "fx_andi = fx_inst (Alu Andi) 4 [2] [1]"

definition fx_bne :: rv_inst where
  "fx_bne = (fx_inst (Br Bne) 64 [3, 1] [])\<lparr>rv_pc := 0x80000004\<rparr>"

definition fx_alubr :: fusion where
  "fx_alubr = the (newAluBr ''andibne'' fx_andi fx_bne)"

lemma fx_alubr: "newAluBr ''andibne'' fx_andi fx_bne = Some fx_alubr"
  by (simp add: fx_alubr_def fx_andi_def fx_bne_def newAluBr_def newFusion_def fx_inst_def
      rv_destRegIdx_def rv_srcRegIdx_def)

theorem alubr_fusion_correct_witness:
  "snd (alubr_execute fx_alubr (map fst (ro_srcs (fst (fx_out fx_alubr))))
     (map fst (ro_dests (fst (fx_out fx_alubr)))) ex_rf) = 0x80000044"
proof -
  have "\<not> Option.is_none (renameInst fx_cfg 0 (fusion_rename_inst 1 fx_alubr) fx_state)"
    by code_simp
  then have "snd (alubr_execute fx_alubr (map fst (ro_srcs (fst (fx_out fx_alubr))))
     (map fst (ro_dests (fst (fx_out fx_alubr)))) ex_rf) =
     rv_npc fx_bne (map (arch_read (rv_step fx_andi ex_A)) (rv_srcs fx_bne))"
    using alubr_fusion_correct [OF fx_ctx fx_sim fx_alubr _ _ _ _ _ fx_run,
        of "RegId IntRegClass 2" "RegId IntRegClass 3" "RegId IntRegClass 1"]
    by (simp add: fx_andi_def fx_bne_def plain_srcs_def fx_inst_def rv_destRegIdx_def FuseTmpReg_def)
  also have "\<dots> = 0x80000044"
    by code_simp
  finally show ?thesis .
qed

definition fx_mul :: rv_inst where
  "fx_mul = fx_inst (Alu Mul) 0 [2, 3] [1]"

definition fx_add2 :: rv_inst where
  "fx_add2 = fx_inst (Alu Add) 0 [3, 1] [2]"

definition fx_macc :: fusion where
  "fx_macc = the (newMacc ''muladd'' fx_mul fx_add2)"

lemma fx_macc: "newMacc ''muladd'' fx_mul fx_add2 = Some fx_macc"
  by (simp add: fx_macc_def fx_mul_def fx_add2_def newMacc_def newFusion_def fx_inst_def
      rv_destRegIdx_def rv_srcRegIdx_def)

theorem macc_fusion_result_witness:
  "(\<exists>rf'. macc_execute fx_macc (map fst (ro_srcs (fst (fx_out fx_macc))))
      (map fst (ro_dests (fst (fx_out fx_macc)))) ex_rf = Some rf' \<and>
     sim 0 (snd (fx_out fx_macc)) rf'
       (ex_A(FuseTmpReg := 600, RegId IntRegClass 2 := 630))) \<and>
   rv_step fx_add2 (rv_step fx_mul ex_A) (RegId IntRegClass 1) = 600 \<and>
   ex_A (RegId IntRegClass 1) = 10"
proof -
  have "\<not> Option.is_none (renameInst fx_cfg 0 (fusion_rename_inst 1 fx_macc) fx_state)"
    by code_simp
  moreover have v: "rv_result fx_mul ex_A = 600" "rv_destRegIdx fx_add2 0 = RegId IntRegClass 2"
    "rv_step fx_add2 (rv_step fx_mul ex_A) (RegId IntRegClass 2) = 630"
    "rv_step fx_add2 (rv_step fx_mul ex_A) (RegId IntRegClass 1) = 600"
    "ex_A (RegId IntRegClass 1) = 10"
    by code_simp+
  ultimately show ?thesis
    using macc_fusion_result [OF fx_ctx fx_private fx_sim fx_macc _ _ _ _ _ _ fx_run,
        of "RegId IntRegClass 3" "RegId IntRegClass 1"]
    by (simp add: fx_mul_def fx_add2_def) (simp add: fx_inst_def rv_destRegIdx_def FuseTmpReg_def)
qed

text \<open>A memory whose bytes are their addresses.\<close>

definition fx_mem :: memory where
  "fx_mem a = ucast a"

definition fx_load :: "rv_op \<Rightarrow> int \<Rightarrow> nat \<Rightarrow> nat \<Rightarrow> rv_inst" where
  "fx_load p i r d = fx_inst p i [r] [d]"

definition fx_aluld :: fusion where
  "fx_aluld = the (newAluLoad 4 ''farlw'' fx_slli (fx_load (Load Lw) 8 1 1))"

lemma fx_aluld: "newAluLoad 4 ''farlw'' fx_slli (fx_load (Load Lw) 8 1 1) = Some fx_aluld"
  by (simp add: fx_aluld_def fx_slli_def fx_load_def newAluLoad_def newFusion_def fx_inst_def
      rv_destRegIdx_def rv_srcRegIdx_def operWid8_def)

theorem alu_load_fusion_correct_witness:
  "fst (aluLoad_initiateAcc fx_aluld (map fst (ro_srcs (fst (fx_out fx_aluld)))) ex_rf) = 48 \<and>
   sim 0 (snd (fx_out fx_aluld))
     (aluLoad_completeAcc fx_aluld (map fst (ro_dests (fst (fx_out fx_aluld)))) (mem_read fx_mem 48 4)
       (snd (aluLoad_initiateAcc fx_aluld (map fst (ro_srcs (fst (fx_out fx_aluld)))) ex_rf)))
     ((load_step fx_mem (fx_load (Load Lw) 8 1 1) (rv_step fx_slli ex_A))
       (FuseTmpReg := rv_result fx_slli ex_A))"
proof -
  have "\<not> Option.is_none (renameInst fx_cfg 0 (fusion_rename_inst 1 fx_aluld) fx_state)"
    by code_simp
  moreover have "load_addr (fx_load (Load Lw) 8 1 1) (rv_step fx_slli ex_A) = 48"
    by code_simp
  ultimately show ?thesis
    using alu_load_fusion_correct [OF fx_ctx fx_private fx_sim fx_aluld _ _ _ _ fx_run prod.collapse [symmetric],
        of "RegId IntRegClass 1" "RegId IntRegClass 1" fx_mem]
    by (simp add: fx_slli_def fx_load_def) (auto simp: fx_inst_def)
qed

definition fx_seqld :: fusion where
  "fx_seqld = the (newSeqLoad 12 ''ldlw'' (fx_load (Compressed C_ld) 16 2 1) (fx_load (Load Lwu) 24 2 3))"

lemma fx_seqld:
  "newSeqLoad 12 ''ldlw'' (fx_load (Compressed C_ld) 16 2 1) (fx_load (Load Lwu) 24 2 3) = Some fx_seqld"
  by (simp add: fx_seqld_def fx_load_def newSeqLoad_def newFusion_def fx_inst_def
      rv_destRegIdx_def rv_srcRegIdx_def operWid8_def)

theorem seq_load_fusion_correct_witness:
  "sim 0 (snd (fx_out fx_seqld))
     (seqLoad_completeAcc fx_seqld (map fst (ro_dests (fst (fx_out fx_seqld))))
       (mem_read fx_mem (seqLoad_initiateAcc fx_seqld (map fst (ro_srcs (fst (fx_out fx_seqld)))) ex_rf) 12)
       ex_rf)
     (load_step fx_mem (fx_load (Load Lwu) 24 2 3) (load_step fx_mem (fx_load (Compressed C_ld) 16 2 1) ex_A)) \<and>
   load_step fx_mem (fx_load (Load Lwu) 24 2 3) (load_step fx_mem (fx_load (Compressed C_ld) 16 2 1) ex_A)
     (RegId IntRegClass 3) = 0x2F2E2D2C"
proof -
  have "\<not> Option.is_none (renameInst fx_cfg 0 (fusion_rename_inst 1 fx_seqld) fx_state)"
    by code_simp
  moreover have "load_step fx_mem (fx_load (Load Lwu) 24 2 3) (load_step fx_mem (fx_load (Compressed C_ld) 16 2 1) ex_A)
     (RegId IntRegClass 3) = 0x2F2E2D2C"
    by code_simp
  ultimately show ?thesis
    using seq_load_fusion_correct [OF fx_ctx fx_sim fx_seqld _ _ _ _ fx_run,
        of "RegId IntRegClass 2" "RegId IntRegClass 2" fx_mem]
    by (simp add: fx_load_def) (simp add: fx_inst_def rv_destRegIdx_def)
qed

definition fx_triple :: "nat \<Rightarrow> fusion" where
  "fx_triple q = the (newSlliAddLoad 8 ''sll1addld'' fx_slli (fx_inst (Alu Add) 0 [1, q] [3]) (fx_load (Load Ld) 8 3 3))"

lemma fx_triple:
  "newSlliAddLoad 8 ''sll1addld'' fx_slli (fx_inst (Alu Add) 0 [1, q] [3]) (fx_load (Load Ld) 8 3 3) =
   Some (fx_triple q)"
  by (simp add: fx_triple_def fx_slli_def fx_load_def newSlliAddLoad_def newFusion_def fx_inst_def
      rv_destRegIdx_def rv_srcRegIdx_def)

theorem slli_add_load_fusion_result_witness:
  "slliAddLoad_initiateAcc (fx_triple 2) (fx_load (Load Ld) 8 3 3)
     (map fst (ro_srcs (fst (fx_out (fx_triple 2))))) ex_rf = 68"
proof -
  have "\<not> Option.is_none (renameInst fx_cfg 0 (fusion_rename_inst 1 (fx_triple 2)) fx_state)"
    by code_simp
  moreover have "load_addr (fx_load (Load Ld) 8 3 3)
      (rv_step (fx_inst (Alu Add) 0 [1, 2] [3]) (rv_step fx_slli ex_A)) = 68"
    by code_simp
  ultimately show ?thesis
    using slli_add_load_fusion_result [OF fx_ctx fx_sim fx_triple _ _ _ _ _ _ _ _ _ _ _ fx_run refl,
        where r = "RegId IntRegClass 2" and p = "RegId IntRegClass 1" and q = "RegId IntRegClass 2"
          and base = "RegId IntRegClass 3" and d = "RegId IntRegClass 3"]
    by (simp add: fx_slli_def fx_load_def) (simp add: fx_inst_def rv_destRegIdx_def operWid8_def)
qed

theorem slli_add_load_double_source_witness:
  "slliAddLoad_initiateAcc (fx_triple 1) (fx_load (Load Ld) 8 3 3)
     (map fst (ro_srcs (fst (fx_out (fx_triple 1))))) ex_rf = 58 \<and>
   load_addr (fx_load (Load Ld) 8 3 3)
      (rv_step (fx_inst (Alu Add) 0 [1, 1] [3]) (rv_step fx_slli ex_A)) = 88"
proof -
  have "\<not> Option.is_none (renameInst fx_cfg 0 (fusion_rename_inst 1 (fx_triple 1)) fx_state)"
    by code_simp
  moreover have "rv_result fx_slli ex_A = 40" "ex_A (RegId IntRegClass 1) = 10"
    by code_simp+
  ultimately show ?thesis
    using slli_add_load_double_source [OF fx_ctx fx_sim fx_triple _ _ _ _ _ _ _ _ _ fx_run,
        where r = "RegId IntRegClass 2" and base = "RegId IntRegClass 3" and d = "RegId IntRegClass 3"]
    by (simp add: fx_slli_def fx_load_def) (simp add: fx_inst_def rv_destRegIdx_def)
qed

end
