(* ===== verification/FusionMap.thy ===== *)
theory FusionMap
  imports FusionExec "HOL-Library.Multiset"
begin

text \<open>
  The tables that say which instructions are fused (\<open>deCompressMap\<close>, \<open>fusionMap\<close> and
  \<open>fusionMap3\<close> of \<open>arch/riscv/insts/fusion.cc\<close>), the lookup with \<open>FusionKey\<close>, and the
  creators, which check the operands and call a constructor. The macros that write the
  checks are the constructors of \<open>check\<close>, so that the tables are data.
\<close>

section \<open>Tables\<close>

fun deCompressMap :: "rv_op \<Rightarrow> rv_op" where
  "deCompressMap (Compressed C_lhu) = Load Lh"
| "deCompressMap (Compressed C_lbu) = Load Lb"
| "deCompressMap (Compressed c) = c_op c"
| "deCompressMap (Load Lwu) = Load Lw"
| "deCompressMap (Load Lhu) = Load Lh"
| "deCompressMap (Load Lbu) = Load Lb"
| "deCompressMap p = p"

datatype fusion_key = ImmKey rv_op int | AnyImmKey rv_op

text \<open>\<open>FusionKey::operator==\<close> of a key that is looked up with a key of the table. A key
  holds an \<open>int\<close>, to which the 64-bit immediate is truncated.\<close>

fun key_equal :: "rv_op \<Rightarrow> int \<Rightarrow> fusion_key \<Rightarrow> bool" where
  "key_equal p i (ImmKey q j) \<longleftrightarrow> p = q \<and> to_int32 i = j"
| "key_equal p i (AnyImmKey q) \<longleftrightarrow> p = q"

datatype check =
  FirstDest0EqualSecond | Dest0EqualSrc0 | Dest0EqualSrc0or1 | Dest0EqualSecondSrc0or1
| ImmIs int | ImmIsPlus int | SeqLoadCheck | SlliAddLdCheck

datatype fusion_val =
  Creator fusion_kind string "check list"
| Tag "(fusion_key \<times> fusion_val) list"

type_synonym fusion_tag = "(fusion_key \<times> fusion_val) list"

definition fusionMap_shift :: fusion_tag where
  "fusionMap_shift =
     [(ImmKey (Alu Slli) 32, Tag
        [(ImmKey (Alu Srli) 32, Creator ChainFusionInst ''low32'' [FirstDest0EqualSecond, Dest0EqualSrc0]),
         (ImmKey (Alu Srli) 31, Creator ChainFusionInst ''sll1zext'' [FirstDest0EqualSecond, Dest0EqualSrc0]),
         (ImmKey (Alu Srli) 30, Creator ChainFusionInst ''sll2zext'' [FirstDest0EqualSecond, Dest0EqualSrc0]),
         (ImmKey (Alu Srli) 29, Creator ChainFusionInst ''sll3zext'' [FirstDest0EqualSecond, Dest0EqualSrc0])]),
      (ImmKey (Alu Slli) 48, Tag
        [(ImmKey (Alu Srli) 48, Creator ChainFusionInst ''low16'' [FirstDest0EqualSecond, Dest0EqualSrc0])]),
      (ImmKey (Alu Slliw) 16, Tag
        [(ImmKey (Alu Srliw) 16, Creator ChainFusionInst ''low16w'' [FirstDest0EqualSecond, Dest0EqualSrc0]),
         (ImmKey (Alu Sraiw) 16, Creator ChainFusionInst ''sext16w'' [FirstDest0EqualSecond, Dest0EqualSrc0])]),
      (ImmKey (Alu Slli) 1, Tag
        [(AnyImmKey (Alu Add), Creator ChainFusionInst ''sll1add'' [FirstDest0EqualSecond, Dest0EqualSrc0or1])]),
      (ImmKey (Alu Slli) 2, Tag
        [(AnyImmKey (Alu Add), Creator ChainFusionInst ''sll2add'' [FirstDest0EqualSecond, Dest0EqualSrc0or1])]),
      (ImmKey (Alu Slli) 3, Tag
        [(AnyImmKey (Alu Add), Creator ChainFusionInst ''sll3add'' [FirstDest0EqualSecond, Dest0EqualSrc0or1])]),
      (ImmKey (Alu Slli) 4, Tag
        [(AnyImmKey (Alu Add), Creator ChainFusionInst ''sll4add'' [FirstDest0EqualSecond, Dest0EqualSrc0or1])]),
      (ImmKey (Alu Srli) 29, Tag
        [(AnyImmKey (Alu Add), Creator ChainFusionInst ''srl29add'' [FirstDest0EqualSecond, Dest0EqualSrc0or1])]),
      (ImmKey (Alu Srli) 30, Tag
        [(AnyImmKey (Alu Add), Creator ChainFusionInst ''srl30add'' [FirstDest0EqualSecond, Dest0EqualSrc0or1])]),
      (ImmKey (Alu Srli) 31, Tag
        [(AnyImmKey (Alu Add), Creator ChainFusionInst ''srl31add'' [FirstDest0EqualSecond, Dest0EqualSrc0or1])]),
      (ImmKey (Alu Srli) 32, Tag
        [(AnyImmKey (Alu Add), Creator ChainFusionInst ''srl32add'' [FirstDest0EqualSecond, Dest0EqualSrc0or1])]),
      (ImmKey (Alu Srli) 8, Tag
        [(ImmKey (Alu Andi) 255, Creator ChainFusionInst ''byte2'' [FirstDest0EqualSecond, Dest0EqualSrc0])])]"

definition fusionMap_add :: fusion_tag where
  "fusionMap_add =
     [(AnyImmKey (Alu Add), Tag
        [(AnyImmKey (Load Ld), Creator (AluLoadFusionInst 8) ''farld'' [FirstDest0EqualSecond, Dest0EqualSrc0]),
         (AnyImmKey (Load Lw), Creator (AluLoadFusionInst 4) ''farlw'' [FirstDest0EqualSecond, Dest0EqualSrc0]),
         (AnyImmKey (Load Lh), Creator (AluLoadFusionInst 2) ''farlh'' [FirstDest0EqualSecond, Dest0EqualSrc0]),
         (AnyImmKey (Load Lb), Creator (AluLoadFusionInst 1) ''farlb'' [FirstDest0EqualSecond, Dest0EqualSrc0])]),
      (AnyImmKey (Alu Addw), Tag
        [(ImmKey (Alu Andi) 255, Creator ChainFusionInst ''addwbyte'' [FirstDest0EqualSecond, Dest0EqualSrc0]),
         (ImmKey (Alu Andi) 1, Creator ChainFusionInst ''addwbit'' [FirstDest0EqualSecond, Dest0EqualSrc0]),
         (AnyImmKey (Alu Zext_h), Creator ChainFusionInst ''addwzexth'' [FirstDest0EqualSecond, Dest0EqualSrc0]),
         (AnyImmKey (Alu Sext_h), Creator ChainFusionInst ''addwsexth'' [FirstDest0EqualSecond, Dest0EqualSrc0])]),
      (AnyImmKey (Alu Addi), Tag
        [(AnyImmKey (Load Ld), Creator (AluLoadFusionInst 8) ''farld'' [FirstDest0EqualSecond, Dest0EqualSrc0]),
         (AnyImmKey (Load Lw), Creator (AluLoadFusionInst 4) ''farlw'' [FirstDest0EqualSecond, Dest0EqualSrc0]),
         (AnyImmKey (Load Lh), Creator (AluLoadFusionInst 2) ''farlh'' [FirstDest0EqualSecond, Dest0EqualSrc0]),
         (AnyImmKey (Load Lb), Creator (AluLoadFusionInst 1) ''farlb'' [FirstDest0EqualSecond, Dest0EqualSrc0]),
         (AnyImmKey (Br Beq), Creator AluBrFusionInst ''addibeq'' [Dest0EqualSecondSrc0or1]),
         (AnyImmKey (Br Bne), Creator AluBrFusionInst ''addibne'' [Dest0EqualSecondSrc0or1]),
         (AnyImmKey (Br Blt), Creator AluBrFusionInst ''addiblt'' [Dest0EqualSecondSrc0or1]),
         (AnyImmKey (Br Bge), Creator AluBrFusionInst ''addibge'' [Dest0EqualSecondSrc0or1]),
         (AnyImmKey (Br Bltu), Creator AluBrFusionInst ''addibltu'' [Dest0EqualSecondSrc0or1]),
         (AnyImmKey (Br Bgeu), Creator AluBrFusionInst ''addibgeu'' [Dest0EqualSecondSrc0or1])]),
      (AnyImmKey (Alu Lui), Tag
        [(AnyImmKey (Alu Addi), Creator ChainFusionInst ''lui32'' [FirstDest0EqualSecond, Dest0EqualSrc0]),
         (AnyImmKey (Alu Addiw), Creator ChainFusionInst ''luiw32'' [FirstDest0EqualSecond, Dest0EqualSrc0])]),
      (AnyImmKey (Alu Auipc), Tag
        [(AnyImmKey (Load Ld), Creator (AluLoadFusionInst 8) ''farld'' [FirstDest0EqualSecond, Dest0EqualSrc0]),
         (AnyImmKey (Load Lw), Creator (AluLoadFusionInst 4) ''farlw'' [FirstDest0EqualSecond, Dest0EqualSrc0]),
         (AnyImmKey (Load Lh), Creator (AluLoadFusionInst 2) ''farlh'' [FirstDest0EqualSecond, Dest0EqualSrc0]),
         (AnyImmKey (Load Lb), Creator (AluLoadFusionInst 1) ''farlb'' [FirstDest0EqualSecond, Dest0EqualSrc0])])]"

definition fusionMap_mac :: fusion_tag where
  "fusionMap_mac =
     [(AnyImmKey (Alu Mul), Tag
        [(AnyImmKey (Alu Add), Creator MaccFusionInst ''muladd'' [Dest0EqualSecondSrc0or1]),
         (AnyImmKey (Alu Addw), Creator MaccFusionInst ''muladdw'' [Dest0EqualSecondSrc0or1])]),
      (AnyImmKey (Alu Mulw), Tag
        [(AnyImmKey (Alu Add), Creator MaccFusionInst ''mulwadd'' [Dest0EqualSecondSrc0or1]),
         (AnyImmKey (Alu Addw), Creator MaccFusionInst ''mulwaddw'' [Dest0EqualSecondSrc0or1])])]"

definition fusionMap_logic :: fusion_tag where
  "fusionMap_logic =
     [(AnyImmKey (Alu Andi), Tag
        [(AnyImmKey (Alu Add), Creator ChainFusionInst ''oddadd'' [ImmIs 1, FirstDest0EqualSecond, Dest0EqualSrc0or1]),
         (AnyImmKey (Alu Addw), Creator ChainFusionInst ''oddaddw'' [ImmIs 1, FirstDest0EqualSecond, Dest0EqualSrc0or1]),
         (AnyImmKey (Alu Or), Creator ChainFusionInst ''orh48'' [ImmIs (- 256), FirstDest0EqualSecond, Dest0EqualSrc0or1]),
         (AnyImmKey (Alu Mulw), Creator ChainFusionInst ''mulw7'' [ImmIs 127, FirstDest0EqualSecond, Dest0EqualSrc0or1]),
         (ImmKey (Alu Andi) 1, Creator ChainFusionInst ''andi1'' [FirstDest0EqualSecond, Dest0EqualSrc0]),
         (AnyImmKey (Alu Zext_h), Creator ChainFusionInst ''andi16'' [FirstDest0EqualSecond, Dest0EqualSrc0]),
         (AnyImmKey (Br Beq), Creator AluBrFusionInst ''andibeq'' [Dest0EqualSecondSrc0or1]),
         (AnyImmKey (Br Bne), Creator AluBrFusionInst ''andibne'' [Dest0EqualSecondSrc0or1]),
         (AnyImmKey (Br Blt), Creator AluBrFusionInst ''andiblt'' [Dest0EqualSecondSrc0or1]),
         (AnyImmKey (Br Bge), Creator AluBrFusionInst ''andibge'' [Dest0EqualSecondSrc0or1]),
         (AnyImmKey (Br Bltu), Creator AluBrFusionInst ''andibltu'' [Dest0EqualSecondSrc0or1]),
         (AnyImmKey (Br Bgeu), Creator AluBrFusionInst ''andibgeu'' [Dest0EqualSecondSrc0or1])]),
      (AnyImmKey (Alu And), Tag
        [(ImmKey (Alu Andi) 1, Creator ChainFusionInst ''and1'' [FirstDest0EqualSecond, Dest0EqualSrc0]),
         (AnyImmKey (Alu Zext_h), Creator ChainFusionInst ''and16'' [FirstDest0EqualSecond, Dest0EqualSrc0])]),
      (AnyImmKey (Alu Ori), Tag
        [(ImmKey (Alu Andi) 1, Creator ChainFusionInst ''ori1'' [FirstDest0EqualSecond, Dest0EqualSrc0]),
         (AnyImmKey (Alu Zext_h), Creator ChainFusionInst ''ori16'' [FirstDest0EqualSecond, Dest0EqualSrc0])]),
      (AnyImmKey (Alu Or), Tag
        [(ImmKey (Alu Andi) 1, Creator ChainFusionInst ''or1'' [FirstDest0EqualSecond, Dest0EqualSrc0]),
         (AnyImmKey (Alu Zext_h), Creator ChainFusionInst ''or16'' [FirstDest0EqualSecond, Dest0EqualSrc0])]),
      (AnyImmKey (Alu Xori), Tag
        [(ImmKey (Alu Andi) 1, Creator ChainFusionInst ''xori1'' [FirstDest0EqualSecond, Dest0EqualSrc0]),
         (AnyImmKey (Alu Zext_h), Creator ChainFusionInst ''xori16'' [FirstDest0EqualSecond, Dest0EqualSrc0])]),
      (AnyImmKey (Alu Xor), Tag
        [(ImmKey (Alu Andi) 1, Creator ChainFusionInst ''xor1'' [FirstDest0EqualSecond, Dest0EqualSrc0]),
         (AnyImmKey (Alu Zext_h), Creator ChainFusionInst ''xor16'' [FirstDest0EqualSecond, Dest0EqualSrc0])]),
      (AnyImmKey (Alu Orc_b), Tag
        [(ImmKey (Alu Andi) 1, Creator ChainFusionInst ''orcb1'' [FirstDest0EqualSecond, Dest0EqualSrc0]),
         (AnyImmKey (Alu Zext_h), Creator ChainFusionInst ''orcb16'' [FirstDest0EqualSecond, Dest0EqualSrc0])])]"

definition fusionMap_branch :: fusion_tag where
  "fusionMap_branch =
     [(AnyImmKey (Alu Srai), Tag
        [(AnyImmKey (Br Beq), Creator AluBrFusionInst ''sraibeq'' [Dest0EqualSecondSrc0or1]),
         (AnyImmKey (Br Bne), Creator AluBrFusionInst ''sraibne'' [Dest0EqualSecondSrc0or1]),
         (AnyImmKey (Br Blt), Creator AluBrFusionInst ''sraiblt'' [Dest0EqualSecondSrc0or1]),
         (AnyImmKey (Br Bge), Creator AluBrFusionInst ''sraibge'' [Dest0EqualSecondSrc0or1]),
         (AnyImmKey (Br Bltu), Creator AluBrFusionInst ''sraibltu'' [Dest0EqualSecondSrc0or1]),
         (AnyImmKey (Br Bgeu), Creator AluBrFusionInst ''sraibgeu'' [Dest0EqualSecondSrc0or1])]),
      (AnyImmKey (Alu Slti), Tag
        [(AnyImmKey (Br Beq), Creator AluBrFusionInst ''sltibeq'' [Dest0EqualSecondSrc0or1]),
         (AnyImmKey (Br Bne), Creator AluBrFusionInst ''sltibne'' [Dest0EqualSecondSrc0or1]),
         (AnyImmKey (Br Blt), Creator AluBrFusionInst ''sltiblt'' [Dest0EqualSecondSrc0or1]),
         (AnyImmKey (Br Bge), Creator AluBrFusionInst ''sltibge'' [Dest0EqualSecondSrc0or1]),
         (AnyImmKey (Br Bltu), Creator AluBrFusionInst ''sltibltu'' [Dest0EqualSecondSrc0or1]),
         (AnyImmKey (Br Bgeu), Creator AluBrFusionInst ''sltibgeu'' [Dest0EqualSecondSrc0or1])])]"

definition fusionMap_load :: fusion_tag where
  "fusionMap_load =
     [(AnyImmKey (Load Ld), Tag
        [(AnyImmKey (Load Ld), Creator (SeqLoadFusionInst 16) ''ldld'' [SeqLoadCheck, ImmIsPlus 8]),
         (AnyImmKey (Load Lw), Creator (SeqLoadFusionInst 12) ''ldlw'' [SeqLoadCheck, ImmIsPlus 8]),
         (AnyImmKey (Load Lh), Creator (SeqLoadFusionInst 10) ''ldlh'' [SeqLoadCheck, ImmIsPlus 8]),
         (AnyImmKey (Load Lb), Creator (SeqLoadFusionInst 9) ''ldlb'' [SeqLoadCheck, ImmIsPlus 8])]),
      (AnyImmKey (Load Lw), Tag
        [(AnyImmKey (Load Ld), Creator (SeqLoadFusionInst 12) ''lwld'' [SeqLoadCheck, ImmIsPlus 4]),
         (AnyImmKey (Load Lw), Creator (SeqLoadFusionInst 8) ''lwlw'' [SeqLoadCheck, ImmIsPlus 4]),
         (AnyImmKey (Load Lh), Creator (SeqLoadFusionInst 6) ''lwlh'' [SeqLoadCheck, ImmIsPlus 4]),
         (AnyImmKey (Load Lb), Creator (SeqLoadFusionInst 5) ''lwlb'' [SeqLoadCheck, ImmIsPlus 4])]),
      (AnyImmKey (Load Lh), Tag
        [(AnyImmKey (Load Ld), Creator (SeqLoadFusionInst 10) ''lhld'' [SeqLoadCheck, ImmIsPlus 2]),
         (AnyImmKey (Load Lw), Creator (SeqLoadFusionInst 6) ''lhlw'' [SeqLoadCheck, ImmIsPlus 2]),
         (AnyImmKey (Load Lh), Creator (SeqLoadFusionInst 4) ''lhlh'' [SeqLoadCheck, ImmIsPlus 2]),
         (AnyImmKey (Load Lb), Creator (SeqLoadFusionInst 3) ''lhlb'' [SeqLoadCheck, ImmIsPlus 2])]),
      (AnyImmKey (Load Lb), Tag
        [(AnyImmKey (Load Ld), Creator (SeqLoadFusionInst 9) ''lbld'' [SeqLoadCheck, ImmIsPlus 1]),
         (AnyImmKey (Load Lw), Creator (SeqLoadFusionInst 5) ''lblw'' [SeqLoadCheck, ImmIsPlus 1]),
         (AnyImmKey (Load Lh), Creator (SeqLoadFusionInst 3) ''lblh'' [SeqLoadCheck, ImmIsPlus 1]),
         (AnyImmKey (Load Lb), Creator (SeqLoadFusionInst 2) ''lblb'' [SeqLoadCheck, ImmIsPlus 1])])]"

definition fusionMap :: fusion_tag where
  "fusionMap =
     fusionMap_shift @ fusionMap_add @ fusionMap_mac @ fusionMap_logic @ fusionMap_branch @ fusionMap_load"

definition SlliAddLdEntry :: "nat \<Rightarrow> char \<Rightarrow> fusion_key \<times> fusion_val" where
  "SlliAddLdEntry shamt digit =
     (ImmKey (Alu Slli) (int shamt), Tag [(AnyImmKey (Alu Add), Tag
        [(AnyImmKey (Load Ld), Creator (SlliAddLoadFusionInst 8) (''sll'' @ digit # ''addld'') [SlliAddLdCheck]),
         (AnyImmKey (Load Lw), Creator (SlliAddLoadFusionInst 4) (''sll'' @ digit # ''addlw'') [SlliAddLdCheck]),
         (AnyImmKey (Load Lh), Creator (SlliAddLoadFusionInst 2) (''sll'' @ digit # ''addlh'') [SlliAddLdCheck]),
         (AnyImmKey (Load Lb), Creator (SlliAddLoadFusionInst 1) (''sll'' @ digit # ''addlb'') [SlliAddLdCheck])])])"

definition fusionMap3 :: fusion_tag where
  "fusionMap3 =
     [SlliAddLdEntry 1 CHR ''1'', SlliAddLdEntry 2 CHR ''2'', SlliAddLdEntry 3 CHR ''3'',
      SlliAddLdEntry 4 CHR ''4'', SlliAddLdEntry 5 CHR ''5'', SlliAddLdEntry 6 CHR ''6'',
      SlliAddLdEntry 7 CHR ''7'', SlliAddLdEntry 8 CHR ''8'']"

section \<open>Lookup and creation\<close>

text \<open>\<open>unordered_map::find\<close>: an entry whose key equals the one looked up.\<close>

definition tag_find :: "rv_inst \<Rightarrow> fusion_tag \<Rightarrow> fusion_val option" where
  "tag_find x tag =
     map_option snd (List.find (\<lambda>(k, v). key_equal (deCompressMap (rv_op x)) (rv_imm x) k) tag)"

definition nth_inst :: "rv_inst list \<Rightarrow> nat \<Rightarrow> rv_inst" where
  "nth_inst vec i =
     (if i < length vec then vec ! i
      else \<lparr>rv_op = OtherOp 0, rv_imm = 0, rv_srcs = [], rv_dests = [], rv_pc = 0\<rparr>)"

fun check_holds :: "rv_inst list \<Rightarrow> check \<Rightarrow> bool" where
  "check_holds vec FirstDest0EqualSecond \<longleftrightarrow>
     rv_destRegIdx (nth_inst vec 0) 0 = rv_destRegIdx (nth_inst vec 1) 0"
| "check_holds vec Dest0EqualSrc0 \<longleftrightarrow>
     rv_destRegIdx (nth_inst vec 1) 0 = rv_srcRegIdx (nth_inst vec 1) 0"
| "check_holds vec Dest0EqualSrc0or1 \<longleftrightarrow>
     rv_destRegIdx (nth_inst vec 1) 0 = rv_srcRegIdx (nth_inst vec 1) 0 \<or>
     rv_destRegIdx (nth_inst vec 1) 0 = rv_srcRegIdx (nth_inst vec 1) 1"
| "check_holds vec Dest0EqualSecondSrc0or1 \<longleftrightarrow>
     rv_destRegIdx (nth_inst vec 0) 0 = rv_srcRegIdx (nth_inst vec 1) 0 \<or>
     rv_destRegIdx (nth_inst vec 0) 0 = rv_srcRegIdx (nth_inst vec 1) 1"
| "check_holds vec (ImmIs i) \<longleftrightarrow> rv_imm (nth_inst vec 0) = i"
| "check_holds vec (ImmIsPlus i) \<longleftrightarrow> rv_imm (nth_inst vec 1) = rv_imm (nth_inst vec 0) + i"
| "check_holds vec SeqLoadCheck \<longleftrightarrow>
     rv_srcRegIdx (nth_inst vec 0) 0 = rv_srcRegIdx (nth_inst vec 1) 0 \<and>
     rv_destRegIdx (nth_inst vec 0) 0 \<noteq> rv_srcRegIdx (nth_inst vec 0) 0 \<and>
     rv_destRegIdx (nth_inst vec 0) 0 \<noteq> rv_destRegIdx (nth_inst vec 1) 0"
| "check_holds vec SlliAddLdCheck \<longleftrightarrow>
     (rv_destRegIdx (nth_inst vec 0) 0 = rv_srcRegIdx (nth_inst vec 1) 0 \<or>
      rv_destRegIdx (nth_inst vec 0) 0 = rv_srcRegIdx (nth_inst vec 1) 1) \<and>
     rv_destRegIdx (nth_inst vec 1) 0 = rv_srcRegIdx (nth_inst vec 2) 1 \<and>
     rv_destRegIdx (nth_inst vec 2) 0 = rv_srcRegIdx (nth_inst vec 2) 0"

datatype fuse_result = NoFusion | Fused fusion | Panic

definition construct :: "fusion_kind \<Rightarrow> string \<Rightarrow> rv_inst list \<Rightarrow> fusion option" where
  "construct k n vec =
     (case k of
        ChainFusionInst \<Rightarrow> newChain n (nth_inst vec 0) (nth_inst vec 1)
      | AluBrFusionInst \<Rightarrow> newAluBr n (nth_inst vec 0) (nth_inst vec 1)
      | MaccFusionInst \<Rightarrow> newMacc n (nth_inst vec 0) (nth_inst vec 1)
      | AluLoadFusionInst m \<Rightarrow> newAluLoad m n (nth_inst vec 0) (nth_inst vec 1)
      | SlliAddLoadFusionInst m \<Rightarrow> newSlliAddLoad m n (nth_inst vec 0) (nth_inst vec 1) (nth_inst vec 2)
      | SeqLoadFusionInst m \<Rightarrow> newSeqLoad m n (nth_inst vec 0) (nth_inst vec 1))"

definition create :: "fusion_kind \<Rightarrow> string \<Rightarrow> check list \<Rightarrow> rv_inst list \<Rightarrow> fuse_result" where
  "create k n cs vec =
     (if \<not> list_all (check_holds vec) cs then NoFusion
      else case construct k n vec of None \<Rightarrow> Panic | Some f \<Rightarrow> Fused f)"

text \<open>
  The lookup of a sequence of instructions, one table level per instruction, as
  \<open>Decode::checkAndFuseInsts\<close>, \<open>checkAndFuseNonConsec\<close> and \<open>checkAndFuseTriple\<close> do it.
  The assertions on the variant are the \<open>Panic\<close> branches.
\<close>

fun find_creator :: "fusion_tag \<Rightarrow> rv_inst list \<Rightarrow> rv_inst list \<Rightarrow> fuse_result" where
  "find_creator tag vec [] = Panic"
| "find_creator tag vec [x] =
     (case tag_find x tag of
        None \<Rightarrow> NoFusion
      | Some (Creator k n cs) \<Rightarrow> create k n cs vec
      | Some (Tag _) \<Rightarrow> Panic)"
| "find_creator tag vec (x # y # xs) =
     (case tag_find x tag of
        None \<Rightarrow> NoFusion
      | Some (Creator _ _ _) \<Rightarrow> Panic
      | Some (Tag tag') \<Rightarrow> find_creator tag' vec (y # xs))"

definition fuse2 :: "rv_inst \<Rightarrow> rv_inst \<Rightarrow> fuse_result" where
  "fuse2 a b = find_creator fusionMap [a, b] [a, b]"

definition fuse3 :: "rv_inst \<Rightarrow> rv_inst \<Rightarrow> rv_inst \<Rightarrow> fuse_result" where
  "fuse3 a b c = find_creator fusionMap3 [a, b, c] [a, b, c]"

section \<open>The tables are unambiguous\<close>

fun tags_of :: "fusion_val \<Rightarrow> fusion_tag list" where
  "tags_of (Creator k n cs) = []"
| "tags_of (Tag t) = t # concat (map (\<lambda>e. tags_of (snd e)) t)"

definition all_tags :: "fusion_tag list" where
  "all_tags = tags_of (Tag fusionMap) @ tags_of (Tag fusionMap3)"

text \<open>Two keys of a table that some instruction equals both of.\<close>

fun keys_clash :: "fusion_key \<Rightarrow> fusion_key \<Rightarrow> bool" where
  "keys_clash (ImmKey p i) (ImmKey q j) \<longleftrightarrow> p = q \<and> i = j"
| "keys_clash (ImmKey p i) (AnyImmKey q) \<longleftrightarrow> p = q"
| "keys_clash (AnyImmKey p) (ImmKey q i) \<longleftrightarrow> p = q"
| "keys_clash (AnyImmKey p) (AnyImmKey q) \<longleftrightarrow> p = q"

lemma keys_clashI: "key_equal p i k \<Longrightarrow> key_equal p i l \<Longrightarrow> keys_clash k l"
  by (cases k; cases l) auto

fun clash_free :: "fusion_tag \<Rightarrow> bool" where
  "clash_free [] \<longleftrightarrow> True"
| "clash_free (e # es) \<longleftrightarrow> list_all (\<lambda>e'. \<not> keys_clash (fst e) (fst e')) es \<and> clash_free es"

lemma clash_free_at_most_one:
  assumes "clash_free tag"
  shows "length (filter (\<lambda>(k, v). key_equal p i k) tag) \<le> 1"
  using assms
proof (induction tag)
  case (Cons e tag)
  have "filter (\<lambda>(k, v). key_equal p i k) tag = []" if "key_equal p i (fst e)"
    using that Cons.prems keys_clashI [of p i] by (auto simp: filter_empty_conv list_all_iff)
  then show ?case
    using Cons by (auto simp: split_def)
qed simp

lemma find_filter: "List.find P xs = (case filter P xs of [] \<Rightarrow> None | x # _ \<Rightarrow> Some x)"
  by (induction xs) auto

lemma all_tags_clash_free: "list_all clash_free all_tags"
  by code_simp

text \<open>The result of a table lookup does not depend on the order of the entries, which for an
  \<open>unordered_map\<close> is that of its buckets.\<close>

lemma fusion_lookup_unambiguous:
  assumes "tag \<in> set all_tags" and "mset tag' = mset tag"
  shows "tag_find x tag' = tag_find x tag"
proof -
  let ?P = "\<lambda>(k, v :: fusion_val). key_equal (deCompressMap (rv_op x)) (rv_imm x) k"
  have "clash_free tag"
    using assms(1) all_tags_clash_free by (auto simp: list_all_iff)
  then have le: "length (filter ?P tag) \<le> 1"
    by (rule clash_free_at_most_one)
  have ms: "mset (filter ?P tag') = mset (filter ?P tag)"
    using assms(2) by (simp add: mset_filter)
  have "filter ?P tag' = filter ?P tag"
  proof (cases "filter ?P tag")
    case Nil
    then show ?thesis using ms by (metis mset_zero_iff)
  next
    case (Cons e es)
    then have "filter ?P tag = [e]" using le by simp
    then show ?thesis using ms by (metis mset_single_iff_right mset.simps)
  qed
  then show ?thesis
    by (simp add: tag_find_def find_filter)
qed

section \<open>The table only creates fusions that are correct\<close>

fun num_srcs :: "rv_op \<Rightarrow> nat" where
  "num_srcs (Alu p) =
     (if p \<in> {Lui, Auipc} then 0 else if p \<in> {Add, Addw, And, Or, Xor, Mul, Mulw} then 2 else 1)"
| "num_srcs (Load p) = 1"
| "num_srcs (Br p) = 2"
| "num_srcs _ = 0"

fun num_dests :: "rv_op \<Rightarrow> nat" where
  "num_dests (Alu p) = 1"
| "num_dests (Load p) = 1"
| "num_dests _ = 0"

text \<open>Operands as the decoder generates them, the destination not the zero register.\<close>

definition isa_shape :: "rv_inst \<Rightarrow> bool" where
  "isa_shape x \<longleftrightarrow>
     length (rv_srcs x) = num_srcs (base_op (rv_op x)) \<and>
     length (rv_dests x) = num_dests (base_op (rv_op x)) \<and>
     list_all typed_slot (rv_dests x)"

lemma base_op_deCompress:
  "num_srcs (base_op p) = num_srcs (deCompressMap p)"
  "num_dests (base_op p) = num_dests (deCompressMap p)"
  "(case base_op p of Load l \<Rightarrow> load_size l | _ \<Rightarrow> 0) =
     (case deCompressMap p of Load l \<Rightarrow> load_size l | _ \<Rightarrow> 0)"
  by (cases p rule: deCompressMap.cases; simp)+

fun key_op :: "fusion_key \<Rightarrow> rv_op" where
  "key_op (ImmKey p i) = p"
| "key_op (AnyImmKey p) = p"

lemma key_equal_op: "key_equal p i k \<Longrightarrow> p = key_op k"
  by (cases k) auto

text \<open>The paths of the two-level table.\<close>

fun creator_paths :: "fusion_key \<Rightarrow> fusion_key \<times> fusion_val
    \<Rightarrow> (rv_op \<times> rv_op \<times> fusion_kind \<times> string \<times> check list) list" where
  "creator_paths k (l, Creator kd n cs) = [(key_op k, key_op l, kd, n, cs)]"
| "creator_paths k (l, Tag t) = []"

fun tag_paths :: "fusion_key \<times> fusion_val
    \<Rightarrow> (rv_op \<times> rv_op \<times> fusion_kind \<times> string \<times> check list) list" where
  "tag_paths (k, Tag t) = concat (map (creator_paths k) t)"
| "tag_paths (k, Creator _ _ _) = []"

definition paths2 :: "(rv_op \<times> rv_op \<times> fusion_kind \<times> string \<times> check list) list" where
  "paths2 = concat (map tag_paths fusionMap)"

definition two_levels :: "fusion_tag \<Rightarrow> bool" where
  "two_levels tag \<longleftrightarrow>
     list_all (\<lambda>e. case snd e of
        Tag t \<Rightarrow> list_all (\<lambda>e. case snd e of Creator _ _ _ \<Rightarrow> True | Tag _ \<Rightarrow> False) t
      | Creator _ _ _ \<Rightarrow> False) tag"

lemma tag_find_Some:
  "tag_find x tag = Some v \<Longrightarrow> \<exists>k. (k, v) \<in> set tag \<and> deCompressMap (rv_op x) = key_op k"
proof -
  assume "tag_find x tag = Some v"
  then obtain k where "List.find (\<lambda>(k, v). key_equal (deCompressMap (rv_op x)) (rv_imm x) k) tag = Some (k, v)"
    by (auto simp: tag_find_def)
  then have "(k, v) \<in> set tag" "key_equal (deCompressMap (rv_op x)) (rv_imm x) k"
    by (auto simp: find_Some_iff) (metis case_prodD nth_mem)+
  then show ?thesis using key_equal_op by blast
qed

lemma fuse2_path:
  "fuse2 a b = NoFusion \<or>
   (\<exists>kd n cs. (deCompressMap (rv_op a), deCompressMap (rv_op b), kd, n, cs) \<in> set paths2 \<and>
      fuse2 a b = create kd n cs [a, b])"
proof -
  have tl: "two_levels fusionMap"
    by code_simp
  show ?thesis
  proof (cases "tag_find a fusionMap")
    case None
    then show ?thesis by (simp add: fuse2_def)
  next
    case (Some v)
    then obtain k where k: "(k, v) \<in> set fusionMap" "deCompressMap (rv_op a) = key_op k"
      using tag_find_Some by blast
    then obtain t where t: "v = Tag t"
      "\<forall>e\<in>set t. case snd e of Creator _ _ _ \<Rightarrow> True | Tag _ \<Rightarrow> False"
      using tl by (cases v) (auto simp: two_levels_def list_all_iff)
    show ?thesis
    proof (cases "tag_find b t")
      case None
      then show ?thesis using Some t by (simp add: fuse2_def)
    next
      case (Some w)
      then obtain l where l: "(l, w) \<in> set t" "deCompressMap (rv_op b) = key_op l"
        using tag_find_Some by blast
      then obtain kd n cs where w: "w = Creator kd n cs"
        using bspec [OF t(2) l(1)] by (cases w) auto
      have "(key_op k, key_op l, kd, n, cs) \<in> set (tag_paths (k, v))"
        using l(1) t w by force
      then have "(key_op k, key_op l, kd, n, cs) \<in> set paths2"
        using k(1) by (auto simp: paths2_def)
      moreover have "fuse2 a b = create kd n cs [a, b]"
        using \<open>tag_find a fusionMap = Some v\<close> Some t w by (simp add: fuse2_def)
      ultimately show ?thesis
        using k(2) l(2) by auto
    qed
  qed
qed

text \<open>What the checks and sizes of an entry must be for its class. The second operation of a
  chain that tests source 1 has two sources.\<close>

fun op_load_size :: "rv_op \<Rightarrow> nat" where
  "op_load_size (Load l) = load_size l"
| "op_load_size _ = 0"

definition path_ok :: "rv_op \<times> rv_op \<times> fusion_kind \<times> string \<times> check list \<Rightarrow> bool" where
  "path_ok e =
     (case e of (p, q, kd, n, cs) \<Rightarrow>
       (case kd of
          ChainFusionInst \<Rightarrow>
            num_dests p = 1 \<and> num_dests q = 1 \<and> FirstDest0EqualSecond \<in> set cs \<and>
            (Dest0EqualSrc0 \<in> set cs \<and> 1 \<le> num_srcs q \<or> Dest0EqualSrc0or1 \<in> set cs \<and> num_srcs q = 2)
        | AluBrFusionInst \<Rightarrow>
            num_dests p = 1 \<and> num_srcs p = 1 \<and> num_srcs q = 2 \<and> Dest0EqualSecondSrc0or1 \<in> set cs
        | MaccFusionInst \<Rightarrow>
            p \<in> {Alu Mul, Alu Mulw} \<and> q \<in> {Alu Add, Alu Addw} \<and> Dest0EqualSecondSrc0or1 \<in> set cs
        | AluLoadFusionInst m \<Rightarrow>
            num_dests p = 1 \<and> m = op_load_size q \<and> 0 < m \<and>
            FirstDest0EqualSecond \<in> set cs \<and> Dest0EqualSrc0 \<in> set cs
        | SeqLoadFusionInst m \<Rightarrow>
            m = op_load_size p + op_load_size q \<and> 0 < op_load_size p \<and> 0 < op_load_size q \<and>
            SeqLoadCheck \<in> set cs \<and> ImmIsPlus (int (op_load_size p)) \<in> set cs
        | SlliAddLoadFusionInst m \<Rightarrow> False))"

lemma paths_ok: "list_all path_ok paths2"
  by code_simp

text \<open>The hypotheses of the correctness theorem of the class of a fusion, as far as they are
  about the instructions. A branch has the result as exactly one of its sources. The product of a
  multiply-accumulate is exactly one source of the addition, and the addition overwrites it: then the
  fusion, which writes the destination of the addition only, leaves no register behind.\<close>

definition one_source :: "rv_inst \<Rightarrow> rv_inst \<Rightarrow> bool" where
  "one_source a b \<longleftrightarrow> (\<exists>p q. rv_srcs b = [p, q] \<and> (p = rv_destRegIdx a 0) \<noteq> (q = rv_destRegIdx a 0))"

definition fusion_sound :: "rv_inst \<Rightarrow> rv_inst \<Rightarrow> fusion \<Rightarrow> bool" where
  "fusion_sound a b f \<longleftrightarrow>
     (case fu_kind f of
        ChainFusionInst \<Rightarrow>
          newChain (fu_name f) a b = Some f \<and> rv_destRegIdx a 0 \<in> set (rv_srcs b)
      | AluBrFusionInst \<Rightarrow>
          newAluBr (fu_name f) a b = Some f \<and> length (rv_srcs a) = 1 \<and> one_source a b
      | MaccFusionInst \<Rightarrow>
          newMacc (fu_name f) a b = Some f \<and> one_source a b \<and> rv_destRegIdx b 0 = rv_destRegIdx a 0
      | AluLoadFusionInst m \<Rightarrow>
          newAluLoad m (fu_name f) a b = Some f \<and> length (rv_srcs b) = 1 \<and> length (rv_dests b) = 1
      | SeqLoadFusionInst m \<Rightarrow>
          newSeqLoad m (fu_name f) a b = Some f \<and> length (rv_srcs a) = 1 \<and> length (rv_srcs b) = 1 \<and>
          rv_destRegIdx a 0 \<noteq> rv_srcRegIdx a 0
      | SlliAddLoadFusionInst m \<Rightarrow> False)"

lemma nth_inst_simps [simp]:
  "nth_inst [a, b] 0 = a" "nth_inst [a, b] 1 = b" "nth_inst [a, b] (Suc 0) = b"
  by (simp_all add: nth_inst_def)

lemma isa_shape_dest: "isa_shape x \<Longrightarrow> num_dests (deCompressMap (rv_op x)) = 1 \<Longrightarrow> typed_slot (rv_destRegIdx x 0)"
  by (auto simp: isa_shape_def base_op_deCompress rv_destRegIdx_def length_Suc_conv)

lemma isa_shape_size: "operWid8 x = op_load_size (deCompressMap (rv_op x))"
  unfolding operWid8_def base_op_deCompress(3) by (cases "deCompressMap (rv_op x)") auto

lemma load_size_pos [simp]: "0 < load_size l"
  by (cases l) auto

lemma op_load_size_pos: "0 < op_load_size p \<Longrightarrow> num_srcs p = 1 \<and> num_dests p = 1"
  by (cases p) auto

lemma src_mem: "i < length (rv_srcs x) \<Longrightarrow> rv_srcRegIdx x i \<in> set (rv_srcs x)"
  by (simp add: rv_srcRegIdx_def nth_append)

text \<open>The fusions that the table makes although they cannot be executed correctly: a branch whose sources are both
  the result, where the fused instruction is left with one source but reads its second, and a product whose
  register the fused instruction does not write.\<close>

definition fusion_flaw :: "rv_inst \<Rightarrow> rv_inst \<Rightarrow> fusion \<Rightarrow> bool" where
  "fusion_flaw a b f \<longleftrightarrow>
     (case fu_kind f of
        AluBrFusionInst \<Rightarrow> rv_srcs b = [rv_destRegIdx a 0, rv_destRegIdx a 0] \<and> length (fu_srcs f) = 1
      | MaccFusionInst \<Rightarrow> rv_destRegIdx b 0 \<noteq> rv_destRegIdx a 0 \<and> rv_destRegIdx a 0 \<notin> set (fu_dests f)
      | _ \<Rightarrow> False)"

text \<open>What a creator returns when its checks hold.\<close>

definition creation_ok :: "rv_inst \<Rightarrow> rv_inst \<Rightarrow> fuse_result \<Rightarrow> bool" where
  "creation_ok a b r \<longleftrightarrow>
     (case r of
        NoFusion \<Rightarrow> True
      | Fused f \<Rightarrow> fusion_sound a b f \<noteq> fusion_flaw a b f
      | Panic \<Rightarrow> base_op (rv_op a) \<in> {Alu Mul, Alu Mulw} \<and>
                rv_srcs b = [rv_destRegIdx a 0, rv_destRegIdx a 0])"

lemma creation_okI:
  assumes "list_all (check_holds [a, b]) cs \<Longrightarrow>
    (\<exists>f. construct kd n [a, b] = Some f \<and> fusion_sound a b f \<noteq> fusion_flaw a b f) \<or>
    construct kd n [a, b] = None \<and> creation_ok a b Panic"
  shows "creation_ok a b (create kd n cs [a, b])"
  using assms by (auto simp: create_def creation_ok_def)

lemma create_chain:
  assumes "path_ok (deCompressMap (rv_op a), deCompressMap (rv_op b), ChainFusionInst, n, cs)"
    and "isa_shape a" and "isa_shape b"
  shows "creation_ok a b (create ChainFusionInst n cs [a, b])"
proof (rule creation_okI, rule disjI1)
  assume c: "list_all (check_holds [a, b]) cs"
  have eq: "rv_destRegIdx a 0 = rv_destRegIdx b 0" and ty: "typed_slot (rv_destRegIdx a 0)"
    using assms c isa_shape_dest by (auto simp: path_ok_def list_all_iff)
  have "Dest0EqualSrc0 \<in> set cs \<and> 1 \<le> length (rv_srcs b) \<or>
      Dest0EqualSrc0or1 \<in> set cs \<and> length (rv_srcs b) = 2"
    using assms(1,3) by (simp add: path_ok_def isa_shape_def base_op_deCompress)
  then have "check_holds [a, b] Dest0EqualSrc0 \<and> 1 \<le> length (rv_srcs b) \<or>
      check_holds [a, b] Dest0EqualSrc0or1 \<and> length (rv_srcs b) = 2"
    using c by (auto simp only: list_all_iff)
  then have "rv_destRegIdx b 0 \<in> set (rv_srcs b)"
    by (auto intro!: src_mem simp: Suc_le_eq)
  then show "\<exists>f. construct ChainFusionInst n [a, b] = Some f \<and> fusion_sound a b f \<noteq> fusion_flaw a b f"
    using eq ty by (simp add: construct_def newChain_def newFusion_def fusion_sound_def fusion_flaw_def)
qed

lemma create_alubr:
  assumes "path_ok (deCompressMap (rv_op a), deCompressMap (rv_op b), AluBrFusionInst, n, cs)"
    and "isa_shape a" and "isa_shape b"
  shows "creation_ok a b (create AluBrFusionInst n cs [a, b])"
proof (rule creation_okI, rule disjI1)
  assume c: "list_all (check_holds [a, b]) cs"
  have ty: "typed_slot (rv_destRegIdx a 0)" and len: "length (rv_srcs a) = 1" "length (rv_srcs b) = 2"
    and eq: "rv_destRegIdx a 0 = rv_srcRegIdx b 0 \<or> rv_destRegIdx a 0 = rv_srcRegIdx b 1"
    using assms c isa_shape_dest by (auto simp: path_ok_def list_all_iff isa_shape_def base_op_deCompress)
  obtain p q where pq: "rv_srcs b = [p, q]"
    using len(2) by (auto simp: length_Suc_conv numeral_2_eq_2)
  then show "\<exists>f. construct AluBrFusionInst n [a, b] = Some f \<and> fusion_sound a b f \<noteq> fusion_flaw a b f"
    using eq ty len
    by (auto simp: construct_def newAluBr_def newFusion_def fusion_sound_def fusion_flaw_def one_source_def rv_srcRegIdx_def)
qed

lemma base_op_mul: "deCompressMap p \<in> {Alu Mul, Alu Mulw} \<Longrightarrow> base_op p \<in> {Alu Mul, Alu Mulw}"
  by (cases p rule: deCompressMap.cases) auto

lemma create_macc:
  assumes "path_ok (deCompressMap (rv_op a), deCompressMap (rv_op b), MaccFusionInst, n, cs)"
    and "isa_shape a" and "isa_shape b"
  shows "creation_ok a b (create MaccFusionInst n cs [a, b])"
proof (rule creation_okI)
  let ?d = "rv_destRegIdx a 0"
  assume c: "list_all (check_holds [a, b]) cs"
  have op: "deCompressMap (rv_op a) \<in> {Alu Mul, Alu Mulw}" "deCompressMap (rv_op b) \<in> {Alu Add, Alu Addw}"
    and eq: "?d = rv_srcRegIdx b 0 \<or> ?d = rv_srcRegIdx b 1"
    using assms(1) c by (auto simp: path_ok_def list_all_iff)
  have ty: "typed_slot (rv_destRegIdx b 0)" and len: "length (rv_srcs b) = 2"
    using op(2) assms(3) isa_shape_dest [OF assms(3)] by (auto simp: isa_shape_def base_op_deCompress)
  obtain p q where pq: "rv_srcs b = [p, q]"
    using len by (auto simp: length_Suc_conv numeral_2_eq_2)
  show "(\<exists>f. construct MaccFusionInst n [a, b] = Some f \<and> fusion_sound a b f \<noteq> fusion_flaw a b f) \<or>
    construct MaccFusionInst n [a, b] = None \<and> creation_ok a b Panic"
  proof (cases "p = ?d \<and> q = ?d")
    case True
    then show ?thesis
      using pq base_op_mul [OF op(1)] by (simp add: construct_def newMacc_def creation_ok_def)
  next
    case False
    then show ?thesis
      using eq pq ty
      by (auto simp: construct_def newMacc_def newFusion_def fusion_sound_def fusion_flaw_def one_source_def rv_srcRegIdx_def)
  qed
qed

lemma create_alu_load:
  assumes "path_ok (deCompressMap (rv_op a), deCompressMap (rv_op b), AluLoadFusionInst m, n, cs)"
    and "isa_shape a" and "isa_shape b"
  shows "creation_ok a b (create (AluLoadFusionInst m) n cs [a, b])"
proof (rule creation_okI, rule disjI1)
  assume c: "list_all (check_holds [a, b]) cs"
  have eq: "rv_destRegIdx a 0 = rv_destRegIdx b 0" "rv_destRegIdx b 0 = rv_srcRegIdx b 0"
    and m: "m = operWid8 b" "0 < op_load_size (deCompressMap (rv_op b))"
    using assms(1) c by (auto simp: path_ok_def list_all_iff isa_shape_size)
  then have len: "length (rv_srcs b) = 1" "length (rv_dests b) = 1" and ty: "typed_slot (rv_destRegIdx b 0)"
    using assms(3) op_load_size_pos [OF m(2)] isa_shape_dest [OF assms(3)]
    by (auto simp: isa_shape_def base_op_deCompress)
  then have "rv_srcRegIdx b 1 = rv_destRegIdx b 0"
    by (auto simp: rv_srcRegIdx_def rv_destRegIdx_def length_Suc_conv)
  then show "\<exists>f. construct (AluLoadFusionInst m) n [a, b] = Some f \<and> fusion_sound a b f \<noteq> fusion_flaw a b f"
    using eq m ty len by (simp add: construct_def newAluLoad_def newFusion_def fusion_sound_def fusion_flaw_def)
qed

lemma create_seq_load:
  assumes "path_ok (deCompressMap (rv_op a), deCompressMap (rv_op b), SeqLoadFusionInst m, n, cs)"
    and "isa_shape a" and "isa_shape b"
  shows "creation_ok a b (create (SeqLoadFusionInst m) n cs [a, b])"
proof (rule creation_okI, rule disjI1)
  assume c: "list_all (check_holds [a, b]) cs"
  have eq: "rv_srcRegIdx a 0 = rv_srcRegIdx b 0" "rv_destRegIdx a 0 \<noteq> rv_srcRegIdx a 0"
      "rv_imm b = rv_imm a + int (operWid8 a)"
    and m: "m = operWid8 a + operWid8 b" "0 < op_load_size (deCompressMap (rv_op a))"
      "0 < op_load_size (deCompressMap (rv_op b))"
    using assms(1) c by (auto simp: path_ok_def list_all_iff isa_shape_size)
  then have "length (rv_srcs a) = 1" "length (rv_srcs b) = 1"
      "typed_slot (rv_destRegIdx a 0)" "typed_slot (rv_destRegIdx b 0)"
    using assms(2,3) op_load_size_pos [OF m(2)] op_load_size_pos [OF m(3)] isa_shape_dest
    by (auto simp: isa_shape_def base_op_deCompress)
  then show "\<exists>f. construct (SeqLoadFusionInst m) n [a, b] = Some f \<and> fusion_sound a b f \<noteq> fusion_flaw a b f"
    using eq m by (simp add: construct_def newSeqLoad_def newFusion_def fusion_sound_def fusion_flaw_def)
qed

text \<open>
  C24: What the fusion table does with two instructions that have the operands of the ISA and whose
  destinations are not the zero register. A fusion it returns satisfies what its class needs to be executed
  correctly, except in two cases that it lets through: a branch whose sources are both the result of the first
  instruction, where the fused instruction has one source and reads its second, and a multiply-accumulate
  whose product has a register of its own, which the fused instruction does not write. A constructor panics
  only for a multiply whose result is both sources of the addition.
\<close>

theorem fusion_table_sound:
  assumes "isa_shape a" and "isa_shape b"
  shows "case fuse2 a b of
      NoFusion \<Rightarrow> True
    | Fused f \<Rightarrow>
        if fu_kind f = AluBrFusionInst \<and> rv_srcs b = [rv_destRegIdx a 0, rv_destRegIdx a 0] then length (fu_srcs f) = 1
        else if fu_kind f = MaccFusionInst \<and> rv_destRegIdx b 0 \<noteq> rv_destRegIdx a 0 then rv_destRegIdx a 0 \<notin> set (fu_dests f)
        else fusion_sound a b f
    | Panic \<Rightarrow> base_op (rv_op a) \<in> {Alu Mul, Alu Mulw} \<and>
              rv_srcs b = [rv_destRegIdx a 0, rv_destRegIdx a 0]"
proof -
  have "creation_ok a b (fuse2 a b)"
    using fuse2_path [of a b]
  proof (elim disjE exE conjE)
    fix kd n cs
    assume p: "(deCompressMap (rv_op a), deCompressMap (rv_op b), kd, n, cs) \<in> set paths2"
      and c: "fuse2 a b = create kd n cs [a, b]"
    then have ok: "path_ok (deCompressMap (rv_op a), deCompressMap (rv_op b), kd, n, cs)"
      using paths_ok by (auto simp: list_all_iff)
    show ?thesis
    proof (cases kd)
      case (SlliAddLoadFusionInst m)
      then show ?thesis using ok by (simp add: path_ok_def)
    qed (use c ok assms create_chain create_alubr create_macc create_alu_load create_seq_load in simp_all)
  qed (simp add: creation_ok_def)
  then show ?thesis
    by (auto simp: creation_ok_def fusion_sound_def fusion_flaw_def one_source_def split: fuse_result.splits fusion_kind.splits)
qed

theorem fusion_table_sound_witness:
  "(\<exists>f. fuse2 fx_slli fx_add = Fused f \<and> fusion_sound fx_slli fx_add f) \<and>
   fuse2 fx_mul (fx_inst (Alu Add) 0 [1, 1] [2]) = Panic \<and>
   (\<exists>f. fuse2 fx_mul fx_add2 = Fused f \<and> rv_destRegIdx fx_mul 0 \<notin> set (fu_dests f))"
proof -
  have sh: "isa_shape fx_slli" "isa_shape fx_add" "isa_shape fx_mul" "isa_shape fx_add2"
    by (simp_all add: isa_shape_def fx_slli_def fx_add_def fx_mul_def fx_add2_def fx_inst_def)
  have "case fuse2 fx_slli fx_add of Fused f \<Rightarrow> fu_kind f = ChainFusionInst | _ \<Rightarrow> False"
    "case fuse2 fx_mul fx_add2 of Fused f \<Rightarrow> fu_kind f = MaccFusionInst | _ \<Rightarrow> False"
    by code_simp+
  moreover have "rv_destRegIdx fx_add2 0 \<noteq> rv_destRegIdx fx_mul 0"
    by code_simp
  ultimately have "\<exists>f. fuse2 fx_slli fx_add = Fused f \<and> fusion_sound fx_slli fx_add f"
    "\<exists>f. fuse2 fx_mul fx_add2 = Fused f \<and> rv_destRegIdx fx_mul 0 \<notin> set (fu_dests f)"
    using fusion_table_sound [OF sh(1,2)] fusion_table_sound [OF sh(3,4)] by (auto split: fuse_result.splits)
  moreover have "case fuse2 fx_mul (fx_inst (Alu Add) 0 [1, 1] [2]) of Panic \<Rightarrow> True | _ \<Rightarrow> False"
    by code_simp
  ultimately show ?thesis
    by (auto split: fuse_result.splits)
qed

section \<open>Mnemonics\<close>

lemma bit_sext32: "bit (sext32 x) n = (if n < 32 then bit x n else n < 64 \<and> bit x 31)"
  by (simp add: sext32_def bit_simps)

lemma sll_zext: "k \<le> 32 \<Longrightarrow> drop_bit (32 - k) (push_bit 32 x) = push_bit k (take_bit 32 (x :: 64 word))"
  by (rule bit_word_eqI) (auto simp: bit_simps)

text \<open>
  The shift pairs compute what their mnemonics say: \<open>low32\<close> and \<open>low16\<close> the low
  bits, \<open>sll1zext\<close> to \<open>sll3zext\<close> the shifted zero-extended word, \<open>low16w\<close> and
  \<open>sext16w\<close> the zero- and sign-extended half word, \<open>byte2\<close> the second byte.
\<close>

theorem shift_pair_mnemonics:
  "alu Srli 32 pc (alu Slli 32 pc' x y) z = take_bit 32 x \<and>
   alu Srli 31 pc (alu Slli 32 pc' x y) z = push_bit 1 (take_bit 32 x) \<and>
   alu Srli 30 pc (alu Slli 32 pc' x y) z = push_bit 2 (take_bit 32 x) \<and>
   alu Srli 29 pc (alu Slli 32 pc' x y) z = push_bit 3 (take_bit 32 x) \<and>
   alu Srli 48 pc (alu Slli 48 pc' x y) z = take_bit 16 x \<and>
   alu Srliw 16 pc (alu Slliw 16 pc' x y) z = take_bit 16 x \<and>
   alu Sraiw 16 pc (alu Slliw 16 pc' x y) z = scast (ucast x :: 16 word) \<and>
   alu Andi 255 pc (alu Srli 8 pc' x y) z = take_bit 8 (drop_bit 8 x)"
proof (intro conjI)
  show "alu Srli 32 pc (alu Slli 32 pc' x y) z = take_bit 32 x"
    by (rule bit_word_eqI) (auto simp: bit_simps)
  show "alu Srli 31 pc (alu Slli 32 pc' x y) z = push_bit 1 (take_bit 32 x)"
    using sll_zext [of 1 x] by simp
  show "alu Srli 30 pc (alu Slli 32 pc' x y) z = push_bit 2 (take_bit 32 x)"
    using sll_zext [of 2 x] by simp
  show "alu Srli 29 pc (alu Slli 32 pc' x y) z = push_bit 3 (take_bit 32 x)"
    using sll_zext [of 3 x] by simp
  show "alu Srli 48 pc (alu Slli 48 pc' x y) z = take_bit 16 x"
    by (rule bit_word_eqI) (auto simp: bit_simps)
  show "alu Srliw 16 pc (alu Slliw 16 pc' x y) z = take_bit 16 x"
    by (rule bit_word_eqI) (auto simp: bit_simps bit_sext32)
  show "alu Sraiw 16 pc (alu Slliw 16 pc' x y) z = scast (ucast x :: 16 word)"
    by (rule bit_word_eqI) (auto simp: bit_simps bit_sext32)
  show "alu Andi 255 pc (alu Srli 8 pc' x y) z = take_bit 8 (drop_bit 8 x)"
    by (simp add: take_bit_eq_mask mask_eq_exp_minus_1)
qed

end
