(* ===== verification/Decode.thy ===== *)
theory Decode
  imports FusionMap
begin

text \<open>
  The decode stage, \<open>cpu/o3/decode.cc\<close>: buffering of fetch groups, squashes, the decode
  loop with its three fusion steps (pairs, triples, pairs of loads that are not adjacent),
  and the branch checks made on the way. The squash versions of \<open>cpu/o3/comm.hh\<close> are here
  as well. A failed assertion, a panic or an unchecked access out of bounds is \<open>None\<close>.

  Statistics, stall-reason reporting and trace mode are left out.
\<close>

section \<open>Squash versions\<close>

definition versionLimit :: nat where "versionLimit = 16"

definition maxInflightSquash :: nat where "maxInflightSquash = 7"

definition nextVersion :: "nat \<Rightarrow> nat" where
  "nextVersion v = (v + 1) mod versionLimit"

definition largerThan :: "nat \<Rightarrow> nat \<Rightarrow> bool option" where
  "largerThan v other =
     (let larger = other < v \<and> v - other \<le> maxInflightSquash;
          wrapped_larger = other < v + versionLimit \<and> v + versionLimit - other \<le> maxInflightSquash
      in if \<not> (larger \<or> wrapped_larger \<or> v = other) then None else Some (larger \<or> wrapped_larger))"

section \<open>Dynamic instructions\<close>

datatype static_inst = RvInst rv_inst | FusedInst fusion

record inst_flags =
  isLoad :: bool
  isControl :: bool
  isDirectCtrl :: bool
  isUncondCtrl :: bool
  isReturn :: bool
  isNonSpeculative :: bool
  isVector :: bool

datatype op_class = IntMultOp | IntABr | OtherOpClass nat

text \<open>A \<open>PCState\<close>: the program counter and the next one.\<close>

type_synonym pc_state = "addr \<times> addr"

record dyn_base =
  staticInst :: static_inst
  flags :: inst_flags
  opClass :: op_class
  pcState :: pc_state
  compressed :: bool \<comment> \<open>of the \<open>PCState\<close>\<close>
  predPC :: pc_state
  branchTarget :: "pc_state option" \<comment> \<open>of the static instruction; \<open>None\<close> panics\<close>
  fallThruPC :: addr
  seqNum :: seq_num
  threadNumber :: thread_id
  version :: nat
  ftqId :: nat
  loopIteration :: nat
  predTaken :: bool
  squashed :: bool
  faulted :: bool
  canIssue :: bool

definition getFallThruPC :: "'a dyn_base_scheme \<Rightarrow> addr" where
  "getFallThruPC d = fst (pcState d) + (if compressed d then 2 else 4)"

text \<open>A fused instruction keeps the instructions it was made of.\<close>

record dyn_inst = dyn_base +
  subInsts :: "dyn_base list"

text \<open>The operands and the type of an instruction as the tables see them; the type of a fused
  instruction is in no table, and its \<open>getImm\<close> is 0.\<close>

definition rv_view :: "'a dyn_base_scheme \<Rightarrow> rv_inst" where
  "rv_view d =
     (case staticInst d of
        RvInst x \<Rightarrow> x
      | FusedInst f \<Rightarrow> \<lparr>rv_op = OtherOp 0, rv_imm = 0, rv_srcs = fu_srcs f, rv_dests = fu_dests f,
                        rv_pc = fst (pcState d)\<rparr>)"

definition isFusion :: "'a dyn_base_scheme \<Rightarrow> bool" where
  "isFusion d = (case staticInst d of RvInst _ \<Rightarrow> False | FusedInst _ \<Rightarrow> True)"

definition or_flags :: "inst_flags \<Rightarrow> inst_flags \<Rightarrow> inst_flags" where
  "or_flags a b =
     \<lparr>isLoad = (isLoad a \<or> isLoad b), isControl = (isControl a \<or> isControl b),
      isDirectCtrl = (isDirectCtrl a \<or> isDirectCtrl b),
      isUncondCtrl = (isUncondCtrl a \<or> isUncondCtrl b), isReturn = (isReturn a \<or> isReturn b),
      isNonSpeculative = (isNonSpeculative a \<or> isNonSpeculative b),
      isVector = (isVector a \<or> isVector b)\<rparr>"

definition fused_flags :: "fusion_kind \<Rightarrow> dyn_base \<Rightarrow> dyn_base \<Rightarrow> inst_flags" where
  "fused_flags k a z =
     (case k of
        AluLoadFusionInst _ \<Rightarrow> flags z
      | SlliAddLoadFusionInst _ \<Rightarrow> flags z
      | _ \<Rightarrow> or_flags (flags a) (flags z))"

definition fused_opClass :: "fusion_kind \<Rightarrow> dyn_base \<Rightarrow> op_class" where
  "fused_opClass k z =
     (case k of AluBrFusionInst \<Rightarrow> IntABr | MaccFusionInst \<Rightarrow> IntMultOp | _ \<Rightarrow> opClass z)"

text \<open>
  The new \<open>DynInst\<close>: sequence number and program counter of the first part, the rest of the
  last one. The prediction bit and the status bits are those of a new instruction.
\<close>

definition newFusedInst :: "fusion \<Rightarrow> dyn_base list \<Rightarrow> dyn_inst" where
  "newFusedInst f subs =
     \<lparr>staticInst = FusedInst f,
      flags = fused_flags (fu_kind f) (hd subs) (last subs),
      opClass = fused_opClass (fu_kind f) (last subs),
      pcState = (fst (pcState (hd subs)), snd (pcState (last subs))),
      compressed = False, predPC = predPC (last subs), branchTarget = None,
      fallThruPC = fallThruPC (last subs), seqNum = seqNum (hd subs),
      threadNumber = threadNumber (last subs), version = version (last subs),
      ftqId = ftqId (last subs), loopIteration = loopIteration (last subs),
      predTaken = False, squashed = False, faulted = False, canIssue = False,
      subInsts = subs\<rparr>"

section \<open>State\<close>

record decode_cfg =
  decodeWidth :: nat
  fetchToDecodeDelay :: nat
  enableLoadFusion :: bool
  enableAbrFusion :: bool
  enableMACFusion :: bool
  keepIgnoreFusionCycles :: nat

record redirect =
  mispredictSeq :: seq_num
  doneSeqNum :: seq_num
  nextPC :: pc_state
  branchTaken :: bool

record decode_state =
  fixedbuffer :: "thread_id \<Rightarrow> dyn_inst list"
  stallBuffer :: "dyn_inst list"
  eachstallSize :: "nat list"
  localSquashVer :: nat
  ignoreFusionPC :: addr
  lastSetIgnore :: nat
  blockFetch :: "thread_id \<Rightarrow> bool"
  decodeInfo :: "thread_id \<Rightarrow> redirect option"
  instList :: "(thread_id \<times> seq_num) list"

definition setIgnoreNextFusion :: "addr \<Rightarrow> nat \<Rightarrow> decode_state \<Rightarrow> decode_state" where
  "setIgnoreNextFusion pc now s = s\<lparr>ignoreFusionPC := pc, lastSetIgnore := now\<rparr>"

section \<open>Buffers and squashes\<close>

text \<open>The loop over the groups of the stall buffer: the groups of the thread are erased.\<close>

fun erase_groups :: "thread_id \<Rightarrow> nat list \<Rightarrow> dyn_inst list \<Rightarrow> (dyn_inst list \<times> nat list) option" where
  "erase_groups t [] buf = Some (buf, [])"
| "erase_groups t (n # ns) buf =
     (if buf = [] \<or> length buf < n then None
      else case erase_groups t ns (drop n buf) of
        None \<Rightarrow> None
      | Some (buf', ns') \<Rightarrow>
          if threadNumber (hd buf) = t then Some (buf', ns') else Some (take n buf @ buf', n # ns'))"

definition squash :: "thread_id \<Rightarrow> decode_state \<Rightarrow> decode_state option" where
  "squash t s =
     map_option (\<lambda>(buf, ns). s\<lparr>fixedbuffer := (fixedbuffer s)(t := []),
                               stallBuffer := buf, eachstallSize := ns\<rparr>)
       (erase_groups t (eachstallSize s) (stallBuffer s))"

text \<open>\<open>CPU::removeInstsUntil\<close>: from the back of the instruction list while the sequence
  number is greater, the instructions of the thread are erased. Its assertion that the list
  is not empty is made by \<open>selfSquash\<close>.\<close>

definition removeInstsUntil ::
  "seq_num \<Rightarrow> thread_id \<Rightarrow> (thread_id \<times> seq_num) list \<Rightarrow> (thread_id \<times> seq_num) list" where
  "removeInstsUntil sn t l =
     rev (filter (\<lambda>e. fst e \<noteq> t) (takeWhile (\<lambda>e. sn < snd e) (rev l)) @
          dropWhile (\<lambda>e. sn < snd e) (rev l))"

definition ctrl_inst :: "dyn_inst \<Rightarrow> dyn_base" where
  "ctrl_inst d = (if isFusion d then subInsts d ! 1 else dyn_base.truncate d)"

definition squash_target :: "dyn_base \<Rightarrow> pc_state option" where
  "squash_target c =
     (if isControl (flags c) then (if \<not> isReturn (flags c) then branchTarget c else Some (predPC c))
      else let pc = getFallThruPC c in Some (pc, pc + 4))"

definition selfSquash :: "dyn_inst \<Rightarrow> thread_id \<Rightarrow> decode_state \<Rightarrow> decode_state option" where
  "selfSquash d t s =
     (if isFusion d \<and> length (subInsts d) < 2 \<or> instList s = [] then None
      else case squash_target (ctrl_inst d) of
        None \<Rightarrow> None
      | Some pc \<Rightarrow>
          map_option
            (\<lambda>(buf, ns). s\<lparr>
               decodeInfo := (decodeInfo s)(t := Some
                  \<lparr>mispredictSeq = seqNum (ctrl_inst d), doneSeqNum = seqNum d, nextPC = pc,
                   branchTaken = (predTaken d \<or> isUncondCtrl (flags d))\<rparr>),
               blockFetch := (blockFetch s)(t := True),
               fixedbuffer := (fixedbuffer s)(t := []),
               stallBuffer := buf, eachstallSize := ns,
               instList := removeInstsUntil (seqNum d) t (instList s)\<rparr>)
            (erase_groups t (eachstallSize s) (stallBuffer s)))"

text \<open>\<open>moveInstsToBuffer\<close>: the group from fetch enters the stall buffer, and the oldest group
  moves to the empty buffer of its thread; instructions older than the squash version are
  marked.\<close>

fun mark_group :: "nat \<Rightarrow> thread_id \<Rightarrow> dyn_inst list \<Rightarrow> dyn_inst list option" where
  "mark_group ver t [] = Some []"
| "mark_group ver t (d # ds) =
     (if threadNumber d \<noteq> t then None
      else case largerThan ver (version d) of
        None \<Rightarrow> None
      | Some old \<Rightarrow> map_option (\<lambda>ds'. (if old then d\<lparr>squashed := True\<rparr> else d) # ds') (mark_group ver t ds))"

definition moveInstsToBuffer :: "decode_cfg \<Rightarrow> dyn_inst list \<Rightarrow> decode_state \<Rightarrow> decode_state option" where
  "moveInstsToBuffer cfg fromFetch s =
     (if fromFetch \<noteq> [] \<and> length (eachstallSize s) \<ge> fetchToDecodeDelay cfg + 1 then None
      else let s1 = (if fromFetch = [] then s
                     else s\<lparr>eachstallSize := eachstallSize s @ [length fromFetch],
                            stallBuffer := stallBuffer s @ fromFetch\<rparr>)
      in if stallBuffer s1 = [] then Some s1
         else let t = threadNumber (hd (stallBuffer s1)); n = hd (eachstallSize s1) in
           if fixedbuffer s1 t \<noteq> [] then Some s1
           else if length (stallBuffer s1) < n \<or> n > decodeWidth cfg then None
           else map_option
                  (\<lambda>g. s1\<lparr>fixedbuffer := (fixedbuffer s1)(t := g),
                          stallBuffer := drop n (stallBuffer s1),
                          eachstallSize := tl (eachstallSize s1)\<rparr>)
                  (mark_group (localSquashVer s1) t (take n (stallBuffer s1))))"

text \<open>\<open>checkSquash\<close>: every thread commit squashes, with the version it sends.\<close>

fun checkSquash :: "(nat option) list \<Rightarrow> thread_id \<Rightarrow> decode_state \<Rightarrow> decode_state option" where
  "checkSquash [] t s = Some s"
| "checkSquash (None # cs) t s = checkSquash cs (t + 1) s"
| "checkSquash (Some v # cs) t s =
     (case squash t s of
        None \<Rightarrow> None
      | Some s1 \<Rightarrow> checkSquash cs (t + 1) (s1\<lparr>localSquashVer := v\<rparr>))"

section \<open>Fusion steps\<close>

text \<open>The bookkeeping of the instruction list: the fused instruction takes the place of the
  first part, whose number it has, and the other parts leave.\<close>

definition instList_fuse :: "dyn_base list \<Rightarrow> (thread_id \<times> seq_num) list \<Rightarrow> (thread_id \<times> seq_num) list" where
  "instList_fuse subs l = filter (\<lambda>e. snd e \<notin> set (map seqNum (tl subs))) l"

definition ignored :: "decode_state \<Rightarrow> dyn_inst \<Rightarrow> bool" where
  "ignored s d \<longleftrightarrow> ignoreFusionPC s \<le> fst (pcState d) \<and> fst (pcState d) < ignoreFusionPC s + 8"

text \<open>The result: the vector of decoded instructions, the current instruction, the state.\<close>

definition checkAndFuseInsts ::
  "decode_cfg \<Rightarrow> nat \<Rightarrow> dyn_inst list \<Rightarrow> dyn_inst \<Rightarrow> decode_state
     \<Rightarrow> (dyn_inst list \<times> dyn_inst \<times> decode_state) option" where
  "checkAndFuseInsts cfg now vec cur s =
     (if vec = [] then Some (vec, cur, s)
      else let b = last vec in
        if faulted b \<or> faulted cur then Some (vec, cur, s)
        else if \<not> enableLoadFusion cfg \<and> (isLoad (flags b) \<or> isLoad (flags cur)) then Some (vec, cur, s)
        else if \<not> enableAbrFusion cfg \<and> isControl (flags cur) then Some (vec, cur, s)
        else if \<not> enableMACFusion cfg \<and> opClass b = IntMultOp then Some (vec, cur, s)
        else if ignored s b then
          Some (vec, cur,
            if keepIgnoreFusionCycles cfg < now - lastSetIgnore s then s\<lparr>ignoreFusionPC := 0\<rparr> else s)
        else case fuse2 (rv_view b) (rv_view cur) of
          NoFusion \<Rightarrow> Some (vec, cur, s)
        | Panic \<Rightarrow> None
        | Fused f \<Rightarrow>
            let subs = [dyn_base.truncate b, dyn_base.truncate cur] in
            Some (butlast vec, newFusedInst f subs, s\<lparr>instList := instList_fuse subs (instList s)\<rparr>))"

definition checkAndFuseTriple ::
  "decode_cfg \<Rightarrow> dyn_inst list \<Rightarrow> dyn_inst \<Rightarrow> dyn_inst list \<Rightarrow> fuse_result" where
  "checkAndFuseTriple cfg vec cur pending =
     (if vec = [] \<or> pending = [] then NoFusion
      else if \<not> enableLoadFusion cfg then NoFusion
      else if faulted (last vec) \<or> faulted cur \<or> faulted (hd pending) then NoFusion
      else fuse3 (rv_view (last vec)) (rv_view cur) (rv_view (hd pending)))"

text \<open>
  The walk of \<open>checkAndFuseNonConsec\<close>. \<open>writes_any\<close> and \<open>reads_any\<close> are its loops over the
  operands of a gap instruction. The walk goes from the back of \<open>vec\<close> (the list is given
  reversed, after the youngest element) and returns the position of the head it fuses with.
\<close>

definition gap_blocks :: "reg_id \<Rightarrow> reg_id \<Rightarrow> dyn_inst \<Rightarrow> bool" where
  "gap_blocks base tail_dest g \<longleftrightarrow>
     isControl (flags g) \<or>
     list_ex (\<lambda>r. r = base \<or> r = tail_dest) (rv_dests (rv_view g)) \<or>
     list_ex (\<lambda>r. r = tail_dest) (rv_srcs (rv_view g))"

datatype ncsf_result = NoHead | Head nat fusion | HeadPanic

fun ncsf_walk :: "dyn_inst \<Rightarrow> reg_id \<Rightarrow> dyn_inst list \<Rightarrow> ncsf_result" where
  "ncsf_walk cur tail_dest [] = NoHead"
| "ncsf_walk cur tail_dest (cand # rest) =
     (let base = rv_srcRegIdx (rv_view cur) 0; skip = ncsf_walk cur tail_dest rest in
      if faulted cand then NoHead
      else if gap_blocks base tail_dest cand then NoHead
      else if \<not> isLoad (flags cand) then skip
      else if rv_srcRegIdx (rv_view cand) 0 \<noteq> base then skip
      else if rv_destRegIdx (rv_view cand) 0 = rv_srcRegIdx (rv_view cand) 0 then skip
      else case fuse2 (rv_view cand) (rv_view cur) of
        NoFusion \<Rightarrow> skip
      | Panic \<Rightarrow> HeadPanic
      | Fused f \<Rightarrow> Head (length rest) f)"

definition ncsf_find :: "decode_cfg \<Rightarrow> dyn_inst list \<Rightarrow> dyn_inst \<Rightarrow> ncsf_result" where
  "ncsf_find cfg vec cur =
     (if \<not> enableLoadFusion cfg then NoHead
      else if faulted cur \<or> \<not> isLoad (flags cur) then NoHead
      else if length vec < 2 then NoHead
      else let tail_dest = rv_destRegIdx (rv_view cur) 0; base = rv_srcRegIdx (rv_view cur) 0 in
        if tail_dest = base then NoHead
        else if gap_blocks base tail_dest (last vec) then NoHead
        else ncsf_walk cur tail_dest (rev (butlast vec)))"

definition checkAndFuseNonConsec ::
  "decode_cfg \<Rightarrow> dyn_inst list \<Rightarrow> dyn_inst \<Rightarrow> decode_state
     \<Rightarrow> (bool \<times> dyn_inst list \<times> dyn_inst \<times> decode_state) option" where
  "checkAndFuseNonConsec cfg vec cur s =
     (case ncsf_find cfg vec cur of
        NoHead \<Rightarrow> Some (False, vec, cur, s)
      | HeadPanic \<Rightarrow> None
      | Head i f \<Rightarrow>
          let subs = [dyn_base.truncate (vec ! i), dyn_base.truncate cur];
              d = newFusedInst f subs
          in Some (True, vec[i := d], d, s\<lparr>instList := instList_fuse subs (instList s)\<rparr>))"

section \<open>The decode loop\<close>

text \<open>The fusion attempts of one iteration, and the push of the current instruction. The
  number is how many more instructions were taken from the buffer.\<close>

definition decode_fuse ::
  "decode_cfg \<Rightarrow> nat \<Rightarrow> thread_id \<Rightarrow> dyn_inst list \<Rightarrow> dyn_inst \<Rightarrow> decode_state
     \<Rightarrow> (dyn_inst list \<times> dyn_inst \<times> nat \<times> decode_state) option" where
  "decode_fuse cfg now t vec cur s =
     (case checkAndFuseTriple cfg vec cur (fixedbuffer s t) of
        Panic \<Rightarrow> None
      | Fused f \<Rightarrow>
          let subs = [dyn_base.truncate (last vec), dyn_base.truncate cur,
                      dyn_base.truncate (hd (fixedbuffer s t))];
              d = newFusedInst f subs
          in Some (butlast vec @ [d], d, 1,
               s\<lparr>fixedbuffer := (fixedbuffer s)(t := tl (fixedbuffer s t)),
                 instList := instList_fuse subs (instList s)\<rparr>)
      | NoFusion \<Rightarrow>
          (case checkAndFuseInsts cfg now vec cur s of
             None \<Rightarrow> None
           | Some (vec1, cur1, s1) \<Rightarrow>
               if isFusion cur1 then Some (vec1 @ [cur1], cur1, 0, s1)
               else (case checkAndFuseNonConsec cfg vec1 cur1 s1 of
                       None \<Rightarrow> None
                     | Some (True, vec2, cur2, s2) \<Rightarrow> Some (vec2, cur2, 0, s2)
                     | Some (False, vec2, cur2, s2) \<Rightarrow> Some (vec2 @ [cur2], cur2, 0, s2))))"

text \<open>
  The branch checks of one iteration: the instruction with its corrected prediction, whether
  the loop is left, and the state. \<open>retAddr\<close> is the return address the predictor kept for
  the instruction.
\<close>

definition resolved_direct :: "dyn_inst \<Rightarrow> bool" where
  "resolved_direct d \<longleftrightarrow> isDirectCtrl (flags d) \<and> (isUncondCtrl (flags d) \<or> predTaken d)"

text \<open>A prediction that differs from the target only in the next program counter is
  replaced by it.\<close>

definition override_npc :: "dyn_inst \<Rightarrow> dyn_inst" where
  "override_npc d =
     (if resolved_direct d \<and> fst (the (branchTarget d)) = fst (predPC d)
      then d\<lparr>predPC := the (branchTarget d)\<rparr> else d)"

definition check_branch ::
  "(dyn_inst \<Rightarrow> addr) \<Rightarrow> thread_id \<Rightarrow> dyn_inst \<Rightarrow> decode_state
     \<Rightarrow> (dyn_inst \<times> bool \<times> decode_state) option" where
  "check_branch retAddr t d s =
     (if predTaken d \<and> \<not> isControl (flags d) then map_option (\<lambda>s1. (d, True, s1)) (selfSquash d t s)
      else if resolved_direct d \<and> branchTarget d = None then None
      else
        let d1 = override_npc d in
        if resolved_direct d \<and> the (branchTarget d) \<noteq> predPC d1 then
          map_option (\<lambda>s1. (d1\<lparr>predPC := the (branchTarget d)\<rparr>, True, s1)) (selfSquash d1 t s)
        else if isReturn (flags d1) \<and> \<not> isNonSpeculative (flags d1) \<and> \<not> predTaken d1 then
          let d2 = d1\<lparr>predTaken := True, predPC := (retAddr d1, retAddr d1 + 4)\<rparr>
          in map_option (\<lambda>s1. (d2, True, s1)) (selfSquash d2 t s)
        else if isNonSpeculative (flags d1) \<and> predTaken d1 then
          Some (d1\<lparr>predTaken := False, predPC := (getFallThruPC d1, getFallThruPC d1 + 4)\<rparr>, False, s)
        else Some (d1, False, s))"

text \<open>The vector holds pointers: a change of the current instruction is seen there.\<close>

definition refresh :: "dyn_inst \<Rightarrow> dyn_inst list \<Rightarrow> dyn_inst list" where
  "refresh d vec = map (\<lambda>x. if seqNum x = seqNum d then d else x) vec"

text \<open>An instruction without sources may issue at any time.\<close>

definition issue_ready :: "dyn_inst \<Rightarrow> dyn_inst" where
  "issue_ready d = (if rv_srcs (rv_view d) = [] then d\<lparr>canIssue := True\<rparr> else d)"

function decode_loop ::
  "decode_cfg \<Rightarrow> (dyn_inst \<Rightarrow> addr) \<Rightarrow> nat \<Rightarrow> thread_id \<Rightarrow> bool \<Rightarrow> nat \<Rightarrow> nat \<Rightarrow> dyn_inst list
     \<Rightarrow> decode_state \<Rightarrow> (dyn_inst list \<times> nat \<times> nat \<times> decode_state) option" where
  "decode_loop cfg retAddr now t veclim avail idx vec s =
     (if avail = 0 \<or> decodeWidth cfg \<le> idx then Some (vec, avail, idx, s)
      else case fixedbuffer s t of
        [] \<Rightarrow> None
      | d # rest \<Rightarrow>
          if veclim \<and> isVector (flags d) then Some (vec, avail, idx, s)
          else let s1 = s\<lparr>fixedbuffer := (fixedbuffer s)(t := rest)\<rparr> in
            if squashed d then decode_loop cfg retAddr now t veclim (avail - 1) idx vec s1
            else case decode_fuse cfg now t vec (issue_ready d) s1 of
              None \<Rightarrow> None
            | Some (vec1, cur, extra, s2) \<Rightarrow>
                (case check_branch retAddr t cur s2 of
                   None \<Rightarrow> None
                 | Some (cur', stop, s3) \<Rightarrow>
                     if stop then Some (refresh cur' vec1, avail - 1 - extra, idx + 1, s3)
                     else decode_loop cfg retAddr now t veclim (avail - 1 - extra) (idx + 1)
                            (refresh cur' vec1) s3))"
  by pat_completeness auto
termination
  by (relation "measure (\<lambda>(cfg, retAddr, now, t, veclim, avail, idx, vec, s). avail)") auto

declare decode_loop.simps [simp del]

text \<open>\<open>decodeInsts\<close>: what is sent to rename, and the state; fetch is blocked when
  instructions are left over.\<close>

definition decodeInsts ::
  "decode_cfg \<Rightarrow> (dyn_inst \<Rightarrow> addr) \<Rightarrow> nat \<Rightarrow> thread_id \<Rightarrow> decode_state
     \<Rightarrow> (dyn_inst list \<times> decode_state) option" where
  "decodeInsts cfg retAddr now t s =
     (case fixedbuffer s t of
        [] \<Rightarrow> Some ([], s)
      | d # _ \<Rightarrow>
          (case decode_loop cfg retAddr now t (\<not> isVector (flags d)) (length (fixedbuffer s t)) 0 [] s of
             None \<Rightarrow> None
           | Some (vec, avail, idx, s1) \<Rightarrow>
               Some (vec, if avail \<noteq> 0 then s1\<lparr>blockFetch := (blockFetch s1)(t := True)\<rparr> else s1)))"

text \<open>\<open>tick\<close>: the buffers move, squashes are taken, the first thread that is not blocked and
  has instructions is decoded; with several such threads fetch is blocked for all of them.\<close>

definition active_threads :: "nat \<Rightarrow> (thread_id \<Rightarrow> bool) \<Rightarrow> decode_state \<Rightarrow> thread_id list" where
  "active_threads n blockDecode s =
     filter (\<lambda>t. \<not> blockDecode t \<and> fixedbuffer s t \<noteq> []) [0..<n]"

definition decode_tick ::
  "decode_cfg \<Rightarrow> (dyn_inst \<Rightarrow> addr) \<Rightarrow> nat \<Rightarrow> nat \<Rightarrow> dyn_inst list \<Rightarrow> (nat option) list
     \<Rightarrow> (thread_id \<Rightarrow> bool) \<Rightarrow> decode_state \<Rightarrow> (dyn_inst list \<times> decode_state) option" where
  "decode_tick cfg retAddr now n fromFetch fromCommit blockDecode s =
     (case moveInstsToBuffer cfg fromFetch s of
        None \<Rightarrow> None
      | Some s1 \<Rightarrow>
          (case checkSquash fromCommit 0 s1 of
             None \<Rightarrow> None
           | Some s2 \<Rightarrow>
               let act = active_threads n blockDecode s2;
                   s3 = s2\<lparr>blockFetch := (\<lambda>t. if t < n
                            then blockDecode t \<or> 1 < length act \<and> t \<in> set act
                            else blockFetch s2 t)\<rparr>
               in (case act of
                     [] \<Rightarrow> Some ([], s3)
                   | t # _ \<Rightarrow> decodeInsts cfg retAddr now t s3)))"

end
