(* ===== verification/DecodeProps.thy ===== *)
theory DecodeProps
  imports Decode
begin

text \<open>
  Properties of the decode stage: the modular comparison of squash versions, the buffers
  under squashes, what the decode loop sends to rename, and when pairs of loads that are not
  adjacent may be fused.
\<close>

section \<open>Squash versions\<close>

text \<open>
  C40: Squash versions wrap around at 16, but as long as at most 7 squashes are in flight
  the comparison of the wrapped versions is that of the squash counts, and it does not
  panic.
\<close>

theorem squash_version_compare:
  assumes "y \<le> x" and "x \<le> y + maxInflightSquash"
  shows "largerThan ((nextVersion ^^ x) 0) ((nextVersion ^^ y) 0) = Some (y < x)"
proof -
  have nv: "(nextVersion ^^ k) 0 = k mod 16" for k
    by (induction k) (simp_all add: nextVersion_def versionLimit_def mod_Suc_eq)
  obtain k where k: "x = y + k" "k \<le> 7"
    using assms by (metis le_Suc_ex add_le_cancel_left maxInflightSquash_def)
  define r where "r = y mod 16"
  have r: "r < 16" by (simp add: r_def)
  have "x mod 16 = (r + k) mod 16"
    using k by (simp add: r_def mod_add_left_eq)
  moreover have "(r + k) mod 16 = (if r + k < 16 then r + k else r + k - 16)"
    using r k(2) by (simp add: le_mod_geq)
  ultimately have x: "x mod 16 = (if r + k < 16 then r + k else r + k - 16)"
    by simp
  show ?thesis
    using k r x unfolding nv largerThan_def Let_def versionLimit_def maxInflightSquash_def r_def [symmetric]
    by (auto split: if_splits)
qed

theorem squash_version_compare_witness:
  "largerThan ((nextVersion ^^ 18) 0) ((nextVersion ^^ 14) 0) = Some True"
  using squash_version_compare [of 14 18] by (simp add: maxInflightSquash_def)

section \<open>Buffers\<close>

text \<open>The stall buffer is a sequence of fetch groups, each of one thread.\<close>

definition groups_ok :: "dyn_inst list list \<Rightarrow> bool" where
  "groups_ok gs \<longleftrightarrow> (\<forall>g\<in>set gs. g \<noteq> [] \<and> (\<exists>t. \<forall>d\<in>set g. threadNumber d = t))"

definition stall_ok :: "decode_state \<Rightarrow> bool" where
  "stall_ok s \<longleftrightarrow>
     (\<exists>gs. groups_ok gs \<and> stallBuffer s = concat gs \<and> eachstallSize s = map length gs)"

lemma erase_groups_filter:
  assumes "groups_ok gs"
  shows "erase_groups t (map length gs) (concat gs) =
    Some (concat (filter (\<lambda>g. threadNumber (hd g) \<noteq> t) gs),
          map length (filter (\<lambda>g. threadNumber (hd g) \<noteq> t) gs))"
  using assms
proof (induction gs)
  case Nil
  then show ?case by simp
next
  case (Cons g gs)
  then have g: "g \<noteq> []" and ok: "groups_ok gs" by (simp_all add: groups_ok_def)
  then have "hd (g @ concat gs) = hd g" by simp
  then show ?case
    using Cons.IH [OF ok] g by simp
qed

lemma concat_groups_filter:
  assumes "groups_ok gs"
  shows "concat (filter (\<lambda>g. threadNumber (hd g) \<noteq> t) gs) = filter (\<lambda>d. threadNumber d \<noteq> t) (concat gs)"
  using assms
proof (induction gs)
  case Nil
  then show ?case by simp
next
  case (Cons g gs)
  then obtain u where g: "g \<noteq> []" "\<forall>d\<in>set g. threadNumber d = u" and ok: "groups_ok gs"
    by (auto simp: groups_ok_def)
  then have "threadNumber (hd g) = u"
    by simp
  moreover have "filter (\<lambda>d. threadNumber d \<noteq> t) g = (if u = t then [] else g)"
    using g by (auto simp: filter_empty_conv filter_id_conv)
  ultimately show ?case using Cons.IH [OF ok] by simp
qed

lemma groups_ok_filter: "groups_ok gs \<Longrightarrow> groups_ok (filter P gs)"
  by (simp add: groups_ok_def)

text \<open>
  A squash of a thread removes all its instructions from the decode buffers and keeps
  those of the other threads, in order; the group sizes stay consistent with the buffer.
\<close>

lemma decode_squash_exact:
  assumes "stall_ok s"
  shows "\<exists>s'. squash t s = Some s' \<and> stall_ok s' \<and>
    stallBuffer s' = filter (\<lambda>d. threadNumber d \<noteq> t) (stallBuffer s) \<and>
    fixedbuffer s' = (fixedbuffer s)(t := [])"
proof -
  obtain gs where gs: "groups_ok gs" "stallBuffer s = concat gs" "eachstallSize s = map length gs"
    using assms by (auto simp: stall_ok_def)
  then show ?thesis
    using groups_ok_filter [OF gs(1)]
    by (auto simp: squash_def erase_groups_filter concat_groups_filter [symmetric] stall_ok_def)
qed

section \<open>The decode loop\<close>

definition parts :: "dyn_inst \<Rightarrow> seq_num list" where
  "parts d = (if isFusion d then map seqNum (subInsts d) else [seqNum d])"

lemma rv_op_fused: "isFusion d \<Longrightarrow> deCompressMap (rv_op (rv_view d)) = OtherOp 0"
  by (simp add: isFusion_def rv_view_def split: static_inst.splits)

lemma fuse2_not_fused:
  assumes "fuse2 (rv_view b) (rv_view c) = Fused f"
  shows "\<not> isFusion b" and "\<not> isFusion c"
proof -
  have "list_all (\<lambda>(p, q, _). p \<noteq> OtherOp 0 \<and> q \<noteq> OtherOp 0) paths2"
    by code_simp
  then show "\<not> isFusion b" and "\<not> isFusion c"
    using fuse2_path [of "rv_view b" "rv_view c"] assms rv_op_fused by (fastforce simp: list_all_iff)+
qed

lemma fuse3_not_fused:
  assumes "fuse3 (rv_view b) x y = Fused f"
  shows "\<not> isFusion b"
proof
  assume b: "isFusion b"
  have "list_all (\<lambda>e. key_op (fst e) \<noteq> OtherOp 0) fusionMap3"
    by code_simp
  then have "tag_find (rv_view b) fusionMap3 = None"
    using tag_find_Some [of "rv_view b" fusionMap3] rv_op_fused [OF b]
    by (cases "tag_find (rv_view b) fusionMap3") (fastforce simp: list_all_iff)+
  then show False using assms by (simp add: fuse3_def)
qed

lemma isFusion_new [simp]: "isFusion (newFusedInst f subs)"
  by (simp add: isFusion_def newFusedInst_def)

lemma newFusedInst_simps [simp]:
  "seqNum (newFusedInst f subs) = seqNum (hd subs)" "subInsts (newFusedInst f subs) = subs"
  by (simp_all add: newFusedInst_def)

lemma seqNum_truncate [simp]: "seqNum (dyn_base.truncate d) = seqNum d"
  by (simp add: dyn_base.truncate_def)

lemma parts_new [simp]: "parts (newFusedInst f subs) = map seqNum subs"
  by (simp add: parts_def)

text \<open>What one round of fusion attempts does to the vector.\<close>

definition absorbed :: "dyn_inst list \<Rightarrow> dyn_inst \<Rightarrow> dyn_inst list \<Rightarrow> dyn_inst list \<Rightarrow> dyn_inst \<Rightarrow> bool" where
  "absorbed vec cur nxt vec' d \<longleftrightarrow>
     mset (concat (map parts vec')) = mset (concat (map parts vec)) + mset (map seqNum (cur # nxt)) \<and>
     (map seqNum vec' = map seqNum vec \<or> map seqNum vec' = map seqNum vec @ [seqNum cur]) \<and>
     d \<in> set vec'"

lemma absorbed_push: "\<not> isFusion cur \<Longrightarrow> absorbed vec cur [] (vec @ [cur]) cur"
  by (simp add: absorbed_def parts_def)

lemma absorbed_last:
  assumes "vec \<noteq> []" and "\<not> isFusion (last vec)"
  shows "absorbed vec cur nxt
    (butlast vec @ [newFusedInst f (dyn_base.truncate (last vec) # dyn_base.truncate cur # map dyn_base.truncate nxt)])
    (newFusedInst f (dyn_base.truncate (last vec) # dyn_base.truncate cur # map dyn_base.truncate nxt))"
proof -
  obtain v b where "vec = v @ [b]" using assms(1) by (cases vec rule: rev_cases) auto
  then show ?thesis
    using assms(2) by (simp add: absorbed_def parts_def comp_def)
qed

lemma absorbed_at:
  assumes "i < length vec" and "\<not> isFusion (vec ! i)"
  shows "absorbed vec cur []
    (vec[i := newFusedInst f [dyn_base.truncate (vec ! i), dyn_base.truncate cur]])
    (newFusedInst f [dyn_base.truncate (vec ! i), dyn_base.truncate cur])"
proof -
  have v: "vec = take i vec @ vec ! i # drop (Suc i) vec"
    using assms(1) by (rule id_take_nth_drop)
  have u: "vec[i := x] = take i vec @ x # drop (Suc i) vec" for x
    using assms(1) by (rule upd_conv_take_nth_drop)
  have "parts (vec ! i) = [seqNum (vec ! i)]"
    using assms(2) by (simp add: parts_def)
  then have "mset (concat (map parts vec)) =
      mset (concat (map parts (take i vec))) + {#seqNum (vec ! i)#} + mset (concat (map parts (drop (Suc i) vec)))"
    by (subst v) simp
  moreover have "map seqNum (vec[i := newFusedInst f [dyn_base.truncate (vec ! i), dyn_base.truncate cur]]) = map seqNum vec"
    using assms(1) by (simp add: map_update list_update_same_conv)
  ultimately show ?thesis
    using assms(1) set_update_memI by (fastforce simp: absorbed_def u)
qed

lemma ncsf_walk_Head:
  "ncsf_walk cur r vs = Head i f \<Longrightarrow> i < length vs \<and> fuse2 (rv_view (rev vs ! i)) (rv_view cur) = Fused f"
proof (induction vs)
  case (Cons v vs)
  show ?case
  proof (cases "ncsf_walk cur r vs = Head i f")
    case True
    then show ?thesis using Cons.IH by (simp add: nth_append)
  next
    case False
    then have "i = length vs" "fuse2 (rv_view v) (rv_view cur) = Fused f"
      using Cons.prems by (auto simp: Let_def split: if_splits fuse_result.splits)
    then show ?thesis by (simp add: nth_append)
  qed
qed simp

lemma ncsf_find_Head:
  assumes "ncsf_find cfg vec cur = Head i f"
  shows "i < length vec - 1" and "fuse2 (rv_view (vec ! i)) (rv_view cur) = Fused f"
proof -
  have "ncsf_walk cur (rv_destRegIdx (rv_view cur) 0) (rev (butlast vec)) = Head i f"
    using assms by (auto simp: ncsf_find_def Let_def split: if_splits)
  then have "i < length vec - 1 \<and> fuse2 (rv_view (butlast vec ! i)) (rv_view cur) = Fused f"
    using ncsf_walk_Head by fastforce
  then show "i < length vec - 1" and "fuse2 (rv_view (vec ! i)) (rv_view cur) = Fused f"
    using nth_butlast [of i vec] by simp_all
qed

lemma checkAndFuseInsts_cases:
  assumes "checkAndFuseInsts cfg now vec cur s = Some (vec1, cur1, s1)"
  shows "fixedbuffer s1 = fixedbuffer s"
    and "vec1 = vec \<and> cur1 = cur \<or>
      vec \<noteq> [] \<and> (\<exists>f. fuse2 (rv_view (last vec)) (rv_view cur) = Fused f \<and> vec1 = butlast vec \<and>
        cur1 = newFusedInst f [dyn_base.truncate (last vec), dyn_base.truncate cur])"
proof -
  have "fixedbuffer s1 = fixedbuffer s \<and> (vec1 = vec \<and> cur1 = cur \<or>
      vec \<noteq> [] \<and> (\<exists>f. fuse2 (rv_view (last vec)) (rv_view cur) = Fused f \<and> vec1 = butlast vec \<and>
        cur1 = newFusedInst f [dyn_base.truncate (last vec), dyn_base.truncate cur]))"
    using assms unfolding checkAndFuseInsts_def Let_def
    by (cases "fuse2 (rv_view (last vec)) (rv_view cur)") (auto split: if_splits)
  then show "fixedbuffer s1 = fixedbuffer s"
    and "vec1 = vec \<and> cur1 = cur \<or>
      vec \<noteq> [] \<and> (\<exists>f. fuse2 (rv_view (last vec)) (rv_view cur) = Fused f \<and> vec1 = butlast vec \<and>
        cur1 = newFusedInst f [dyn_base.truncate (last vec), dyn_base.truncate cur])"
    by blast+
qed

lemma decode_fuse_absorbed:
  assumes run: "decode_fuse cfg now t vec cur s = Some (vec', d, extra, s')" and cur: "\<not> isFusion cur"
  shows "absorbed vec cur (take extra (fixedbuffer s t)) vec' d \<and>
    fixedbuffer s' = (fixedbuffer s)(t := drop extra (fixedbuffer s t)) \<and>
    extra \<le> length (fixedbuffer s t) \<and> (enableLoadFusion cfg \<or> extra = 0)"
proof (cases "checkAndFuseTriple cfg vec cur (fixedbuffer s t)")
  case Panic
  then show ?thesis using run by (simp add: decode_fuse_def)
next
  case (Fused f)
  then have f3: "fuse3 (rv_view (last vec)) (rv_view cur) (rv_view (hd (fixedbuffer s t))) = fuse_result.Fused f"
    and ne: "vec \<noteq> []" "fixedbuffer s t \<noteq> []" "enableLoadFusion cfg"
    by (auto simp: checkAndFuseTriple_def split: if_splits)
  note nf = fuse3_not_fused [OF f3]
  have tk: "take 1 (fixedbuffer s t) = [hd (fixedbuffer s t)]"
    using ne by (cases "fixedbuffer s t") auto
  show ?thesis
    using run Fused absorbed_last [OF ne(1) nf, of cur "[hd (fixedbuffer s t)]" f] ne tk
    by (auto simp: decode_fuse_def Let_def drop_Suc Suc_le_eq)
next
  case NoFusion
  then obtain vec1 cur1 s1 where c: "checkAndFuseInsts cfg now vec cur s = Some (vec1, cur1, s1)"
    using run by (auto simp: decode_fuse_def split: option.splits)
  show ?thesis
  proof (cases "isFusion cur1")
    case True
    then obtain f where ne: "vec \<noteq> []" and f: "fuse2 (rv_view (last vec)) (rv_view cur) = fuse_result.Fused f"
      "vec1 = butlast vec" "cur1 = newFusedInst f [dyn_base.truncate (last vec), dyn_base.truncate cur]"
      using checkAndFuseInsts_cases(2) [OF c] cur by auto
    have "vec' = vec1 @ [cur1]" "d = cur1" "extra = 0" "s' = s1"
      using run NoFusion c True by (auto simp: decode_fuse_def)
    then show ?thesis
      using absorbed_last [OF ne fuse2_not_fused(1) [OF f(1)], of cur "[]" f] f
        checkAndFuseInsts_cases(1) [OF c] by simp
  next
    case False
    then have c1: "vec1 = vec" "cur1 = cur" "fixedbuffer s1 = fixedbuffer s"
      using checkAndFuseInsts_cases [OF c] by auto
    show ?thesis
    proof (cases "ncsf_find cfg vec cur")
      case NoHead
      then show ?thesis
        using run NoFusion c False c1 absorbed_push [OF cur, of vec]
        by (auto simp: decode_fuse_def checkAndFuseNonConsec_def)
    next
      case (Head i f)
      note h = ncsf_find_Head [OF Head]
      have "i < length vec" using h(1) by simp
      then show ?thesis
        using run NoFusion c False c1 Head absorbed_at [OF _ fuse2_not_fused(1) [OF h(2)], of cur f]
        by (auto simp: decode_fuse_def checkAndFuseNonConsec_def Let_def)
    next
      case HeadPanic
      then show ?thesis
        using run NoFusion c False c1 by (auto simp: decode_fuse_def checkAndFuseNonConsec_def)
    qed
  qed
qed

lemma selfSquash_fixedbuffer:
  "selfSquash d t s = Some s' \<Longrightarrow> fixedbuffer s' = (fixedbuffer s)(t := [])"
  by (auto simp: selfSquash_def split: if_splits option.splits)

lemma parts_update [simp]:
  "parts (d\<lparr>predPC := x\<rparr>) = parts d" "parts (d\<lparr>predTaken := b\<rparr>) = parts d"
  by (simp_all add: parts_def isFusion_def)

lemma override_npc_simps [simp]:
  "seqNum (override_npc d) = seqNum d" "parts (override_npc d) = parts d"
  by (simp_all add: override_npc_def)

lemma check_branch_effect:
  assumes "check_branch retAddr t d s = Some (d', stop, s')"
  shows "seqNum d' = seqNum d \<and> parts d' = parts d \<and>
    fixedbuffer s' = (if stop then (fixedbuffer s)(t := []) else fixedbuffer s)"
  using assms unfolding check_branch_def Let_def
  by (auto dest!: selfSquash_fixedbuffer split: if_splits)

lemma refresh_parts:
  assumes "distinct (map seqNum vec)" and "d \<in> set vec" and "seqNum d' = seqNum d" and "parts d' = parts d"
  shows "map parts (refresh d' vec) = map parts vec" and "map seqNum (refresh d' vec) = map seqNum vec"
proof -
  have "parts (if seqNum x = seqNum d' then d' else x) = parts x" if "x \<in> set vec" for x
    using assms that by (auto simp: distinct_map dest: inj_onD)
  then show "map parts (refresh d' vec) = map parts vec"
    by (simp add: refresh_def)
  show "map seqNum (refresh d' vec) = map seqNum vec"
    by (simp add: refresh_def)
qed

lemma sorted_wrt_less_distinct: "sorted_wrt (<) (xs :: nat list) \<Longrightarrow> distinct xs"
  by (simp add: strict_sorted_iff)

lemma sorted_shrink:
  fixes v :: "nat list"
  shows "sorted_wrt (<) (v @ x # r) \<Longrightarrow> w = v \<or> w = v @ [x] \<Longrightarrow> sorted_wrt (<) (w @ drop k r)"
  using set_drop_subset [of k r] by (auto simp: sorted_wrt_append sorted_wrt_drop subset_iff)

text \<open>The loop: from a vector and a buffer in program order.\<close>

definition taken :: "dyn_inst list \<Rightarrow> seq_num list" where
  "taken ds = map seqNum (filter (\<lambda>d. \<not> squashed d) ds)"

lemma decode_loop_stop:
  "avail = 0 \<or> decodeWidth cfg \<le> idx \<or> (\<exists>d rest. fixedbuffer s t = d # rest \<and> veclim \<and> isVector (flags d)) \<Longrightarrow>
   decode_loop cfg retAddr now t veclim avail idx vec s = Some (vec, avail, idx, s)"
  by (subst decode_loop.simps) auto

lemma decode_loop_empty:
  "avail \<noteq> 0 \<Longrightarrow> \<not> decodeWidth cfg \<le> idx \<Longrightarrow> fixedbuffer s t = [] \<Longrightarrow>
   decode_loop cfg retAddr now t veclim avail idx vec s = None"
  by (subst decode_loop.simps) simp

lemma decode_loop_step:
  assumes "avail \<noteq> 0" and "\<not> decodeWidth cfg \<le> idx" and "fixedbuffer s t = d # rest"
    and "\<not> (veclim \<and> isVector (flags d))"
  shows "decode_loop cfg retAddr now t veclim avail idx vec s =
    (let s1 = s\<lparr>fixedbuffer := (fixedbuffer s)(t := rest)\<rparr> in
     if squashed d then decode_loop cfg retAddr now t veclim (avail - 1) idx vec s1
     else case decode_fuse cfg now t vec (issue_ready d) s1 of
       None \<Rightarrow> None
     | Some (vec1, cur, extra, s2) \<Rightarrow>
         (case check_branch retAddr t cur s2 of
            None \<Rightarrow> None
          | Some (cur', stop, s3) \<Rightarrow>
              if stop then Some (refresh cur' vec1, avail - 1 - extra, idx + 1, s3)
              else decode_loop cfg retAddr now t veclim (avail - 1 - extra) (idx + 1) (refresh cur' vec1) s3))"
  using assms by (subst decode_loop.simps) (auto simp: Let_def)

lemma issue_ready_simps [simp]:
  "isFusion (issue_ready d) = isFusion d" "seqNum (issue_ready d) = seqNum d"
  by (simp_all add: issue_ready_def isFusion_def)

lemma decode_round:
  assumes fu: "decode_fuse cfg now t vec (issue_ready d) (s\<lparr>fixedbuffer := (fixedbuffer s)(t := rest)\<rparr>)
      = Some (vec1, cur, extra, s2)"
    and br: "check_branch retAddr t cur s2 = Some (cur', stop, s3)"
    and sorted: "sorted_wrt (<) (map seqNum vec @ seqNum d # map seqNum rest)"
    and ok: "\<not> isFusion d" "\<not> squashed d" "enableLoadFusion cfg \<Longrightarrow> \<forall>e\<in>set rest. \<not> squashed e"
  shows "sorted_wrt (<) (map seqNum (refresh cur' vec1) @ map seqNum (drop extra rest))"
    and "length (refresh cur' vec1) \<le> length vec + 1"
    and "mset (concat (map parts (refresh cur' vec1))) =
      mset (concat (map parts vec)) + mset (taken (take (Suc extra) (d # rest)))"
    and "fixedbuffer s3 t = (if stop then [] else drop extra rest)"
proof -
  have ab: "absorbed vec (issue_ready d) (take extra rest) vec1 cur" and le: "enableLoadFusion cfg \<or> extra = 0"
    and fb: "fixedbuffer s2 t = drop extra rest"
    using decode_fuse_absorbed [OF fu] ok(1) by simp_all
  have cb: "seqNum cur' = seqNum cur" "parts cur' = parts cur"
    "fixedbuffer s3 = (if stop then (fixedbuffer s2)(t := []) else fixedbuffer s2)"
    using check_branch_effect [OF br] by simp_all
  have sn: "map seqNum vec1 = map seqNum vec \<or> map seqNum vec1 = map seqNum vec @ [seqNum d]"
    and mem: "cur \<in> set vec1"
    and ms: "mset (concat (map parts vec1)) =
      mset (concat (map parts vec)) + mset (seqNum d # map seqNum (take extra rest))"
    using ab by (simp_all add: absorbed_def)
  have so: "sorted_wrt (<) (map seqNum vec1 @ map seqNum (drop extra rest))"
    unfolding drop_map [symmetric] by (rule sorted_shrink [OF sorted sn])
  then have di: "distinct (map seqNum vec1)"
    using sorted_wrt_less_distinct by (auto simp: sorted_wrt_append)
  note rp = refresh_parts [OF di mem cb(1,2)]
  show "sorted_wrt (<) (map seqNum (refresh cur' vec1) @ map seqNum (drop extra rest))"
    using so rp(2) by simp
  show "length (refresh cur' vec1) \<le> length vec + 1"
  proof -
    have "length (map seqNum vec1) \<le> length (map seqNum vec) + 1"
      using sn by (elim disjE) (simp_all del: length_map)
    then show ?thesis by (simp add: refresh_def)
  qed
  show "fixedbuffer s3 t = (if stop then [] else drop extra rest)"
    using cb(3) fb by simp
  have "filter (\<lambda>e. \<not> squashed e) (take extra rest) = take extra rest"
    using le ok(3) by (auto simp: filter_id_conv dest: in_set_takeD)
  then show "mset (concat (map parts (refresh cur' vec1))) =
      mset (concat (map parts vec)) + mset (taken (take (Suc extra) (d # rest)))"
    using rp(1) ms ok(2) by (simp add: taken_def)
qed

lemma taken_append: "taken (xs @ ys) = taken xs @ taken ys"
  by (simp add: taken_def)

text \<open>The relation between what was decoded before, the buffer, and the result.\<close>

definition decoded ::
  "decode_cfg \<Rightarrow> dyn_inst list \<Rightarrow> dyn_inst list \<Rightarrow> dyn_inst list \<Rightarrow> dyn_inst list \<Rightarrow> bool" where
  "decoded cfg vec buf vec' buf' \<longleftrightarrow>
     sorted_wrt (<) (map seqNum vec') \<and> length vec' \<le> decodeWidth cfg \<and>
     (\<exists>k. mset (concat (map parts vec')) = mset (concat (map parts vec)) + mset (taken (take k buf)) \<and>
          (buf' = drop k buf \<or> buf' = []))"

lemma decoded_refl:
  "sorted_wrt (<) (map seqNum vec) \<Longrightarrow> length vec \<le> decodeWidth cfg \<Longrightarrow>
   buf' = buf \<or> buf' = [] \<Longrightarrow> decoded cfg vec buf vec buf'"
  by (auto simp: decoded_def taken_def intro!: exI [of _ 0])

lemma decoded_shift:
  assumes "decoded cfg vec1 (drop k rest) vec' buf'"
    and m: "mset (concat (map parts vec1)) = mset (concat (map parts vec)) + mset (taken (take (Suc k) (d # rest)))"
  shows "decoded cfg vec (d # rest) vec' buf'"
proof -
  obtain j where j: "mset (concat (map parts vec')) = mset (concat (map parts vec1)) + mset (taken (take j (drop k rest)))"
    "buf' = drop j (drop k rest) \<or> buf' = []"
    using assms(1) by (auto simp: decoded_def)
  have "take (Suc (k + j)) (d # rest) = take (Suc k) (d # rest) @ take j (drop k rest)"
    by (simp add: take_add)
  then have "mset (concat (map parts vec')) = mset (concat (map parts vec)) + mset (taken (take (Suc (k + j)) (d # rest)))"
    using j(1) m by (simp only: taken_append mset_append add.assoc)
  moreover have "buf' = drop (Suc (k + j)) (d # rest) \<or> buf' = []"
    using j(2) by (simp add: add.commute)
  ultimately show ?thesis using assms(1) unfolding decoded_def by blast
qed

lemma decode_loop_conserves:
  assumes "decode_loop cfg retAddr now t veclim avail idx vec s = Some (vec', avail', idx', s')"
    and "sorted_wrt (<) (map seqNum vec @ map seqNum (fixedbuffer s t))"
    and "\<forall>d\<in>set (fixedbuffer s t). \<not> isFusion d \<and> (enableLoadFusion cfg \<longrightarrow> \<not> squashed d)"
    and "length vec \<le> idx" and "idx \<le> decodeWidth cfg"
  shows "decoded cfg vec (fixedbuffer s t) vec' (fixedbuffer s' t)"
  using assms
proof (induction avail arbitrary: idx vec s rule: less_induct)
  case (less avail)
  show ?case
  proof (cases "avail = 0 \<or> decodeWidth cfg \<le> idx \<or>
      (\<exists>d rest. fixedbuffer s t = d # rest \<and> veclim \<and> isVector (flags d))")
    case True
    then have "vec' = vec" "s' = s"
      using less.prems(1) decode_loop_stop [OF True] by simp_all
    then show ?thesis
      using less.prems(2,4,5) by (simp add: sorted_wrt_append decoded_refl)
  next
    case False
    then have "fixedbuffer s t \<noteq> []"
      using less.prems(1) decode_loop_empty [of avail cfg idx s t retAddr now veclim vec] by auto
    then obtain d rest where buf: "fixedbuffer s t = d # rest"
      by (cases "fixedbuffer s t") auto
    have step: "avail \<noteq> 0" "\<not> decodeWidth cfg \<le> idx" "\<not> (veclim \<and> isVector (flags d))"
      using False buf by auto
    have ok: "\<not> isFusion d" "enableLoadFusion cfg \<Longrightarrow> \<forall>e\<in>set rest. \<not> squashed e"
      using less.prems(3) buf by auto
    note run = less.prems(1) [unfolded decode_loop_step [OF step(1,2) buf step(3)] Let_def]
    let ?s1 = "s\<lparr>fixedbuffer := (fixedbuffer s)(t := rest)\<rparr>"
    show ?thesis
    proof (cases "squashed d")
      case True
      then have "decoded cfg vec rest vec' (fixedbuffer s' t)"
        using less.IH [of "avail - 1" idx vec ?s1] run less.prems(2-5) buf step(1)
        by (simp add: sorted_wrt_append)
      then show ?thesis
        using decoded_shift [of cfg vec 0 rest] True buf by (simp add: taken_def)
    next
      case nsq: False
      from run nsq obtain vec1 cur extra s2 cur' stop s3
        where fu: "decode_fuse cfg now t vec (issue_ready d) ?s1 = Some (vec1, cur, extra, s2)"
        and br: "check_branch retAddr t cur s2 = Some (cur', stop, s3)"
        by (auto split: option.splits)
      have so: "sorted_wrt (<) (map seqNum vec @ seqNum d # map seqNum rest)"
        using less.prems(2) buf by simp
      note rd = decode_round [OF fu br so ok(1) nsq ok(2)]
      have len: "length (refresh cur' vec1) \<le> idx + 1" "idx + 1 \<le> decodeWidth cfg"
        using rd(2) less.prems(4) step(2) by simp_all
      have "decoded cfg (refresh cur' vec1) (drop extra rest) vec' (fixedbuffer s' t)"
      proof (cases stop)
        case True
        then show ?thesis
          using rd(1,4) len run nsq fu br by (simp add: sorted_wrt_append decoded_refl)
      next
        case False
        then show ?thesis
          using less.IH [of "avail - 1 - extra" "idx + 1" "refresh cur' vec1" s3] run nsq fu br
            rd(1,4) len step(1) less.prems(3) buf by (auto dest: in_set_dropD)
      qed
      then show ?thesis unfolding buf by (rule decoded_shift [OF _ rd(3)])
    qed
  qed
qed

text \<open>
  C19: Decode neither loses nor duplicates an instruction: the parts of what is sent to
  rename are exactly the instructions taken from the front of the buffer, squashed ones left
  out, whatever was fused; at most \<open>decodeWidth\<close> instructions are sent, in program order.
\<close>

theorem decode_conserves:
  assumes "decodeInsts cfg retAddr now t s = Some (out, s')"
    and "sorted_wrt (<) (map seqNum (fixedbuffer s t))"
    and "\<forall>d\<in>set (fixedbuffer s t). \<not> isFusion d \<and> (enableLoadFusion cfg \<longrightarrow> \<not> squashed d)"
  shows "sorted_wrt (<) (map seqNum out) \<and> length out \<le> decodeWidth cfg \<and>
    (\<exists>k. mset (concat (map parts out)) = mset (taken (take k (fixedbuffer s t))) \<and>
         (fixedbuffer s' t = drop k (fixedbuffer s t) \<or> fixedbuffer s' t = []))"
proof (cases "fixedbuffer s t")
  case Nil
  then show ?thesis using assms(1) by (auto simp: decodeInsts_def taken_def)
next
  case (Cons d rest)
  then obtain avail idx s1 where
    "decode_loop cfg retAddr now t (\<not> isVector (flags d)) (length (fixedbuffer s t)) 0 [] s =
       Some (out, avail, idx, s1)" and "fixedbuffer s' = fixedbuffer s1"
    using assms(1) by (auto simp: decodeInsts_def split: option.splits)
  then show ?thesis
    using decode_loop_conserves [of cfg retAddr now t _ _ 0 "[]" s out] assms(2,3)
    by (auto simp: decoded_def)
qed

section \<open>Loads that are not adjacent\<close>

text \<open>What an instruction in the gap does to the architectural registers, with the values it
  computes as a parameter.\<close>

definition gap_step ::
  "(dyn_inst \<Rightarrow> regval list \<Rightarrow> regval list) \<Rightarrow> dyn_inst \<Rightarrow> arch_state \<Rightarrow> arch_state" where
  "gap_step sem g A =
     arch_writes (map (\<lambda>r. (r, 0)) (rv_dests (rv_view g)))
       (sem g (map (arch_read A) (rv_srcs (rv_view g)))) A"

lemma arch_writes_other:
  "r \<notin> fst ` set ds \<Longrightarrow> arch_writes ds vs A r = A r"
proof -
  assume r: "r \<notin> fst ` set ds"
  have "fold (\<lambda>(d, v). arch_write (fst d) v) xs A r = A r" if "\<forall>x\<in>set xs. fst (fst x) \<noteq> r" for xs A
    using that by (induction xs arbitrary: A) (auto simp: arch_write_def)
  moreover have "\<forall>x\<in>set (zip ds vs). fst (fst x) \<noteq> r"
    using r by (auto simp: image_iff dest!: set_zip_leftD)
  ultimately show ?thesis by (simp add: arch_writes_def)
qed

lemma arch_writes_commute:
  "r \<notin> fst ` set ds \<Longrightarrow> arch_writes ds vs (arch_write r v A) = arch_write r v (arch_writes ds vs A)"
proof -
  assume r: "r \<notin> fst ` set ds"
  have "fold (\<lambda>(d, v). arch_write (fst d) v) xs (arch_write r v A) =
      arch_write r v (fold (\<lambda>(d, v). arch_write (fst d) v) xs A)" if "\<forall>x\<in>set xs. fst (fst x) \<noteq> r" for xs A
    using that by (induction xs arbitrary: A) (auto simp: arch_write_def fun_upd_twist)
  moreover have "\<forall>x\<in>set (zip ds vs). fst (fst x) \<noteq> r"
    using r by (auto simp: image_iff dest!: set_zip_leftD)
  ultimately show ?thesis by (simp add: arch_writes_def)
qed

lemma gap_step_commute:
  assumes "\<not> gap_blocks base r g"
  shows "gap_step sem g (arch_write r v A) = arch_write r v (gap_step sem g A)"
    and "arch_read (gap_step sem g A) base = arch_read A base"
proof -
  have nr: "r \<notin> fst ` set (map (\<lambda>r. (r, 0 :: int)) (rv_dests (rv_view g)))"
    and nb: "base \<notin> fst ` set (map (\<lambda>r. (r, 0 :: int)) (rv_dests (rv_view g)))"
    and sr: "\<forall>x\<in>set (rv_srcs (rv_view g)). x \<noteq> r"
    using assms by (auto simp: gap_blocks_def list_ex_iff)
  have "map (arch_read (arch_write r v A)) (rv_srcs (rv_view g)) = map (arch_read A) (rv_srcs (rv_view g))"
    using sr by (auto simp: arch_read_def arch_write_def)
  then show "gap_step sem g (arch_write r v A) = arch_write r v (gap_step sem g A)"
    unfolding gap_step_def by (simp only: arch_writes_commute [OF nr])
  show "arch_read (gap_step sem g A) base = arch_read A base"
    unfolding gap_step_def arch_read_def by (simp only: arch_writes_other [OF nb])
qed

lemma gap_commute:
  assumes "\<forall>g\<in>set gs. \<not> gap_blocks base r g"
  shows "fold (gap_step sem) gs (arch_write r v A) = arch_write r v (fold (gap_step sem) gs A)"
    and "arch_read (fold (gap_step sem) gs A) base = arch_read A base"
  using assms by (induction gs arbitrary: A) (simp_all add: gap_step_commute [of base r])

lemma ncsf_walk_gap:
  "ncsf_walk cur r vs = Head i f \<Longrightarrow>
   \<forall>g\<in>set (drop (Suc i) (rev vs)). \<not> gap_blocks (rv_srcRegIdx (rv_view cur) 0) r g"
proof (induction vs)
  case (Cons v vs)
  show ?case
  proof (cases "ncsf_walk cur r vs = Head i f")
    case True
    then have "i < length vs" using ncsf_walk_Head by blast
    moreover have "\<not> gap_blocks (rv_srcRegIdx (rv_view cur) 0) r v"
      using Cons.prems by (auto simp: Let_def split: if_splits)
    ultimately show ?thesis using Cons.IH [OF True] by simp
  next
    case False
    then have "i = length vs"
      using Cons.prems by (auto simp: Let_def split: if_splits fuse_result.splits)
    then show ?thesis by simp
  qed
qed simp

lemma ncsf_find_gap:
  assumes "ncsf_find cfg vec cur = Head i f"
  shows "\<forall>g\<in>set (drop (Suc i) vec).
    \<not> gap_blocks (rv_srcRegIdx (rv_view cur) 0) (rv_destRegIdx (rv_view cur) 0) g"
proof -
  have w: "ncsf_walk cur (rv_destRegIdx (rv_view cur) 0) (rev (butlast vec)) = Head i f"
    and l: "\<not> gap_blocks (rv_srcRegIdx (rv_view cur) 0) (rv_destRegIdx (rv_view cur) 0) (last vec)"
    and ne: "vec \<noteq> []"
    using assms by (auto simp: ncsf_find_def Let_def split: if_splits)
  have "i < length vec - 1" by (rule ncsf_find_Head(1) [OF assms])
  then have "drop (Suc i) vec = drop (Suc i) (butlast vec) @ [last vec]"
    by (metis Suc_leI append_butlast_last_id diff_is_0_eq' drop0 drop_append length_butlast ne)
  then show ?thesis
    using ncsf_walk_gap [OF w] l by auto
qed

text \<open>
  C25: Hoisting the younger load of a non-adjacent pair over the gap is correct for registers:
  with the operand tests of \<open>checkAndFuseNonConsec\<close>, loading before the instructions in
  between and loading after them give the same registers, whatever these instructions
  compute. Memory is not part of the tests: the bytes the load reads must be the same before
  and after the gap, which a store in the gap can violate.
\<close>

theorem ncsf_hoist_correct:
  assumes "ncsf_find cfg vec cur = Head i f"
    and "mem_read m' (load_addr (rv_view cur) A) (operWid8 (rv_view cur)) =
         mem_read m (load_addr (rv_view cur) A) (operWid8 (rv_view cur))"
  shows "load_step m' (rv_view cur) (fold (gap_step sem) (drop (Suc i) vec) A) =
    fold (gap_step sem) (drop (Suc i) vec) (load_step m (rv_view cur) A)"
proof -
  note g = gap_commute [OF ncsf_find_gap [OF assms(1)], of sem]
  have "load_addr (rv_view cur) (fold (gap_step sem) (drop (Suc i) vec) A) = load_addr (rv_view cur) A"
    unfolding load_addr_def by (simp only: g(2))
  then show ?thesis
    using assms(2) unfolding load_step_def by (simp only: g(1))
qed

section \<open>Fusion after a fault\<close>

text \<open>An instruction none of the checks of the loop stops at.\<close>

definition plain_inst :: "dyn_inst \<Rightarrow> bool" where
  "plain_inst d \<longleftrightarrow>
     \<not> squashed d \<and> \<not> faulted d \<and> \<not> predTaken d \<and> \<not> isFusion d \<and> \<not> isVector (flags d) \<and>
     \<not> isControl (flags d) \<and> \<not> isDirectCtrl (flags d) \<and> \<not> isReturn (flags d) \<and>
     \<not> isNonSpeculative (flags d)"

lemma truncate_flags [simp]: "flags (dyn_base.truncate d) = flags d"
  by (simp add: dyn_base.truncate_def)

lemma plain_issue_ready [simp]:
  "plain_inst (issue_ready d) = plain_inst d" "flags (issue_ready d) = flags d"
  "rv_view (issue_ready d) = rv_view d" "faulted (issue_ready d) = faulted d"
  by (simp_all add: issue_ready_def plain_inst_def isFusion_def rv_view_def cong: static_inst.case_cong)

lemma check_branch_plain:
  assumes "\<not> predTaken d" "\<not> isDirectCtrl (flags d)" "\<not> isReturn (flags d)" "\<not> isNonSpeculative (flags d)"
  shows "check_branch retAddr t d s = Some (d, False, s)"
proof -
  have "\<not> resolved_direct d" using assms by (simp add: resolved_direct_def)
  then show ?thesis
    using assms by (simp add: check_branch_def override_npc_def)
qed

lemma refresh_last: "seqNum d \<notin> seqNum ` set vec \<Longrightarrow> refresh d (vec @ [d]) = vec @ [d]"
  by (auto simp: refresh_def image_iff intro!: map_idI)

text \<open>
  C37: A triple is fused again although its fusion is to be ignored. After a fault of a fused
  instruction, commit asks decode not to fuse at that address; the test is made for pairs
  only, so a shift, an addition and a load that form a triple come out fused whatever
  address is ignored, and a fault that persists is raised for ever.
\<close>

theorem triple_ignores_ignoreFusionPC:
  assumes "fixedbuffer s t = [a, b, c]" and "plain_inst a" and "plain_inst b" and "plain_inst c"
    and "enableLoadFusion cfg" and "2 \<le> decodeWidth cfg"
    and "fuse3 (rv_view a) (rv_view b) (rv_view c) = Fused f"
    and "fu_kind f = SlliAddLoadFusionInst k"
  shows "\<exists>s'. decodeInsts cfg retAddr now t (setIgnoreNextFusion pc since s) =
    Some ([newFusedInst f (map dyn_base.truncate [issue_ready a, issue_ready b, c])], s')"
proof -
  let ?s = "setIgnoreNextFusion pc since s" and ?a = "issue_ready a"
  let ?d = "newFusedInst f (map dyn_base.truncate [?a, issue_ready b, c])"
  let ?s1 = "?s\<lparr>fixedbuffer := (fixedbuffer ?s)(t := [b, c])\<rparr>"
  let ?s2 = "?s1\<lparr>fixedbuffer := (fixedbuffer ?s1)(t := [c])\<rparr>"
  note p = assms(2-4) [unfolded plain_inst_def]
  have f1: "decode_fuse cfg now t [] ?a ?s1 = Some ([?a], ?a, 0, ?s1)"
    using p by (simp add: decode_fuse_def checkAndFuseTriple_def checkAndFuseInsts_def
        checkAndFuseNonConsec_def ncsf_find_def)
  have f2: "\<exists>s3. decode_fuse cfg now t [?a] (issue_ready b) ?s2 = Some ([?d], ?d, 1, s3)"
    using p assms(5,7) by (simp add: decode_fuse_def checkAndFuseTriple_def Let_def)
  then obtain s3 where f2: "decode_fuse cfg now t [?a] (issue_ready b) ?s2 = Some ([?d], ?d, 1, s3)" ..
  have "\<not> predTaken ?a" "\<not> predTaken ?d" "flags ?d = flags c"
    using p assms(8) by (simp_all add: issue_ready_def newFusedInst_def fused_flags_def)
  then have b1: "check_branch retAddr t ?a ?s1 = Some (?a, False, ?s1)"
    and b2: "check_branch retAddr t ?d s3 = Some (?d, False, s3)"
    using p by (auto intro: check_branch_plain)
  have "decode_loop cfg retAddr now t True 3 0 [] ?s = decode_loop cfg retAddr now t True 2 1 [?a] ?s1"
    using assms(1,6) p f1 b1 refresh_last [of ?a "[]"]
    by (subst decode_loop_step [where d = a and rest = "[b, c]"]) (simp_all add: setIgnoreNextFusion_def Let_def)
  also have "\<dots> = decode_loop cfg retAddr now t True 0 2 [?d] s3"
    using assms(6) p f2 b2 refresh_last [of ?d "[]"]
    by (subst decode_loop_step [where d = b and rest = "[c]"]) (simp_all add: Let_def numeral_2_eq_2)
  also have "\<dots> = Some ([?d], 0, 2, s3)"
    by (simp add: decode_loop_stop)
  finally show ?thesis
    using assms(1) p by (simp add: decodeInsts_def setIgnoreNextFusion_def numeral_3_eq_3)
qed

section \<open>Concrete instances\<close>

definition dx_flags :: "bool \<Rightarrow> inst_flags" where
  "dx_flags load = \<lparr>isLoad = load, isControl = False, isDirectCtrl = False, isUncondCtrl = False,
     isReturn = False, isNonSpeculative = False, isVector = False\<rparr>"

definition dx_inst :: "nat \<Rightarrow> thread_id \<Rightarrow> rv_inst \<Rightarrow> dyn_inst" where
  "dx_inst sn t x =
     \<lparr>staticInst = RvInst x,
      flags = dx_flags (case base_op (rv_op x) of Load _ \<Rightarrow> True | _ \<Rightarrow> False),
      opClass = OtherOpClass 1, pcState = (of_nat (4 * sn), of_nat (4 * sn + 4)), compressed = False,
      predPC = (of_nat (4 * sn + 4), of_nat (4 * sn + 8)), branchTarget = None,
      fallThruPC = of_nat (4 * sn + 4), seqNum = sn, threadNumber = t, version = 0, ftqId = 0,
      loopIteration = 0, predTaken = False, squashed = False, faulted = False, canIssue = False,
      subInsts = []\<rparr>"

definition dx_cfg :: decode_cfg where
  "dx_cfg = \<lparr>decodeWidth = 6, fetchToDecodeDelay = 3, enableLoadFusion = True, enableAbrFusion = True,
     enableMACFusion = False, keepIgnoreFusionCycles = 1000\<rparr>"

definition dx_state :: "dyn_inst list \<Rightarrow> decode_state" where
  "dx_state buf = \<lparr>fixedbuffer = (\<lambda>t. if t = 0 then buf else []), stallBuffer = [], eachstallSize = [],
     localSquashVer = 0, ignoreFusionPC = 0, lastSetIgnore = 0, blockFetch = (\<lambda>_. False),
     decodeInfo = (\<lambda>_. None), instList = map (\<lambda>d. (0, seqNum d)) buf\<rparr>"

text \<open>A load, an addition that uses its result, and the load of the adjacent word.\<close>

definition dx_head :: dyn_inst where "dx_head = dx_inst 1 0 (fx_load (Compressed C_ld) 16 2 1)"

definition dx_gap :: dyn_inst where "dx_gap = dx_inst 2 0 (fx_inst (Alu Add) 0 [1, 1] [5])"

definition dx_tail :: dyn_inst where "dx_tail = dx_inst 3 0 (fx_load (Load Lwu) 24 2 3)"

definition dx_out :: "dyn_inst list \<times> decode_state" where
  "dx_out = the (decodeInsts dx_cfg (\<lambda>_. 0) 0 0 (dx_state [dx_head, dx_gap, dx_tail]))"

theorem decode_conserves_witness:
  "\<exists>k. mset (concat (map parts (fst dx_out))) = mset (taken (take k [dx_head, dx_gap, dx_tail])) \<and>
     map parts (fst dx_out) = [[1, 3], [2]]"
proof -
  have "\<not> Option.is_none (decodeInsts dx_cfg (\<lambda>_. 0) 0 0 (dx_state [dx_head, dx_gap, dx_tail]))"
    by code_simp
  then have run: "decodeInsts dx_cfg (\<lambda>_. 0) 0 0 (dx_state [dx_head, dx_gap, dx_tail]) =
      Some (fst dx_out, snd dx_out)"
    unfolding dx_out_def by (rule not_none_pair)
  have fb: "fixedbuffer (dx_state [dx_head, dx_gap, dx_tail]) 0 = [dx_head, dx_gap, dx_tail]"
    by (simp add: dx_state_def)
  have "\<exists>k. mset (concat (map parts (fst dx_out))) = mset (taken (take k [dx_head, dx_gap, dx_tail]))"
    using decode_conserves [OF run] unfolding fb
    by (auto simp: dx_head_def dx_gap_def dx_tail_def dx_inst_def isFusion_def)
  moreover have "map parts (fst dx_out) = [[1, 3], [2]]"
    by code_simp
  ultimately show ?thesis by simp
qed

theorem ncsf_hoist_correct_witness:
  "\<exists>f. ncsf_find dx_cfg [dx_head, dx_gap] dx_tail = Head 0 f \<and>
     load_step fx_mem (rv_view dx_tail) (fold (gap_step (\<lambda>_ vs. [sum_list vs])) [dx_gap] ex_A) =
     fold (gap_step (\<lambda>_ vs. [sum_list vs])) [dx_gap] (load_step fx_mem (rv_view dx_tail) ex_A)"
proof -
  have "case ncsf_find dx_cfg [dx_head, dx_gap] dx_tail of Head i f \<Rightarrow> i = 0 | _ \<Rightarrow> False"
    by code_simp
  then obtain f where f: "ncsf_find dx_cfg [dx_head, dx_gap] dx_tail = Head 0 f"
    by (auto split: ncsf_result.splits)
  show ?thesis
    using f ncsf_hoist_correct [OF f refl, of fx_mem "\<lambda>_ vs. [sum_list vs]" ex_A] by auto
qed

definition dx_triple :: "dyn_inst list" where
  "dx_triple = [dx_inst 1 0 fx_slli, dx_inst 2 0 (fx_inst (Alu Add) 0 [1, 2] [3]), dx_inst 3 0 (fx_load (Load Ld) 8 3 3)]"

theorem triple_ignores_ignoreFusionPC_witness:
  "\<exists>f s'. decodeInsts dx_cfg (\<lambda>_. 0) 0 0 (setIgnoreNextFusion 4 0 (dx_state dx_triple)) =
     Some ([newFusedInst f (map dyn_base.truncate (map issue_ready (take 2 dx_triple) @ drop 2 dx_triple))], s')"
proof -
  let ?a = "dx_inst 1 0 fx_slli" and ?b = "dx_inst 2 0 (fx_inst (Alu Add) 0 [1, 2] [3])"
    and ?c = "dx_inst 3 0 (fx_load (Load Ld) 8 3 3)"
  have "case fuse3 (rv_view ?a) (rv_view ?b) (rv_view ?c) of
      Fused f \<Rightarrow> (case fu_kind f of SlliAddLoadFusionInst k \<Rightarrow> True | _ \<Rightarrow> False) | _ \<Rightarrow> False"
    by code_simp
  then obtain f k where f: "fuse3 (rv_view ?a) (rv_view ?b) (rv_view ?c) = Fused f"
    "fu_kind f = SlliAddLoadFusionInst k"
    by (auto split: fuse_result.splits fusion_kind.splits)
  have p: "plain_inst ?a" "plain_inst ?b" "plain_inst ?c"
    by (simp_all add: plain_inst_def dx_inst_def isFusion_def dx_flags_def)
  have "fixedbuffer (dx_state dx_triple) 0 = [?a, ?b, ?c]"
    by (simp add: dx_state_def dx_triple_def)
  from triple_ignores_ignoreFusionPC [OF this p _ _ f, of dx_cfg "\<lambda>_. 0" 0 4 0]
  show ?thesis by (auto simp: dx_cfg_def dx_triple_def)
qed

end
