(* ===== verification/FoldedHist.thy ===== *)
theory FoldedHist
  imports Prelude
begin

text \<open>
  Folded branch histories, \<open>cpu/pred/btb/folded_hist.hh\<close> and \<open>.cc\<close>, and the history
  registers of \<open>cpu/pred/btb/decoupled_bpred.cc\<close> they compress (\<open>histShiftIn\<close>,
  \<open>pHistShiftIn\<close>). A history register is a bit list, position 0 the newest bit; the folded
  history is a 64-bit word. The optimised incremental updates are shown equal to folding
  the updated register from scratch, which is what \<open>FoldedHistBase::check\<close> asserts at run
  time, and this is lifted to any sequence of predictions and squashes by a locale.
\<close>

unbundle bit_operations_syntax

section \<open>History registers\<close>

type_synonym bitset = "bool list"

text \<open>An index past the end is an assertion failure of the bit set; no property relies on
  the value chosen here.\<close>

definition bs_get :: "bitset \<Rightarrow> nat \<Rightarrow> bool" where
  "bs_get h i = (if i < length h then h ! i else False)"

definition bs_shl :: "nat \<Rightarrow> bitset \<Rightarrow> bitset" where
  "bs_shl n h = take (length h) (replicate n False @ h)"

definition histShiftIn :: "nat \<Rightarrow> bool \<Rightarrow> bitset \<Rightarrow> bitset" where
  "histShiftIn shamt taken h = (if shamt = 0 then h else (bs_shl shamt h)[0 := taken])"

definition pathHashLength :: nat where
  "pathHashLength = 15"

definition pathHash :: "addr \<Rightarrow> addr \<Rightarrow> 64 word" where
  "pathHash branchPC targetPC =
     (push_bit 4 (drop_bit 1 branchPC AND mask 9) XOR (drop_bit 2 targetPC AND mask 15))
       AND mask pathHashLength"

fun xor_hash :: "nat \<Rightarrow> 64 word \<Rightarrow> bitset \<Rightarrow> bitset" where
  "xor_hash 0 hash h = h"
| "xor_hash (Suc n) hash [] = []"
| "xor_hash (Suc n) hash (b # bs) = (bit hash 0 \<noteq> b) # xor_hash n (drop_bit 1 hash) bs"

definition pHistShiftIn :: "nat \<Rightarrow> bool \<Rightarrow> bitset \<Rightarrow> addr \<Rightarrow> addr \<Rightarrow> bitset" where
  "pHistShiftIn shamt taken h pc target =
     (if shamt = 0 then h
      else if taken then xor_hash pathHashLength (pathHash pc target) (bs_shl shamt h)
      else h)"

section \<open>Folded histories\<close>

record folded_cfg =
  histLen :: nat
  foldedLen :: nat
  maxShamt :: nat

definition folded_cfg_ok :: "folded_cfg \<Rightarrow> bool" where
  "folded_cfg_ok c \<longleftrightarrow> maxShamt c \<le> 16 \<and> foldedLen c + maxShamt c < 64"

definition posHighestBitsInGhr :: "folded_cfg \<Rightarrow> nat \<Rightarrow> nat" where
  "posHighestBitsInGhr c i = histLen c - 1 - i"

definition posHighestBitsInOldFoldedHist :: "folded_cfg \<Rightarrow> nat \<Rightarrow> nat" where
  "posHighestBitsInOldFoldedHist c i = (histLen c - 1 - i) mod foldedLen c"

definition bit_shl :: "bool \<Rightarrow> nat \<Rightarrow> 64 word" where
  "bit_shl b n = (if b then push_bit n 1 else 0)"

fun fold_chunk :: "bitset \<Rightarrow> nat \<Rightarrow> nat \<Rightarrow> 64 word" where
  "fold_chunk g start 0 = 0"
| "fold_chunk g start (Suc n) = fold_chunk g start n OR bit_shl (bs_get g (start + n)) n"

text \<open>The loop over chunks; a folded length of 0 would never advance.\<close>

function fold_loop :: "folded_cfg \<Rightarrow> bitset \<Rightarrow> nat \<Rightarrow> 64 word \<Rightarrow> 64 word" where
  "fold_loop c g startBit folded =
     (if foldedLen c = 0 \<or> histLen c \<le> startBit then folded
      else fold_loop c g (startBit + foldedLen c)
             (folded XOR fold_chunk g startBit (min (foldedLen c) (histLen c - startBit))))"
  by pat_completeness auto
termination
  by (relation "measure (\<lambda>(c, g, startBit, folded). histLen c - startBit)") auto

declare fold_loop.simps [simp del]

definition fold_hist :: "folded_cfg \<Rightarrow> bitset \<Rightarrow> 64 word" where
  "fold_hist c g = fold_loop c g 0 0 AND mask (foldedLen c)"

fun xor_highest :: "folded_cfg \<Rightarrow> bitset \<Rightarrow> nat \<Rightarrow> 64 word \<Rightarrow> 64 word" where
  "xor_highest c g 0 temp = temp"
| "xor_highest c g (Suc n) temp =
     xor_highest c g n temp
       XOR bit_shl (bs_get g (posHighestBitsInGhr c n)) (posHighestBitsInOldFoldedHist c n)"

fun copy_back :: "folded_cfg \<Rightarrow> nat \<Rightarrow> 64 word \<Rightarrow> 64 word" where
  "copy_back c 0 temp = temp"
| "copy_back c (Suc n) temp =
     (let t = copy_back c n temp in t OR push_bit n (drop_bit (foldedLen c + n) t AND 1))"

definition dir_update :: "folded_cfg \<Rightarrow> bitset \<Rightarrow> nat \<Rightarrow> bool \<Rightarrow> 64 word \<Rightarrow> 64 word" where
  "dir_update c ghr shamt taken folded =
     (if histLen c \<le> shamt then (if taken then 1 else 0)
      else if histLen c \<le> foldedLen c then
        (let t = push_bit shamt folded AND mask (histLen c) in if taken then t OR 1 else t)
      else
        (let t = copy_back c shamt (push_bit shamt (xor_highest c ghr shamt folded));
             t = (if taken then t XOR 1 else t)
         in t AND mask (foldedLen c)))"

definition imli_count :: "folded_cfg \<Rightarrow> bool \<Rightarrow> 64 word \<Rightarrow> 64 word" where
  "imli_count c taken folded =
     (let t = (if taken then (if folded < mask (histLen c) then folded + 1 else folded) else 0)
      in t AND mask (foldedLen c))"

text \<open>\<open>None\<close> is the failed assertion on the lengths.\<close>

definition imli_update :: "folded_cfg \<Rightarrow> bool \<Rightarrow> 64 word \<Rightarrow> 64 word option" where
  "imli_update c taken folded =
     (if histLen c \<le> foldedLen c then Some (imli_count c taken folded) else None)"

function foldHash_loop :: "nat \<Rightarrow> int \<Rightarrow> 64 word \<Rightarrow> 64 word \<Rightarrow> 64 word" where
  "foldHash_loop len bitsLeft hash foldedHash =
     (if len = 0 \<or> bitsLeft \<le> 0 then foldedHash
      else foldHash_loop len (bitsLeft - int len) (drop_bit len hash) (foldedHash XOR hash))"
  by pat_completeness auto
termination
  by (relation "measure (\<lambda>(len, bitsLeft, hash, foldedHash). nat bitsLeft)") auto

declare foldHash_loop.simps [simp del]

definition foldHash :: "64 word \<Rightarrow> nat \<Rightarrow> 64 word" where
  "foldHash hash len = foldHash_loop len (int pathHashLength) hash 0"

text \<open>\<open>None\<close> is a failed assertion on the shift amount.\<close>

definition path_update ::
  "folded_cfg \<Rightarrow> bitset \<Rightarrow> nat \<Rightarrow> bool \<Rightarrow> addr \<Rightarrow> addr \<Rightarrow> 64 word \<Rightarrow> 64 word option" where
  "path_update c ghr shamt taken pc target folded =
     (if \<not> taken then Some folded
      else let hash = pathHash pc target in
      if \<not> (shamt \<le> foldedLen c \<and> shamt \<le> histLen c) then None
      else if histLen c \<le> foldedLen c then
        Some ((push_bit shamt folded XOR hash) AND mask (histLen c))
      else if \<not> shamt \<le> maxShamt c then None
      else
        (let t = copy_back c shamt (push_bit shamt (xor_highest c ghr shamt folded));
             eff = (if histLen c < pathHashLength then hash AND mask (histLen c) else hash)
         in Some ((t XOR foldHash eff (foldedLen c)) AND mask (foldedLen c))))"

definition recover :: "folded_cfg \<times> 64 word \<Rightarrow> folded_cfg \<times> 64 word \<Rightarrow> (folded_cfg \<times> 64 word) option" where
  "recover this other =
     (if foldedLen (fst this) = foldedLen (fst other) \<and> maxShamt (fst this) = maxShamt (fst other) \<and>
         histLen (fst this) = histLen (fst other)
      then Some (fst this, snd other) else None)"

section \<open>Parity of a range of bits\<close>

fun xsum :: "(nat \<Rightarrow> bool) \<Rightarrow> nat \<Rightarrow> bool" where
  "xsum f 0 = False"
| "xsum f (Suc n) = (xsum f n \<noteq> f n)"

lemma xsum_cong: "(\<And>i. i < n \<Longrightarrow> f i = g i) \<Longrightarrow> xsum f n = xsum g n"
  by (induction n) auto

lemma xsum_False [simp]: "xsum (\<lambda>_. False) n = False"
  by (induction n) auto

lemma xsum_add: "xsum f (a + b) = (xsum f a \<noteq> xsum (\<lambda>i. f (a + i)) b)"
  by (induction b) auto

lemma xsum_xor: "xsum (\<lambda>i. f i \<noteq> g i) n = (xsum f n \<noteq> xsum g n)"
  by (induction n) auto

lemma xsum_single: "xsum (\<lambda>i. i = j \<and> f i) n = (j < n \<and> f j)"
  by (induction n) (auto simp: less_Suc_eq)

text \<open>The specification: bit \<open>j\<close> of the fold is the parity of the history bits whose
  position is \<open>j\<close> modulo the folded length.\<close>

definition fbit :: "nat \<Rightarrow> nat \<Rightarrow> (nat \<Rightarrow> bool) \<Rightarrow> nat \<Rightarrow> bool" where
  "fbit F n g j = xsum (\<lambda>p. p mod F = j \<and> g p) n"

lemma fbit_cong: "(\<And>p. p < n \<Longrightarrow> g p = h p) \<Longrightarrow> fbit F n g j = fbit F n h j"
  unfolding fbit_def by (rule xsum_cong) auto

lemma fbit_small: "n \<le> F \<Longrightarrow> fbit F n g j = (j < n \<and> g j)"
proof -
  assume n: "n \<le> F"
  have "fbit F n g j = xsum (\<lambda>p. p = j \<and> g p) n"
    unfolding fbit_def using n by (intro xsum_cong) auto
  then show ?thesis by (simp add: xsum_single)
qed

lemma fbit_xor: "fbit F n (\<lambda>p. g p \<noteq> h p) j = (fbit F n g j \<noteq> fbit F n h j)"
proof -
  have "fbit F n (\<lambda>p. g p \<noteq> h p) j = xsum (\<lambda>p. (p mod F = j \<and> g p) \<noteq> (p mod F = j \<and> h p)) n"
    unfolding fbit_def by (rule xsum_cong) auto
  then show ?thesis unfolding xsum_xor by (simp only: fbit_def)
qed

text \<open>Prepending \<open>sh\<close> zero bits rotates the folded bits by \<open>sh\<close>.\<close>

lemma fbit_shift:
  assumes "sh \<le> n" and "sh \<le> F" and "j < F"
  shows "fbit F n (\<lambda>p. sh \<le> p \<and> g (p - sh)) j =
    fbit F (n - sh) g (if j < sh then F + j - sh else j - sh)"
proof -
  let ?k = "if j < sh then F + j - sh else j - sh"
  have "fbit F n (\<lambda>p. sh \<le> p \<and> g (p - sh)) j =
      (xsum (\<lambda>p. p mod F = j \<and> sh \<le> p \<and> g (p - sh)) sh \<noteq>
       xsum (\<lambda>i. (sh + i) mod F = j \<and> g i) (n - sh))"
    using assms(1) xsum_add [of _ sh "n - sh"] by (simp add: fbit_def)
  also have "xsum (\<lambda>p. p mod F = j \<and> sh \<le> p \<and> g (p - sh)) sh = False"
    by (subst xsum_cong [where g = "\<lambda>_. False"]) auto
  also have "xsum (\<lambda>i. (sh + i) mod F = j \<and> g i) (n - sh) = fbit F (n - sh) g ?k"
  proof -
    have "(sh + i) mod F = j \<longleftrightarrow> i mod F = ?k" for i
    proof -
      define x where "x = i mod F"
      have lt: "x < F"
        using assms(3) by (simp add: x_def)
      have "(sh + i) mod F = (sh + x) mod F"
        by (simp add: x_def mod_add_right_eq)
      also have "\<dots> = (if sh + x < F then sh + x else sh + x - F)"
      proof (cases "sh + x < F")
        case False
        have "sh + x - F < F"
          using assms(2) lt by linarith
        with False show ?thesis by (simp add: le_mod_geq)
      qed simp
      finally show ?thesis
        using assms(2,3) lt by (auto simp flip: x_def)
    qed
    then show ?thesis by (simp add: fbit_def)
  qed
  finally show ?thesis by simp
qed

section \<open>Bits of the model's words\<close>

lemma bit_bit_shl [simp]: "n < 64 \<Longrightarrow> bit (bit_shl b n) j = (b \<and> j = n)"
  by (auto simp: bit_shl_def bit_simps)

lemma bit_fold_chunk: "n \<le> 64 \<Longrightarrow> bit (fold_chunk g s n) j = (j < n \<and> bs_get g (s + j))"
  by (induction n) (auto simp: bit_or_iff less_Suc_eq)

lemma bit_fold_loop:
  assumes "0 < foldedLen c" and "foldedLen c \<le> 64" and "j < foldedLen c"
    and "start mod foldedLen c = 0"
  shows "bit (fold_loop c g start acc) j =
    (bit acc j \<noteq> fbit (foldedLen c) (histLen c - start) (\<lambda>i. bs_get g (start + i)) j)"
  using assms
proof (induction c g start acc rule: fold_loop.induct)
  case (1 c g start acc)
  let ?F = "foldedLen c" and ?H = "histLen c"
  show ?case
  proof (cases "?H \<le> start")
    case True
    then show ?thesis by (simp add: fold_loop.simps fbit_def)
  next
    case False
    let ?n = "min ?F (?H - start)"
    have split: "?H - start = ?n + (?H - (start + ?F))"
      by auto
    have "fbit ?F (?H - start) (\<lambda>i. bs_get g (start + i)) j =
        (fbit ?F ?n (\<lambda>i. bs_get g (start + i)) j \<noteq>
         fbit ?F (?H - (start + ?F)) (\<lambda>i. bs_get g (start + ?F + i)) j)"
    proof (cases "?F \<le> ?H - start")
      case True
      then show ?thesis
        unfolding fbit_def by (subst split, subst xsum_add) (simp add: add.assoc min_def)
    next
      case f: False
      then have "?H - (start + ?F) = 0"
        by auto
      with f show ?thesis by (simp add: fbit_def min_def)
    qed
    moreover have "bit (fold_chunk g start ?n) j = fbit ?F ?n (\<lambda>i. bs_get g (start + i)) j"
      using 1(3) by (simp add: bit_fold_chunk fbit_small)
    moreover have "bit (fold_loop c g (start + ?F) (acc XOR fold_chunk g start ?n)) j =
        (bit (acc XOR fold_chunk g start ?n) j \<noteq>
         fbit ?F (?H - (start + ?F)) (\<lambda>i. bs_get g (start + ?F + i)) j)"
      using 1 False by simp
    ultimately show ?thesis
      unfolding fold_loop.simps [of c g start] using 1(2) False by (simp add: bit_xor_iff) argo
  qed
qed

lemma bit_fold_hist:
  assumes "0 < foldedLen c" and "foldedLen c \<le> 64"
  shows "bit (fold_hist c g) j \<longleftrightarrow> j < foldedLen c \<and> fbit (foldedLen c) (histLen c) (bs_get g) j"
  using assms bit_fold_loop [of c j 0 g 0]
  by (auto simp: fold_hist_def bit_and_iff bit_mask_iff)

lemma bit_xor_highest:
  assumes "0 < foldedLen c" and "foldedLen c \<le> 64" and "n \<le> histLen c"
    and "\<And>j. bit t j = (j < foldedLen c \<and> fbit (foldedLen c) (histLen c) (bs_get g) j)"
  shows "bit (xor_highest c g n t) j =
    (j < foldedLen c \<and> fbit (foldedLen c) (histLen c - n) (bs_get g) j)"
  using assms(3)
proof (induction n)
  case 0
  then show ?case using assms(4) by simp
next
  case (Suc n)
  let ?F = "foldedLen c" and ?p = "histLen c - 1 - n"
  have "histLen c - n = Suc ?p"
    using Suc.prems by simp
  then have "fbit ?F (histLen c - n) (bs_get g) j =
      (fbit ?F ?p (bs_get g) j \<noteq> (?p mod ?F = j \<and> bs_get g ?p))"
    by (simp add: fbit_def)
  moreover have "?p mod ?F < ?F" "?p mod ?F < 64"
    using assms(1,2) mod_less_divisor [OF assms(1), of ?p] by linarith+
  ultimately show ?case
    using Suc by (auto simp: bit_xor_iff posHighestBitsInGhr_def posHighestBitsInOldFoldedHist_def)
qed

lemma bit_copy_back:
  assumes "n \<le> sh" and "sh \<le> foldedLen c" and "foldedLen c + sh < 64"
    and "\<And>j. j < sh \<Longrightarrow> \<not> bit t j"
  shows "bit (copy_back c n t) j = (if j < n then bit t (foldedLen c + j) else bit t j)"
  using assms(1)
proof (induction n arbitrary: j)
  case 0
  then show ?case by simp
next
  case (Suc n)
  have ih: "bit (copy_back c n t) j = (if j < n then bit t (foldedLen c + j) else bit t j)" for j
    using Suc by simp
  have one: "bit (push_bit n (drop_bit (foldedLen c + n) t' AND 1)) j =
      (j = n \<and> bit t' (foldedLen c + n))" if "n < 64" for t' :: "64 word" and j
    using that by (auto simp: bit_simps)
  have n: "n < 64" "\<not> bit t n"
    using Suc.prems assms(2-4) by auto
  have "bit (copy_back c (Suc n) t) j =
      (bit (copy_back c n t) j \<or> j = n \<and> bit (copy_back c n t) (foldedLen c + n))"
    unfolding copy_back.simps Let_def bit_or_iff one [OF n(1)] ..
  then show ?case
    using n(2) by (auto simp: ih less_Suc_eq)
qed

lemma bs_get_shl: "p < length h \<Longrightarrow> bs_get (bs_shl n h) p = (n \<le> p \<and> bs_get h (p - n))"
  by (auto simp: bs_get_def bs_shl_def nth_append)

lemma bs_get_upd: "bs_get (h[i := b]) p = (if p = i \<and> i < length h then b else bs_get h p)"
  by (auto simp: bs_get_def)

lemma length_hist [simp]:
  "length (bs_shl n h) = length h" "length (histShiftIn n b h) = length h"
  by (auto simp: bs_shl_def histShiftIn_def)

text \<open>The common core of both updates: drop the oldest bits, rotate, and the fold is that of
  the shifted history.\<close>

lemma rotate_fold:
  assumes F: "0 < foldedLen c" "sh \<le> foldedLen c" "foldedLen c + sh < 64"
    and H: "sh \<le> histLen c" "histLen c \<le> length g" and j: "j < foldedLen c"
  shows "bit (copy_back c sh (push_bit sh (xor_highest c g sh (fold_hist c g)))) j =
    fbit (foldedLen c) (histLen c) (bs_get (bs_shl sh g)) j"
proof -
  let ?F = "foldedLen c" and ?t = "xor_highest c g sh (fold_hist c g)"
  have t: "bit ?t j = (j < ?F \<and> fbit ?F (histLen c - sh) (bs_get g) j)" for j
    using F H by (intro bit_xor_highest) (simp_all add: bit_fold_hist)
  have p: "bit (push_bit sh ?t) i = (sh \<le> i \<and> bit ?t (i - sh))" if "i < 64" for i
    using that by (simp add: bit_simps)
  have low: "\<not> bit (push_bit sh ?t) i" if "i < sh" for i
    using that by (simp add: bit_simps)
  have "bit (copy_back c sh (push_bit sh ?t)) j =
      bit ?t (if j < sh then ?F + j - sh else j - sh)"
    using F j p bit_copy_back [OF order_refl F(2,3) low, of j] by auto
  also have "\<dots> = fbit ?F (histLen c - sh) (bs_get g) (if j < sh then ?F + j - sh else j - sh)"
    unfolding t using F(2) j by auto
  also have "\<dots> = fbit ?F (histLen c) (\<lambda>p. sh \<le> p \<and> bs_get g (p - sh)) j"
    using fbit_shift [OF H(1) F(2) j] by simp
  also have "\<dots> = fbit ?F (histLen c) (bs_get (bs_shl sh g)) j"
    using H(2) by (intro fbit_cong) (simp add: bs_get_shl)
  finally show ?thesis .
qed

section \<open>Direction histories\<close>

text \<open>A configuration and shift amount for which the update is meant: the newest bit is in
  range of the register, one update shifts at most \<open>foldedLen\<close> bits, and the shifted
  \<open>bool\<close> (an \<open>int\<close> in C++) does not overflow.\<close>

definition folded_step_ok :: "folded_cfg \<Rightarrow> bitset \<Rightarrow> nat \<Rightarrow> bool" where
  "folded_step_ok c g sh \<longleftrightarrow>
     folded_cfg_ok c \<and> 0 < foldedLen c \<and> foldedLen c < 32 \<and> 0 < histLen c \<and>
     histLen c \<le> length g \<and> sh \<le> foldedLen c \<and> sh \<le> maxShamt c"

lemma folded_step_ok_len: "folded_step_ok c g sh \<Longrightarrow> foldedLen c + sh < 64"
  by (auto simp: folded_step_ok_def folded_cfg_ok_def)

lemma fbit_newest: "0 < F \<Longrightarrow> fbit F n (\<lambda>p. p = 0 \<and> b) j = (0 < n \<and> j = 0 \<and> b)"
proof -
  assume "0 < F"
  have "fbit F n (\<lambda>p. p = 0 \<and> b) j = xsum (\<lambda>p. p = 0 \<and> (j = 0 \<and> b)) n"
    unfolding fbit_def by (rule xsum_cong) auto
  then show ?thesis by (simp add: xsum_single)
qed

lemma bs_get_histShiftIn:
  "0 < sh \<Longrightarrow> p < length g \<Longrightarrow>
   bs_get (histShiftIn sh taken g) p = (bs_get (bs_shl sh g) p \<noteq> (p = 0 \<and> taken))"
  by (cases g) (simp_all add: histShiftIn_def bs_get_upd bs_get_shl)

lemma fbit_histShiftIn:
  assumes "0 < sh" and "n \<le> length g" and "0 < F" and "0 < n"
  shows "fbit F n (bs_get (histShiftIn sh taken g)) j =
    (fbit F n (bs_get (bs_shl sh g)) j \<noteq> (j = 0 \<and> taken))"
proof -
  have "fbit F n (bs_get (histShiftIn sh taken g)) j =
      fbit F n (\<lambda>p. bs_get (bs_shl sh g) p \<noteq> (p = 0 \<and> taken)) j"
    using assms by (intro fbit_cong) (simp add: bs_get_histShiftIn)
  then show ?thesis
    unfolding fbit_xor fbit_newest [OF assms(3)] using assms(4) by simp
qed

lemma dir_update_fold:
  assumes ok: "folded_step_ok c g sh" and "0 < sh"
  shows "dir_update c g sh taken (fold_hist c g) = fold_hist c (histShiftIn sh taken g)"
proof (rule bit_eqI)
  fix j
  let ?F = "foldedLen c" and ?H = "histLen c"
  have F: "0 < ?F" "?F \<le> 64" "sh \<le> ?F" "?F + sh < 64" "0 < ?H" "?H \<le> length g"
    using ok folded_step_ok_len [OF ok] by (auto simp: folded_step_ok_def)
  have rhs: "bit (fold_hist c (histShiftIn sh taken g)) j =
      (j < ?F \<and> (fbit ?F ?H (bs_get (bs_shl sh g)) j \<noteq> (j = 0 \<and> taken)))"
    using F assms(2) by (simp add: bit_fold_hist fbit_histShiftIn)
  consider "?H \<le> sh" | "sh < ?H" "?H \<le> ?F" | "sh < ?H" "?F < ?H"
    by linarith
  then show "bit (dir_update c g sh taken (fold_hist c g)) j =
      bit (fold_hist c (histShiftIn sh taken g)) j"
  proof cases
    case 1
    have "fbit ?F ?H (bs_get (bs_shl sh g)) j = fbit ?F ?H (\<lambda>_. False) j"
      using 1 F(6) by (intro fbit_cong) (simp add: bs_get_shl)
    then have "\<not> fbit ?F ?H (bs_get (bs_shl sh g)) j"
      by (simp add: fbit_def)
    then show ?thesis
      unfolding rhs using 1 F(1) by (auto simp: dir_update_def bit_simps)
  next
    case 2
    have shl: "fbit ?F ?H (bs_get (bs_shl sh g)) j = (j < ?H \<and> sh \<le> j \<and> bs_get g (j - sh))"
      using 2 F(6) by (auto simp: fbit_small bs_get_shl)
    have old: "bit (fold_hist c g) (j - sh) = (j - sh < ?H \<and> bs_get g (j - sh))"
      using 2 F by (auto simp: bit_fold_hist fbit_small)
    have "bit (dir_update c g sh taken (fold_hist c g)) j =
        ((j < ?H \<and> sh \<le> j \<and> bit (fold_hist c g) (j - sh)) \<or> (j = 0 \<and> taken))"
      using 2 F(4) by (auto simp: dir_update_def Let_def bit_or_iff bit_and_iff bit_mask_iff
          bit_push_bit_iff bit_1_iff)
    then show ?thesis
      unfolding rhs shl old using 2 assms(2) F(1) by auto
  next
    case 3
    then have "sh \<le> ?H" by simp
    note rot = rotate_fold [OF F(1,3,4) this F(6), of j]
    show ?thesis
      unfolding rhs using 3 F(4) rot by (auto simp: dir_update_def Let_def bit_and_iff bit_mask_iff
          bit_xor_iff bit_1_iff)
  qed
qed

section \<open>Path histories\<close>

lemma bs_get_xor_hash:
  "bs_get (xor_hash n hash h) p = (bs_get h p \<noteq> (p < n \<and> p < length h \<and> bit hash p))"
proof (induction n hash h arbitrary: p rule: xor_hash.induct)
  case (3 n hash b bs)
  show ?case
  proof (cases p)
    case 0
    then show ?thesis by (auto simp: bs_get_def)
  next
    case (Suc q)
    have "bs_get (xor_hash (Suc n) hash (b # bs)) p = bs_get (xor_hash n (drop_bit 1 hash) bs) q"
      "bs_get (b # bs) p = bs_get bs q"
      by (simp_all add: Suc bs_get_def)
    moreover have "bit (drop_bit 1 hash) q = bit hash p"
      by (simp add: Suc bit_drop_bit_eq)
    ultimately show ?thesis
      using 3 [of q] by (simp add: Suc)
  qed
qed (auto simp: bs_get_def)

lemma length_xor_hash [simp]: "length (xor_hash n hash h) = length h"
  by (induction n hash h rule: xor_hash.induct) auto

lemma fbit_split: "fbit F (F + n) g j = (fbit F F g j \<noteq> fbit F n (\<lambda>i. g (F + i)) j)"
  unfolding fbit_def by (subst xsum_add) simp

lemma fbit_trunc:
  assumes "n \<le> m" and "\<And>p. n \<le> p \<Longrightarrow> \<not> g p"
  shows "fbit F m g j = fbit F n g j"
proof -
  have "fbit F m g j = (fbit F n g j \<noteq> xsum (\<lambda>i. (n + i) mod F = j \<and> g (n + i)) (m - n))"
    using assms(1) xsum_add [of _ n "m - n"] by (simp add: fbit_def)
  also have "xsum (\<lambda>i. (n + i) mod F = j \<and> g (n + i)) (m - n) = False"
    using assms(2) by (subst xsum_cong [where g = "\<lambda>_. False"]) auto
  finally show ?thesis by simp
qed

lemma bit_foldHash_loop:
  assumes "j < len" and "\<And>i. n \<le> i \<Longrightarrow> \<not> bit hash i"
  shows "bit (foldHash_loop len (int n) hash acc) j = (bit acc j \<noteq> fbit len n (bit hash) j)"
  using assms(2)
proof (induction n arbitrary: hash acc rule: less_induct)
  case (less n)
  show ?case
  proof (cases "n = 0")
    case True
    then show ?thesis by (simp add: foldHash_loop.simps fbit_def)
  next
    case False
    show ?thesis
    proof (cases "n \<le> len")
      case True
      then have "fbit len n (bit hash) j = bit hash j"
        using less.prems [of j] by (cases "j < n") (auto simp: fbit_small)
      then show ?thesis
        using False True assms(1)
        by (simp add: foldHash_loop.simps [of len "int n"] foldHash_loop.simps [of len "int n - int len"]
            bit_xor_iff)
    next
      case n: False
      have hi: "\<And>i. n - len \<le> i \<Longrightarrow> \<not> bit (drop_bit len hash) i"
        using less.prems by (simp add: bit_drop_bit_eq)
      have "bit (foldHash_loop len (int n) hash acc) j =
          bit (foldHash_loop len (int (n - len)) (drop_bit len hash) (acc XOR hash)) j"
        using n False assms(1) by (simp add: foldHash_loop.simps [of len "int n"] of_nat_diff)
      also have "\<dots> = (bit (acc XOR hash) j \<noteq> fbit len (n - len) (bit (drop_bit len hash)) j)"
        using n assms(1) False by (intro less.IH hi) auto
      also have "fbit len (n - len) (bit (drop_bit len hash)) j =
          (fbit len n (bit hash) j \<noteq> bit hash j)"
        using fbit_split [of len "n - len" "bit hash" j] n assms(1)
        by (simp add: bit_drop_bit_eq fbit_small comp_def) argo
      finally show ?thesis by (simp add: bit_xor_iff) argo
    qed
  qed
qed

lemma bit_pathHash_high: "15 \<le> i \<Longrightarrow> \<not> bit (pathHash pc target) i"
  by (simp add: pathHash_def pathHashLength_def bit_and_iff bit_mask_iff)

lemma bit_foldHash:
  assumes "j < len" and "\<And>i. 15 \<le> i \<Longrightarrow> \<not> bit hash i"
  shows "bit (foldHash hash len) j = fbit len 15 (bit hash) j"
  using bit_foldHash_loop [of j len 15 hash 0] assms by (simp add: foldHash_def pathHashLength_def)

lemma fbit_pHistShiftIn:
  assumes "0 < sh" and "n \<le> length g"
  shows "fbit F n (bs_get (pHistShiftIn sh True g pc target)) j =
    (fbit F n (bs_get (bs_shl sh g)) j \<noteq>
     fbit F n (\<lambda>p. p < 15 \<and> bit (pathHash pc target) p) j)"
proof -
  have "fbit F n (bs_get (pHistShiftIn sh True g pc target)) j =
      fbit F n (\<lambda>p. bs_get (bs_shl sh g) p \<noteq> (p < 15 \<and> bit (pathHash pc target) p)) j"
    using assms
    by (intro fbit_cong) (simp add: pHistShiftIn_def pathHashLength_def bs_get_xor_hash)
  then show ?thesis by (simp only: fbit_xor)
qed

text \<open>The folded hash of a taken branch is the fold of the hash bits within the history.\<close>

lemma fbit_effective_hash:
  assumes "j < F"
  shows "bit (foldHash (if H < 15 then pathHash pc target AND mask H else pathHash pc target) F) j =
    fbit F H (\<lambda>p. p < 15 \<and> bit (pathHash pc target) p) j"
proof (cases "H < 15")
  case True
  let ?h = "pathHash pc target AND mask H"
  have "bit (foldHash ?h F) j = fbit F 15 (bit ?h) j"
    using assms by (intro bit_foldHash) (simp_all add: bit_and_iff bit_pathHash_high)
  also have "\<dots> = fbit F H (bit ?h) j"
    using True by (intro fbit_trunc) (auto simp: bit_and_iff bit_mask_iff)
  also have "\<dots> = fbit F H (\<lambda>p. p < 15 \<and> bit (pathHash pc target) p) j"
    using True by (intro fbit_cong) (auto simp: bit_and_iff bit_mask_iff)
  finally show ?thesis using True by simp
next
  case False
  have "bit (foldHash (pathHash pc target) F) j = fbit F 15 (bit (pathHash pc target)) j"
    using assms by (intro bit_foldHash) (simp_all add: bit_pathHash_high)
  also have "\<dots> = fbit F 15 (\<lambda>p. p < 15 \<and> bit (pathHash pc target) p) j"
    by (intro fbit_cong) simp
  also have "\<dots> = fbit F H (\<lambda>p. p < 15 \<and> bit (pathHash pc target) p) j"
    using False by (intro fbit_trunc [symmetric]) auto
  finally show ?thesis using False by simp
qed

lemma path_update_fold:
  assumes ok: "folded_step_ok c g sh" and "0 < sh" and "sh \<le> histLen c"
  shows "path_update c g sh taken pc target (fold_hist c g) =
    Some (fold_hist c (pHistShiftIn sh taken g pc target))"
proof (cases taken)
  case False
  then show ?thesis by (simp add: path_update_def pHistShiftIn_def)
next
  case True
  let ?F = "foldedLen c" and ?H = "histLen c" and ?h = "pathHash pc target"
  have F: "0 < ?F" "?F \<le> 64" "sh \<le> ?F" "?F + sh < 64" "?H \<le> length g" "sh \<le> maxShamt c"
    using ok folded_step_ok_len [OF ok] by (auto simp: folded_step_ok_def)
  have rhs: "bit (fold_hist c (pHistShiftIn sh taken g pc target)) j = (j < ?F \<and>
      (fbit ?F ?H (bs_get (bs_shl sh g)) j \<noteq> fbit ?F ?H (\<lambda>p. p < 15 \<and> bit ?h p) j))" for j
    using F True assms(2) by (simp add: bit_fold_hist fbit_pHistShiftIn)
  show ?thesis
  proof (cases "?H \<le> ?F")
    case le: True
    have "(push_bit sh (fold_hist c g) XOR ?h) AND mask ?H =
        fold_hist c (pHistShiftIn sh taken g pc target)"
    proof (rule bit_eqI)
      fix j
      have shl: "fbit ?F ?H (bs_get (bs_shl sh g)) j = (j < ?H \<and> sh \<le> j \<and> bs_get g (j - sh))"
        using le F(5) by (auto simp: fbit_small bs_get_shl)
      have old: "bit (fold_hist c g) (j - sh) = (j - sh < ?H \<and> bs_get g (j - sh))"
        using le F by (auto simp: bit_fold_hist fbit_small)
      have hash: "fbit ?F ?H (\<lambda>p. p < 15 \<and> bit ?h p) j = (j < ?H \<and> bit ?h j)"
        using le bit_pathHash_high [of j] by (cases "j < 15") (auto simp: fbit_small)
      have "bit ((push_bit sh (fold_hist c g) XOR ?h) AND mask ?H) j =
          (j < ?H \<and> ((sh \<le> j \<and> bit (fold_hist c g) (j - sh)) \<noteq> bit ?h j))"
        using le F(4) by (auto simp: bit_and_iff bit_xor_iff bit_mask_iff bit_push_bit_iff)
      then show "bit ((push_bit sh (fold_hist c g) XOR ?h) AND mask ?H) j =
          bit (fold_hist c (pHistShiftIn sh taken g pc target)) j"
        unfolding rhs shl old hash using le by auto
    qed
    then show ?thesis
      using le True F(3) assms(3) by (simp add: path_update_def Let_def)
  next
    case gt: False
    let ?t = "copy_back c sh (push_bit sh (xor_highest c g sh (fold_hist c g)))"
    let ?e = "if ?H < pathHashLength then ?h AND mask ?H else ?h"
    have "(?t XOR foldHash ?e ?F) AND mask ?F = fold_hist c (pHistShiftIn sh taken g pc target)"
    proof (rule bit_eqI)
      fix j
      show "bit ((?t XOR foldHash ?e ?F) AND mask ?F) j =
          bit (fold_hist c (pHistShiftIn sh taken g pc target)) j"
      proof (cases "j < ?F")
        case True
        then show ?thesis
          unfolding rhs using rotate_fold [OF F(1,3,4) assms(3) F(5) True]
            fbit_effective_hash [OF True, of ?H pc target] F(4)
          by (simp add: bit_and_iff bit_xor_iff bit_mask_iff pathHashLength_def)
      next
        case False
        then show ?thesis unfolding rhs by (simp add: bit_and_iff bit_mask_iff)
      qed
    qed
    then show ?thesis
      using gt True F assms(3) by (simp add: path_update_def Let_def)
  qed
qed

section \<open>Predictions and squashes\<close>

text \<open>
  A predictor keeps a folded copy of a history register. Each prediction saves both and
  applies the predicted event to both; a squash restores both from the saved pair and
  applies the resolved event. The contract of the incremental update is one law; the client
  facts follow for every interleaving.
\<close>

datatype 'e bp_action = Predict 'e | Squash nat 'e

definition apply_event ::
  "('e \<Rightarrow> 'h \<Rightarrow> 'h) \<Rightarrow> ('e \<Rightarrow> 'h \<Rightarrow> 'f \<Rightarrow> 'f option) \<Rightarrow> 'e \<Rightarrow> 'h \<times> 'f \<Rightarrow> ('h \<times> 'f) option" where
  "apply_event hist_upd fold_upd e hf =
     map_option (\<lambda>f. (hist_upd e (fst hf), f)) (fold_upd e (fst hf) (snd hf))"

fun bp_run ::
  "('e \<Rightarrow> 'h \<Rightarrow> 'h) \<Rightarrow> ('e \<Rightarrow> 'h \<Rightarrow> 'f \<Rightarrow> 'f option) \<Rightarrow> 'e bp_action list \<Rightarrow> 'h \<times> 'f
     \<Rightarrow> ('h \<times> 'f) list \<Rightarrow> (('h \<times> 'f) \<times> ('h \<times> 'f) list) option" where
  "bp_run hist_upd fold_upd [] cur saved = Some (cur, saved)"
| "bp_run hist_upd fold_upd (Predict e # es) cur saved =
     (case apply_event hist_upd fold_upd e cur of
        None \<Rightarrow> None | Some cur' \<Rightarrow> bp_run hist_upd fold_upd es cur' (cur # saved))"
| "bp_run hist_upd fold_upd (Squash k e # es) cur saved =
     (if k < length saved then
        (case apply_event hist_upd fold_upd e (saved ! k) of
           None \<Rightarrow> None | Some cur' \<Rightarrow> bp_run hist_upd fold_upd es cur' (drop k saved))
      else None)"

fun action_event :: "'e bp_action \<Rightarrow> 'e" where
  "action_event (Predict e) = e"
| "action_event (Squash k e) = e"

text \<open>A squash must name a saved entry: the number of entries after each action is known.\<close>

fun squashes_ok :: "'e bp_action list \<Rightarrow> nat \<Rightarrow> bool" where
  "squashes_ok [] n \<longleftrightarrow> True"
| "squashes_ok (Predict e # es) n \<longleftrightarrow> squashes_ok es (Suc n)"
| "squashes_ok (Squash k e # es) n \<longleftrightarrow> k < n \<and> squashes_ok es (n - k)"

locale folded_history =
  fixes hist_upd :: "'e \<Rightarrow> 'h \<Rightarrow> 'h"
    and fold_upd :: "'c \<Rightarrow> 'e \<Rightarrow> 'h \<Rightarrow> 'f \<Rightarrow> 'f option"
    and fold_of :: "'c \<Rightarrow> 'h \<Rightarrow> 'f"
    and legal :: "'c \<Rightarrow> 'h \<Rightarrow> 'e \<Rightarrow> bool"
  assumes step: "legal c h e \<Longrightarrow> fold_upd c e h (fold_of c h) = Some (fold_of c (hist_upd e h))"
    and legal_upd: "legal c h e' \<Longrightarrow> legal c (hist_upd e h) e'"
begin

definition good :: "'c \<Rightarrow> 'e bp_action list \<Rightarrow> 'h \<times> 'f \<Rightarrow> bool" where
  "good c es hf \<longleftrightarrow>
     snd hf = fold_of c (fst hf) \<and> (\<forall>a\<in>set es. legal c (fst hf) (action_event a))"

lemma good_apply:
  assumes "good c (a # es) hf"
  shows "\<exists>hf'. apply_event hist_upd (fold_upd c) (action_event a) hf = Some hf' \<and> good c es hf'"
  using assms by (auto simp: good_def apply_event_def step legal_upd)

lemma good_tl: "good c (a # es) hf \<Longrightarrow> good c es hf"
  by (simp add: good_def)

lemma run_good:
  assumes "good c es cur" and "\<forall>hf\<in>set saved. good c es hf" and "squashes_ok es (length saved)"
  shows "\<exists>cur' saved'. bp_run hist_upd (fold_upd c) es cur saved = Some (cur', saved') \<and>
    snd cur' = fold_of c (fst cur') \<and> (\<forall>hf\<in>set saved'. snd hf = fold_of c (fst hf))"
  using assms
proof (induction es "length saved" arbitrary: cur saved rule: squashes_ok.induct)
  case 1
  then show ?case by (simp add: good_def)
next
  case (2 e es)
  obtain hf where hf: "apply_event hist_upd (fold_upd c) e cur = Some hf" "good c es hf"
    using good_apply [OF 2(2)] by auto
  have "\<forall>hf\<in>set (cur # saved). good c es hf"
    using 2(2,3) good_tl by auto
  then show ?case
    using 2(1) [of "cur # saved" hf] hf 2(4) by simp
next
  case (3 k e es)
  have k: "k < length saved"
    using 3(4) by simp
  then have "good c (Squash k e # es) (saved ! k)"
    using 3(3) nth_mem by blast
  then obtain hf where hf: "apply_event hist_upd (fold_upd c) e (saved ! k) = Some hf" "good c es hf"
    using good_apply by fastforce
  have "\<forall>hf\<in>set (drop k saved). good c es hf"
    using 3(3) good_tl in_set_dropD [of _ k saved] by blast
  then show ?case
    using 3(1) [of "drop k saved" hf] hf k 3(4) by simp
qed

end

text \<open>The two kinds of registers that the predictors fold: direction bits shifted in by
  \<open>doUpdateHist\<close> (nothing happens for a shift of 0) and path hashes shifted by two.\<close>

definition dir_hist_upd :: "nat \<times> bool \<Rightarrow> bitset \<Rightarrow> bitset" where
  "dir_hist_upd e h = histShiftIn (fst e) (snd e) h"

definition doUpdateHist :: "folded_cfg \<Rightarrow> nat \<times> bool \<Rightarrow> bitset \<Rightarrow> 64 word \<Rightarrow> 64 word option" where
  "doUpdateHist c e h f = Some (if fst e = 0 then f else dir_update c h (fst e) (snd e) f)"

definition path_hist_upd :: "bool \<times> addr \<times> addr \<Rightarrow> bitset \<Rightarrow> bitset" where
  "path_hist_upd e h = (case e of (taken, pc, target) \<Rightarrow> pHistShiftIn 2 taken h pc target)"

definition path_doUpdateHist ::
  "folded_cfg \<Rightarrow> bool \<times> addr \<times> addr \<Rightarrow> bitset \<Rightarrow> 64 word \<Rightarrow> 64 word option" where
  "path_doUpdateHist c e h f = (case e of (taken, pc, target) \<Rightarrow> path_update c h 2 taken pc target f)"

definition path_legal :: "folded_cfg \<Rightarrow> bitset \<Rightarrow> bool \<times> addr \<times> addr \<Rightarrow> bool" where
  "path_legal c h e \<longleftrightarrow> folded_step_ok c h 2 \<and> 2 \<le> histLen c"

lemma length_pHistShiftIn [simp]: "length (pHistShiftIn sh taken h pc target) = length h"
  by (simp add: pHistShiftIn_def)

interpretation dirh: folded_history dir_hist_upd doUpdateHist fold_hist
  "\<lambda>c h e. folded_step_ok c h (fst e)"
proof unfold_locales
  fix c h and e :: "nat \<times> bool"
  assume ok: "folded_step_ok c h (fst e)"
  show "doUpdateHist c e h (fold_hist c h) = Some (fold_hist c (dir_hist_upd e h))"
    using dir_update_fold [OF ok]
    by (cases "fst e = 0") (simp_all add: doUpdateHist_def dir_hist_upd_def histShiftIn_def)
next
  fix c h and e e' :: "nat \<times> bool"
  assume "folded_step_ok c h (fst e')"
  then show "folded_step_ok c (dir_hist_upd e h) (fst e')"
    by (simp add: dir_hist_upd_def folded_step_ok_def)
qed

interpretation pathh: folded_history path_hist_upd path_doUpdateHist fold_hist path_legal
proof unfold_locales
  fix c h and e :: "bool \<times> addr \<times> addr"
  assume "path_legal c h e"
  then show "path_doUpdateHist c e h (fold_hist c h) = Some (fold_hist c (path_hist_upd e h))"
    using path_update_fold [of c h 2]
    by (cases e) (simp add: path_doUpdateHist_def path_hist_upd_def path_legal_def)
next
  fix c h and e e' :: "bool \<times> addr \<times> addr"
  assume "path_legal c h e'"
  then show "path_legal c (path_hist_upd e h) e'"
    by (cases e) (simp add: path_hist_upd_def path_legal_def folded_step_ok_def)
qed

section \<open>Properties\<close>

definition ex_ghr :: bitset where
  "ex_ghr = [True, False, True, True, False, False, True, False, True, True, True, False]"

definition ex_fcfg :: folded_cfg where
  "ex_fcfg = \<lparr>histLen = 11, foldedLen = 4, maxShamt = 4\<rparr>"

text \<open>
  C26: However predictions and squashes interleave, the folded path history of a predictor
  equals the fold of the path history register, and so does every saved pair a later squash
  may restore; no assertion of the update fails. (A squash names a saved entry.)
\<close>

theorem path_history_consistent:
  assumes "folded_step_ok c h 2" and "2 \<le> histLen c" and "squashes_ok es 0"
  shows "\<exists>cur saved. bp_run path_hist_upd (path_doUpdateHist c) es (h, fold_hist c h) [] = Some (cur, saved) \<and>
    snd cur = fold_hist c (fst cur) \<and> (\<forall>hf\<in>set saved. snd hf = fold_hist c (fst hf))"
  using pathh.run_good [of c es "(h, fold_hist c h)" "[]"] assms
  by (simp add: pathh.good_def path_legal_def)

theorem path_history_consistent_witness:
  "\<exists>cur saved. bp_run path_hist_upd (path_doUpdateHist ex_fcfg)
      [Predict (True, 0x1000, 0x2000), Predict (False, 0x2004, 0), Squash 1 (True, 0x1000, 0x3000)]
      (ex_ghr, fold_hist ex_fcfg ex_ghr) [] = Some (cur, saved) \<and>
    snd cur = fold_hist ex_fcfg (fst cur) \<and> (\<forall>hf\<in>set saved. snd hf = fold_hist ex_fcfg (fst hf))"
  by (rule path_history_consistent)
    (simp_all add: folded_step_ok_def folded_cfg_ok_def ex_fcfg_def ex_ghr_def)

text \<open>
  C27: The same holds for the direction histories (global, backward and local), where every
  event shifts by its own amount.
\<close>

theorem direction_history_consistent:
  assumes "\<forall>a\<in>set es. folded_step_ok c h (fst (action_event a))" and "squashes_ok es 0"
  shows "\<exists>cur saved. bp_run dir_hist_upd (doUpdateHist c) es (h, fold_hist c h) [] = Some (cur, saved) \<and>
    snd cur = fold_hist c (fst cur) \<and> (\<forall>hf\<in>set saved. snd hf = fold_hist c (fst hf))"
  using dirh.run_good [of c es "(h, fold_hist c h)" "[]"] assms
  by (simp add: dirh.good_def)

theorem direction_history_consistent_witness:
  "\<exists>cur saved. bp_run dir_hist_upd (doUpdateHist ex_fcfg)
      [Predict (3, True), Predict (0, False), Squash 1 (1, False), Predict (4, True)]
      (ex_ghr, fold_hist ex_fcfg ex_ghr) [] = Some (cur, saved) \<and>
    snd cur = fold_hist ex_fcfg (fst cur) \<and> (\<forall>hf\<in>set saved. snd hf = fold_hist ex_fcfg (fst hf))"
  by (rule direction_history_consistent)
    (simp_all add: folded_step_ok_def folded_cfg_ok_def ex_fcfg_def ex_ghr_def)

fun imli_run :: "folded_cfg \<Rightarrow> nat \<Rightarrow> 64 word option" where
  "imli_run c 0 = imli_update c False 0"
| "imli_run c (Suc k) = Option.bind (imli_run c k) (imli_update c True)"

lemma imli_count_step:
  assumes "histLen c \<le> foldedLen c" and "foldedLen c < 64" and f: "unat f = min k (2 ^ histLen c - 1)"
  shows "unat (imli_count c True f) = min (Suc k) (2 ^ histLen c - 1)"
proof -
  let ?m = "mask (histLen c) :: 64 word"
  have m: "unat ?m = 2 ^ histLen c - 1"
    using assms by (simp add: unat_mask64)
  have lt: "(2 :: nat) ^ histLen c \<le> 2 ^ foldedLen c" "(2 :: nat) ^ foldedLen c < 2 ^ 64"
    using assms(1,2) by simp (rule power_strict_increasing, use assms(2) in simp_all)
  let ?t = "if f < ?m then f + 1 else f"
  have t: "unat ?t = min (Suc k) (2 ^ histLen c - 1)"
  proof (cases "f < ?m")
    case True
    then have "unat f < unat ?m"
      by (simp add: word_less_nat_alt)
    moreover from this have "unat f + 1 < 2 ^ 64"
      using m lt by linarith
    then have "unat (f + 1) = unat f + 1"
      using unat_add_lem [of f 1] by simp
    ultimately show ?thesis
      using True f m by (simp add: min_def split: if_splits)
  next
    case False
    then have "2 ^ histLen c - 1 \<le> k"
      using f m by (simp add: word_le_nat_alt not_less min_def split: if_splits)
    then show ?thesis
      using False f by (simp add: min_absorb2)
  qed
  have "min (Suc k) (2 ^ histLen c - 1) < (2 ^ histLen c :: nat)"
    by (simp add: min_less_iff_disj)
  then have "unat ?t < 2 ^ foldedLen c"
    unfolding t using lt(1) by linarith
  then show ?thesis
    using t by (simp add: imli_count_def unat_and_mask)
qed

text \<open>
  The IMLI counter saturates: after \<open>k\<close> backward-taken events in a row it is the
  smaller of \<open>k\<close> and the largest value of \<open>histLen\<close> bits, and any other event resets it.
\<close>

lemma imli_saturates:
  assumes "histLen c \<le> foldedLen c" and "foldedLen c < 64"
  shows "(\<exists>f. imli_run c k = Some f \<and> unat f = min k (2 ^ histLen c - 1)) \<and>
    imli_update c False w = Some 0"
proof (induction k)
  case 0
  then show ?case using assms(1) by (simp add: imli_update_def imli_count_def)
next
  case (Suc k)
  then show ?case
    using assms(1) imli_count_step [OF assms] by (auto simp: imli_update_def)
qed

end
