(* ===== verification/RAS.thy ===== *)
theory RAS
  imports Prelude
begin

text \<open>
  The return address stack of the decoupled predictor, \<open>cpu/pred/btb/ras.hh\<close> and
  \<open>ras.cc\<close>: a committed stack with a repetition counter per entry, and a persistent queue
  of in-flight entries linked by \<open>nos\<close> (next on stack), read at \<open>TOSR\<close> and written at
  \<open>TOSW\<close>. All pointers are indices into circular arrays.
\<close>

record ras_data =
  retAddr :: addr
  ras_ctr :: nat

record ras_inflight =
  ri_data :: ras_data
  nos :: nat

record ras_meta =
  m_ssp :: nat
  m_sctr :: nat
  m_TOSR :: nat
  m_TOSW :: nat
  m_target :: addr

record ras =
  numEntries :: nat
  numInflightEntries :: nat
  maxCtr :: nat
  TOSW :: nat
  TOSR :: nat
  BOS :: nat
  ssp :: nat
  nsp :: nat
  sctr :: nat
  ras_stack :: "ras_data list"
  inflightStack :: "ras_inflight list"

text \<open>The branch of a fetch target as far as the stack reads it.\<close>

record ras_branch =
  b_isCall :: bool
  b_isReturn :: bool
  b_pc :: addr
  b_size :: addr

section \<open>Operations\<close>

definition ptrInc :: "nat \<Rightarrow> nat \<Rightarrow> nat" where
  "ptrInc n ptr = (ptr + 1) mod n"

definition ptrDec :: "nat \<Rightarrow> nat \<Rightarrow> nat" where
  "ptrDec n ptr = (if 0 < ptr then ptr - 1 else n - 1)"

definition initRAS :: "nat \<Rightarrow> nat \<Rightarrow> nat \<Rightarrow> ras" where
  "initRAS n ctrWidth nInflight =
     \<lparr>numEntries = n, numInflightEntries = nInflight, maxCtr = 2 ^ ctrWidth - 1,
      TOSW = 0, TOSR = ptrDec nInflight 0, BOS = 0, ssp = 0, nsp = 0, sctr = 0,
      ras_stack = replicate n \<lparr>retAddr = 0x80000000, ras_ctr = 0\<rparr>,
      inflightStack = replicate nInflight
        \<lparr>ri_data = \<lparr>retAddr = 0x80000000, ras_ctr = 0\<rparr>, nos = 0\<rparr>\<rparr>"

definition inflightInRange :: "ras \<Rightarrow> nat \<Rightarrow> bool" where
  "inflightInRange s ptr =
     (if BOS s < TOSW s then BOS s \<le> ptr \<and> ptr < TOSW s
      else if TOSW s < BOS s then ptr < TOSW s \<or> BOS s \<le> ptr
      else False)"

definition getTop :: "ras \<Rightarrow> ras_data" where
  "getTop s = (if inflightInRange s (TOSR s) then ri_data (inflightStack s ! TOSR s)
               else ras_stack s ! ssp s)"

definition getTop_meta :: "ras \<Rightarrow> ras_meta \<times> ras_data" where
  "getTop_meta s =
     (\<lparr>m_ssp = ssp s, m_sctr = sctr s, m_TOSR = TOSR s, m_TOSW = TOSW s,
       m_target = retAddr (getTop s)\<rparr>, getTop s)"

definition push :: "addr \<Rightarrow> ras \<Rightarrow> ras" where
  "push a s =
     (let s1 = (if a = retAddr (getTop s) \<and> sctr s < maxCtr s then s\<lparr>sctr := sctr s + 1\<rparr>
                else s\<lparr>ssp := ptrInc (numEntries s) (ssp s), sctr := 0\<rparr>);
          t = \<lparr>ri_data = \<lparr>retAddr = a, ras_ctr = sctr s1\<rparr>, nos = TOSR s1\<rparr>
      in s1\<lparr>inflightStack := (inflightStack s1)[TOSW s1 := t], TOSR := TOSW s1,
            TOSW := ptrInc (numInflightEntries s1) (TOSW s1)\<rparr>)"

definition pop_ctr :: "ras \<Rightarrow> ras" where
  "pop_ctr s =
     (if 0 < sctr s then s\<lparr>sctr := sctr s - 1\<rparr>
      else let s1 = s\<lparr>ssp := ptrDec (numEntries s) (ssp s)\<rparr>
           in s1\<lparr>sctr := ras_ctr (getTop s1)\<rparr>)"

definition pop :: "ras \<Rightarrow> ras" where
  "pop s =
     (if inflightInRange s (TOSR s)
      then pop_ctr (s\<lparr>TOSR := nos (inflightStack s ! TOSR s)\<rparr>)
      else pop_ctr s)"

definition push_stack :: "addr \<Rightarrow> ras \<Rightarrow> ras" where
  "push_stack a s =
     (let tos = ras_stack s ! nsp s in
      if retAddr tos = a \<and> ras_ctr tos < maxCtr s
      then s\<lparr>ras_stack := (ras_stack s)[nsp s := tos\<lparr>ras_ctr := ras_ctr tos + 1\<rparr>]\<rparr>
      else let n = ptrInc (numEntries s) (nsp s)
           in s\<lparr>nsp := n, ras_stack := (ras_stack s)[n := \<lparr>retAddr = a, ras_ctr = 0\<rparr>]\<rparr>)"

definition pop_stack :: "ras \<Rightarrow> ras" where
  "pop_stack s =
     (let tos = ras_stack s ! nsp s in
      if 0 < ras_ctr tos
      then s\<lparr>ras_stack := (ras_stack s)[nsp s := tos\<lparr>ras_ctr := ras_ctr tos - 1\<rparr>]\<rparr>
      else s\<lparr>nsp := ptrDec (numEntries s) (nsp s)\<rparr>)"

definition spec_branch :: "ras_branch \<Rightarrow> ras \<Rightarrow> ras" where
  "spec_branch b s =
     (let s1 = (if b_isCall b then push (b_pc b + b_size b) s else s)
      in if b_isReturn b then pop s1 else s1)"

definition specUpdateHist :: "ras_branch \<Rightarrow> ras \<Rightarrow> ras" where
  "specUpdateHist takenEntry s = spec_branch takenEntry s"

definition recoverHist :: "ras_meta \<Rightarrow> bool \<Rightarrow> ras_branch \<Rightarrow> ras \<Rightarrow> ras" where
  "recoverHist m exeTaken takenEntry s =
     (let s1 = s\<lparr>TOSR := m_TOSR m, TOSW := m_TOSW m, ssp := m_ssp m, sctr := m_sctr m\<rparr>
      in if exeTaken then spec_branch takenEntry s1 else s1)"

definition update :: "ras_meta \<Rightarrow> bool \<Rightarrow> ras_branch \<Rightarrow> ras \<Rightarrow> ras" where
  "update m exeTaken takenEntry s =
     (if exeTaken then
        let s1 = (if m_ssp m \<noteq> nsp s \<or> m_sctr m \<noteq> ras_ctr (ras_stack s ! nsp s)
                  then s\<lparr>nsp := m_ssp m\<rparr> else s);
            s2 = (if b_isCall takenEntry then
                    (push_stack (b_pc takenEntry + b_size takenEntry) s1)
                      \<lparr>BOS := ptrInc (numInflightEntries s1) (m_TOSW m)\<rparr>
                  else s1)
        in if b_isReturn takenEntry then pop_stack s2 else s2
      else s)"

section \<open>Pointer bounds\<close>

definition ras_inv :: "ras \<Rightarrow> bool" where
  "ras_inv s \<longleftrightarrow>
     0 < numEntries s \<and> 0 < numInflightEntries s \<and>
     length (ras_stack s) = numEntries s \<and> length (inflightStack s) = numInflightEntries s \<and>
     TOSW s < numInflightEntries s \<and> TOSR s < numInflightEntries s \<and> BOS s < numInflightEntries s \<and>
     ssp s < numEntries s \<and> nsp s < numEntries s \<and> sctr s \<le> maxCtr s \<and>
     (\<forall>e\<in>set (ras_stack s). ras_ctr e \<le> maxCtr s) \<and>
     (\<forall>e\<in>set (inflightStack s). ras_ctr (ri_data e) \<le> maxCtr s \<and> nos e < numInflightEntries s)"

definition meta_ok :: "ras \<Rightarrow> ras_meta \<Rightarrow> bool" where
  "meta_ok s m \<longleftrightarrow>
     m_ssp m < numEntries s \<and> m_sctr m \<le> maxCtr s \<and>
     m_TOSR m < numInflightEntries s \<and> m_TOSW m < numInflightEntries s"

lemma ptr_bounds [simp]: "0 < n \<Longrightarrow> ptrInc n p < n" "p < n \<Longrightarrow> ptrDec n p < n"
  by (auto simp: ptrInc_def ptrDec_def)

lemma ptrDec_ptrInc [simp]: "p < n \<Longrightarrow> ptrDec n (ptrInc n p) = p"
  by (cases "p + 1 = n") (auto simp: ptrInc_def ptrDec_def)

lemma getTop_ctr: "ras_inv s \<Longrightarrow> ras_ctr (getTop s) \<le> maxCtr s"
  by (auto simp: ras_inv_def getTop_def)

lemma push_inv: "ras_inv s \<Longrightarrow> ras_inv (push a s)"
  unfolding ras_inv_def push_def Let_def
  by (auto dest!: set_update_subset_insert [THEN subsetD])

lemma pop_ctr_inv: "ras_inv s \<Longrightarrow> ras_inv (pop_ctr s)"
proof (cases "0 < sctr s")
  case False
  assume inv: "ras_inv s"
  let ?s = "s\<lparr>ssp := ptrDec (numEntries s) (ssp s)\<rparr>"
  have "ras_inv ?s"
    using inv by (simp add: ras_inv_def)
  then have "ras_ctr (getTop ?s) \<le> maxCtr ?s"
    by (rule getTop_ctr)
  then show ?thesis
    using \<open>ras_inv ?s\<close> False by (simp add: pop_ctr_def ras_inv_def Let_def)
qed (auto simp: pop_ctr_def ras_inv_def)

lemma pop_inv: "ras_inv s \<Longrightarrow> ras_inv (pop s)"
proof -
  assume inv: "ras_inv s"
  then have "ras_inv (s\<lparr>TOSR := nos (inflightStack s ! TOSR s)\<rparr>)"
    by (simp add: ras_inv_def)
  then show ?thesis
    using inv by (simp add: pop_def pop_ctr_inv)
qed

lemma push_stack_inv: "ras_inv s \<Longrightarrow> ras_inv (push_stack a s)"
  unfolding ras_inv_def push_stack_def Let_def
  by (auto dest!: set_update_subset_insert [THEN subsetD])

lemma pop_stack_inv:
  assumes "ras_inv s"
  shows "ras_inv (pop_stack s)"
proof -
  have "ras_ctr (ras_stack s ! nsp s) \<le> maxCtr s"
    using assms by (simp add: ras_inv_def)
  then have "ras_ctr (ras_stack s ! nsp s) - Suc 0 \<le> maxCtr s"
    by linarith
  then show ?thesis
    using assms unfolding ras_inv_def pop_stack_def Let_def
    by (auto dest!: set_update_subset_insert [THEN subsetD])
qed

lemma spec_branch_inv: "ras_inv s \<Longrightarrow> ras_inv (spec_branch b s)"
  by (simp add: spec_branch_def Let_def push_inv pop_inv)

lemma recoverHist_inv: "ras_inv s \<Longrightarrow> meta_ok s m \<Longrightarrow> ras_inv (recoverHist m t b s)"
proof -
  assume "ras_inv s" and "meta_ok s m"
  then have "ras_inv (s\<lparr>TOSR := m_TOSR m, TOSW := m_TOSW m, ssp := m_ssp m, sctr := m_sctr m\<rparr>)"
    by (simp add: ras_inv_def meta_ok_def)
  then show ?thesis
    by (simp add: recoverHist_def Let_def spec_branch_inv)
qed

lemma update_inv:
  assumes "ras_inv s" and "meta_ok s m"
  shows "ras_inv (update m t b s)"
proof -
  let ?s1 = "if m_ssp m \<noteq> nsp s \<or> m_sctr m \<noteq> ras_ctr (ras_stack s ! nsp s)
    then s\<lparr>nsp := m_ssp m\<rparr> else s"
  have s1: "ras_inv ?s1" "0 < numInflightEntries ?s1"
    using assms by (auto simp: ras_inv_def meta_ok_def)
  let ?p = "push_stack (b_pc b + b_size b) ?s1"
  have "numInflightEntries ?p = numInflightEntries ?s1"
    by (simp add: push_stack_def Let_def)
  then have "ras_inv (?p\<lparr>BOS := ptrInc (numInflightEntries ?s1) (m_TOSW m)\<rparr>)"
    using push_stack_inv [OF s1(1), of "b_pc b + b_size b"] s1(2) unfolding ras_inv_def by simp
  then show ?thesis
    using assms(1) s1(1) by (auto simp: update_def Let_def pop_stack_inv)
qed

section \<open>Nested calls and returns\<close>

datatype ras_op = Call addr | Ret

fun ras_run :: "ras_op list \<Rightarrow> ras \<Rightarrow> ras" where
  "ras_run [] s = s"
| "ras_run (Call a # w) s = ras_run w (push a s)"
| "ras_run (Ret # w) s = ras_run w (pop s)"

lemma ras_run_append [simp]: "ras_run (v @ w) s = ras_run w (ras_run v s)"
  by (induction v s rule: ras_run.induct) auto

lemma ras_run_inv: "ras_inv s \<Longrightarrow> ras_inv (ras_run w s)"
  by (induction w s rule: ras_run.induct) (auto simp: push_inv pop_inv)

fun pushes :: "ras_op list \<Rightarrow> nat" where
  "pushes [] = 0"
| "pushes (Call a # w) = Suc (pushes w)"
| "pushes (Ret # w) = pushes w"

lemma pushes_append [simp]: "pushes (v @ w) = pushes v + pushes w"
  by (induction v rule: pushes.induct) auto

inductive nested :: "ras_op list \<Rightarrow> bool" where
  nested_Nil: "nested []"
| nested_Call: "nested v \<Longrightarrow> nested w \<Longrightarrow> nested (Call a # v @ Ret # w)"

text \<open>Distance of a queue position from the bottom of the in-flight queue.\<close>

definition off :: "ras \<Rightarrow> nat \<Rightarrow> nat" where
  "off s p = (p + numInflightEntries s - BOS s) mod numInflightEntries s"

lemma off_eq:
  "ras_inv s \<Longrightarrow> p < numInflightEntries s \<Longrightarrow>
   off s p = (if BOS s \<le> p then p - BOS s else p + numInflightEntries s - BOS s)"
proof (cases "BOS s \<le> p")
  case True
  assume p: "p < numInflightEntries s"
  have "p + numInflightEntries s - BOS s = (p - BOS s) + numInflightEntries s"
    using True by simp
  then have "off s p = (p - BOS s) mod numInflightEntries s"
    unfolding off_def by (simp only: mod_add_self2)
  then show ?thesis
    using True p by simp
next
  case False
  assume "ras_inv s"
  then have "p + numInflightEntries s - BOS s < numInflightEntries s"
    using False by (auto simp: ras_inv_def)
  then show ?thesis
    using False by (simp add: off_def)
qed

lemma inRange_off:
  "ras_inv s \<Longrightarrow> p < numInflightEntries s \<Longrightarrow>
   inflightInRange s p \<longleftrightarrow> off s p < off s (TOSW s)"
proof -
  assume "ras_inv s" and "p < numInflightEntries s"
  moreover from this have "TOSW s < numInflightEntries s" "BOS s < numInflightEntries s"
    by (auto simp: ras_inv_def)
  ultimately show ?thesis
    by (auto simp: off_eq inflightInRange_def)
qed

lemma off_inc:
  "ras_inv s \<Longrightarrow> p < numInflightEntries s \<Longrightarrow> off s p + 1 < numInflightEntries s \<Longrightarrow>
   off s (ptrInc (numInflightEntries s) p) = off s p + 1"
  by (cases "p + 1 = numInflightEntries s")
    (auto simp: off_eq ptrInc_def ras_inv_def split: if_splits)

lemma off_inj:
  "ras_inv s \<Longrightarrow> p < numInflightEntries s \<Longrightarrow> q < numInflightEntries s \<Longrightarrow>
   off s p = off s q \<Longrightarrow> p = q"
  by (auto simp: off_eq ras_inv_def split: if_splits)

text \<open>
  \<open>quiet s k\<close>: the queue has room for \<open>k\<close> more pushes, which will not reach a stale read
  pointer, and the speculative counter is that of the top entry. \<open>restored s s' k\<close>: \<open>s'\<close>
  has used \<open>k\<close> more queue entries and agrees with \<open>s\<close> on everything a reader can see.
\<close>

definition quiet :: "ras \<Rightarrow> nat \<Rightarrow> bool" where
  "quiet s k \<longleftrightarrow>
     ras_inv s \<and> off s (TOSW s) + k < numInflightEntries s \<and>
     (off s (TOSR s) < off s (TOSW s) \<or> off s (TOSW s) + k \<le> off s (TOSR s)) \<and>
     ras_ctr (getTop s) = sctr s"

definition same_below :: "ras \<Rightarrow> ras \<Rightarrow> bool" where
  "same_below s s' \<longleftrightarrow>
     numEntries s' = numEntries s \<and> numInflightEntries s' = numInflightEntries s \<and>
     maxCtr s' = maxCtr s \<and> ras_stack s' = ras_stack s \<and> BOS s' = BOS s \<and> nsp s' = nsp s \<and>
     (\<forall>p<numInflightEntries s. off s p < off s (TOSW s) \<longrightarrow>
        inflightStack s' ! p = inflightStack s ! p)"

definition restored :: "ras \<Rightarrow> ras \<Rightarrow> nat \<Rightarrow> bool" where
  "restored s s' k \<longleftrightarrow>
     ras_inv s' \<and> same_below s s' \<and> ssp s' = ssp s \<and> sctr s' = sctr s \<and> TOSR s' = TOSR s \<and>
     off s (TOSW s') = off s (TOSW s) + k"

lemma same_below_off: "same_below s s' \<Longrightarrow> off s' p = off s p"
  by (simp add: same_below_def off_def)

lemma getTop_restored:
  assumes q: "quiet s k" and inv: "ras_inv s'" and sb: "same_below s s'"
    and eq: "TOSR s' = TOSR s" "ssp s' = ssp s" "off s (TOSW s) \<le> off s (TOSW s')"
      "off s (TOSW s') \<le> off s (TOSW s) + k"
  shows "getTop s' = getTop s"
proof -
  have s: "ras_inv s" "TOSR s < numInflightEntries s"
    "off s (TOSR s) < off s (TOSW s) \<or> off s (TOSW s) + k \<le> off s (TOSR s)"
    using q by (auto simp: quiet_def ras_inv_def)
  have n: "numInflightEntries s' = numInflightEntries s"
    using sb by (simp add: same_below_def)
  have r: "inflightInRange s (TOSR s) \<longleftrightarrow> off s (TOSR s) < off s (TOSW s)"
    using inRange_off [OF s(1,2)] .
  have "inflightInRange s' (TOSR s) \<longleftrightarrow> off s (TOSR s) < off s (TOSW s')"
    using inRange_off [OF inv, of "TOSR s"] s(2) n same_below_off [OF sb] by simp
  then have "inflightInRange s' (TOSR s) \<longleftrightarrow> inflightInRange s (TOSR s)"
    using r s(3) eq(3,4) by auto
  then show ?thesis
    using r s(2) sb eq(1,2) by (auto simp: getTop_def same_below_def)
qed

lemma quiet_restored:
  assumes "quiet s (k + k')" and "restored s s' k"
  shows "quiet s' k'"
proof -
  have sb: "same_below s s'" and inv: "ras_inv s'"
    using assms(2) by (auto simp: restored_def)
  have "getTop s' = getTop s"
    using assms by (intro getTop_restored [OF assms(1)]) (auto simp: restored_def)
  then show ?thesis
    using assms same_below_off [OF sb] by (auto simp: quiet_def restored_def same_below_def)
qed

lemma restored_trans:
  assumes "restored s s1 k" and "restored s1 s2 k'"
  shows "restored s s2 (k + k')"
  using assms same_below_off [of s s1]
  by (auto simp: restored_def same_below_def)

lemma push_fields:
  "TOSR (push a s) = TOSW s" "TOSW (push a s) = ptrInc (numInflightEntries s) (TOSW s)"
  "numEntries (push a s) = numEntries s" "numInflightEntries (push a s) = numInflightEntries s"
  "maxCtr (push a s) = maxCtr s" "ras_stack (push a s) = ras_stack s" "BOS (push a s) = BOS s"
  "nsp (push a s) = nsp s"
  "inflightStack (push a s) = (inflightStack s)
     [TOSW s := \<lparr>ri_data = \<lparr>retAddr = a, ras_ctr = sctr (push a s)\<rparr>, nos = TOSR s\<rparr>]"
  by (simp_all add: push_def Let_def)

lemma push_ctr:
  "0 < sctr (push a s) \<Longrightarrow> sctr (push a s) = sctr s + 1 \<and> ssp (push a s) = ssp s"
  "sctr (push a s) = 0 \<Longrightarrow> ssp (push a s) = ptrInc (numEntries s) (ssp s)"
  by (auto simp: push_def Let_def split: if_splits)

lemma push_below:
  assumes inv: "ras_inv s" and room: "off s (TOSW s) + 1 < numInflightEntries s"
  shows "same_below s (push a s)" and "off s (TOSW (push a s)) = off s (TOSW s) + 1"
proof -
  have "TOSW s < numInflightEntries s"
    using inv by (simp add: ras_inv_def)
  then show "off s (TOSW (push a s)) = off s (TOSW s) + 1"
    using off_inc [OF inv] room by (simp add: push_fields)
  show "same_below s (push a s)"
    unfolding same_below_def push_fields by (auto intro!: nth_list_update_neq)
qed

lemma push_quiet:
  assumes "quiet s (Suc k)"
  shows "quiet (push a s) k" and "getTop (push a s) = \<lparr>retAddr = a, ras_ctr = sctr (push a s)\<rparr>"
    and "inflightStack (push a s) ! TOSW s =
      \<lparr>ri_data = \<lparr>retAddr = a, ras_ctr = sctr (push a s)\<rparr>, nos = TOSR s\<rparr>"
proof -
  have inv: "ras_inv s" and room: "off s (TOSW s) + Suc k < numInflightEntries s"
    and t: "TOSW s < numInflightEntries s" "length (inflightStack s) = numInflightEntries s"
    using assms by (auto simp: quiet_def ras_inv_def)
  have "off s (TOSW s) + 1 < numInflightEntries s"
    using room by simp
  note pb = push_below [OF inv this, of a]
  show e: "inflightStack (push a s) ! TOSW s =
      \<lparr>ri_data = \<lparr>retAddr = a, ras_ctr = sctr (push a s)\<rparr>, nos = TOSR s\<rparr>"
    using t by (simp add: push_fields)
  note inv' = push_inv [OF inv, of a]
  note o = same_below_off [OF pb(1)]
  have "inflightInRange (push a s) (TOSW s)"
    using inRange_off [OF inv', of "TOSW s"] t pb(2) o by (simp add: push_fields)
  then show top: "getTop (push a s) = \<lparr>retAddr = a, ras_ctr = sctr (push a s)\<rparr>"
    using e by (simp add: getTop_def push_fields(1))
  show "quiet (push a s) k"
    using inv' room pb(2) o top by (simp add: quiet_def push_fields(1,4))
qed

lemma pop_ctr_fields:
  "TOSR (pop_ctr s) = TOSR s" "TOSW (pop_ctr s) = TOSW s" "numEntries (pop_ctr s) = numEntries s"
  "numInflightEntries (pop_ctr s) = numInflightEntries s" "maxCtr (pop_ctr s) = maxCtr s"
  "ras_stack (pop_ctr s) = ras_stack s" "BOS (pop_ctr s) = BOS s" "nsp (pop_ctr s) = nsp s"
  "inflightStack (pop_ctr s) = inflightStack s"
  by (simp_all add: pop_ctr_def Let_def)

lemma pop_fields:
  "TOSW (pop s) = TOSW s" "numEntries (pop s) = numEntries s"
  "numInflightEntries (pop s) = numInflightEntries s" "maxCtr (pop s) = maxCtr s"
  "ras_stack (pop s) = ras_stack s" "BOS (pop s) = BOS s" "nsp (pop s) = nsp s"
  "inflightStack (pop s) = inflightStack s"
  by (simp_all add: pop_def pop_ctr_fields)

lemma same_below_trans:
  assumes "same_below s s1" and "same_below s1 s2" and "off s (TOSW s) \<le> off s1 (TOSW s1)"
  shows "same_below s s2"
  using assms same_below_off [OF assms(1)] by (auto simp: same_below_def)

text \<open>The return that matches a call finds the entry of the call and undoes it.\<close>

lemma pop_matches:
  assumes q: "quiet s (Suc k)" and r: "restored (push a s) s2 k"
  shows "restored s (pop s2) (Suc k)"
proof -
  let ?s1 = "push a s"
  have inv: "ras_inv s" "TOSW s < numInflightEntries s" "ssp s < numEntries s"
    and room: "off s (TOSW s) + 1 < numInflightEntries s"
    using q by (auto simp: quiet_def ras_inv_def)
  note pb = push_below [OF inv(1) room, of a] and pq = push_quiet [OF q, of a]
  note o1 = same_below_off [OF pb(1)]
  have inv2: "ras_inv s2" and sb2: "same_below ?s1 s2"
    and f2: "ssp s2 = ssp ?s1" "sctr s2 = sctr ?s1" "TOSR s2 = TOSW s"
    and w2: "off s (TOSW s2) = off s (TOSW s) + Suc k"
    using r pb(2) o1 by (auto simp: restored_def push_fields)
  have sb: "same_below s s2"
    using same_below_trans [OF pb(1) sb2] pb(2) o1 by simp
  note o2 = same_below_off [OF sb]
  have e: "inflightStack s2 ! TOSW s = inflightStack ?s1 ! TOSW s"
    using sb2 inv(2) pb(2) o1 by (simp add: same_below_def push_fields(4))
  have "inflightInRange s2 (TOSW s)"
    using inRange_off [OF inv2, of "TOSW s"] inv(2) w2 o2 sb by (simp add: same_below_def)
  then have p: "pop s2 = pop_ctr (s2\<lparr>TOSR := TOSR s\<rparr>)"
    using f2(3) e pq(3) by (simp add: pop_def)
  have sbp: "same_below s (pop s2)"
    using sb unfolding same_below_def pop_fields by blast
  have "ssp (pop s2) = ssp s \<and> sctr (pop s2) = sctr s"
  proof (cases "0 < sctr ?s1")
    case True
    then show ?thesis
      using push_ctr(1) [OF True] f2(1,2) by (simp add: p pop_ctr_def)
  next
    case False
    let ?t = "s2\<lparr>TOSR := TOSR s, ssp := ssp s\<rparr>"
    have "ssp s2 = ptrInc (numEntries s) (ssp s)" "numEntries s2 = numEntries s"
      using False push_ctr(2) f2(1) sb by (auto simp: same_below_def)
    then have eq: "pop s2 = ?t\<lparr>sctr := ras_ctr (getTop ?t)\<rparr>"
      using False f2(2) inv(3) by (simp add: p pop_ctr_def Let_def)
    have "ras_inv ?t" "same_below s ?t"
      using inv inv2 sb by (auto simp: ras_inv_def same_below_def)
    then have "getTop ?t = getTop s"
      using w2 by (intro getTop_restored [OF q]) auto
    then show ?thesis
      using q by (simp add: eq quiet_def)
  qed
  then show ?thesis
    using sbp pop_inv [OF inv2] w2 by (simp add: restored_def pop_fields) (simp add: p pop_ctr_fields)
qed

lemma restored_refl: "ras_inv s \<Longrightarrow> restored s s 0"
  by (simp add: restored_def same_below_def)

lemma nested_restored:
  assumes "nested w" and "quiet s (pushes w)"
  shows "restored s (ras_run w s) (pushes w)"
  using assms
proof (induction arbitrary: s rule: nested.induct)
  case nested_Nil
  then show ?case by (simp add: restored_refl quiet_def)
next
  case (nested_Call v w a)
  have "quiet s (Suc (pushes v + pushes w))"
    using nested_Call.prems by simp
  then have q: "quiet s (Suc (pushes v))"
    by (auto simp: quiet_def)
  have "restored (push a s) (ras_run v (push a s)) (pushes v)"
    by (rule nested_Call.IH(1) [OF push_quiet(1) [OF q]])
  then have r: "restored s (pop (ras_run v (push a s))) (Suc (pushes v))"
    by (rule pop_matches [OF q])
  then have "quiet (pop (ras_run v (push a s))) (pushes w)"
    using nested_Call.prems by (intro quiet_restored [OF _ r]) simp
  then show ?case
    using restored_trans [OF r nested_Call.IH(2)] by simp
qed

text \<open>Any speculative path, nested or not, leaves the entries below its start untouched.\<close>

lemma run_below:
  assumes "ras_inv s" and "off s (TOSW s) + pushes w < numInflightEntries s"
  shows "same_below s (ras_run w s) \<and> off s (TOSW (ras_run w s)) = off s (TOSW s) + pushes w"
  using assms
proof (induction w s rule: ras_run.induct)
  case (1 s)
  then show ?case by (simp add: same_below_def)
next
  case (2 a w s)
  have "off s (TOSW s) + 1 < numInflightEntries s"
    using 2(3) by simp
  note pb = push_below [OF 2(2) this, of a]
  note o = same_below_off [OF pb(1)]
  have "same_below (push a s) (ras_run w (push a s)) \<and>
      off (push a s) (TOSW (ras_run w (push a s))) = off (push a s) (TOSW (push a s)) + pushes w"
    using 2(3) pb(2) o by (intro 2(1) push_inv [OF 2(2)]) (simp add: push_fields(4))
  then show ?case
    using same_below_trans [OF pb(1)] pb(2) o by simp
next
  case (3 w s)
  have sb: "same_below s (pop s)"
    by (simp add: same_below_def pop_fields)
  note o = same_below_off [OF sb]
  have "same_below (pop s) (ras_run w (pop s)) \<and>
      off (pop s) (TOSW (ras_run w (pop s))) = off (pop s) (TOSW (pop s)) + pushes w"
    using 3(3) o by (intro 3(1) pop_inv [OF 3(2)]) (simp add: pop_fields)
  then show ?case
    using same_below_trans [OF sb] o by (simp add: pop_fields(1))
qed

section \<open>Properties\<close>

text \<open>
  C28: A call is matched by its return, as long as the in-flight queue has room. After a
  speculative call to be returned to at \<open>a\<close>, and properly nested calls and returns inside the
  callee, the predicted return address is \<open>a\<close>; after the return the stack pointer, the counter,
  the read pointer and the predicted address are those from before the call. The state before the
  call is \<open>quiet\<close>: the queue has room for this call and all calls of the callee, since \<open>push\<close> has no
  check for a full queue and would overwrite entries that are still needed; none of them reaches
  the entry of a read pointer that is outside of the queue; and the counter is that of the top entry.
\<close>

theorem call_return_matched:
  assumes "nested w" and "quiet s (Suc (pushes w))"
  shows "retAddr (getTop (ras_run (Call a # w) s)) = a \<and>
    (let s' = ras_run (Call a # w @ [Ret]) s in
       ssp s' = ssp s \<and> sctr s' = sctr s \<and> TOSR s' = TOSR s \<and> getTop s' = getTop s)"
proof -
  note pq = push_quiet [OF assms(2), of a]
  note r = nested_restored [OF assms(1) pq(1)]
  have "getTop (ras_run w (push a s)) = getTop (push a s)"
    using r by (intro getTop_restored [OF pq(1)]) (auto simp: restored_def)
  moreover note rs = pop_matches [OF assms(2) r]
  moreover have "getTop (pop (ras_run w (push a s))) = getTop s"
    using rs by (intro getTop_restored [OF assms(2)]) (auto simp: restored_def)
  ultimately show ?thesis
    using pq(2) by (simp add: restored_def)
qed

definition ex_ras :: ras where
  "ex_ras = initRAS 4 2 8"

definition ex_branch :: ras_branch where
  "ex_branch = \<lparr>b_isCall = True, b_isReturn = True, b_pc = 0x40, b_size = 4\<rparr>"

definition ex_calls :: "ras_op list" where
  "ex_calls = [Call 0x200, Call 0x200, Ret, Ret, Call 0x300, Ret]"

lemma ex_calls_nested: "nested ex_calls"
proof -
  have "nested (Call 0x200 # (Call 0x200 # [] @ Ret # []) @ Ret # (Call 0x300 # [] @ Ret # []))"
    by (intro nested.intros)
  then show ?thesis by (simp add: ex_calls_def)
qed

theorem call_return_matched_witness:
  "retAddr (getTop (ras_run (Call 0x100 # ex_calls) ex_ras)) = 0x100"
proof -
  have "quiet ex_ras (Suc (pushes ex_calls))"
    by (simp add: quiet_def ras_inv_def ex_ras_def initRAS_def off_def getTop_def inflightInRange_def
        ex_calls_def ptrDec_def)
  then show ?thesis
    using call_return_matched [OF ex_calls_nested, of ex_ras "0x100"] by blast
qed

text \<open>
  C29: Recovery is exact. Whatever calls and returns a wrong path performed after the
  prediction whose metadata was saved, as long as they fit the in-flight queue, restoring
  the metadata gives back all pointers and the predicted return address of that point, and
  every queue entry that was reachable then.
\<close>

theorem ras_recovery_exact:
  assumes "ras_inv s" and "off s (TOSW s) + pushes w < numInflightEntries s"
  shows "let r = recoverHist (fst (getTop_meta s)) False b (ras_run w s) in
    TOSR r = TOSR s \<and> TOSW r = TOSW s \<and> ssp r = ssp s \<and> sctr r = sctr s \<and>
    getTop r = getTop s \<and> retAddr (getTop r) = m_target (fst (getTop_meta s)) \<and> same_below s r"
proof -
  let ?r = "recoverHist (fst (getTop_meta s)) False b (ras_run w s)"
  have f: "TOSR ?r = TOSR s" "TOSW ?r = TOSW s" "ssp ?r = ssp s" "sctr ?r = sctr s"
    by (simp_all add: recoverHist_def getTop_meta_def)
  have sb: "same_below s ?r"
    using run_below [OF assms] by (simp add: same_below_def recoverHist_def getTop_meta_def)
  have "inflightInRange ?r (TOSR s) = inflightInRange s (TOSR s)"
    using f(2) sb by (simp add: inflightInRange_def same_below_def)
  moreover have "inflightStack ?r ! TOSR s = inflightStack s ! TOSR s" if "inflightInRange s (TOSR s)"
    using that sb assms(1) inRange_off [OF assms(1), of "TOSR s"]
    by (simp add: same_below_def ras_inv_def)
  ultimately have "getTop ?r = getTop s"
    using f sb by (simp add: getTop_def same_below_def)
  then show ?thesis
    using f sb by (simp add: getTop_meta_def)
qed

theorem ras_recovery_exact_witness:
  "getTop (recoverHist (fst (getTop_meta (push 0x100 ex_ras))) False ex_branch
     (ras_run [Ret, Ret, Call 0x500, Call 0x600] (push 0x100 ex_ras))) = getTop (push 0x100 ex_ras)"
proof -
  have "ras_inv (push 0x100 ex_ras)"
    by (rule push_inv) (simp add: ras_inv_def ex_ras_def initRAS_def ptrDec_def)
  moreover have "off (push 0x100 ex_ras) (TOSW (push 0x100 ex_ras)) +
      pushes [Ret, Ret, Call 0x500, Call 0x600] < numInflightEntries (push 0x100 ex_ras)"
    by (simp add: push_fields off_def ex_ras_def initRAS_def ptrInc_def)
  ultimately show ?thesis
    using ras_recovery_exact [of "push 0x100 ex_ras" "[Ret, Ret, Call 0x500, Call 0x600]" ex_branch]
    by (simp add: Let_def)
qed

text \<open>
  Every operation keeps the pointers inside their arrays and the counters within
  \<open>maxCtr\<close>: prediction, recovery from any valid metadata, and the commit of any branch.
\<close>

lemma ras_bounds:
  assumes "ras_inv s" and "meta_ok s m"
  shows "ras_inv (specUpdateHist b s) \<and> ras_inv (recoverHist m t b s) \<and> ras_inv (update m t b s) \<and>
    meta_ok s (fst (getTop_meta s))"
  using assms
  by (simp add: specUpdateHist_def spec_branch_inv recoverHist_inv update_inv)
    (simp add: meta_ok_def getTop_meta_def ras_inv_def)

end
