(* ===== verification/OrderedQueue.thy ===== *)
theory OrderedQueue
  imports Prelude
begin

text \<open>
  The contract several structures of the core share: entries are added in program order,
  with growing keys (sequence numbers, stream numbers), and a squash to a key keeps exactly
  the entries up to it. The contract is a locale; its clients' lemmas are proved here once.
\<close>

fun enq_all :: "('a \<Rightarrow> 'q \<Rightarrow> 'q option) \<Rightarrow> 'a list \<Rightarrow> 'q \<Rightarrow> 'q option" where
  "enq_all enq [] q = Some q"
| "enq_all enq (x # xs) q = (case enq x q of None \<Rightarrow> None | Some q1 \<Rightarrow> enq_all enq xs q1)"

locale squashable_queue =
  fixes keys :: "'q \<Rightarrow> nat list"
    and ok :: "'q \<Rightarrow> bool"
    and key :: "'a \<Rightarrow> nat"
    and enq :: "'a \<Rightarrow> 'q \<Rightarrow> 'q option"
    and squash_to :: "nat \<Rightarrow> 'q \<Rightarrow> 'q option"
  assumes ordered: "ok q \<Longrightarrow> sorted_wrt (<) (keys q)"
    and enq_law: "ok q \<Longrightarrow> enq x q = Some q' \<Longrightarrow> \<forall>k\<in>set (keys q). k < key x \<Longrightarrow>
      ok q' \<and> keys q' = keys q @ [key x]"
    and squash_law: "ok q \<Longrightarrow> \<exists>q'. squash_to k q = Some q' \<and> ok q' \<and> keys q' = filter (\<lambda>j. j \<le> k) (keys q)"
begin

lemma enq_all_keys:
  assumes "ok q" and "enq_all enq xs q = Some q'"
    and "sorted_wrt (<) (keys q @ map key xs)"
  shows "ok q' \<and> keys q' = keys q @ map key xs"
  using assms
proof (induction xs arbitrary: q)
  case Nil
  then show ?case by simp
next
  case (Cons x xs)
  then obtain q1 where q1: "enq x q = Some q1" "enq_all enq xs q1 = Some q'"
    by (auto split: option.splits)
  have "\<forall>k\<in>set (keys q). k < key x"
    using Cons.prems(3) by (auto simp: sorted_wrt_append)
  then have "ok q1" "keys q1 = keys q @ [key x]"
    using enq_law [OF Cons.prems(1) q1(1)] by blast+
  then show ?case
    using Cons.IH [OF _ q1(2)] Cons.prems(3) by simp
qed

text \<open>A squash to the youngest entry before a run of insertions undoes the run.\<close>

lemma squash_undoes_enq_all:
  assumes "ok q" and "enq_all enq xs q = Some q1"
    and "sorted_wrt (<) (keys q @ map key xs)" and "\<forall>j\<in>set (keys q). j \<le> k" and "\<forall>x\<in>set xs. k < key x"
  shows "\<exists>q2. squash_to k q1 = Some q2 \<and> ok q2 \<and> keys q2 = keys q"
proof -
  have q1: "ok q1" "keys q1 = keys q @ map key xs"
    using enq_all_keys [OF assms(1-3)] by simp_all
  moreover have "filter (\<lambda>j. j \<le> k) (keys q) = keys q" "filter (\<lambda>j. j \<le> k) (map key xs) = []"
    using assms(4,5) by (auto simp: filter_id_conv filter_empty_conv not_le)
  ultimately show ?thesis
    using squash_law [OF q1(1), of k] by auto
qed

text \<open>Two squashes are one squash to the older key.\<close>

lemma squash_squash:
  assumes "ok q" and "squash_to k q = Some q1" and "squash_to j q1 = Some q2"
  shows "keys q2 = filter (\<lambda>i. i \<le> min j k) (keys q)"
proof -
  have "ok q1" "keys q1 = filter (\<lambda>i. i \<le> k) (keys q)"
    using squash_law [OF assms(1), of k] assms(2) by auto
  then show ?thesis
    using squash_law [of q1 j] assms(3) by (auto intro: filter_cong)
qed

end

text \<open>A queue whose entries are known: insertion adds one at the end, and a squash keeps the oldest ones, but may
  rewrite them (\<open>touch\<close>).\<close>

locale squashable_contents = squashable_queue keys ok key enq squash_to
  for keys :: "'q \<Rightarrow> nat list" and ok :: "'q \<Rightarrow> bool" and key :: "'a \<Rightarrow> nat"
    and enq :: "'a \<Rightarrow> 'q \<Rightarrow> 'q option" and squash_to :: "nat \<Rightarrow> 'q \<Rightarrow> 'q option" +
  fixes contents :: "'q \<Rightarrow> 'e list"
    and item :: "'a \<Rightarrow> 'e"
    and touch :: "nat \<Rightarrow> 'e list \<Rightarrow> 'e list"
  assumes contents_length: "ok q \<Longrightarrow> length (contents q) = length (keys q)"
    and enq_contents: "ok q \<Longrightarrow> enq x q = Some q' \<Longrightarrow> contents q' = contents q @ [item x]"
    and squash_contents: "ok q \<Longrightarrow> squash_to k q = Some q' \<Longrightarrow> contents q' = touch k (take (length (keys q')) (contents q))"
begin

lemma enq_all_contents:
  assumes "ok q" and "enq_all enq xs q = Some q'" and "sorted_wrt (<) (keys q @ map key xs)"
  shows "contents q' = contents q @ map item xs"
  using assms
proof (induction xs arbitrary: q)
  case (Cons x xs)
  then obtain q1 where q1: "enq x q = Some q1" "enq_all enq xs q1 = Some q'"
    by (auto split: option.splits)
  have "\<forall>k\<in>set (keys q). k < key x"
    using Cons.prems(3) by (auto simp: sorted_wrt_append)
  then have "ok q1" "keys q1 = keys q @ [key x]"
    using enq_law [OF Cons.prems(1) q1(1)] by blast+
  then show ?case
    using Cons.IH [OF _ q1(2)] Cons.prems(3) enq_contents [OF Cons.prems(1) q1(1)] by simp
qed simp

text \<open>What is left after insertions and a squash to the youngest entry before them are the entries from before.\<close>

lemma squash_restores_contents:
  assumes "ok q" and "enq_all enq xs q = Some q1"
    and "sorted_wrt (<) (keys q @ map key xs)" and "\<forall>j\<in>set (keys q). j \<le> k" and "\<forall>x\<in>set xs. k < key x"
  shows "\<exists>q2. squash_to k q1 = Some q2 \<and> keys q2 = keys q \<and> contents q2 = touch k (contents q)"
proof -
  obtain q2 where q2: "squash_to k q1 = Some q2" "keys q2 = keys q"
    using squash_undoes_enq_all [OF assms] by blast
  have "ok q1"
    using enq_all_keys [OF assms(1-3)] by blast
  then show ?thesis
    using q2 squash_contents [OF _ q2(1)] enq_all_contents [OF assms(1-3)] contents_length [OF assms(1)] by auto
qed

end

end
