(* ===== verification/Bpu.thy ===== *)
theory Bpu
  imports FoldedHist RAS OrderedQueue
begin

text \<open>
  The decoupled branch prediction unit around its tables, \<open>cpu/pred/btb\<close>: predictions and
  what they contribute to the histories (\<open>common.hh\<close>), the fetch target queue
  (\<open>ftq.hh\<close>, \<open>ftq.cc\<close>), the history manager (\<open>history_manager.hh\<close>), and the prediction,
  squash and commit paths of \<open>decoupled_bpred.cc\<close> with the folded histories of TAGE and MGSC
  and the return address stack as components.

  What the predictor tables answer for a block is an argument (one prediction per stage).
  \<open>scheduleThread\<close> always answers thread 0, so the state is that of one thread. \<open>None\<close> is a
  failed assertion, those of a debug build included.
\<close>

section \<open>Branches and predictions\<close>

record branch_info =
  bi_pc :: addr
  bi_target :: addr
  bi_isCond :: bool
  bi_isIndirect :: bool
  bi_isDirect :: bool
  bi_isCall :: bool
  bi_isReturn :: bool
  bi_size :: addr

definition noBranch :: branch_info where
  "noBranch = \<lparr>bi_pc = 0, bi_target = 0, bi_isCond = False, bi_isIndirect = False,
     bi_isDirect = False, bi_isCall = False, bi_isReturn = False, bi_size = 0\<rparr>"

definition getEnd :: "'a branch_info_scheme \<Rightarrow> addr" where
  "getEnd b = bi_pc b + bi_size b"

record btb_entry = branch_info +
  e_valid :: bool

definition emptyEntry :: btb_entry where
  "emptyEntry = branch_info.extend noBranch \<lparr>e_valid = False\<rparr>"

record full_pred =
  bbStart :: addr
  btbEntries :: "btb_entry list"
  condTakens :: "(addr \<times> bool) list"
  indirectTargets :: "(addr \<times> addr) list"
  returnTarget :: addr

text \<open>The lookup in \<open>condTakens\<close> takes the first pair for the address.\<close>

definition predictedTaken :: "full_pred \<Rightarrow> btb_entry \<Rightarrow> bool" where
  "predictedTaken p e \<longleftrightarrow> map_of (condTakens p) (bi_pc e) = Some True"

fun taken_scan :: "full_pred \<Rightarrow> btb_entry list \<Rightarrow> btb_entry" where
  "taken_scan p [] = emptyEntry"
| "taken_scan p (e # es) =
     (if e_valid e \<and> (\<not> bi_isCond e \<or> predictedTaken p e) then e else taken_scan p es)"

definition getTakenEntry :: "full_pred \<Rightarrow> btb_entry" where
  "getTakenEntry p = taken_scan p (btbEntries p)"

definition isTaken :: "full_pred \<Rightarrow> bool" where
  "isTaken p = e_valid (getTakenEntry p)"

definition getFallThrough :: "nat \<Rightarrow> full_pred \<Rightarrow> addr" where
  "getFallThrough predictWidth p =
     (bbStart p + of_nat predictWidth) AND NOT (mask (floorLog2 predictWidth - 1))"

definition getEntryTarget :: "full_pred \<Rightarrow> btb_entry \<Rightarrow> addr" where
  "getEntryTarget p e =
     (if bi_isIndirect e then
        if \<not> bi_isReturn e then
          (case map_of (indirectTargets p) (bi_pc e) of Some t \<Rightarrow> t | None \<Rightarrow> bi_target e)
        else returnTarget p
      else bi_target e)"

definition getTarget :: "nat \<Rightarrow> full_pred \<Rightarrow> addr" where
  "getTarget predictWidth p =
     (let e = getTakenEntry p
      in if e_valid e then getEntryTarget p e else getFallThrough predictWidth p)"

definition controlAddr :: "full_pred \<Rightarrow> addr" where
  "controlAddr p = bi_pc (getTakenEntry p)"

datatype override_reason = NO_OVERRIDE | FALL_THRU | CONTROL_ADDR | TARGET | END | HIST_INFO

definition match :: "nat \<Rightarrow> full_pred \<Rightarrow> full_pred \<Rightarrow> bool \<times> override_reason" where
  "match predictWidth p q =
     (if isTaken p \<noteq> isTaken q then (False, FALL_THRU)
      else if isTaken p then
        if controlAddr p \<noteq> controlAddr q then (False, CONTROL_ADDR)
        else if getTarget predictWidth p \<noteq> getTarget predictWidth q then (False, TARGET)
        else (True, NO_OVERRIDE)
      else (True, NO_OVERRIDE))"

text \<open>The loops of \<open>getHistInfo\<close> and \<open>getBwHistInfo\<close>: the shift amount and the newest bit.\<close>

fun hist_scan :: "(btb_entry \<Rightarrow> bool) \<Rightarrow> full_pred \<Rightarrow> btb_entry list \<Rightarrow> nat \<Rightarrow> nat \<times> bool" where
  "hist_scan dir p [] shamt = (shamt, False)"
| "hist_scan dir p (e # es) shamt =
     (if \<not> e_valid e then hist_scan dir p es shamt
      else if bi_isCond e then
        if predictedTaken p e then (shamt + 1, dir e) else hist_scan dir p es (shamt + 1)
      else (shamt, False))"

definition getHistInfo :: "full_pred \<Rightarrow> nat \<times> bool" where
  "getHistInfo p = hist_scan (\<lambda>e. True) p (btbEntries p) 0"

definition getBwHistInfo :: "full_pred \<Rightarrow> nat \<times> bool" where
  "getBwHistInfo p = hist_scan (\<lambda>e. bi_target e < bi_pc e) p (btbEntries p) 0"

definition getPHistInfo :: "full_pred \<Rightarrow> addr \<times> addr \<times> bool" where
  "getPHistInfo p =
     (let e = getTakenEntry p
      in if e_valid e then (bi_pc e, getEntryTarget p e, True) else (0, 0, False))"

section \<open>The history manager\<close>

record history_entry =
  he_pc :: addr
  he_shamt :: nat
  he_taken :: bool
  he_isCall :: bool
  he_isReturn :: bool
  he_retAddr :: addr
  streamId :: nat

definition addSpeculativeHist ::
  "addr \<Rightarrow> nat \<Rightarrow> bool \<Rightarrow> branch_info \<Rightarrow> nat \<Rightarrow> history_entry list \<Rightarrow> history_entry list" where
  "addSpeculativeHist a shamt taken bi sid hs =
     hs @ [\<lparr>he_pc = a, he_shamt = shamt, he_taken = taken, he_isCall = bi_isCall bi,
            he_isReturn = bi_isReturn bi, he_retAddr = getEnd bi, streamId = sid\<rparr>]"

fun hm_commit :: "nat \<Rightarrow> history_entry list \<Rightarrow> history_entry list" where
  "hm_commit sid [] = []"
| "hm_commit sid (e # es) =
     (if streamId e \<le> sid then hm_commit sid es else e # hm_commit sid es)"

definition hm_correct :: "nat \<Rightarrow> bool \<Rightarrow> branch_info \<Rightarrow> history_entry \<Rightarrow> history_entry" where
  "hm_correct shamt taken bi e =
     e\<lparr>he_taken := taken, he_shamt := shamt, he_isCall := bi_isCall bi,
       he_isReturn := bi_isReturn bi, he_retAddr := getEnd bi\<rparr>"

fun hm_squash :: "nat \<Rightarrow> nat \<Rightarrow> bool \<Rightarrow> branch_info \<Rightarrow> history_entry list \<Rightarrow> history_entry list" where
  "hm_squash sid shamt taken bi [] = []"
| "hm_squash sid shamt taken bi (e # es) =
     (let rest = hm_squash sid shamt taken bi es in
      if streamId e = sid then hm_correct shamt taken bi e # rest
      else if sid < streamId e then rest else e # rest)"

text \<open>\<open>checkHistory\<close>: the history rebuilt from the entries, compared on as many bits as they
  give; \<open>ideal_size\<close> is an \<open>unsigned\<close>.\<close>

fun ideal_hist :: "history_entry list \<Rightarrow> nat \<times> bitset \<Rightarrow> nat \<times> bitset" where
  "ideal_hist [] x = x"
| "ideal_hist (e # es) x =
     (if he_shamt e \<noteq> 0
      then ideal_hist es ((fst x + he_shamt e) mod 2 ^ 32, (bs_shl (he_shamt e) (snd x))[0 := he_taken e])
      else ideal_hist es x)"

definition bs_resize :: "nat \<Rightarrow> bitset \<Rightarrow> bitset" where
  "bs_resize n h = take n h @ replicate (n - length h) False"

definition checkHistory :: "nat \<Rightarrow> history_entry list \<Rightarrow> bitset \<Rightarrow> bool" where
  "checkHistory historyBits hs h \<longleftrightarrow>
     (let x = ideal_hist hs (0, replicate historyBits False);
          comparable_size = min (fst x) historyBits
      in bs_resize comparable_size (snd x) = bs_resize comparable_size h)"

section \<open>Folded histories of the predictors\<close>

record tage_hist =
  indexFoldedHist :: "64 word list"
  tagFoldedHist :: "64 word list"
  altTagFoldedHist :: "64 word list"

record mgsc_hist =
  indexGFoldedHist :: "64 word list"
  indexPFoldedHist :: "64 word list"
  indexBwFoldedHist :: "64 word list"
  indexIFoldedHist :: "64 word list"
  indexLFoldedHist :: "64 word list list"

record bpu_cfg =
  predictWidth :: nat
  historyBits :: nat
  ftqSize :: nat
  numStages :: nat
  rasDelay :: nat
  tageIndexCfg :: "folded_cfg list"
  tageTagCfg :: "folded_cfg list"
  tageAltTagCfg :: "folded_cfg list"
  gCfg :: "folded_cfg list"
  pCfg :: "folded_cfg list"
  bwCfg :: "folded_cfg list"
  iCfg :: "folded_cfg list"
  lCfg :: "folded_cfg list"
  numEntriesFirstLocalHistories :: nat
  mgscBlockSize :: nat

fun update_all :: "(folded_cfg \<Rightarrow> 64 word \<Rightarrow> 64 word option) \<Rightarrow> folded_cfg list \<Rightarrow> 64 word list
    \<Rightarrow> 64 word list option" where
  "update_all upd (c # cs) (f # fs) =
     (case upd c f of None \<Rightarrow> None | Some g \<Rightarrow> map_option ((#) g) (update_all upd cs fs))"
| "update_all upd [] [] = Some []"
| "update_all upd _ _ = None"

text \<open>\<open>FoldedHistBase::recover\<close> on each history of a vector, from the saved copy.\<close>

fun recover_all :: "folded_cfg list \<Rightarrow> 64 word list \<Rightarrow> 64 word list \<Rightarrow> 64 word list option" where
  "recover_all (c # cs) (f # fs) (g # gs) =
     (case recover (c, f) (c, g) of
        None \<Rightarrow> None
      | Some x \<Rightarrow> map_option ((#) (snd x)) (recover_all cs fs gs))"
| "recover_all [] [] [] = Some []"
| "recover_all _ _ _ = None"

definition check_all :: "folded_cfg list \<Rightarrow> bitset \<Rightarrow> 64 word list \<Rightarrow> bool" where
  "check_all cs h fs \<longleftrightarrow> fs = map (\<lambda>c. fold_hist c h) cs"

definition tage_doUpdateHist ::
  "bpu_cfg \<Rightarrow> bitset \<Rightarrow> bool \<Rightarrow> addr \<Rightarrow> addr \<Rightarrow> tage_hist \<Rightarrow> tage_hist option" where
  "tage_doUpdateHist cfg h taken pc target t =
     (if \<not> taken then Some t
      else let upd = (\<lambda>c. path_doUpdateHist c (taken, pc, target) h) in
        case (update_all upd (tageIndexCfg cfg) (indexFoldedHist t),
              update_all upd (tageTagCfg cfg) (tagFoldedHist t),
              update_all upd (tageAltTagCfg cfg) (altTagFoldedHist t)) of
          (Some a, Some b, Some c) \<Rightarrow>
            Some \<lparr>indexFoldedHist = a, tagFoldedHist = b, altTagFoldedHist = c\<rparr>
        | _ \<Rightarrow> None)"

definition tage_recoverPHist ::
  "bpu_cfg \<Rightarrow> bitset \<Rightarrow> tage_hist \<Rightarrow> bool \<Rightarrow> addr \<Rightarrow> addr \<Rightarrow> tage_hist \<Rightarrow> tage_hist option" where
  "tage_recoverPHist cfg h meta taken pc target t =
     (case (recover_all (tageIndexCfg cfg) (indexFoldedHist t) (indexFoldedHist meta),
            recover_all (tageTagCfg cfg) (tagFoldedHist t) (tagFoldedHist meta),
            recover_all (tageAltTagCfg cfg) (altTagFoldedHist t) (altTagFoldedHist meta)) of
        (Some a, Some b, Some c) \<Rightarrow>
          tage_doUpdateHist cfg h taken pc target
            \<lparr>indexFoldedHist = a, tagFoldedHist = b, altTagFoldedHist = c\<rparr>
      | _ \<Rightarrow> None)"

definition tage_checkFoldedHist :: "bpu_cfg \<Rightarrow> bitset \<Rightarrow> tage_hist \<Rightarrow> bool" where
  "tage_checkFoldedHist cfg h t \<longleftrightarrow>
     check_all (tageIndexCfg cfg) h (indexFoldedHist t) \<and>
     check_all (tageTagCfg cfg) h (tagFoldedHist t) \<and>
     check_all (tageAltTagCfg cfg) h (altTagFoldedHist t)"

definition getPcIndex :: "bpu_cfg \<Rightarrow> addr \<Rightarrow> nat \<Rightarrow> nat" where
  "getPcIndex cfg pc tableIndexBits =
     unat (drop_bit (floorLog2 (mgscBlockSize cfg)) pc AND mask tableIndexBits)"

definition local_index :: "bpu_cfg \<Rightarrow> addr \<Rightarrow> nat" where
  "local_index cfg pc = getPcIndex cfg pc (floorLog2 (numEntriesFirstLocalHistories cfg))"

text \<open>The histories of MGSC, updated one after the other from the registers before the
  update: \<open>specUpdateHist\<close>, \<open>specUpdatePHist\<close>, \<open>specUpdateBwHist\<close>, \<open>specUpdateIHist\<close>,
  \<open>specUpdateLHist\<close>.\<close>

definition imli_doUpdateHist :: "folded_cfg \<Rightarrow> nat \<times> bool \<Rightarrow> 64 word \<Rightarrow> 64 word option" where
  "imli_doUpdateHist c e f = (if fst e = 0 then Some f else imli_update c (snd e) f)"

definition mgsc_updateLHist ::
  "bpu_cfg \<Rightarrow> bitset list \<Rightarrow> addr \<Rightarrow> nat \<times> bool \<Rightarrow> 64 word list list \<Rightarrow> 64 word list list option" where
  "mgsc_updateLHist cfg lhist pc e fs =
     (let k = local_index cfg pc in
      if \<not> k < length lhist \<or> \<not> k < length fs then None
      else map_option (\<lambda>x. fs[k := x]) (update_all (\<lambda>c. doUpdateHist c e (lhist ! k)) (lCfg cfg) (fs ! k)))"

definition mgsc_update ::
  "bpu_cfg \<Rightarrow> bitset \<Rightarrow> bitset \<Rightarrow> bitset \<Rightarrow> bitset list \<Rightarrow> addr \<Rightarrow> nat \<times> bool \<Rightarrow> nat \<times> bool
     \<Rightarrow> bool \<times> addr \<times> addr \<Rightarrow> mgsc_hist \<Rightarrow> mgsc_hist option" where
  "mgsc_update cfg gh ph bwh lh startPC e bwe pe m =
     (case (update_all (\<lambda>c. doUpdateHist c e gh) (gCfg cfg) (indexGFoldedHist m),
            update_all (\<lambda>c. path_doUpdateHist c pe ph) (pCfg cfg) (indexPFoldedHist m),
            update_all (\<lambda>c. doUpdateHist c bwe bwh) (bwCfg cfg) (indexBwFoldedHist m),
            update_all (\<lambda>c. imli_doUpdateHist c bwe) (iCfg cfg) (indexIFoldedHist m),
            mgsc_updateLHist cfg lh startPC e (indexLFoldedHist m)) of
        (Some g, Some p, Some b, Some i, Some l) \<Rightarrow>
          Some \<lparr>indexGFoldedHist = g, indexPFoldedHist = p, indexBwFoldedHist = b,
                indexIFoldedHist = i, indexLFoldedHist = l\<rparr>
      | _ \<Rightarrow> None)"

fun recover_lists :: "folded_cfg list \<Rightarrow> 64 word list list \<Rightarrow> 64 word list list \<Rightarrow> 64 word list list option" where
  "recover_lists cs (f # fs) (g # gs) =
     (case recover_all cs f g of None \<Rightarrow> None | Some x \<Rightarrow> map_option ((#) x) (recover_lists cs fs gs))"
| "recover_lists cs [] [] = Some []"
| "recover_lists cs _ _ = None"

definition mgsc_recover :: "bpu_cfg \<Rightarrow> mgsc_hist \<Rightarrow> mgsc_hist \<Rightarrow> mgsc_hist option" where
  "mgsc_recover cfg meta m =
     (case (recover_all (gCfg cfg) (indexGFoldedHist m) (indexGFoldedHist meta),
            recover_all (pCfg cfg) (indexPFoldedHist m) (indexPFoldedHist meta),
            recover_all (bwCfg cfg) (indexBwFoldedHist m) (indexBwFoldedHist meta),
            recover_all (iCfg cfg) (indexIFoldedHist m) (indexIFoldedHist meta),
            recover_lists (lCfg cfg) (indexLFoldedHist m) (indexLFoldedHist meta)) of
        (Some g, Some p, Some b, Some i, Some l) \<Rightarrow>
          Some \<lparr>indexGFoldedHist = g, indexPFoldedHist = p, indexBwFoldedHist = b,
                indexIFoldedHist = i, indexLFoldedHist = l\<rparr>
      | _ \<Rightarrow> None)"

definition mgsc_checkFoldedHist :: "bpu_cfg \<Rightarrow> bitset \<Rightarrow> bitset \<Rightarrow> bitset list \<Rightarrow> mgsc_hist \<Rightarrow> bool" where
  "mgsc_checkFoldedHist cfg gh ph lh m \<longleftrightarrow>
     check_all (gCfg cfg) gh (indexGFoldedHist m) \<and> check_all (pCfg cfg) ph (indexPFoldedHist m) \<and>
     length lh = length (indexLFoldedHist m) \<and>
     list_all2 (\<lambda>h fs. check_all (lCfg cfg) h fs) lh (indexLFoldedHist m)"

section \<open>Fetch targets\<close>

datatype squash_type = SQUASH_NONE | SQUASH_TRAP | SQUASH_CTRL | SQUASH_OTHER

record pred_meta =
  pm_ras :: ras_meta
  pm_tage :: tage_hist
  pm_mgsc :: mgsc_hist

record fetch_target =
  startPC :: addr
  predTaken :: bool
  predEndPC :: addr
  predBranchInfo :: branch_info
  isHit :: bool
  predBTBEntries :: "btb_entry list"
  exeTaken :: bool
  exeBranchInfo :: branch_info
  resolved :: bool
  squashPC :: addr
  squashType :: squash_type
  predMetas :: pred_meta
  history :: bitset
  phistory :: bitset
  bwhistory :: bitset
  lhistory :: "bitset list"

definition setDefaultResolve :: "fetch_target \<Rightarrow> fetch_target" where
  "setDefaultResolve t = t\<lparr>resolved := False, exeBranchInfo := predBranchInfo t, exeTaken := predTaken t\<rparr>"

definition getBranchInfo :: "fetch_target \<Rightarrow> branch_info" where
  "getBranchInfo t = (if resolved t then exeBranchInfo t else predBranchInfo t)"

definition getControlPC :: "fetch_target \<Rightarrow> addr" where
  "getControlPC t = bi_pc (getBranchInfo t)"

definition getTakenTarget :: "fetch_target \<Rightarrow> addr" where
  "getTakenTarget t = bi_target (getBranchInfo t)"

definition squash_shamt :: "fetch_target \<Rightarrow> addr \<Rightarrow> nat" where
  "squash_shamt t pc =
     length (filter (\<lambda>e. e_valid e \<and> startPC t \<le> bi_pc e \<and> bi_pc e < pc) (predBTBEntries t))"

definition getHistInfoDuringSquash :: "fetch_target \<Rightarrow> addr \<Rightarrow> bool \<Rightarrow> bool \<Rightarrow> nat \<times> bool" where
  "getHistInfoDuringSquash t squash_pc is_cond actually_taken =
     (if is_cond then (squash_shamt t squash_pc + 1, actually_taken) else (squash_shamt t squash_pc, False))"

definition getBwHistInfoDuringSquash ::
  "fetch_target \<Rightarrow> addr \<Rightarrow> bool \<Rightarrow> bool \<Rightarrow> addr \<Rightarrow> nat \<times> bool" where
  "getBwHistInfoDuringSquash t squash_pc is_cond actually_taken target =
     (if is_cond then (squash_shamt t squash_pc + 1, actually_taken \<and> target < squash_pc)
      else (squash_shamt t squash_pc, False))"

section \<open>The fetch target queue\<close>

record ftq =
  ftq_cap :: "fetch_target list"
  baseTargetId :: nat
  fetchptr :: nat

definition backId :: "ftq \<Rightarrow> nat" where
  "backId q = baseTargetId q + length (ftq_cap q) - 1"

definition hasTarget :: "nat \<Rightarrow> ftq \<Rightarrow> bool" where
  "hasTarget i q \<longleftrightarrow> baseTargetId q \<le> i \<and> i < baseTargetId q + length (ftq_cap q)"

definition get_target :: "nat \<Rightarrow> ftq \<Rightarrow> fetch_target option" where
  "get_target i q = (if hasTarget i q then Some (ftq_cap q ! (i - baseTargetId q)) else None)"

definition ftq_full :: "nat \<Rightarrow> ftq \<Rightarrow> bool" where
  "ftq_full cap q \<longleftrightarrow> cap \<le> length (ftq_cap q)"

definition insert_target :: "nat \<Rightarrow> fetch_target \<Rightarrow> ftq \<Rightarrow> ftq option" where
  "insert_target cap t q =
     (if length (ftq_cap q) < cap then Some (q\<lparr>ftq_cap := ftq_cap q @ [t]\<rparr>) else None)"

definition finishTarget :: "ftq \<Rightarrow> ftq" where
  "finishTarget q = q\<lparr>fetchptr := fetchptr q + 1\<rparr>"

definition commitTarget :: "ftq \<Rightarrow> ftq" where
  "commitTarget q = q\<lparr>ftq_cap := tl (ftq_cap q), baseTargetId := baseTargetId q + 1\<rparr>"

function pop_after :: "nat \<Rightarrow> ftq \<Rightarrow> ftq" where
  "pop_after i q =
     (if ftq_cap q \<noteq> [] \<and> i < backId q then pop_after i (q\<lparr>ftq_cap := butlast (ftq_cap q)\<rparr>) else q)"
  by pat_completeness auto
termination
  by (relation "measure (\<lambda>(i, q). length (ftq_cap q))") auto

declare pop_after.simps [simp del]

definition squashAfter :: "nat \<Rightarrow> ftq \<Rightarrow> ftq" where
  "squashAfter i q = (pop_after i q)\<lparr>fetchptr := i + 1\<rparr>"

section \<open>The prediction unit\<close>

record bpu =
  s0PC :: addr
  s0History :: bitset
  s0PHistory :: bitset
  s0BwHistory :: bitset
  s0LHistory :: "bitset list"
  finalPred :: full_pred
  finalMetas :: pred_meta
  numOverrideBubbles :: nat
  validprediction :: bool
  squashing :: bool
  blockPredictionPending :: bool
  bpu_ftq :: ftq
  historyManager :: "history_entry list"
  tageS :: tage_hist
  mgscS :: mgsc_hist
  bpu_ras :: ras

definition to_ras :: "'a branch_info_scheme \<Rightarrow> ras_branch" where
  "to_ras b = \<lparr>b_isCall = bi_isCall b, b_isReturn = bi_isReturn b, b_pc = bi_pc b, b_size = bi_size b\<rparr>"

subsection \<open>Prediction\<close>

text \<open>The final prediction is the last stage that hit; bubbles are inserted for every stage
  that answered something else. The tables that learn from the last stage are not modelled.\<close>

definition choose_pred :: "full_pred list \<Rightarrow> full_pred" where
  "choose_pred stages =
     (case find (\<lambda>p. btbEntries p \<noteq> []) (rev stages) of Some p \<Rightarrow> p | None \<Rightarrow> hd stages)"

fun first_hit :: "nat \<Rightarrow> full_pred \<Rightarrow> full_pred list \<Rightarrow> nat" where
  "first_hit w chosen (p # q # ps) =
     (if fst (match w p chosen) then 0 else Suc (first_hit w chosen (q # ps)))"
| "first_hit w chosen _ = 0"

definition generateFinalPredAndCreateBubbles :: "bpu_cfg \<Rightarrow> full_pred list \<Rightarrow> bpu \<Rightarrow> bpu option" where
  "generateFinalPredAndCreateBubbles cfg stages s =
     (if length stages \<noteq> numStages cfg \<or> numStages cfg < 3 then None
      else let chosen = choose_pred stages in
        Some (s\<lparr>finalPred := chosen, numOverrideBubbles := first_hit (predictWidth cfg) chosen stages\<rparr>))"

text \<open>\<open>requestNewPrediction\<close>: every component saves what it needs to recover; the return
  address stack gives its top to the stages it is in time for.\<close>

definition stage_inputs :: "bpu_cfg \<Rightarrow> bpu \<Rightarrow> full_pred list \<Rightarrow> full_pred list" where
  "stage_inputs cfg s stages =
     map (\<lambda>(i, p). let q = p\<lparr>bbStart := s0PC s\<rparr> in
            if rasDelay cfg \<le> i then q\<lparr>returnTarget := retAddr (getTop (bpu_ras s))\<rparr> else q)
       (enumerate 0 stages)"

definition requestNewPrediction :: "bpu_cfg \<Rightarrow> full_pred list \<Rightarrow> bpu \<Rightarrow> bpu option" where
  "requestNewPrediction cfg stages s =
     (if \<not> rasDelay cfg < length stages then None
      else map_option (\<lambda>s1. s1\<lparr>validprediction := True\<rparr>)
        (generateFinalPredAndCreateBubbles cfg (stage_inputs cfg s stages)
          (s\<lparr>finalMetas := \<lparr>pm_ras = fst (getTop_meta (bpu_ras s)), pm_tage = tageS s, pm_mgsc = mgscS s\<rparr>\<rparr>)))"

definition createFetchTargetEntry :: "bpu_cfg \<Rightarrow> bpu \<Rightarrow> fetch_target" where
  "createFetchTargetEntry cfg s =
     (let p = finalPred s; taken = isTaken p;
          bi = (if taken then branch_info.truncate (getTakenEntry p)\<lparr>bi_target := getTarget (predictWidth cfg) p\<rparr>
                else noBranch)
      in setDefaultResolve
        \<lparr>startPC = s0PC s, predTaken = taken, predEndPC = getFallThrough (predictWidth cfg) p,
         predBranchInfo = bi, isHit = (btbEntries p \<noteq> []), predBTBEntries = btbEntries p,
         exeTaken = False, exeBranchInfo = noBranch, resolved = False, squashPC = 0,
         squashType = SQUASH_NONE, predMetas = finalMetas s, history = s0History s,
         phistory = s0PHistory s, bwhistory = s0BwHistory s, lhistory = s0LHistory s\<rparr>)"

definition local_shift :: "bpu_cfg \<Rightarrow> addr \<Rightarrow> nat \<times> bool \<Rightarrow> bitset list \<Rightarrow> bitset list" where
  "local_shift cfg pc e lh =
     (let k = local_index cfg pc in lh[k := histShiftIn (fst e) (snd e) (lh ! k)])"

text \<open>The run-time checks after an update of the histories.\<close>

definition check_folded :: "bpu_cfg \<Rightarrow> bpu \<Rightarrow> bpu option" where
  "check_folded cfg s =
     (if tage_checkFoldedHist cfg (s0PHistory s) (tageS s) \<and>
         mgsc_checkFoldedHist cfg (s0History s) (s0PHistory s) (s0LHistory s) (mgscS s)
      then Some s else None)"

definition updateHistoryForPrediction :: "bpu_cfg \<Rightarrow> fetch_target \<Rightarrow> bpu \<Rightarrow> bpu option" where
  "updateHistoryForPrediction cfg entry s =
     (let p = finalPred s; e = getHistInfo p; bwe = getBwHistInfo p in
      case getPHistInfo p of (p_pc, p_target, p_taken) \<Rightarrow>
      (case (tage_doUpdateHist cfg (s0PHistory s) p_taken p_pc p_target (tageS s),
            mgsc_update cfg (s0History s) (s0PHistory s) (s0BwHistory s) (s0LHistory s) (bbStart p)
              e bwe (p_taken, p_pc, p_target) (mgscS s)) of
        (Some t1, Some m1) \<Rightarrow>
          check_folded cfg
            (s\<lparr>tageS := t1, mgscS := m1,
               bpu_ras := specUpdateHist (to_ras (getTakenEntry p)) (bpu_ras s),
               s0History := histShiftIn (fst e) (snd e) (s0History s),
               historyManager := addSpeculativeHist (startPC entry) (fst e) (snd e)
                 (predBranchInfo entry) (backId (bpu_ftq s) + 1) (historyManager s),
               s0BwHistory := histShiftIn (fst bwe) (snd bwe) (s0BwHistory s),
               s0PHistory := pHistShiftIn 2 p_taken (s0PHistory s) p_pc p_target,
               s0LHistory := local_shift cfg (bbStart p) e (s0LHistory s)\<rparr>)
      | _ \<Rightarrow> None))"

definition processNewPrediction :: "bpu_cfg \<Rightarrow> bpu \<Rightarrow> bpu option" where
  "processNewPrediction cfg s =
     (if \<not> validprediction s \<or> 0 < numOverrideBubbles s \<or> ftq_full (ftqSize cfg) (bpu_ftq s) \<or>
         s0PC s = - 1 then Some s
      else let entry = createFetchTargetEntry cfg s in
        case updateHistoryForPrediction cfg entry (s\<lparr>s0PC := getTarget (predictWidth cfg) (finalPred s)\<rparr>) of
          None \<Rightarrow> None
        | Some s1 \<Rightarrow>
            map_option (\<lambda>q. s1\<lparr>bpu_ftq := q, validprediction := False\<rparr>)
              (insert_target (ftqSize cfg) entry (bpu_ftq s1)))"

definition bpu_tick :: "bpu_cfg \<Rightarrow> full_pred list \<Rightarrow> bpu \<Rightarrow> bpu option" where
  "bpu_tick cfg stages s =
     (if squashing s then Some (s\<lparr>validprediction := False, numOverrideBubbles := 0, squashing := False\<rparr>)
      else
        case (if \<not> validprediction s \<and> \<not> ftq_full (ftqSize cfg) (bpu_ftq s) then
                if blockPredictionPending s then Some (s\<lparr>blockPredictionPending := False\<rparr>)
                else requestNewPrediction cfg stages s
              else Some s) of
          None \<Rightarrow> None
        | Some s1 \<Rightarrow>
            map_option (\<lambda>s2. s2\<lparr>numOverrideBubbles := numOverrideBubbles s2 - 1\<rparr>)
              (processNewPrediction cfg s1))"

definition consumeFetchTarget :: "bpu \<Rightarrow> bpu option" where
  "consumeFetchTarget s =
     (if hasTarget (fetchptr (bpu_ftq s)) (bpu_ftq s)
      then Some (s\<lparr>bpu_ftq := finishTarget (bpu_ftq s)\<rparr>) else None)"

subsection \<open>Squashes\<close>

text \<open>\<open>recoverHistoryForSquash\<close>: the registers of the squashed target come back, the
  components recover and are updated from them, and then the registers are.\<close>

definition recoverHistoryForSquash ::
  "bpu_cfg \<Rightarrow> fetch_target \<Rightarrow> nat \<Rightarrow> addr \<Rightarrow> bool \<Rightarrow> bool \<Rightarrow> squash_type \<Rightarrow> addr \<Rightarrow> bpu \<Rightarrow> bpu option" where
  "recoverHistoryForSquash cfg target target_id squash_pc is_conditional actually_taken type redirect_pc s =
     (let e = getHistInfoDuringSquash target squash_pc is_conditional actually_taken;
          bwe = getBwHistInfoDuringSquash target squash_pc is_conditional actually_taken redirect_pc in
      case (tage_recoverPHist cfg (phistory target) (pm_tage (predMetas target)) (snd e)
              (getControlPC target) (getTakenTarget target) (tageS s),
            mgsc_recover cfg (pm_mgsc (predMetas target)) (mgscS s)) of
        (Some t1, Some m0) \<Rightarrow>
          (case mgsc_update cfg (history target) (phistory target) (bwhistory target) (lhistory target)
                  (startPC target) e bwe (snd e, getControlPC target, getTakenTarget target) m0 of
             None \<Rightarrow> None
           | Some m1 \<Rightarrow>
               let hm = hm_squash target_id (fst e) (snd e)
                          (if type = SQUASH_CTRL then exeBranchInfo target else noBranch) (historyManager s);
                   h = histShiftIn (fst e) (snd e) (history target)
               in if \<not> checkHistory (historyBits cfg) hm h then None
                  else check_folded cfg
                    (s\<lparr>tageS := t1, mgscS := m1,
                       bpu_ras := recoverHist (pm_ras (predMetas target)) (exeTaken target)
                         (to_ras (exeBranchInfo target)) (bpu_ras s),
                       s0History := h, historyManager := hm,
                       s0PHistory := pHistShiftIn 2 (snd e) (phistory target) squash_pc redirect_pc,
                       s0BwHistory := histShiftIn (fst bwe) (snd bwe) (bwhistory target),
                       s0LHistory := local_shift cfg (startPC target) e (lhistory target)\<rparr>))
      | _ \<Rightarrow> None)"

definition update_target :: "nat \<Rightarrow> (fetch_target \<Rightarrow> fetch_target) \<Rightarrow> ftq \<Rightarrow> ftq" where
  "update_target i f q = q\<lparr>ftq_cap := (ftq_cap q)[i - baseTargetId q := f (ftq_cap q ! (i - baseTargetId q))]\<rparr>"

definition resolve_target ::
  "squash_type \<Rightarrow> addr \<Rightarrow> bool \<Rightarrow> branch_info option \<Rightarrow> fetch_target \<Rightarrow> fetch_target" where
  "resolve_target type squash_pc actually_taken bi t =
     (let t1 = t\<lparr>resolved := True, exeTaken := actually_taken, squashPC := squash_pc, squashType := type\<rparr>
      in case bi of Some b \<Rightarrow> if type = SQUASH_CTRL then t1\<lparr>exeBranchInfo := b\<rparr> else t1 | None \<Rightarrow> t1)"

text \<open>\<open>handleSquash\<close>; \<open>bi\<close> is the \<open>BranchInfo\<close> built from the static instruction.\<close>

definition handleSquash ::
  "bpu_cfg \<Rightarrow> nat \<Rightarrow> squash_type \<Rightarrow> addr \<Rightarrow> addr \<Rightarrow> bool \<Rightarrow> bool \<Rightarrow> branch_info option \<Rightarrow> bpu \<Rightarrow> bpu option" where
  "handleSquash cfg target_id type squash_pc redirect_pc is_conditional actually_taken bi s =
     (let s0 = s\<lparr>squashing := True\<rparr> in
      if \<not> hasTarget target_id (bpu_ftq s) then (if ftq_cap (bpu_ftq s) = [] then None else Some s0)
      else
        let q = update_target target_id (resolve_target type squash_pc actually_taken bi) (bpu_ftq s);
            target = ftq_cap q ! (target_id - baseTargetId q)
        in map_option (\<lambda>s1. s1\<lparr>s0PC := redirect_pc\<rparr>)
             (recoverHistoryForSquash cfg target target_id squash_pc is_conditional actually_taken type
               redirect_pc (s0\<lparr>bpu_ftq := squashAfter target_id q\<rparr>)))"

record ctrl_static =
  cs_isCondCtrl :: bool
  cs_isIndirectCtrl :: bool
  cs_isDirectCtrl :: bool
  cs_isCall :: bool
  cs_isReturn :: bool
  cs_isNonSpeculative :: bool

definition newBranchInfo :: "addr \<Rightarrow> addr \<Rightarrow> ctrl_static \<Rightarrow> addr \<Rightarrow> branch_info" where
  "newBranchInfo control_pc target_pc i sz =
     \<lparr>bi_pc = control_pc, bi_target = target_pc, bi_isCond = cs_isCondCtrl i,
      bi_isIndirect = cs_isIndirectCtrl i, bi_isDirect = cs_isDirectCtrl i, bi_isCall = cs_isCall i,
      bi_isReturn = (cs_isReturn i \<and> \<not> cs_isNonSpeculative i \<and> \<not> cs_isDirectCtrl i), bi_size = sz\<rparr>"

definition controlSquash ::
  "bpu_cfg \<Rightarrow> nat \<Rightarrow> addr \<Rightarrow> addr \<Rightarrow> ctrl_static \<Rightarrow> addr \<Rightarrow> bool \<Rightarrow> bool \<Rightarrow> bpu \<Rightarrow> bpu option" where
  "controlSquash cfg target_id control_pc corr_target i sz actually_taken fromCommit s =
     (case get_target target_id (bpu_ftq s) of
        None \<Rightarrow> Some s
      | Some target \<Rightarrow>
          let real_target = (if \<not> fromCommit \<and> cs_isReturn i \<and> \<not> cs_isNonSpeculative i
                             then m_target (pm_ras (predMetas target)) else corr_target)
          in handleSquash cfg target_id SQUASH_CTRL control_pc real_target (cs_isCondCtrl i) actually_taken
               (Some (newBranchInfo control_pc real_target i sz)) s)"

definition nonControlSquash :: "bpu_cfg \<Rightarrow> nat \<Rightarrow> addr \<Rightarrow> bpu \<Rightarrow> bpu option" where
  "nonControlSquash cfg target_id inst_pc s =
     handleSquash cfg target_id SQUASH_OTHER inst_pc inst_pc False False None s"

definition trapSquash :: "bpu_cfg \<Rightarrow> nat \<Rightarrow> addr \<Rightarrow> bpu \<Rightarrow> bpu option" where
  "trapSquash cfg target_id inst_pc s =
     handleSquash cfg target_id SQUASH_TRAP inst_pc inst_pc False False None s"

subsection \<open>Commit\<close>

text \<open>Of the components only the return address stack is updated here; the tables are not
  modelled.\<close>

definition updatePredictorComponents :: "fetch_target \<Rightarrow> ras \<Rightarrow> ras" where
  "updatePredictorComponents t r =
     (if isHit t \<or> exeTaken t
      then RAS.update (pm_ras (predMetas t)) (exeTaken t) (to_ras (exeBranchInfo t)) r else r)"

function commit_targets :: "nat \<Rightarrow> ftq \<Rightarrow> ras \<Rightarrow> ftq \<times> ras" where
  "commit_targets target_id q r =
     (if ftq_cap q \<noteq> [] \<and> baseTargetId q \<le> target_id
      then commit_targets target_id (commitTarget q) (updatePredictorComponents (hd (ftq_cap q)) r)
      else (q, r))"
  by pat_completeness auto
termination
  by (relation "measure (\<lambda>(i, q, r). length (ftq_cap q))") (auto simp: commitTarget_def)

declare commit_targets.simps [simp del]

definition bpu_commit :: "nat \<Rightarrow> bpu \<Rightarrow> bpu" where
  "bpu_commit target_id s =
     (if ftq_cap (bpu_ftq s) = [] then s
      else case commit_targets target_id (bpu_ftq s) (bpu_ras s) of
        (q, r) \<Rightarrow> s\<lparr>bpu_ftq := q, bpu_ras := r, historyManager := hm_commit target_id (historyManager s)\<rparr>)"

definition blockPredictionOnce :: "bpu \<Rightarrow> bpu" where
  "blockPredictionOnce s = s\<lparr>blockPredictionPending := True\<rparr>"

subsection \<open>Construction and runs\<close>

definition zero_hists :: "folded_cfg list \<Rightarrow> 64 word list" where
  "zero_hists cs = map (\<lambda>c. 0) cs"

definition init_tage :: "bpu_cfg \<Rightarrow> tage_hist" where
  "init_tage cfg = \<lparr>indexFoldedHist = zero_hists (tageIndexCfg cfg),
     tagFoldedHist = zero_hists (tageTagCfg cfg), altTagFoldedHist = zero_hists (tageAltTagCfg cfg)\<rparr>"

definition init_mgsc :: "bpu_cfg \<Rightarrow> mgsc_hist" where
  "init_mgsc cfg = \<lparr>indexGFoldedHist = zero_hists (gCfg cfg), indexPFoldedHist = zero_hists (pCfg cfg),
     indexBwFoldedHist = zero_hists (bwCfg cfg), indexIFoldedHist = zero_hists (iCfg cfg),
     indexLFoldedHist = replicate (numEntriesFirstLocalHistories cfg) (zero_hists (lCfg cfg))\<rparr>"

definition init_bpu :: "bpu_cfg \<Rightarrow> ras \<Rightarrow> bpu" where
  "init_bpu cfg r =
     \<lparr>s0PC = 0x80000000, s0History = replicate (historyBits cfg) False,
      s0PHistory = replicate (historyBits cfg) False, s0BwHistory = replicate (historyBits cfg) False,
      s0LHistory = replicate (numEntriesFirstLocalHistories cfg) (replicate (historyBits cfg) False),
      finalPred = \<lparr>bbStart = 0, btbEntries = [], condTakens = [], indirectTargets = [], returnTarget = 0\<rparr>,
      finalMetas = \<lparr>pm_ras = fst (getTop_meta r), pm_tage = init_tage cfg, pm_mgsc = init_mgsc cfg\<rparr>,
      numOverrideBubbles = 0, validprediction = False, squashing = True, blockPredictionPending = False,
      bpu_ftq = \<lparr>ftq_cap = [], baseTargetId = 1, fetchptr = 1\<rparr>, historyManager = [],
      tageS = init_tage cfg, mgscS = init_mgsc cfg, bpu_ras = r\<rparr>"

datatype bpu_event =
  BTick "full_pred list"
| BConsume
| BCommit nat
| BControlSquash nat addr addr ctrl_static addr bool bool
| BNonControlSquash nat addr
| BTrapSquash nat addr
| BBlock

fun bpu_step :: "bpu_cfg \<Rightarrow> bpu_event \<Rightarrow> bpu \<Rightarrow> bpu option" where
  "bpu_step cfg (BTick stages) s = bpu_tick cfg stages s"
| "bpu_step cfg BConsume s = consumeFetchTarget s"
| "bpu_step cfg (BCommit i) s = Some (bpu_commit i s)"
| "bpu_step cfg (BControlSquash i pc tgt st sz taken fromCommit) s =
     controlSquash cfg i pc tgt st sz taken fromCommit s"
| "bpu_step cfg (BNonControlSquash i pc) s = nonControlSquash cfg i pc s"
| "bpu_step cfg (BTrapSquash i pc) s = trapSquash cfg i pc s"
| "bpu_step cfg BBlock s = Some (blockPredictionOnce s)"

fun bpu_run :: "bpu_cfg \<Rightarrow> bpu_event list \<Rightarrow> bpu \<Rightarrow> bpu option" where
  "bpu_run cfg [] s = Some s"
| "bpu_run cfg (e # es) s = (case bpu_step cfg e s of None \<Rightarrow> None | Some s1 \<Rightarrow> bpu_run cfg es s1)"

end
