(* ===== verification/BpuProps.thy ===== *)
theory BpuProps
  imports Bpu
begin

text \<open>
  What the prediction unit guarantees. The history manager and the fetch target queue are
  squashable queues; the assertions of the unit (queue bounds, folded histories against their
  registers, the register against the history manager) hold through every run; a squash that
  confirms the prediction of a block leaves the direction histories as predicted, and the
  path history too when the branch is conditional.
\<close>

section \<open>History manager\<close>

lemma hm_commit_filter: "hm_commit sid hs = filter (\<lambda>e. sid < streamId e) hs"
  by (induction hs) auto

lemma streamId_hm_correct [simp]: "streamId (hm_correct sh tk bi e) = streamId e"
  by (simp add: hm_correct_def)

lemma map_streamId_hm_squash:
  "map streamId (hm_squash sid sh tk bi hs) = filter (\<lambda>j. j \<le> sid) (map streamId hs)"
  by (induction hs) (auto simp: Let_def)

lemma hm_squash_append: "hm_squash sid sh tk bi (xs @ ys) = hm_squash sid sh tk bi xs @ hm_squash sid sh tk bi ys"
  by (induction xs) (auto simp: Let_def)

lemma hm_squash_older: "\<forall>e\<in>set xs. streamId e < sid \<Longrightarrow> hm_squash sid sh tk bi xs = xs"
  by (induction xs) (auto simp: Let_def)

lemma hm_squash_younger: "\<forall>e\<in>set xs. sid < streamId e \<Longrightarrow> hm_squash sid sh tk bi xs = []"
  by (induction xs) (auto simp: Let_def)

text \<open>The register that the entries rebuild from a given start.\<close>

definition replay :: "history_entry list \<Rightarrow> bitset \<Rightarrow> bitset" where
  "replay hs b = fold (\<lambda>e. histShiftIn (he_shamt e) (he_taken e)) hs b"

lemma replay_simps [simp]:
  "replay [] b = b" "replay (xs @ ys) b = replay ys (replay xs b)"
  "replay [e] b = histShiftIn (he_shamt e) (he_taken e) b"
  by (simp_all add: replay_def)

lemma length_replay [simp]: "length (replay hs b) = length b"
  by (induction hs arbitrary: b) (simp_all add: replay_def)

lemma ideal_hist_replay: "snd (ideal_hist hs x) = replay hs (snd x)"
  by (induction hs arbitrary: x) (simp_all add: replay_def histShiftIn_def)

lemma ideal_hist_size: "fst (ideal_hist hs x) \<le> fst x + sum_list (map he_shamt hs)"
proof (induction hs arbitrary: x)
  case (Cons e es)
  have "(fst x + he_shamt e) mod 2 ^ 32 \<le> fst x + he_shamt e"
    by (rule mod_less_eq_dividend)
  then show ?case
    using Cons.IH [of x] Cons.IH [of "((fst x + he_shamt e) mod 2 ^ 32, (bs_shl (he_shamt e) (snd x))[0 := he_taken e])"]
    by (auto simp: less_eq_nat.simps)
qed simp

text \<open>The wrap-around of the counter, for evaluation over binary integers.\<close>

lemma ideal_hist_code [code]:
  "ideal_hist [] x = x"
  "ideal_hist (e # es) x =
     (if he_shamt e \<noteq> 0
      then ideal_hist es (nat ((int (fst x) + int (he_shamt e)) mod 4294967296),
        (bs_shl (he_shamt e) (snd x))[0 := he_taken e])
      else ideal_hist es x)"
  by (simp_all add: nat_mod_distrib nat_add_distrib)

text \<open>Shifting makes two registers of the same length agree on more of their newest bits.\<close>

lemma take_histShiftIn:
  assumes "length h = length h'" and "take k h = take k h'"
  shows "take (k + sh) (histShiftIn sh tk h) = take (k + sh) (histShiftIn sh tk h')"
proof (cases "sh = 0")
  case False
  have "take (k + sh) (replicate sh False @ h) = take (k + sh) (replicate sh False @ h')"
    using assms(2) by (simp add: take_append)
  then have "take (k + sh) (bs_shl sh h) = take (k + sh) (bs_shl sh h')"
    unfolding bs_shl_def assms(1) take_take min.commute [of "k + sh"] by (metis take_take)
  then show ?thesis
    using False by (simp add: histShiftIn_def take_update_swap)
qed (use assms in \<open>simp add: histShiftIn_def\<close>)

lemma take_replay:
  assumes "length b = length b'"
  shows "take (sum_list (map he_shamt hs)) (replay hs b) = take (sum_list (map he_shamt hs)) (replay hs b')"
proof (induction hs rule: rev_induct)
  case (snoc e es)
  then show ?case
    using take_histShiftIn [of "replay es b" "replay es b'" _ "he_shamt e" "he_taken e"] assms
    by simp
qed simp

lemma checkHistory_replay:
  assumes "length b = n"
  shows "checkHistory n hs (replay hs b)"
proof -
  let ?x = "ideal_hist hs (0, replicate n False)"
  let ?m = "min (fst ?x) n"
  have "?m \<le> sum_list (map he_shamt hs)"
    using ideal_hist_size [of hs "(0, replicate n False)"] by simp
  then have "take ?m (replay hs (replicate n False)) = take ?m (replay hs b)"
    using take_replay [of "replicate n False" b hs] assms
    by (metis length_replicate min.absorb1 take_take)
  then show ?thesis
    using assms by (simp add: checkHistory_def bs_resize_def ideal_hist_replay Let_def)
qed

section \<open>Fetch target queue\<close>

definition target_ids :: "ftq \<Rightarrow> nat list" where
  "target_ids q = [baseTargetId q..<baseTargetId q + length (ftq_cap q)]"

lemma pop_after_take:
  "1 \<le> baseTargetId q \<Longrightarrow> pop_after i q = q\<lparr>ftq_cap := take (i + 1 - baseTargetId q) (ftq_cap q)\<rparr>"
proof (induction i q rule: pop_after.induct)
  case (1 i q)
  show ?case
  proof (cases "ftq_cap q \<noteq> [] \<and> i < backId q")
    case True
    then have "i + 1 - baseTargetId q \<le> length (ftq_cap q) - 1"
      by (simp add: backId_def) arith
    then show ?thesis
      using True 1 by (subst pop_after.simps) (simp add: butlast_conv_take min_absorb1)
  next
    case False
    then have "length (ftq_cap q) \<le> i + 1 - baseTargetId q"
      using "1.prems" by (cases "ftq_cap q") (auto simp: backId_def)
    then show ?thesis
      using False by (subst pop_after.simps) auto
  qed
qed

lemma squashAfter_take:
  "1 \<le> baseTargetId q \<Longrightarrow>
   squashAfter i q = q\<lparr>ftq_cap := take (i + 1 - baseTargetId q) (ftq_cap q), fetchptr := i + 1\<rparr>"
  by (simp add: squashAfter_def pop_after_take)

lemma filter_upt_le: "filter (\<lambda>j. j \<le> i) [b..<c] = [b..<min c (Suc i)]"
  by (induction c) (auto simp: min_def not_less_eq_eq le_Suc_eq)

lemma target_ids_squashAfter:
  assumes "1 \<le> baseTargetId q"
  shows "target_ids (squashAfter i q) = filter (\<lambda>j. j \<le> i) (target_ids q)"
proof (cases "baseTargetId q \<le> i + 1")
  case True
  then have "baseTargetId q + min (length (ftq_cap q)) (i + 1 - baseTargetId q) =
      min (baseTargetId q + length (ftq_cap q)) (Suc i)"
    by arith
  then show ?thesis
    using assms by (simp add: squashAfter_take target_ids_def filter_upt_le)
next
  case False
  then show ?thesis
    using assms by (simp add: squashAfter_take target_ids_def filter_upt_le min_def)
qed

interpretation hmq: squashable_queue "map streamId" "\<lambda>hs. sorted_wrt (<) (map streamId hs)"
  "\<lambda>(a, sh, tk, bi, sid). sid" "\<lambda>(a, sh, tk, bi, sid) hs. Some (addSpeculativeHist a sh tk bi sid hs)"
  "\<lambda>sid hs. Some (hm_squash sid sh tk bi hs)" for sh tk bi
  by unfold_locales
    (auto simp: addSpeculativeHist_def map_streamId_hm_squash sorted_wrt_append sorted_wrt_filter)

text \<open>The entry that the squash corrects stays in its place.\<close>

lemma hm_squash_filter:
  "hm_squash sid sh tk bi hs =
   map (\<lambda>e. if streamId e = sid then hm_correct sh tk bi e else e) (filter (\<lambda>e. streamId e \<le> sid) hs)"
  by (induction hs) (auto simp: Let_def)

lemma touch_last:
  assumes "map streamId hs = [b..<Suc k]" and "b \<le> k"
  shows "map (\<lambda>e. if streamId e = k then f e else e) hs = butlast hs @ [f (last hs)]"
proof -
  obtain xs x where hs: "hs = xs @ [x]"
    using assms by (cases hs rule: rev_cases) auto
  then have "map streamId xs = [b..<k]" "streamId x = k"
    using assms by simp_all
  moreover have "\<forall>e\<in>set xs. streamId e < k"
    using calculation(1) by (metis atLeastLessThan_iff image_eqI set_map set_upt)
  then have "map (\<lambda>e. if streamId e = k then f e else e) xs = xs"
    by (intro map_idI) auto
  ultimately show ?thesis
    by (simp add: hs)
qed

lemma filter_key_take:
  "sorted_wrt (<) (map f xs) \<Longrightarrow> filter (\<lambda>x. f x \<le> k) xs = take (length (filter (\<lambda>x. f x \<le> k) xs)) xs" for k :: nat
proof (induction xs)
  case (Cons x xs)
  show ?case
  proof (cases "f x \<le> k")
    case True
    then show ?thesis
      using Cons by simp
  next
    case False
    then have "filter (\<lambda>x. f x \<le> k) (x # xs) = []"
      using Cons.prems by (force simp: filter_empty_conv)
    then show ?thesis
      by simp
  qed
qed simp

interpretation hmc: squashable_contents "map streamId" "\<lambda>hs. sorted_wrt (<) (map streamId hs)"
  "\<lambda>(a, sh, tk, bi, sid). sid" "\<lambda>(a, sh, tk, bi, sid) hs. Some (addSpeculativeHist a sh tk bi sid hs)"
  "\<lambda>sid hs. Some (hm_squash sid sh tk bi hs)" "\<lambda>hs. hs" "\<lambda>(a, sh, tk, bi, sid). hd (addSpeculativeHist a sh tk bi sid [])"
  "\<lambda>sid. map (\<lambda>e. if streamId e = sid then hm_correct sh tk bi e else e)" for sh tk bi
proof unfold_locales
  fix k and hs hs' :: "history_entry list"
  assume "sorted_wrt (<) (map streamId hs)" and "Some (hm_squash k sh tk bi hs) = Some hs'"
  then show "hs' = map (\<lambda>e. if streamId e = k then hm_correct sh tk bi e else e) (take (length (map streamId hs')) hs)"
    using filter_key_take [of streamId hs k] by (auto simp: hm_squash_filter)
qed (auto simp: addSpeculativeHist_def)

text \<open>An inserted target has the number after the last one.\<close>

interpretation ftqq: squashable_queue target_ids "\<lambda>q. 1 \<le> baseTargetId q" fst
  "\<lambda>(i, t) q. if i = backId q + 1 then insert_target cap t q else None"
  "\<lambda>i q. Some (squashAfter i q)" for cap
proof unfold_locales
  fix q q' :: ftq and x :: "nat \<times> fetch_target"
  assume "1 \<le> baseTargetId q"
    and "(case x of (i, t) \<Rightarrow> \<lambda>q. if i = backId q + 1 then insert_target cap t q else None) q = Some q'"
  then show "1 \<le> baseTargetId q' \<and> target_ids q' = target_ids q @ [fst x]"
    by (auto simp: insert_target_def target_ids_def backId_def split: if_splits prod.splits)
qed (simp_all add: target_ids_squashAfter, simp_all add: target_ids_def squashAfter_take)

lemma insert_all_base:
  "enq_all (\<lambda>(i, t) q. if i = backId q + 1 then insert_target cap t q else None) ts q = Some q' \<Longrightarrow> baseTargetId q' = baseTargetId q"
  by (induction ts arbitrary: q) (auto simp: insert_target_def split: option.splits if_splits)

interpretation ftqc: squashable_contents target_ids "\<lambda>q. 1 \<le> baseTargetId q" fst
  "\<lambda>(i, t) q. if i = backId q + 1 then insert_target cap t q else None"
  "\<lambda>i q. Some (squashAfter i q)" ftq_cap snd "\<lambda>k ts. ts" for cap
  by unfold_locales (auto simp: target_ids_def insert_target_def squashAfter_take min_def split: if_splits)

section \<open>Folded histories\<close>

abbreviation folds :: "folded_cfg list \<Rightarrow> bitset \<Rightarrow> 64 word list" where
  "folds cs h \<equiv> map (\<lambda>c. fold_hist c h) cs"

lemma update_all_folds:
  "(\<And>c. c \<in> set cs \<Longrightarrow> upd c (fold_hist c h) = Some (fold_hist c h')) \<Longrightarrow>
   update_all upd cs (folds cs h) = Some (folds cs h')"
  by (induction cs) simp_all

lemma recover_all_saved:
  "length fs = length cs \<Longrightarrow> length gs = length cs \<Longrightarrow> recover_all cs fs gs = Some gs"
  by (induction cs fs gs rule: recover_all.induct) (auto simp: recover_def)

lemma update_all_length: "update_all upd cs fs = Some gs \<Longrightarrow> length gs = length cs"
  by (induction upd cs fs arbitrary: gs rule: update_all.induct) (auto split: option.splits)

lemma update_all_total:
  "length fs = length cs \<Longrightarrow> \<forall>c\<in>set cs. \<forall>f. upd c f \<noteq> None \<Longrightarrow> \<exists>gs. update_all upd cs fs = Some gs"
  by (induction upd cs fs rule: update_all.induct) (auto split: option.splits)

lemma recover_lists_saved:
  "length fs = length gs \<Longrightarrow> \<forall>f\<in>set fs. length f = length cs \<Longrightarrow> \<forall>g\<in>set gs. length g = length cs \<Longrightarrow>
   recover_lists cs fs gs = Some gs"
  by (induction cs fs gs rule: recover_lists.induct) (auto simp: recover_all_saved)

lemma folded_step_ok_cong:
  "folded_step_ok c g sh \<Longrightarrow> sh' \<le> sh \<Longrightarrow> length g' = length g \<Longrightarrow> folded_step_ok c g' sh'"
  by (auto simp: folded_step_ok_def)

lemma fold_hist_zero: "fold_hist c (replicate n False) = 0"
proof -
  have [simp]: "bs_get (replicate n False) p = False" for p
    by (simp add: bs_get_def)
  have [simp]: "fold_chunk (replicate n False) st k = 0" for st k
    by (induction k) (simp_all add: bit_shl_def)
  have "fold_loop c (replicate n False) st 0 = 0" for st
    by (induction c "replicate n False" st "0 :: 64 word" rule: fold_loop.induct)
      (subst fold_loop.simps, simp)
  then show ?thesis
    by (simp add: fold_hist_def)
qed

text \<open>Configurations the unit is meant for: \<open>N\<close> bounds the branches of a prediction; a
  squash can shift one bit more.\<close>

definition bpu_cfg_ok :: "nat \<Rightarrow> bpu_cfg \<Rightarrow> bool" where
  "bpu_cfg_ok N cfg \<longleftrightarrow>
     (let z = replicate (historyBits cfg) False in
      3 \<le> numStages cfg \<and> rasDelay cfg < numStages cfg \<and> 0 < numEntriesFirstLocalHistories cfg \<and>
      list_all (\<lambda>c. path_legal c z (True, 0, 0))
        (tageIndexCfg cfg @ tageTagCfg cfg @ tageAltTagCfg cfg @ pCfg cfg) \<and>
      list_all (\<lambda>c. folded_step_ok c z (N + 1)) (gCfg cfg @ bwCfg cfg @ lCfg cfg) \<and>
      list_all (\<lambda>c. histLen c \<le> foldedLen c) (iCfg cfg))"

definition regs_ok :: "bpu_cfg \<Rightarrow> bitset \<Rightarrow> bitset \<Rightarrow> bitset \<Rightarrow> bitset list \<Rightarrow> bool" where
  "regs_ok cfg gh ph bwh lh \<longleftrightarrow>
     length gh = historyBits cfg \<and> length ph = historyBits cfg \<and> length bwh = historyBits cfg \<and>
     length lh = numEntriesFirstLocalHistories cfg \<and> (\<forall>h\<in>set lh. length h = historyBits cfg)"

text \<open>The folded histories are those of the registers.\<close>

definition tage_of :: "bpu_cfg \<Rightarrow> bitset \<Rightarrow> tage_hist" where
  "tage_of cfg ph = \<lparr>indexFoldedHist = folds (tageIndexCfg cfg) ph,
     tagFoldedHist = folds (tageTagCfg cfg) ph, altTagFoldedHist = folds (tageAltTagCfg cfg) ph\<rparr>"

definition mgsc_ok :: "bpu_cfg \<Rightarrow> bitset \<Rightarrow> bitset \<Rightarrow> bitset \<Rightarrow> bitset list \<Rightarrow> mgsc_hist \<Rightarrow> bool" where
  "mgsc_ok cfg gh ph bwh lh m \<longleftrightarrow>
     indexGFoldedHist m = folds (gCfg cfg) gh \<and> indexPFoldedHist m = folds (pCfg cfg) ph \<and>
     indexBwFoldedHist m = folds (bwCfg cfg) bwh \<and> indexLFoldedHist m = map (folds (lCfg cfg)) lh \<and>
     length (indexIFoldedHist m) = length (iCfg cfg)"

lemma dir_update_folds:
  assumes "list_all (\<lambda>c. folded_step_ok c (replicate n False) k) cs" and "length h = n" and "sh \<le> k"
  shows "update_all (\<lambda>c. doUpdateHist c (sh, tk) h) cs (folds cs h) = Some (folds cs (histShiftIn sh tk h))"
proof (rule update_all_folds)
  fix c assume "c \<in> set cs"
  then have "folded_step_ok c h sh"
    using assms folded_step_ok_cong [of c "replicate n False" k sh h] by (simp add: list_all_iff)
  then show "doUpdateHist c (sh, tk) h (fold_hist c h) = Some (fold_hist c (histShiftIn sh tk h))"
    using dirh.step [of c h "(sh, tk)"] by (simp add: dir_hist_upd_def)
qed

lemma path_update_folds:
  assumes "list_all (\<lambda>c. path_legal c (replicate n False) (True, 0, 0)) cs" and "length h = n"
  shows "update_all (\<lambda>c. path_doUpdateHist c (tk, pc, tg) h) cs (folds cs h) =
    Some (folds cs (pHistShiftIn 2 tk h pc tg))"
proof (rule update_all_folds)
  fix c assume "c \<in> set cs"
  then have "path_legal c h (tk, pc, tg)"
    using assms folded_step_ok_cong [of c "replicate n False" 2 2 h] by (auto simp: list_all_iff path_legal_def)
  then show "path_doUpdateHist c (tk, pc, tg) h (fold_hist c h) = Some (fold_hist c (pHistShiftIn 2 tk h pc tg))"
    using pathh.step [of c h "(tk, pc, tg)"] by (simp add: path_hist_upd_def)
qed

lemma tage_doUpdateHist_ok:
  assumes "bpu_cfg_ok N cfg" and "length ph = historyBits cfg"
  shows "tage_doUpdateHist cfg ph tk pc tg (tage_of cfg ph) = Some (tage_of cfg (pHistShiftIn 2 tk ph pc tg))"
proof (cases tk)
  case True
  then show ?thesis
    using assms path_update_folds [of "historyBits cfg" _ ph tk pc tg]
    by (simp add: tage_doUpdateHist_def tage_of_def bpu_cfg_ok_def Let_def)
next
  case False
  then show ?thesis by (simp add: tage_doUpdateHist_def pHistShiftIn_def)
qed

lemma tage_recoverPHist_ok:
  assumes "bpu_cfg_ok N cfg" and "length ph = historyBits cfg"
  shows "tage_recoverPHist cfg ph (tage_of cfg ph) tk pc tg (tage_of cfg ph') =
    Some (tage_of cfg (pHistShiftIn 2 tk ph pc tg))"
  using tage_doUpdateHist_ok [OF assms, of tk pc tg]
  by (simp add: tage_recoverPHist_def tage_of_def recover_all_saved)

lemma local_index_less: "0 < numEntriesFirstLocalHistories cfg \<Longrightarrow> local_index cfg pc < numEntriesFirstLocalHistories cfg"
proof -
  let ?k = "floorLog2 (numEntriesFirstLocalHistories cfg)"
  assume n: "0 < numEntriesFirstLocalHistories cfg"
  have "unat (w AND mask ?k) < 2 ^ ?k" for w :: "64 word"
    by (simp add: unat_and_mask)
  then show ?thesis
    using floorLog2_le [OF n] unfolding local_index_def getPcIndex_def by (rule less_le_trans)
qed

lemma imli_total: "histLen c \<le> foldedLen c \<Longrightarrow> imli_doUpdateHist c e f \<noteq> None"
  by (simp add: imli_doUpdateHist_def imli_update_def)

lemma mgsc_updateLHist_ok:
  assumes "bpu_cfg_ok N cfg" and "regs_ok cfg gh ph bwh lh" and "fst e \<le> N + 1"
  shows "mgsc_updateLHist cfg lh pc e (map (folds (lCfg cfg)) lh) =
    Some (map (folds (lCfg cfg)) (local_shift cfg pc e lh))"
proof -
  let ?k = "local_index cfg pc"
  have k: "?k < length lh"
    using assms(1,2) local_index_less [of cfg pc] by (simp add: bpu_cfg_ok_def regs_ok_def Let_def)
  then have "length (lh ! ?k) = historyBits cfg"
    using assms(2) by (simp add: regs_ok_def)
  then have "update_all (\<lambda>c. doUpdateHist c e (lh ! ?k)) (lCfg cfg) (folds (lCfg cfg) (lh ! ?k)) =
      Some (folds (lCfg cfg) (histShiftIn (fst e) (snd e) (lh ! ?k)))"
    using assms(1,3) dir_update_folds [of "historyBits cfg" "N + 1" "lCfg cfg" "lh ! ?k" "fst e" "snd e"]
    by (simp add: bpu_cfg_ok_def Let_def)
  then show ?thesis
    using k by (simp add: mgsc_updateLHist_def local_shift_def Let_def map_update)
qed

lemma mgsc_update_ok:
  assumes cfg: "bpu_cfg_ok N cfg" and regs: "regs_ok cfg gh ph bwh lh" and m: "mgsc_ok cfg gh ph bwh lh m"
    and e: "fst e \<le> N + 1" "fst bwe \<le> N + 1"
  shows "\<exists>m'. mgsc_update cfg gh ph bwh lh pc e bwe (tk, ppc, tg) m = Some m' \<and>
    mgsc_ok cfg (histShiftIn (fst e) (snd e) gh) (pHistShiftIn 2 tk ph ppc tg)
      (histShiftIn (fst bwe) (snd bwe) bwh) (local_shift cfg pc e lh) m'"
proof -
  have dir: "list_all (\<lambda>c. folded_step_ok c (replicate (historyBits cfg) False) (N + 1)) cs"
    if "cs \<in> {gCfg cfg, bwCfg cfg}" for cs
    using cfg that by (auto simp: bpu_cfg_ok_def Let_def)
  have "update_all (\<lambda>c. doUpdateHist c e gh) (gCfg cfg) (folds (gCfg cfg) gh) =
      Some (folds (gCfg cfg) (histShiftIn (fst e) (snd e) gh))"
    "update_all (\<lambda>c. doUpdateHist c bwe bwh) (bwCfg cfg) (folds (bwCfg cfg) bwh) =
      Some (folds (bwCfg cfg) (histShiftIn (fst bwe) (snd bwe) bwh))"
    using dir_update_folds [OF dir _ e(1), of "gCfg cfg" gh "snd e"]
      dir_update_folds [OF dir _ e(2), of "bwCfg cfg" bwh "snd bwe"] regs
    by (simp_all add: regs_ok_def)
  moreover have "update_all (\<lambda>c. path_doUpdateHist c (tk, ppc, tg) ph) (pCfg cfg) (folds (pCfg cfg) ph) =
      Some (folds (pCfg cfg) (pHistShiftIn 2 tk ph ppc tg))"
    using path_update_folds [of "historyBits cfg" "pCfg cfg" ph tk ppc tg] cfg regs
    by (simp add: bpu_cfg_ok_def regs_ok_def Let_def)
  moreover obtain i where "update_all (\<lambda>c. imli_doUpdateHist c bwe) (iCfg cfg) (indexIFoldedHist m) = Some i"
    using update_all_total [of "indexIFoldedHist m" "iCfg cfg" "\<lambda>c. imli_doUpdateHist c bwe"] cfg m imli_total
    by (auto simp: mgsc_ok_def bpu_cfg_ok_def Let_def list_all_iff)
  moreover from this have "length i = length (iCfg cfg)"
    by (rule update_all_length)
  ultimately show ?thesis
    using m mgsc_updateLHist_ok [OF cfg regs e(1)] by (simp add: mgsc_update_def mgsc_ok_def)
qed

lemma mgsc_recover_ok:
  assumes "mgsc_ok cfg gh ph bwh lh meta" and "mgsc_ok cfg gh' ph' bwh' lh' m"
    and "length lh = length lh'"
  shows "mgsc_recover cfg meta m = Some meta"
proof -
  have "recover_lists (lCfg cfg) (map (folds (lCfg cfg)) lh') (map (folds (lCfg cfg)) lh) =
      Some (map (folds (lCfg cfg)) lh)"
    using assms(3) by (intro recover_lists_saved) auto
  then show ?thesis
    using assms(1,2) by (simp add: mgsc_recover_def mgsc_ok_def recover_all_saved)
qed

lemma check_folded_ok:
  assumes "tageS s = tage_of cfg (s0PHistory s)"
    and "mgsc_ok cfg (s0History s) (s0PHistory s) bwh (s0LHistory s) (mgscS s)"
  shows "check_folded cfg s = Some s"
  using assms
  by (simp add: check_folded_def tage_checkFoldedHist_def mgsc_checkFoldedHist_def check_all_def
      tage_of_def mgsc_ok_def list_all2_map2 list_all2_same)

section \<open>What a prediction shifts\<close>

lemma hist_scan_bound: "fst (hist_scan dir p es n) \<le> n + length es"
  by (induction dir p es n rule: hist_scan.induct) auto

lemma getHistInfo_bound:
  "fst (getHistInfo p) \<le> length (btbEntries p)" "fst (getBwHistInfo p) \<le> length (btbEntries p)"
  using hist_scan_bound [of _ p "btbEntries p" 0] by (simp_all add: getHistInfo_def getBwHistInfo_def)

lemma squash_info_bound:
  "fst (getHistInfoDuringSquash t pc c tk) \<le> length (predBTBEntries t) + 1"
  "fst (getBwHistInfoDuringSquash t pc c tk tg) \<le> length (predBTBEntries t) + 1"
  using length_filter_le [of "\<lambda>e. e_valid e \<and> startPC t \<le> bi_pc e \<and> bi_pc e < pc" "predBTBEntries t"]
  by (auto simp: getHistInfoDuringSquash_def getBwHistInfoDuringSquash_def squash_shamt_def intro: le_SucI)

section \<open>The invariant\<close>

definition ras_size :: "ras \<Rightarrow> nat \<times> nat \<times> nat" where
  "ras_size r = (numEntries r, numInflightEntries r, maxCtr r)"

lemma ras_size_ops [simp]:
  "ras_size (push a r) = ras_size r" "ras_size (pop r) = ras_size r"
  "ras_size (push_stack a r) = ras_size r" "ras_size (pop_stack r) = ras_size r"
  by (simp_all add: ras_size_def push_def pop_def pop_ctr_def push_stack_def pop_stack_def Let_def)

lemma ras_size_branch [simp]:
  "ras_size (specUpdateHist b r) = ras_size r" "ras_size (recoverHist m t b r) = ras_size r"
proof -
  have sb: "ras_size (spec_branch b r) = ras_size r" for r
    by (simp add: spec_branch_def Let_def)
  show "ras_size (specUpdateHist b r) = ras_size r"
    by (simp add: specUpdateHist_def sb)
  show "ras_size (recoverHist m t b r) = ras_size r"
    using sb by (simp add: recoverHist_def Let_def ras_size_def)
qed

lemma ras_size_update [simp]: "ras_size (RAS.update m t b r) = ras_size r"
proof -
  have *: "ras_size (r\<lparr>nsp := k\<rparr>) = ras_size r" "ras_size (r\<lparr>BOS := k\<rparr>) = ras_size r" for k r
    by (simp_all add: ras_size_def)
  show ?thesis
    by (simp add: RAS.update_def Let_def *)
qed

lemma meta_ok_size: "ras_size r' = ras_size r \<Longrightarrow> meta_ok r m \<Longrightarrow> meta_ok r' m"
  by (simp add: meta_ok_def ras_size_def)

definition snapshot_ok ::
  "bpu_cfg \<Rightarrow> ras \<Rightarrow> bitset \<Rightarrow> bitset \<Rightarrow> bitset \<Rightarrow> bitset list \<Rightarrow> pred_meta \<Rightarrow> bool" where
  "snapshot_ok cfg r gh ph bwh lh pm \<longleftrightarrow>
     regs_ok cfg gh ph bwh lh \<and> pm_tage pm = tage_of cfg ph \<and>
     mgsc_ok cfg gh ph bwh lh (pm_mgsc pm) \<and> meta_ok r (pm_ras pm)"

definition target_ok :: "nat \<Rightarrow> bpu_cfg \<Rightarrow> ras \<Rightarrow> fetch_target \<Rightarrow> bool" where
  "target_ok N cfg r t \<longleftrightarrow>
     snapshot_ok cfg r (history t) (phistory t) (bwhistory t) (lhistory t) (predMetas t) \<and>
     length (predBTBEntries t) \<le> N"

definition now_ok :: "bpu_cfg \<Rightarrow> bpu \<Rightarrow> bool" where
  "now_ok cfg s \<longleftrightarrow>
     regs_ok cfg (s0History s) (s0PHistory s) (s0BwHistory s) (s0LHistory s) \<and>
     tageS s = tage_of cfg (s0PHistory s) \<and>
     mgsc_ok cfg (s0History s) (s0PHistory s) (s0BwHistory s) (s0LHistory s) (mgscS s) \<and>
     ras_inv (bpu_ras s)"

definition pred_ok :: "nat \<Rightarrow> bpu_cfg \<Rightarrow> bpu \<Rightarrow> bool" where
  "pred_ok N cfg s \<longleftrightarrow>
     (validprediction s \<and> \<not> squashing s \<longrightarrow>
        snapshot_ok cfg (bpu_ras s) (s0History s) (s0PHistory s) (s0BwHistory s) (s0LHistory s) (finalMetas s) \<and>
        length (btbEntries (finalPred s)) \<le> N)"

text \<open>The entries of the history manager belong to the targets of the queue, and every target
  saved the register that the entries before it rebuild.\<close>

definition chained :: "nat \<Rightarrow> history_entry list \<Rightarrow> fetch_target list \<Rightarrow> bitset \<Rightarrow> bool" where
  "chained n hs ts h \<longleftrightarrow>
     (\<exists>b. length b = n \<and> h = replay hs b \<and> (\<forall>i<length ts. history (ts ! i) = replay (take i hs) b))"

definition queue_ok :: "nat \<Rightarrow> bpu_cfg \<Rightarrow> ras \<Rightarrow> bitset \<Rightarrow> ftq \<Rightarrow> history_entry list \<Rightarrow> bool" where
  "queue_ok N cfg r h q hs \<longleftrightarrow>
     1 \<le> baseTargetId q \<and> (\<forall>t\<in>set (ftq_cap q). target_ok N cfg r t) \<and>
     map streamId hs = target_ids q \<and> chained (historyBits cfg) hs (ftq_cap q) h"

definition bpu_inv :: "nat \<Rightarrow> bpu_cfg \<Rightarrow> bpu \<Rightarrow> bool" where
  "bpu_inv N cfg s \<longleftrightarrow>
     now_ok cfg s \<and> pred_ok N cfg s \<and>
     queue_ok N cfg (bpu_ras s) (s0History s) (bpu_ftq s) (historyManager s)"

lemma target_ok_size: "ras_size r' = ras_size r \<Longrightarrow> target_ok N cfg r t \<Longrightarrow> target_ok N cfg r' t"
  using meta_ok_size by (simp add: target_ok_def snapshot_ok_def)

lemma queue_ok_length: "queue_ok N cfg r h q hs \<Longrightarrow> length hs = length (ftq_cap q)"
  by (metis add_diff_cancel_left' length_map length_upt queue_ok_def target_ids_def)

subsection \<open>Changes of the queue\<close>

lemma chained_snoc:
  assumes "chained n hs ts h" and "length hs = length ts" and "history t = h"
  shows "chained n (hs @ [e]) (ts @ [t]) (histShiftIn (he_shamt e) (he_taken e) h)"
proof -
  obtain b where b: "length b = n" "h = replay hs b" "\<forall>i<length ts. history (ts ! i) = replay (take i hs) b"
    using assms(1) by (auto simp: chained_def)
  then have "\<forall>i<length (ts @ [t]). history ((ts @ [t]) ! i) = replay (take i (hs @ [e])) b"
    using assms(2,3) by (auto simp: less_Suc_eq nth_append)
  with b show ?thesis
    unfolding chained_def by (intro exI [of _ b]) simp
qed

lemma queue_ok_insert:
  assumes "queue_ok N cfg r h q hs" and "target_ok N cfg r t" and "history t = h"
    and "insert_target cap t q = Some q'"
  shows "queue_ok N cfg r (histShiftIn sh tk h) q' (addSpeculativeHist a sh tk bi (backId q + 1) hs)"
proof -
  have q': "q' = q\<lparr>ftq_cap := ftq_cap q @ [t]\<rparr>"
    using assms(4) by (simp add: insert_target_def split: if_splits)
  have "map streamId (addSpeculativeHist a sh tk bi (backId q + 1) hs) = target_ids q'"
    using assms(1) by (auto simp: queue_ok_def addSpeculativeHist_def q' target_ids_def backId_def)
  moreover have "chained (historyBits cfg) (addSpeculativeHist a sh tk bi (backId q + 1) hs) (ftq_cap q') (histShiftIn sh tk h)"
    using chained_snoc [of "historyBits cfg" hs "ftq_cap q" h t
        "\<lparr>he_pc = a, he_shamt = sh, he_taken = tk, he_isCall = bi_isCall bi, he_isReturn = bi_isReturn bi,
          he_retAddr = getEnd bi, streamId = backId q + 1\<rparr>"]
      assms(1,3) queue_ok_length [OF assms(1)]
    by (simp add: queue_ok_def addSpeculativeHist_def q')
  ultimately show ?thesis
    using assms(1,2) by (auto simp: queue_ok_def q')
qed

lemma chained_drop:
  assumes "chained n hs ts h" and "length hs = length ts"
  shows "chained n (drop k hs) (drop k ts) h"
proof -
  obtain b where b: "length b = n" "h = replay hs b" "\<forall>i<length ts. history (ts ! i) = replay (take i hs) b"
    using assms(1) by (auto simp: chained_def)
  let ?b = "replay (take k hs) b"
  have "replay (drop k hs) ?b = replay hs b"
    by (simp flip: replay_simps(2))
  moreover have "replay (take i (drop k hs)) ?b = replay (take (k + i) hs) b" for i
    by (simp add: take_add flip: replay_simps(2))
  ultimately show ?thesis
    using b unfolding chained_def by (intro exI [of _ ?b]) simp
qed

lemma commit_targets_result:
  assumes "ras_inv r" and "\<forall>t\<in>set (ftq_cap q). meta_ok r (pm_ras (predMetas t))"
  shows "\<exists>r'. commit_targets i q r =
      (q\<lparr>ftq_cap := drop (i + 1 - baseTargetId q) (ftq_cap q),
         baseTargetId := baseTargetId q + min (i + 1 - baseTargetId q) (length (ftq_cap q))\<rparr>, r') \<and>
    ras_inv r' \<and> ras_size r' = ras_size r"
  using assms
proof (induction i q r rule: commit_targets.induct)
  case (1 i q r)
  show ?case
  proof (cases "ftq_cap q \<noteq> [] \<and> baseTargetId q \<le> i")
    case True
    then obtain t ts where ts: "ftq_cap q = t # ts"
      by (cases "ftq_cap q") auto
    let ?r = "updatePredictorComponents t r"
    have r: "ras_inv ?r" "ras_size ?r = ras_size r"
      using "1.prems" ts update_inv by (simp_all add: updatePredictorComponents_def)
    moreover have "\<forall>u\<in>set (ftq_cap (commitTarget q)). meta_ok ?r (pm_ras (predMetas u))"
      using "1.prems"(2) ts meta_ok_size [OF r(2)] by (simp add: commitTarget_def)
    ultimately show ?thesis
      using "1.IH" [OF True] True ts
      by (subst commit_targets.simps) (auto simp: commitTarget_def Suc_diff_le)
  next
    case False
    then show ?thesis
      using "1.prems" by (subst commit_targets.simps) auto
  qed
qed

lemma filter_ids_drop:
  "map streamId hs = [b..<b + length hs] \<Longrightarrow> filter (\<lambda>e. i < streamId e) hs = drop (i + 1 - b) hs"
proof (induction hs arbitrary: b)
  case (Cons e es)
  have "[b..<b + length (e # es)] = b # [Suc b..<Suc b + length es]"
    by (simp add: upt_conv_Cons del: upt_Suc)
  with Cons.prems have "streamId e = b" "map streamId es = [Suc b..<Suc b + length es]"
    by (simp_all del: upt_Suc)
  then show ?case
    using Cons.IH [of "Suc b"] by (cases "i < b") (auto simp: Suc_diff_le)
qed simp

lemma queue_ok_commit:
  assumes "queue_ok N cfg r h q hs" and "ras_size r' = ras_size r"
  shows "queue_ok N cfg r' h
    (q\<lparr>ftq_cap := drop (i + 1 - baseTargetId q) (ftq_cap q),
       baseTargetId := baseTargetId q + min (i + 1 - baseTargetId q) (length (ftq_cap q))\<rparr>)
    (hm_commit i hs)"
proof -
  let ?k = "i + 1 - baseTargetId q"
  have len: "length hs = length (ftq_cap q)"
    by (rule queue_ok_length [OF assms(1)])
  have ids: "map streamId hs = [baseTargetId q..<baseTargetId q + length hs]"
    using assms(1) len by (simp add: queue_ok_def target_ids_def)
  have hm: "hm_commit i hs = drop ?k hs"
    unfolding hm_commit_filter by (rule filter_ids_drop [OF ids])
  have "map streamId (drop ?k hs) =
      [baseTargetId q + min ?k (length hs)..<baseTargetId q + min ?k (length hs) + (length hs - ?k)]"
    unfolding drop_map [symmetric] ids by (simp add: min_def)
  moreover have "chained (historyBits cfg) (drop ?k hs) (drop ?k (ftq_cap q)) h"
    using assms(1) len by (intro chained_drop) (simp_all add: queue_ok_def)
  ultimately show ?thesis
    using assms len target_ok_size [OF assms(2)]
    by (auto simp: queue_ok_def hm target_ids_def dest: in_set_dropD)
qed

text \<open>A squash to a target of the queue.\<close>

lemma hm_squash_at:
  assumes "map streamId hs = [b..<b + length hs]" and "i < length hs"
  shows "hm_squash (b + i) sh tk bi hs = take i hs @ [hm_correct sh tk bi (hs ! i)]"
proof -
  have id: "streamId (hs ! j) = b + j" if "j < length hs" for j
    using nth_map [OF that, of streamId] assms(1) that by simp
  have split: "hs = take i hs @ hs ! i # drop (Suc i) hs"
    using assms(2) by (rule id_take_nth_drop)
  have "\<forall>e\<in>set (take i hs). streamId e < b + i"
    using id assms(2) by (auto simp: in_set_conv_nth)
  moreover have "\<forall>e\<in>set (drop (Suc i) hs). b + i < streamId e"
    using id by (auto simp: in_set_conv_nth)
  ultimately show ?thesis
    by (subst split, subst hm_squash_append)
      (simp add: hm_squash_older hm_squash_younger Let_def id assms(2))
qed

lemma chained_squash:
  assumes "chained n hs ts h" and "length hs = length ts" and "i < length ts"
    and "\<And>t. history (f t) = history t"
  shows "chained n (take i hs @ [hm_correct sh tk bi (hs ! i)]) (take (i + 1) (ts[i := f (ts ! i)]))
    (histShiftIn sh tk (history (ts ! i)))"
proof -
  obtain b where b: "length b = n" "\<forall>j<length ts. history (ts ! j) = replay (take j hs) b"
    using assms(1) by (auto simp: chained_def)
  have "history (take (i + 1) (ts[i := f (ts ! i)]) ! j) = replay (take j (take i hs @ [x])) b" if "j < i + 1" for j x
    using that b(2) assms(2-4) by (cases "j = i") (auto simp: min_def)
  then show ?thesis
    using b assms(2,3) unfolding chained_def
    by (intro exI [of _ b]) (simp add: hm_correct_def)
qed

lemma queue_ok_squash:
  assumes q: "queue_ok N cfg r h q hs" and t: "hasTarget i q" and size: "ras_size r' = ras_size r"
    and f: "\<And>t. history (f t) = history t" "\<And>t r. target_ok N cfg r (f t) = target_ok N cfg r t"
  shows "queue_ok N cfg r' (histShiftIn sh tk (history (ftq_cap q ! (i - baseTargetId q))))
    (squashAfter i (update_target i f q)) (hm_squash i sh tk bi hs)"
proof -
  let ?i = "i - baseTargetId q"
  have len: "length hs = length (ftq_cap q)"
    by (rule queue_ok_length [OF q])
  have i: "?i < length (ftq_cap q)" "i = baseTargetId q + ?i" "i + 1 - baseTargetId q = ?i + 1"
    using t by (auto simp: hasTarget_def)
  have base: "1 \<le> baseTargetId (update_target i f q)"
    using q by (simp add: queue_ok_def update_target_def)
  have cap: "ftq_cap (squashAfter i (update_target i f q)) =
      take (?i + 1) ((ftq_cap q)[?i := f (ftq_cap q ! ?i)])"
    unfolding squashAfter_take [OF base] using i(3) by (simp add: update_target_def)
  have hs: "hm_squash i sh tk bi hs = take ?i hs @ [hm_correct sh tk bi (hs ! ?i)]"
    using hm_squash_at [of hs "baseTargetId q" ?i sh tk bi] q i len by (simp add: queue_ok_def target_ids_def)
  have "map streamId (hm_squash i sh tk bi hs) = target_ids (squashAfter i (update_target i f q))"
    unfolding map_streamId_hm_squash target_ids_squashAfter [OF base]
    using q by (simp add: queue_ok_def target_ids_def update_target_def)
  moreover have "chained (historyBits cfg) (hm_squash i sh tk bi hs)
      (ftq_cap (squashAfter i (update_target i f q))) (histShiftIn sh tk (history (ftq_cap q ! ?i)))"
    unfolding hs cap using q by (intro chained_squash [OF _ len i(1) f(1)]) (auto simp: queue_ok_def)
  moreover have "target_ok N cfg r' x" if "x \<in> set (ftq_cap (squashAfter i (update_target i f q)))" for x
  proof -
    have "x \<in> insert (f (ftq_cap q ! ?i)) (set (ftq_cap q))"
      using that set_update_subset_insert [of "ftq_cap q" ?i] unfolding cap by (blast dest: in_set_takeD)
    then show ?thesis
      using q i(1) f(2) target_ok_size [OF size] by (auto simp: queue_ok_def)
  qed
  ultimately show ?thesis
    using base q by (simp add: queue_ok_def squashAfter_take)
qed

subsection \<open>Every step keeps the invariant\<close>

lemma meta_of_ras: "ras_inv r \<Longrightarrow> meta_ok r (fst (getTop_meta r))"
  by (simp add: meta_ok_def getTop_meta_def ras_inv_def)

lemma specUpdateHist_inv: "ras_inv r \<Longrightarrow> ras_inv (specUpdateHist b r)"
  by (simp add: specUpdateHist_def spec_branch_inv)

lemma length_local_shift [simp]: "length (local_shift cfg pc e lh) = length lh"
  by (simp add: local_shift_def Let_def)

lemma regs_ok_shift:
  assumes "regs_ok cfg gh ph bwh lh"
  shows "regs_ok cfg (histShiftIn a b gh) (pHistShiftIn n tk ph pc tg) (histShiftIn c d bwh) (local_shift cfg pc' e lh)"
proof -
  have "\<forall>x\<in>set (local_shift cfg pc' e lh). length x = historyBits cfg"
  proof (cases "local_index cfg pc' < length lh")
    case True
    then show ?thesis
      using assms set_update_subset_insert [of lh "local_index cfg pc'"]
      by (fastforce simp: regs_ok_def local_shift_def Let_def)
  next
    case False
    then show ?thesis
      using assms by (simp add: regs_ok_def local_shift_def Let_def list_update_beyond)
  qed
  then show ?thesis
    using assms by (simp add: regs_ok_def)
qed

lemma updateHistoryForPrediction_ok:
  assumes cfg: "bpu_cfg_ok N cfg" and now: "now_ok cfg s" and n: "length (btbEntries (finalPred s)) \<le> N"
  shows "\<exists>s'. updateHistoryForPrediction cfg entry s = Some s' \<and> now_ok cfg s' \<and>
    bpu_ftq s' = bpu_ftq s \<and> squashing s' = squashing s \<and> ras_size (bpu_ras s') = ras_size (bpu_ras s) \<and>
    (let e = getHistInfo (finalPred s) in s0History s' = histShiftIn (fst e) (snd e) (s0History s) \<and>
      historyManager s' = addSpeculativeHist (startPC entry) (fst e) (snd e) (predBranchInfo entry)
        (backId (bpu_ftq s) + 1) (historyManager s))"
proof -
  let ?p = "finalPred s"
  obtain pc tg tk where ph: "getPHistInfo ?p = (pc, tg, tk)"
    by (cases "getPHistInfo ?p") auto
  have b: "fst (getHistInfo ?p) \<le> N + 1" "fst (getBwHistInfo ?p) \<le> N + 1"
    using getHistInfo_bound [of ?p] n by simp_all
  have regs: "regs_ok cfg (s0History s) (s0PHistory s) (s0BwHistory s) (s0LHistory s)"
    and m: "mgsc_ok cfg (s0History s) (s0PHistory s) (s0BwHistory s) (s0LHistory s) (mgscS s)"
    using now by (simp_all add: now_ok_def)
  obtain m' where m': "mgsc_update cfg (s0History s) (s0PHistory s) (s0BwHistory s) (s0LHistory s) (bbStart ?p)
      (getHistInfo ?p) (getBwHistInfo ?p) (tk, pc, tg) (mgscS s) = Some m'"
    and m'ok: "mgsc_ok cfg (histShiftIn (fst (getHistInfo ?p)) (snd (getHistInfo ?p)) (s0History s))
      (pHistShiftIn 2 tk (s0PHistory s) pc tg)
      (histShiftIn (fst (getBwHistInfo ?p)) (snd (getBwHistInfo ?p)) (s0BwHistory s))
      (local_shift cfg (bbStart ?p) (getHistInfo ?p) (s0LHistory s)) m'"
    using mgsc_update_ok [OF cfg regs m b] by blast
  have t: "tage_doUpdateHist cfg (s0PHistory s) tk pc tg (tageS s) =
      Some (tage_of cfg (pHistShiftIn 2 tk (s0PHistory s) pc tg))"
    using tage_doUpdateHist_ok [OF cfg] now by (simp add: now_ok_def regs_ok_def)
  show ?thesis
    using now m'ok regs_ok_shift [OF regs] specUpdateHist_inv
    by (simp add: updateHistoryForPrediction_def Let_def ph m' t)
      (subst check_folded_ok, auto simp: now_ok_def)
qed

lemma processNewPrediction_ok:
  assumes cfg: "bpu_cfg_ok N cfg" and inv: "bpu_inv N cfg s" and "\<not> squashing s"
  shows "\<exists>s'. processNewPrediction cfg s = Some s' \<and> bpu_inv N cfg s'"
proof (cases "\<not> validprediction s \<or> 0 < numOverrideBubbles s \<or> ftq_full (ftqSize cfg) (bpu_ftq s) \<or> s0PC s = - 1")
  case True
  then show ?thesis using inv by (auto simp: processNewPrediction_def)
next
  case False
  let ?s = "s\<lparr>s0PC := getTarget (predictWidth cfg) (finalPred s)\<rparr>"
  let ?t = "createFetchTargetEntry cfg s"
  have sn: "snapshot_ok cfg (bpu_ras s) (s0History s) (s0PHistory s) (s0BwHistory s) (s0LHistory s) (finalMetas s)"
    and n: "length (btbEntries (finalPred s)) \<le> N"
    using inv False assms(3) by (simp_all add: bpu_inv_def pred_ok_def)
  have now: "now_ok cfg ?s"
    using inv by (simp add: bpu_inv_def now_ok_def)
  obtain s1 where s1: "updateHistoryForPrediction cfg ?t ?s = Some s1" "now_ok cfg s1" "bpu_ftq s1 = bpu_ftq s"
      "ras_size (bpu_ras s1) = ras_size (bpu_ras s)"
      "let e = getHistInfo (finalPred s) in s0History s1 = histShiftIn (fst e) (snd e) (s0History s) \<and>
        historyManager s1 = addSpeculativeHist (startPC ?t) (fst e) (snd e) (predBranchInfo ?t)
          (backId (bpu_ftq s) + 1) (historyManager s)"
    using updateHistoryForPrediction_ok [OF cfg now] n by auto
  have t: "target_ok N cfg (bpu_ras s) ?t" "history ?t = s0History s"
    using sn n by (simp_all add: createFetchTargetEntry_def setDefaultResolve_def target_ok_def Let_def)
  obtain q where q: "insert_target (ftqSize cfg) ?t (bpu_ftq s) = Some q"
    using False by (auto simp: insert_target_def ftq_full_def)
  have "queue_ok N cfg (bpu_ras s) (s0History s1) q (historyManager s1)"
    using queue_ok_insert [OF _ t q] inv s1(5) by (simp add: bpu_inv_def Let_def)
  then have "queue_ok N cfg (bpu_ras s1) (s0History s1) q (historyManager s1)"
    using target_ok_size [OF s1(4)] by (simp add: queue_ok_def)
  then show ?thesis
    using False s1(1-3) q by (auto simp: processNewPrediction_def Let_def bpu_inv_def pred_ok_def now_ok_def)
qed

lemma choose_pred_in: "stages \<noteq> [] \<Longrightarrow> choose_pred stages \<in> set stages"
  by (auto simp: choose_pred_def find_Some_iff rev_nth split: option.splits)

lemma requestNewPrediction_ok:
  assumes cfg: "bpu_cfg_ok N cfg" and inv: "bpu_inv N cfg s" and len: "length stages = numStages cfg"
    and n: "\<forall>p\<in>set stages. length (btbEntries p) \<le> N"
  shows "\<exists>s'. requestNewPrediction cfg stages s = Some s' \<and> bpu_inv N cfg s' \<and> squashing s' = squashing s"
proof -
  let ?st = "stage_inputs cfg s stages"
  have "\<forall>p\<in>set ?st. length (btbEntries p) \<le> N"
    using n by (auto simp: stage_inputs_def Let_def in_set_enumerate_eq)
  moreover have l: "length ?st = numStages cfg" "3 \<le> numStages cfg" "rasDelay cfg < numStages cfg"
    using len cfg by (auto simp: stage_inputs_def bpu_cfg_ok_def Let_def)
  moreover have "choose_pred ?st \<in> set ?st"
    using l by (intro choose_pred_in) auto
  ultimately show ?thesis
    using inv len meta_of_ras
    by (auto simp: requestNewPrediction_def generateFinalPredAndCreateBubbles_def Let_def bpu_inv_def
        now_ok_def pred_ok_def snapshot_ok_def)
qed

lemma bpu_tick_ok:
  assumes cfg: "bpu_cfg_ok N cfg" and inv: "bpu_inv N cfg s" and len: "length stages = numStages cfg"
    and n: "\<forall>p\<in>set stages. length (btbEntries p) \<le> N"
  shows "\<exists>s'. bpu_tick cfg stages s = Some s' \<and> bpu_inv N cfg s'"
proof (cases "squashing s")
  case True
  then show ?thesis using inv by (simp add: bpu_tick_def bpu_inv_def now_ok_def pred_ok_def)
next
  case False
  let ?x = "if \<not> validprediction s \<and> \<not> ftq_full (ftqSize cfg) (bpu_ftq s) then
                if blockPredictionPending s then Some (s\<lparr>blockPredictionPending := False\<rparr>)
                else requestNewPrediction cfg stages s
              else Some s"
  have "bpu_inv N cfg (s\<lparr>blockPredictionPending := False\<rparr>)"
    using inv by (simp add: bpu_inv_def now_ok_def pred_ok_def)
  then have "\<exists>s1. ?x = Some s1 \<and> bpu_inv N cfg s1 \<and> \<not> squashing s1"
    using requestNewPrediction_ok [OF cfg inv len n] inv False by auto
  then obtain s1 where s1: "?x = Some s1" "bpu_inv N cfg s1" "\<not> squashing s1"
    by blast
  obtain s2 where s2: "processNewPrediction cfg s1 = Some s2" "bpu_inv N cfg s2"
    using processNewPrediction_ok [OF cfg s1(2,3)] by blast
  then show ?thesis
    using False s1(1) by (simp add: bpu_tick_def bpu_inv_def now_ok_def pred_ok_def)
qed

lemma resolve_target_fields [simp]:
  "history (resolve_target ty pc tk bi t) = history t" "phistory (resolve_target ty pc tk bi t) = phistory t"
  "bwhistory (resolve_target ty pc tk bi t) = bwhistory t" "lhistory (resolve_target ty pc tk bi t) = lhistory t"
  "predMetas (resolve_target ty pc tk bi t) = predMetas t" "startPC (resolve_target ty pc tk bi t) = startPC t"
  "predBTBEntries (resolve_target ty pc tk bi t) = predBTBEntries t"
  by (simp_all add: resolve_target_def Let_def split: option.splits)

lemma recoverHistoryForSquash_ok:
  assumes cfg: "bpu_cfg_ok N cfg" and now: "now_ok cfg s" and t: "target_ok N cfg (bpu_ras s) t"
    and ci: "c \<and> tk \<Longrightarrow> getControlPC t = pc \<and> getTakenTarget t = rpc"
    and q: "\<And>sh tk bi r'. ras_size r' = ras_size (bpu_ras s) \<Longrightarrow>
      queue_ok N cfg r' (histShiftIn sh tk (history t)) (bpu_ftq s) (hm_squash i sh tk bi (historyManager s))"
  shows "\<exists>s'. recoverHistoryForSquash cfg t i pc c tk ty rpc s = Some s' \<and> now_ok cfg s' \<and>
    queue_ok N cfg (bpu_ras s') (s0History s') (bpu_ftq s') (historyManager s') \<and> squashing s' = squashing s"
proof -
  let ?e = "getHistInfoDuringSquash t pc c tk" and ?b = "getBwHistInfoDuringSquash t pc c tk rpc"
  define bi where "bi = (if ty = SQUASH_CTRL then exeBranchInfo t else noBranch)"
  let ?hm = "hm_squash i (fst ?e) (snd ?e) bi (historyManager s)"
  let ?ras = "recoverHist (pm_ras (predMetas t)) (exeTaken t) (to_ras (exeBranchInfo t)) (bpu_ras s)"
  have regs: "regs_ok cfg (history t) (phistory t) (bwhistory t) (lhistory t)"
    and m: "mgsc_ok cfg (history t) (phistory t) (bwhistory t) (lhistory t) (pm_mgsc (predMetas t))"
    and pm: "pm_tage (predMetas t) = tage_of cfg (phistory t)" "meta_ok (bpu_ras s) (pm_ras (predMetas t))"
    and n: "length (predBTBEntries t) \<le> N"
    using t by (simp_all add: target_ok_def snapshot_ok_def)
  have b: "fst ?e \<le> N + 1" "fst ?b \<le> N + 1"
    using squash_info_bound [where t = t] n by (meson add_le_mono1 le_trans)+
  have ph: "pHistShiftIn 2 (snd ?e) (phistory t) (getControlPC t) (getTakenTarget t) =
      pHistShiftIn 2 (snd ?e) (phistory t) pc rpc"
    using ci by (auto simp: getHistInfoDuringSquash_def pHistShiftIn_def)
  obtain m' where m': "mgsc_update cfg (history t) (phistory t) (bwhistory t) (lhistory t) (startPC t) ?e ?b
      (snd ?e, getControlPC t, getTakenTarget t) (pm_mgsc (predMetas t)) = Some m'"
    and m'ok: "mgsc_ok cfg (histShiftIn (fst ?e) (snd ?e) (history t)) (pHistShiftIn 2 (snd ?e) (phistory t) pc rpc)
      (histShiftIn (fst ?b) (snd ?b) (bwhistory t)) (local_shift cfg (startPC t) ?e (lhistory t)) m'"
    using mgsc_update_ok [OF cfg regs m b] unfolding ph [symmetric] by blast
  have r: "mgsc_recover cfg (pm_mgsc (predMetas t)) (mgscS s) = Some (pm_mgsc (predMetas t))"
    using now regs by (intro mgsc_recover_ok [OF m]) (auto simp: now_ok_def regs_ok_def)
  have tg: "tage_recoverPHist cfg (phistory t) (pm_tage (predMetas t)) (snd ?e) (getControlPC t)
      (getTakenTarget t) (tageS s) = Some (tage_of cfg (pHistShiftIn 2 (snd ?e) (phistory t) pc rpc))"
    using tage_recoverPHist_ok [OF cfg] now regs pm(1) ph by (simp add: now_ok_def regs_ok_def)
  have qq: "queue_ok N cfg ?ras (histShiftIn (fst ?e) (snd ?e) (history t)) (bpu_ftq s) ?hm"
    by (rule q) simp
  then have "checkHistory (historyBits cfg) ?hm (histShiftIn (fst ?e) (snd ?e) (history t))"
    using checkHistory_replay by (auto simp: queue_ok_def chained_def)
  moreover have "ras_inv ?ras"
    using now pm(2) by (intro recoverHist_inv) (auto simp: now_ok_def)
  ultimately show ?thesis
    using m'ok regs_ok_shift [OF regs] qq
    by (simp add: recoverHistoryForSquash_def Let_def m' r tg flip: bi_def)
      (subst check_folded_ok, auto simp: now_ok_def)
qed

lemma handleSquash_ok:
  assumes cfg: "bpu_cfg_ok N cfg" and inv: "bpu_inv N cfg s" and ne: "ftq_cap (bpu_ftq s) \<noteq> []"
    and ci: "c \<and> tk \<Longrightarrow> ty = SQUASH_CTRL \<and> (\<exists>b. bi = Some b \<and> bi_pc b = pc \<and> bi_target b = rpc)"
  shows "\<exists>s'. handleSquash cfg i ty pc rpc c tk bi s = Some s' \<and> bpu_inv N cfg s'"
proof (cases "hasTarget i (bpu_ftq s)")
  case False
  then show ?thesis
    using inv ne by (simp add: handleSquash_def bpu_inv_def now_ok_def pred_ok_def)
next
  case True
  let ?f = "resolve_target ty pc tk bi"
  let ?q = "update_target i ?f (bpu_ftq s)" and ?i = "i - baseTargetId (bpu_ftq s)"
  let ?s = "s\<lparr>squashing := True, bpu_ftq := squashAfter i ?q\<rparr>" and ?t = "?f (ftq_cap (bpu_ftq s) ! ?i)"
  have i: "?i < length (ftq_cap (bpu_ftq s))"
    using True by (auto simp: hasTarget_def)
  have t: "target_ok N cfg r (?f x) = target_ok N cfg r x" for r x
    by (simp add: target_ok_def)
  have "ftq_cap (bpu_ftq s) ! ?i \<in> set (ftq_cap (bpu_ftq s))"
    using i by simp
  then have tt: "target_ok N cfg (bpu_ras ?s) ?t"
    using inv t by (auto simp: bpu_inv_def queue_ok_def)
  have now: "now_ok cfg ?s"
    using inv by (simp add: bpu_inv_def now_ok_def)
  have ctl: "c \<and> tk \<Longrightarrow> getControlPC ?t = pc \<and> getTakenTarget ?t = rpc"
    using ci by (auto simp: resolve_target_def getControlPC_def getTakenTarget_def getBranchInfo_def Let_def)
  have qk: "queue_ok N cfg (bpu_ras s) (s0History s) (bpu_ftq s) (historyManager s)"
    using inv by (simp add: bpu_inv_def)
  have q: "queue_ok N cfg r' (histShiftIn sh d (history ?t)) (bpu_ftq ?s) (hm_squash i sh d b (historyManager ?s))"
    if "ras_size r' = ras_size (bpu_ras ?s)" for sh d b r'
    using queue_ok_squash [OF qk True _ resolve_target_fields(1) t] that by simp
  have "\<exists>s1. recoverHistoryForSquash cfg ?t i pc c tk ty rpc ?s = Some s1 \<and> now_ok cfg s1 \<and>
      queue_ok N cfg (bpu_ras s1) (s0History s1) (bpu_ftq s1) (historyManager s1) \<and> squashing s1 = squashing ?s"
    by (rule recoverHistoryForSquash_ok [OF cfg now tt ctl q])
  then obtain s1 where s1: "recoverHistoryForSquash cfg ?t i pc c tk ty rpc ?s = Some s1" "now_ok cfg s1"
      "queue_ok N cfg (bpu_ras s1) (s0History s1) (bpu_ftq s1) (historyManager s1)" "squashing s1"
    by auto
  moreover have "ftq_cap ?q ! (i - baseTargetId ?q) = ?t"
    using i by (simp add: update_target_def)
  ultimately show ?thesis
    using True by (simp add: handleSquash_def Let_def bpu_inv_def now_ok_def pred_ok_def)
qed

lemma controlSquash_ok:
  assumes "bpu_cfg_ok N cfg" and "bpu_inv N cfg s"
  shows "\<exists>s'. controlSquash cfg i pc tgt st sz tk fromCommit s = Some s' \<and> bpu_inv N cfg s'"
proof (cases "get_target i (bpu_ftq s)")
  case (Some t)
  then have "ftq_cap (bpu_ftq s) \<noteq> []"
    by (auto simp: get_target_def hasTarget_def split: if_splits)
  then show ?thesis
    using Some handleSquash_ok [OF assms] by (simp add: controlSquash_def Let_def newBranchInfo_def)
qed (use assms(2) in \<open>simp add: controlSquash_def\<close>)

lemma bpu_commit_ok:
  assumes "bpu_inv N cfg s"
  shows "bpu_inv N cfg (bpu_commit i s)"
proof (cases "ftq_cap (bpu_ftq s) = []")
  case False
  have q: "queue_ok N cfg (bpu_ras s) (s0History s) (bpu_ftq s) (historyManager s)" and r: "ras_inv (bpu_ras s)"
    using assms by (simp_all add: bpu_inv_def now_ok_def)
  then have "\<forall>t\<in>set (ftq_cap (bpu_ftq s)). meta_ok (bpu_ras s) (pm_ras (predMetas t))"
    by (simp add: queue_ok_def target_ok_def snapshot_ok_def)
  from commit_targets_result [OF r this] obtain r' where r': "commit_targets i (bpu_ftq s) (bpu_ras s) =
      ((bpu_ftq s)\<lparr>ftq_cap := drop (i + 1 - baseTargetId (bpu_ftq s)) (ftq_cap (bpu_ftq s)),
         baseTargetId := baseTargetId (bpu_ftq s) +
           min (i + 1 - baseTargetId (bpu_ftq s)) (length (ftq_cap (bpu_ftq s)))\<rparr>, r')"
    "ras_inv r'" "ras_size r' = ras_size (bpu_ras s)"
    by blast
  show ?thesis
    using False assms r' queue_ok_commit [OF q r'(3), of i] meta_ok_size [OF r'(3)]
    by (simp add: bpu_commit_def bpu_inv_def now_ok_def pred_ok_def snapshot_ok_def)
qed (use assms in \<open>simp add: bpu_commit_def\<close>)

text \<open>What the surrounding stages guarantee: fetch consumes a target that is there, a squash
  that is not about a branch comes while the queue holds a target, and the tables answer with
  at most \<open>N\<close> branches per stage.\<close>

fun legal_event :: "nat \<Rightarrow> bpu_cfg \<Rightarrow> bpu_event \<Rightarrow> bpu \<Rightarrow> bool" where
  "legal_event N cfg (BTick stages) s \<longleftrightarrow>
     length stages = numStages cfg \<and> list_all (\<lambda>p. length (btbEntries p) \<le> N) stages"
| "legal_event N cfg BConsume s \<longleftrightarrow> hasTarget (fetchptr (bpu_ftq s)) (bpu_ftq s)"
| "legal_event N cfg (BNonControlSquash i pc) s \<longleftrightarrow> ftq_cap (bpu_ftq s) \<noteq> []"
| "legal_event N cfg (BTrapSquash i pc) s \<longleftrightarrow> ftq_cap (bpu_ftq s) \<noteq> []"
| "legal_event N cfg _ s \<longleftrightarrow> True"

fun legal_run :: "nat \<Rightarrow> bpu_cfg \<Rightarrow> bpu_event list \<Rightarrow> bpu \<Rightarrow> bool" where
  "legal_run N cfg [] s \<longleftrightarrow> True"
| "legal_run N cfg (e # es) s \<longleftrightarrow>
     legal_event N cfg e s \<and> (case bpu_step cfg e s of None \<Rightarrow> True | Some s1 \<Rightarrow> legal_run N cfg es s1)"

lemma bpu_step_ok:
  assumes cfg: "bpu_cfg_ok N cfg" and inv: "bpu_inv N cfg s" and "legal_event N cfg e s"
  shows "\<exists>s'. bpu_step cfg e s = Some s' \<and> bpu_inv N cfg s'"
proof (cases e)
  case (BTick stages)
  then show ?thesis using bpu_tick_ok [OF cfg inv] assms(3) by (simp add: list_all_iff)
next
  case BConsume
  then show ?thesis
    using inv assms(3)
    by (auto simp: consumeFetchTarget_def finishTarget_def bpu_inv_def now_ok_def pred_ok_def queue_ok_def target_ids_def)
next
  case BBlock
  then show ?thesis
    using inv by (simp add: blockPredictionOnce_def bpu_inv_def now_ok_def pred_ok_def)
qed (use assms handleSquash_ok [OF cfg inv, where c = False] controlSquash_ok [OF cfg inv] bpu_commit_ok [OF inv] in
      \<open>simp_all add: nonControlSquash_def trapSquash_def\<close>)

lemma bpu_run_ok:
  assumes "bpu_cfg_ok N cfg"
  shows "bpu_inv N cfg s \<Longrightarrow> legal_run N cfg es s \<Longrightarrow> \<exists>s'. bpu_run cfg es s = Some s' \<and> bpu_inv N cfg s'"
proof (induction es arbitrary: s)
  case (Cons e es)
  then obtain s1 where "bpu_step cfg e s = Some s1" "bpu_inv N cfg s1"
    using bpu_step_ok [OF assms] by fastforce
  then show ?case using Cons by simp
qed simp

lemma init_bpu_inv:
  assumes "bpu_cfg_ok N cfg" and "ras_inv r"
  shows "bpu_inv N cfg (init_bpu cfg r)"
proof -
  have "zero_hists cs = folds cs (replicate n False)" for cs n
    by (simp add: zero_hists_def fold_hist_zero)
  then show ?thesis
    using assms
    by (auto simp: bpu_inv_def init_bpu_def now_ok_def regs_ok_def pred_ok_def queue_ok_def chained_def
        target_ids_def tage_of_def init_tage_def mgsc_ok_def init_mgsc_def zero_hists_def fold_hist_zero)
qed

section \<open>Override bubbles\<close>

lemma match_refl [simp]: "fst (match w p p)"
  by (simp add: match_def)

lemma match_getTarget:
  assumes "fst (match w p q)" and "bbStart p = bbStart q"
  shows "getTarget w p = getTarget w q"
proof (cases "isTaken p")
  case False
  with assms show ?thesis
    by (auto simp: match_def getTarget_def getFallThrough_def isTaken_def Let_def split: if_splits)
qed (use assms in \<open>auto simp: match_def split: if_splits\<close>)

lemma first_hit_exact:
  "c \<in> set ps \<Longrightarrow> first_hit w c ps < length ps \<and> fst (match w (ps ! first_hit w c ps) c) \<and>
     (\<forall>j<first_hit w c ps. \<not> fst (match w (ps ! j) c))"
proof (induction w c ps rule: first_hit.induct)
  case (1 w c p q ps)
  then show ?case
    by (cases "p = c") (auto simp: less_Suc_eq_0_disj)
qed auto

section \<open>Fall-through addresses\<close>

lemma unat_and_not_mask: "unat ((x :: addr) AND NOT (mask k)) = unat x - unat x mod 2 ^ k"
proof -
  have m: "unat (take_bit k x) = unat x mod 2 ^ k"
    by (metis take_bit_eq_mod unsigned_take_bit_eq)
  then have "take_bit k x \<le> x"
    by (simp add: word_le_nat_alt)
  moreover have "x AND NOT (mask k) = x - take_bit k x"
  proof -
    have "NOT x AND take_bit k x = 0" "x AND NOT (take_bit k x) = x AND NOT (mask k)"
      by (rule bit_eqI; auto simp: bit_simps)+
    then show ?thesis
      using disjunctive_diff_eq_and_not [of x "take_bit k x"] by simp
  qed
  ultimately show ?thesis
    by (simp add: unat_sub m)
qed

section \<open>Histories of a confirmed prediction\<close>

text \<open>In a block whose entries are ordered by address, the branches before the taken one are
  the conditional ones the prediction counts.\<close>

lemma taken_scan_in: "e_valid (taken_scan p es) \<Longrightarrow> taken_scan p es \<in> set es"
  by (induction es) (auto simp: emptyEntry_def branch_info.defs)

lemma hist_scan_taken:
  assumes "sorted_wrt (\<lambda>a b. bi_pc a < bi_pc b) es" and "e_valid (taken_scan p es)"
  shows "hist_scan dir p es n =
    (let e = taken_scan p es; k = n + length (filter (\<lambda>x. e_valid x \<and> bi_pc x < bi_pc e) es)
     in if bi_isCond e then (k + 1, dir e) else (k, False))"
  using assms
proof (induction es arbitrary: n)
  case (Cons x xs)
  show ?case
  proof (cases "e_valid x \<and> (\<not> bi_isCond x \<or> predictedTaken p x)")
    case True
    have "filter (\<lambda>y. e_valid y \<and> bi_pc y < bi_pc x) xs = []"
      using Cons.prems(1) by (auto simp: filter_empty_conv)
    with True show ?thesis
      by (auto simp: Let_def)
  next
    case False
    then have e: "taken_scan p (x # xs) = taken_scan p xs" "e_valid (taken_scan p xs)"
      using Cons.prems(2) by auto
    then have "bi_pc x < bi_pc (taken_scan p xs)"
      using taken_scan_in [of p xs] Cons.prems(1) by auto
    with False e show ?thesis
      using Cons.IH Cons.prems(1) by (auto simp: Let_def)
  qed
qed (simp add: emptyEntry_def branch_info.defs)

section \<open>Properties\<close>

text \<open>What a squash leaves in the path history.\<close>

lemma controlSquash_path:
  assumes "controlSquash cfg i pc tgt st sz tk fc s = Some s'" and "get_target i (bpu_ftq s) = Some t"
    and "\<not> cs_isCondCtrl st"
  shows "s0PHistory s' = phistory t"
proof -
  have "phistory (resolve_target SQUASH_CTRL pc tk b t) = phistory t" for b
    by (auto simp: resolve_target_def Let_def split: option.splits)
  then show ?thesis
    using assms
    by (auto simp: controlSquash_def handleSquash_def recoverHistoryForSquash_def update_target_def
        get_target_def hasTarget_def getHistInfoDuringSquash_def check_folded_def pHistShiftIn_def Let_def
        split: if_splits option.splits prod.splits)
qed

text \<open>A block with a conditional branch that is not taken and a jump, and a small unit.\<close>

definition ex_cond :: btb_entry where
  "ex_cond = \<lparr>bi_pc = 0x80000004, bi_target = 0x80000040, bi_isCond = True, bi_isIndirect = False,
     bi_isDirect = True, bi_isCall = False, bi_isReturn = False, bi_size = 4, e_valid = True\<rparr>"

definition ex_jump :: btb_entry where
  "ex_jump = \<lparr>bi_pc = 0x8000000c, bi_target = 0x80000100, bi_isCond = False, bi_isIndirect = False,
     bi_isDirect = True, bi_isCall = True, bi_isReturn = False, bi_size = 4, e_valid = True\<rparr>"

definition ex_pred :: "btb_entry list \<Rightarrow> full_pred" where
  "ex_pred es = \<lparr>bbStart = 0x80000000, btbEntries = es, condTakens = [], indirectTargets = [], returnTarget = 0\<rparr>"

definition ex_cfg :: bpu_cfg where
  "ex_cfg =
     (let p = \<lparr>histLen = 8, foldedLen = 5, maxShamt = 2\<rparr>; d = \<lparr>histLen = 6, foldedLen = 4, maxShamt = 4\<rparr> in
      \<lparr>predictWidth = 32, historyBits = 16, ftqSize = 4, numStages = 3, rasDelay = 1,
       tageIndexCfg = [p], tageTagCfg = [p], tageAltTagCfg = [], gCfg = [d], pCfg = [p], bwCfg = [d],
       iCfg = [\<lparr>histLen = 4, foldedLen = 4, maxShamt = 1\<rparr>], lCfg = [d],
       numEntriesFirstLocalHistories = 2, mgscBlockSize = 32\<rparr>)"

definition ex_bpu :: bpu where
  "ex_bpu = (init_bpu ex_cfg (initRAS 4 2 8))\<lparr>squashing := False\<rparr>"

definition ex_static :: ctrl_static where
  "ex_static = \<lparr>cs_isCondCtrl = True, cs_isIndirectCtrl = False, cs_isDirectCtrl = True,
     cs_isCall = False, cs_isReturn = False, cs_isNonSpeculative = False\<rparr>"

definition ex_stages :: "full_pred list" where
  "ex_stages = [ex_pred [], ex_pred [ex_cond, ex_jump], ex_pred [ex_cond, ex_jump]]"

definition ex_events :: "bpu_event list" where
  "ex_events = [BTick ex_stages, BTick ex_stages, BTick ex_stages, BTick ex_stages, BConsume,
     BControlSquash 1 0x80000004 0x80000040 ex_static 4 True False, BCommit 1]"

definition ex_mid :: bpu where
  "ex_mid = ex_bpu\<lparr>finalPred := ex_pred [ex_cond, ex_jump]\<rparr>"

definition ex_squashed :: "bpu \<Rightarrow> bpu" where
  "ex_squashed s =
     s\<lparr>bpu_ftq := \<lparr>ftq_cap = [createFetchTargetEntry ex_cfg ex_mid], baseTargetId = 1, fetchptr = 1\<rparr>\<rparr>"

text \<open>
  C30: The assertions of the prediction unit hold through every run. From the constructed state,
  however predictions, consumed targets, squashes and commits interleave, no assertion of the
  queue or of a history update fails, every folded history equals the fold of its register,
  the register equals what the history manager rebuilds, the history manager holds exactly the
  targets of the queue, and the return address stack stays within its arrays.
\<close>

theorem bpu_assertions_hold:
  assumes "bpu_cfg_ok N cfg" and "0 < n" and "0 < m"
    and "legal_run N cfg es (init_bpu cfg (initRAS n w m))"
  shows "\<exists>s. bpu_run cfg es (init_bpu cfg (initRAS n w m)) = Some s \<and>
    tage_checkFoldedHist cfg (s0PHistory s) (tageS s) \<and>
    mgsc_checkFoldedHist cfg (s0History s) (s0PHistory s) (s0LHistory s) (mgscS s) \<and>
    checkHistory (historyBits cfg) (historyManager s) (s0History s) \<and>
    map streamId (historyManager s) = target_ids (bpu_ftq s) \<and> ras_inv (bpu_ras s)"
proof -
  have "ras_inv (initRAS n w m)"
    using assms(2,3) by (auto simp: ras_inv_def initRAS_def ptrDec_def)
  then obtain s where s: "bpu_run cfg es (init_bpu cfg (initRAS n w m)) = Some s" "bpu_inv N cfg s"
    using bpu_run_ok [OF assms(1) init_bpu_inv [OF assms(1)] assms(4)] by blast
  then have "check_folded cfg s = Some s" "checkHistory (historyBits cfg) (historyManager s) (s0History s)"
    using check_folded_ok [of s cfg] checkHistory_replay
    by (auto simp: bpu_inv_def now_ok_def queue_ok_def chained_def)
  with s show ?thesis
    by (auto simp: check_folded_def bpu_inv_def now_ok_def queue_ok_def split: if_splits)
qed

theorem bpu_assertions_hold_witness:
  "\<exists>s. bpu_run ex_cfg ex_events (init_bpu ex_cfg (initRAS 4 2 8)) = Some s \<and>
     tage_checkFoldedHist ex_cfg (s0PHistory s) (tageS s)"
proof -
  have "bpu_cfg_ok 2 ex_cfg"
    by code_simp
  moreover have "legal_run 2 ex_cfg ex_events (init_bpu ex_cfg (initRAS 4 2 8))"
    by code_simp
  ultimately show ?thesis
    using bpu_assertions_hold [of 2 ex_cfg 4 8 ex_events 2] by auto
qed

text \<open>
  Override bubbles. The number of bubbles is the first stage whose prediction agrees with
  the final one, so a prediction of stage 0 that agrees costs none; that stage sends fetch to
  the target of the final prediction.
\<close>

lemma override_bubbles_exact:
  assumes "generateFinalPredAndCreateBubbles cfg stages s = Some s'"
    and "\<forall>p\<in>set stages. bbStart p = a"
  shows "let k = numOverrideBubbles s'; f = finalPred s' in
    k < length stages \<and> f \<in> set stages \<and> fst (match (predictWidth cfg) (stages ! k) f) \<and>
    (\<forall>j<k. \<not> fst (match (predictWidth cfg) (stages ! j) f)) \<and>
    getTarget (predictWidth cfg) (stages ! k) = getTarget (predictWidth cfg) f"
proof -
  let ?w = "predictWidth cfg" and ?f = "choose_pred stages"
  have "stages \<noteq> []" and s': "finalPred s' = ?f" "numOverrideBubbles s' = first_hit ?w ?f stages"
    using assms(1) by (auto simp: generateFinalPredAndCreateBubbles_def Let_def split: if_splits)
  then have f: "?f \<in> set stages"
    using choose_pred_in by blast
  then show ?thesis
    using first_hit_exact [OF f, of ?w] match_getTarget [of ?w "stages ! first_hit ?w ?f stages" ?f]
      assms(2) s' by (simp add: Let_def)
qed

text \<open>
  C31: A squash that confirms a taken branch. When the entries of a predicted block are ordered
  by address from its start, recomputing the history of the taken branch from the fetch target,
  as a squash by that branch does, gives the same shift and direction bit as the prediction
  did, for the global and the backward history.
\<close>

theorem squash_confirms_histories:
  assumes "isTaken (finalPred s)" and "sorted_wrt (\<lambda>a b. bi_pc a < bi_pc b) (btbEntries (finalPred s))"
    and "\<forall>e\<in>set (btbEntries (finalPred s)). s0PC s \<le> bi_pc e"
  shows "let e = getTakenEntry (finalPred s); t = createFetchTargetEntry cfg s in
    getHistInfoDuringSquash t (bi_pc e) (bi_isCond e) True = getHistInfo (finalPred s) \<and>
    getBwHistInfoDuringSquash t (bi_pc e) (bi_isCond e) True (bi_target e) = getBwHistInfo (finalPred s)"
proof -
  let ?es = "btbEntries (finalPred s)" and ?t = "createFetchTargetEntry cfg s"
  have t: "startPC ?t = s0PC s" "predBTBEntries ?t = ?es"
    by (simp_all add: createFetchTargetEntry_def setDefaultResolve_def Let_def)
  have "squash_shamt ?t a = length (filter (\<lambda>x. e_valid x \<and> bi_pc x < a) ?es)" for a
    using assms(3) by (auto simp: squash_shamt_def t intro!: arg_cong [of _ _ length] filter_cong)
  then show ?thesis
    using hist_scan_taken [OF assms(2), of "finalPred s"] assms(1)
    by (simp add: isTaken_def getTakenEntry_def getHistInfo_def getBwHistInfo_def Let_def
        getHistInfoDuringSquash_def getBwHistInfoDuringSquash_def)
qed

theorem squash_confirms_histories_witness:
  "getHistInfoDuringSquash (createFetchTargetEntry ex_cfg (ex_bpu\<lparr>finalPred := ex_pred [ex_cond, ex_jump]\<rparr>))
     0x8000000c False True = (1, False)"
proof -
  let ?s = "ex_bpu\<lparr>finalPred := ex_pred [ex_cond, ex_jump]\<rparr>"
  have "isTaken (finalPred ?s)" "sorted_wrt (\<lambda>a b. bi_pc a < bi_pc b) (btbEntries (finalPred ?s))"
    "\<forall>e\<in>set (btbEntries (finalPred ?s)). s0PC ?s \<le> bi_pc e"
    "getTakenEntry (finalPred ?s) = ex_jump" "getHistInfo (finalPred ?s) = (1, False)"
    by code_simp+
  then show ?thesis
    using squash_confirms_histories [of ?s ex_cfg] by (simp add: Let_def ex_jump_def)
qed

text \<open>
  C38: A jump that redirects fetch is left out of the path history. Predicting a taken
  unconditional branch shifts it into the path history; a control squash by an unconditional
  branch of the same block puts the path history back to the start of the block, without the
  branch, although the branch was taken.
\<close>

theorem jump_squash_drops_path:
  assumes "isTaken (finalPred s)" and "\<not> bi_isCond (getTakenEntry (finalPred s))"
    and "updateHistoryForPrediction cfg (createFetchTargetEntry cfg s) s = Some s1"
    and "get_target i (bpu_ftq s2) = Some (createFetchTargetEntry cfg s)" and "\<not> cs_isCondCtrl st"
    and "controlSquash cfg i (bi_pc (getTakenEntry (finalPred s))) tgt st sz True fc s2 = Some s3"
  shows "s0PHistory s1 = pHistShiftIn 2 True (s0PHistory s) (controlAddr (finalPred s))
      (getTarget (predictWidth cfg) (finalPred s)) \<and>
    s0PHistory s3 = s0PHistory s"
proof -
  have "s0PHistory s3 = s0PHistory s"
    using controlSquash_path [OF assms(6,4,5)]
    by (simp add: createFetchTargetEntry_def setDefaultResolve_def Let_def)
  then show ?thesis
    using assms(1,3)
    by (auto simp: updateHistoryForPrediction_def getPHistInfo_def controlAddr_def getTarget_def
        isTaken_def check_folded_def Let_def split: if_splits option.splits prod.splits)
qed

theorem jump_squash_drops_path_witness:
  "case updateHistoryForPrediction ex_cfg (createFetchTargetEntry ex_cfg ex_mid) ex_mid of
     None \<Rightarrow> False
   | Some s1 \<Rightarrow>
       (case controlSquash ex_cfg 1 0x8000000c 0x80000200 (ex_static\<lparr>cs_isCondCtrl := False\<rparr>) 4 True False
               (ex_squashed s1) of
          None \<Rightarrow> False
        | Some s3 \<Rightarrow> s0PHistory s1 \<noteq> s0PHistory ex_mid \<and> s0PHistory s3 = s0PHistory ex_mid)"
proof -
  let ?t = "createFetchTargetEntry ex_cfg ex_mid" and ?st = "ex_static\<lparr>cs_isCondCtrl := False\<rparr>"
  have "case updateHistoryForPrediction ex_cfg ?t ex_mid of None \<Rightarrow> False
      | Some s1 \<Rightarrow> controlSquash ex_cfg 1 0x8000000c 0x80000200 ?st 4 True False (ex_squashed s1) \<noteq> None"
    by code_simp
  then obtain s1 s3 where s1: "updateHistoryForPrediction ex_cfg ?t ex_mid = Some s1"
    and s3: "controlSquash ex_cfg 1 0x8000000c 0x80000200 ?st 4 True False (ex_squashed s1) = Some s3"
    by (auto split: option.splits)
  have h: "isTaken (finalPred ex_mid)" "\<not> bi_isCond (getTakenEntry (finalPred ex_mid))" "\<not> cs_isCondCtrl ?st"
    "bi_pc (getTakenEntry (finalPred ex_mid)) = 0x8000000c"
    "pHistShiftIn 2 True (s0PHistory ex_mid) (controlAddr (finalPred ex_mid))
      (getTarget (predictWidth ex_cfg) (finalPred ex_mid)) \<noteq> s0PHistory ex_mid"
    by code_simp+
  have "get_target 1 (bpu_ftq (ex_squashed s1)) = Some ?t"
    by (simp add: ex_squashed_def get_target_def hasTarget_def)
  then show ?thesis
    using jump_squash_drops_path [OF h(1,2) s1 _ h(3), of 1 "ex_squashed s1" "0x80000200" 4 False s3] h(4,5) s1 s3
    by simp
qed

text \<open>
  C32: Squashing undoes speculation. Adding any number of younger targets to the fetch target queue and then
  squashing to the youngest one there was before brings back the same queue, target for target, with fetch at
  the target after the youngest. Doing the same with the history manager brings back its entries in place,
  of which the squash rewrites the youngest one, the one it squashes to, with the corrected outcome.
\<close>

theorem squash_undoes_speculation:
  assumes "1 \<le> baseTargetId q" and "ftq_cap q \<noteq> []" and "map streamId hs = target_ids q"
    and "enq_all (\<lambda>(i, t) q. if i = backId q + 1 then insert_target cap t q else None) ts q = Some q1"
    and "enq_all (\<lambda>(a, sh, tk, bi, sid) hs. Some (addSpeculativeHist a sh tk bi sid hs)) es hs = Some hs1"
    and "map fst ts = [backId q + 1..<backId q + 1 + length ts]"
    and "map (\<lambda>(a, sh, tk, bi, sid). sid) es = map fst ts"
  shows "squashAfter (backId q) q1 = q\<lparr>fetchptr := backId q + 1\<rparr> \<and>
    hm_squash (backId q) sh tk bi hs1 = butlast hs @ [hm_correct sh tk bi (last hs)]"
proof -
  have last: "backId q + 1 = baseTargetId q + length (ftq_cap q)"
    using assms(1,2) by (cases "ftq_cap q") (simp_all add: backId_def)
  have "baseTargetId q \<le> backId q + 1"
    using last by simp
  then have "target_ids q @ map fst ts = [baseTargetId q..<backId q + 1 + length ts]"
    using upt_add_eq_append [of "baseTargetId q" "backId q + 1" "length ts"]
    unfolding assms(6) target_ids_def last by simp
  then have srt: "sorted_wrt (<) (target_ids q @ map fst ts)"
    by (simp only: sorted_wrt_upt)
  have old: "\<forall>j\<in>set (target_ids q). j \<le> backId q"
    using last by (auto simp: target_ids_def)
  have "\<forall>x\<in>set (map fst ts). backId q < x" "\<forall>x\<in>set (map (\<lambda>(a, sh, tk, bi, sid). sid) es). backId q < x"
    unfolding assms(7) unfolding assms(6) by auto
  then have new: "\<forall>x\<in>set ts. backId q < fst x" "\<forall>x\<in>set es. backId q < (case x of (a, sh, tk, bi, sid) \<Rightarrow> sid)"
    by simp_all
  have "ftq_cap (squashAfter (backId q) q1) = ftq_cap q"
    using ftqc.squash_restores_contents [OF assms(1,4) srt old new(1)] by auto
  then have "squashAfter (backId q) q1 = q\<lparr>fetchptr := backId q + 1\<rparr>"
    using insert_all_base [OF assms(4)] assms(1) by (simp add: squashAfter_take)
  moreover have "hm_squash (backId q) sh tk bi hs1 = map (\<lambda>e. if streamId e = backId q then hm_correct sh tk bi e else e) hs"
    using hmc.squash_restores_contents [of hs es hs1 "backId q" sh tk bi] assms(3,5,7) srt old new(2)
    by (auto simp: sorted_wrt_append)
  moreover have "map (\<lambda>e. if streamId e = backId q then hm_correct sh tk bi e else e) hs = butlast hs @ [hm_correct sh tk bi (last hs)]"
    using last assms(2,3) by (intro touch_last [of _ "baseTargetId q"]) (cases "ftq_cap q"; simp add: target_ids_def)+
  ultimately show ?thesis
    by simp
qed

theorem squash_undoes_speculation_witness:
  "let t = createFetchTargetEntry ex_cfg ex_mid; q = \<lparr>ftq_cap = [t], baseTargetId = 3, fetchptr = 4\<rparr> in
     (case enq_all (\<lambda>(i, t) q. if i = backId q + 1 then insert_target 4 t q else None) [(4, t), (5, t)] q of
        None \<Rightarrow> False | Some q1 \<Rightarrow> length (ftq_cap q1) = 3 \<and> squashAfter 3 q1 = q)"
proof -
  define t where "t = createFetchTargetEntry ex_cfg ex_mid"
  define q where "q = \<lparr>ftq_cap = [t], baseTargetId = 3, fetchptr = 4\<rparr>"
  define e where "e i = (0 :: addr, 1 :: nat, True, noBranch, i :: nat)" for i
  define hs where "hs = addSpeculativeHist 0 1 True noBranch 3 []"
  define es where "es = [e 4, e 5]"
  let ?enq = "\<lambda>(i, t) q. if i = backId q + 1 then insert_target 4 t q else None"
  let ?add = "\<lambda>(a, sh, tk, bi, sid) hs. Some (addSpeculativeHist a sh tk bi sid hs)"
  obtain q1 where q1: "enq_all ?enq [(4, t), (5, t)] q = Some q1" "length (ftq_cap q1) = 3"
    by (auto simp: insert_target_def backId_def q_def)
  obtain hs1 where hs1: "enq_all ?add es hs = Some hs1"
    by (auto simp: es_def e_def)
  have "backId q = 3" "target_ids q = [3]" "q\<lparr>fetchptr := 4\<rparr> = q"
    by (simp_all add: backId_def target_ids_def q_def)
  then show ?thesis
    using squash_undoes_speculation [OF _ _ _ q1(1) hs1, of 0 False noBranch] q1
    by (simp add: Let_def t_def [symmetric] q_def [symmetric])
       (simp add: q_def hs_def addSpeculativeHist_def es_def e_def upt_rec)
qed

text \<open>A block that does not wrap around the address space falls through to an address after its start,
  more than half and at most one width away, and aligned to half the width.\<close>

lemma fall_through_bounds:
  assumes "predictWidth cfg = 2 ^ Suc k" and "k < 62" and "unat (bbStart p) + 2 ^ Suc k < 2 ^ 64"
  shows "let f = unat (getFallThrough (predictWidth cfg) p) in
    unat (bbStart p) + 2 ^ k < f \<and> f \<le> unat (bbStart p) + 2 ^ Suc k \<and> 2 ^ k dvd f"
proof -
  let ?x = "unat (bbStart p) + 2 ^ Suc k"
  have "bbStart p + of_nat (2 ^ Suc k) = (of_nat ?x :: addr)"
    by simp
  then have "unat (bbStart p + of_nat (2 ^ Suc k)) = ?x"
    using assms(3) of_nat_inverse [of ?x "of_nat ?x :: addr"] by simp
  then have f: "unat (getFallThrough (predictWidth cfg) p) = ?x - ?x mod 2 ^ k"
    unfolding getFallThrough_def assms(1) floorLog2_power unat_and_not_mask by simp
  have "?x mod 2 ^ k < 2 ^ k" "2 ^ k dvd ?x - ?x mod 2 ^ k" "?x mod 2 ^ k \<le> ?x"
    by (rule mod_less_divisor dvd_minus_mod mod_less_eq_dividend; simp)+
  then show ?thesis
    unfolding f Let_def power_Suc by linarith
qed

end
