(* ===== verification/ROB.thy ===== *)
theory ROB
  imports Complex_Main OrderedQueue
begin

text \<open>
  The reorder buffer, \<open>cpu/o3/rob.cc\<close> and \<open>rob.hh\<close>: per thread the instructions in program
  order and the sizes of the groups they are compressed into, insertion under the four
  compression policies, retirement, and squashes that walk the buffer from its tail over
  several cycles; then the part of \<open>cpu/o3/commit.cc\<close> that fills and squashes it.

  An iterator into a list is the sequence number of the element it points to, \<open>None\<close> for the
  end of the list; following one whose element is gone fails. \<open>None\<close> as a result is a
  failed assertion or an invalid access. \<open>removedInsts\<close> records the instructions handed to
  \<open>CPU::removeFrontInst\<close>, in order.
\<close>

section \<open>Instructions and configuration\<close>

record rob_inst =
  ri_seqNum :: seq_num
  ri_threadNumber :: thread_id
  ri_ftqId :: nat
  ri_isMemRef :: bool
  ri_isControl :: bool
  ri_isNonSpeculative :: bool
  ri_isSerializeBefore :: bool
  ri_isStoreConditional :: bool
  ri_isLoad :: bool
  ri_isStore :: bool
  ri_isAtomic :: bool
  ri_isReadBarrier :: bool
  ri_isWriteBarrier :: bool
  ri_isReturn :: bool
  ri_strictlyOrdered :: bool
  ri_isSquashAfter :: bool
  ri_canCommit :: bool
  ri_isExecuted :: bool
  ri_faulted :: bool
  ri_isSquashed :: bool
  ri_isCommitted :: bool
  ri_isInROB :: bool

datatype smt_policy = Dynamic | Partitioned | Threshold

datatype walk_policy = Rollback | Replay | ConstCycle | NaiveCpt | ConfidentCpt

datatype compress_policy = none_policy | kmhv2 | MohBoE | kmhv3

record rob_cfg =
  robPolicy :: smt_policy
  robWalkPolicy :: walk_policy
  robCompressPolicy :: compress_policy
  numEntries :: nat
  CROB_instPerGroup :: nat
  squashWidth :: nat
  constSquashCycle :: nat
  smtROBThreshold :: nat
  rob_numThreads :: nat

definition instsPerGroup :: "rob_cfg \<Rightarrow> nat" where
  "instsPerGroup cfg = (if robCompressPolicy cfg = none_policy then 1 else CROB_instPerGroup cfg)"

datatype rob_status = Running | Idle | ROBSquashing

record rob =
  instList :: "thread_id \<Rightarrow> rob_inst list"
  threadGroups :: "thread_id \<Rightarrow> nat list"
  maxEntries :: "thread_id \<Rightarrow> nat"
  squashIt :: "thread_id \<Rightarrow> seq_num option"
  squashedSeqNum :: "thread_id \<Rightarrow> seq_num"
  doneSquashing :: "thread_id \<Rightarrow> bool"
  robStatus :: "thread_id \<Rightarrow> rob_status"
  numInstsInROB :: int
  lastInsertCycle :: nat
  dynSquashWidth :: nat
  rob_head :: "(thread_id \<times> seq_num) option"
  rob_tail :: "(thread_id \<times> seq_num) option"
  removedInsts :: "rob_inst list"

section \<open>Construction\<close>

definition init_maxEntries :: "rob_cfg \<Rightarrow> thread_id \<Rightarrow> nat" where
  "init_maxEntries cfg t =
     (if rob_numThreads cfg \<le> t then 0
      else case robPolicy cfg of
        Dynamic \<Rightarrow> numEntries cfg
      | Partitioned \<Rightarrow> numEntries cfg div rob_numThreads cfg
      | Threshold \<Rightarrow> smtROBThreshold cfg)"

definition resetState :: "rob \<Rightarrow> rob" where
  "resetState s =
     s\<lparr>threadGroups := \<lambda>t. [], squashIt := \<lambda>t. None, squashedSeqNum := \<lambda>t. 0,
       doneSquashing := \<lambda>t. True, numInstsInROB := 0, rob_head := None, rob_tail := None\<rparr>"

definition walk_ok :: "rob_cfg \<Rightarrow> bool" where
  "walk_ok cfg \<longleftrightarrow>
     robWalkPolicy cfg = Rollback \<and> 0 < squashWidth cfg \<or>
     robWalkPolicy cfg = Replay \<and> 0 < squashWidth cfg \<or>
     robWalkPolicy cfg = ConstCycle \<and> 0 < constSquashCycle cfg"

definition newROB :: "rob_cfg \<Rightarrow> rob option" where
  "newROB cfg =
     (if \<not> walk_ok cfg then None
      else Some (resetState
        \<lparr>instList = \<lambda>t. [], threadGroups = \<lambda>t. [], maxEntries = init_maxEntries cfg, squashIt = \<lambda>t. None,
         squashedSeqNum = \<lambda>t. 0, doneSquashing = \<lambda>t. True, robStatus = \<lambda>t. Running, numInstsInROB = 0,
         lastInsertCycle = 0, dynSquashWidth = 6, rob_head = None, rob_tail = None, removedInsts = []\<rparr>))"

fun resetEntries_loop :: "rob_cfg \<Rightarrow> nat \<Rightarrow> thread_id list \<Rightarrow> rob \<Rightarrow> rob" where
  "resetEntries_loop cfg n [] s = s"
| "resetEntries_loop cfg n (t # ts) s =
     resetEntries_loop cfg n ts
       (if robPolicy cfg = Partitioned then s\<lparr>maxEntries := (maxEntries s)(t := numEntries cfg div n)\<rparr>
        else if robPolicy cfg = Threshold \<and> n = 1 then s\<lparr>maxEntries := (maxEntries s)(t := numEntries cfg)\<rparr>
        else s)"

definition resetEntries :: "rob_cfg \<Rightarrow> thread_id list \<Rightarrow> rob \<Rightarrow> rob" where
  "resetEntries cfg activeThreads s =
     (if robPolicy cfg \<noteq> Dynamic \<or> 1 < rob_numThreads cfg
      then resetEntries_loop cfg (length activeThreads) activeThreads s else s)"

section \<open>Counting\<close>

definition countInsts :: "thread_id \<Rightarrow> rob \<Rightarrow> nat" where
  "countInsts t s = length (instList s t)"

definition countAllInsts :: "rob_cfg \<Rightarrow> rob \<Rightarrow> nat" where
  "countAllInsts cfg s = sum_list (map (\<lambda>t. countInsts t s) [0..<rob_numThreads cfg])"

definition countInstsOfGroups :: "rob_cfg \<Rightarrow> nat \<Rightarrow> rob \<Rightarrow> nat" where
  "countInstsOfGroups cfg n s = sum_list (map (\<lambda>t. sum_list (take n (threadGroups s t))) [0..<rob_numThreads cfg])"

definition getThreadEntries :: "thread_id \<Rightarrow> rob \<Rightarrow> nat" where
  "getThreadEntries t s = length (threadGroups s t)"

definition rob_isEmpty :: "thread_id \<Rightarrow> rob \<Rightarrow> bool" where
  "rob_isEmpty t s \<longleftrightarrow> getThreadEntries t s = 0"

text \<open>The subtraction is on \<open>unsigned\<close>.\<close>

definition rob_numFreeEntries :: "thread_id \<Rightarrow> rob \<Rightarrow> 32 word" where
  "rob_numFreeEntries t s = of_nat (maxEntries s t) - of_nat (getThreadEntries t s)"

section \<open>Groups\<close>

definition allocateGroup_none :: "rob_cfg \<Rightarrow> nat \<Rightarrow> rob_inst \<Rightarrow> thread_id \<Rightarrow> rob \<Rightarrow> bool" where
  "allocateGroup_none cfg cycle i t s = True"

definition allocateGroup_kmhv2 :: "rob_cfg \<Rightarrow> nat \<Rightarrow> rob_inst \<Rightarrow> thread_id \<Rightarrow> rob \<Rightarrow> bool" where
  "allocateGroup_kmhv2 cfg cycle i t s =
     (let groups = threadGroups s t; prev = last (instList s t) in
      if groups = [] then True
      else if ri_isMemRef i \<or> ri_isControl i \<or> ri_isNonSpeculative i then True
      else if ri_isMemRef prev \<or> ri_isControl prev \<or> ri_isNonSpeculative prev then True
      else if ri_ftqId prev \<noteq> ri_ftqId i then True
      else if lastInsertCycle s \<noteq> cycle then True
      else instsPerGroup cfg \<le> last groups)"

definition allocateGroup_MohBoE :: "rob_cfg \<Rightarrow> nat \<Rightarrow> rob_inst \<Rightarrow> thread_id \<Rightarrow> rob \<Rightarrow> bool" where
  "allocateGroup_MohBoE cfg cycle i t s =
     (let groups = threadGroups s t; prev = last (instList s t) in
      if groups = [] then True
      else if ri_isMemRef i \<or> ri_isNonSpeculative i then True
      else if ri_isControl prev then True
      else if lastInsertCycle s \<noteq> cycle then True
      else instsPerGroup cfg \<le> last groups)"

definition allocateGroup_kmhv3 :: "rob_cfg \<Rightarrow> nat \<Rightarrow> rob_inst \<Rightarrow> thread_id \<Rightarrow> rob \<Rightarrow> bool" where
  "allocateGroup_kmhv3 cfg cycle i t s =
     (let groups = threadGroups s t in
      if groups = [] then True
      else if lastInsertCycle s \<noteq> cycle then True
      else instsPerGroup cfg \<le> last groups)"

definition allocateNewGroup :: "rob_cfg \<Rightarrow> nat \<Rightarrow> rob_inst \<Rightarrow> thread_id \<Rightarrow> rob \<Rightarrow> bool" where
  "allocateNewGroup cfg =
     (case robCompressPolicy cfg of
        none_policy \<Rightarrow> allocateGroup_none cfg
      | kmhv2 \<Rightarrow> allocateGroup_kmhv2 cfg
      | MohBoE \<Rightarrow> allocateGroup_MohBoE cfg
      | kmhv3 \<Rightarrow> allocateGroup_kmhv3 cfg)"

text \<open>The decrement of an \<open>unsigned\<close> group size.\<close>

definition dec_group :: "nat \<Rightarrow> nat" where
  "dec_group n = (if n = 0 then 2 ^ 32 - 1 else n - 1)"

definition commitGroup :: "thread_id \<Rightarrow> rob \<Rightarrow> rob option" where
  "commitGroup t s =
     (case threadGroups s t of
        [] \<Rightarrow> None
      | g # gs \<Rightarrow> Some (s\<lparr>threadGroups := (threadGroups s)(t := (if g = 1 then gs else dec_group g # gs))\<rparr>))"

definition squashGroup :: "thread_id \<Rightarrow> rob \<Rightarrow> rob option" where
  "squashGroup t s =
     (let gs = threadGroups s t in
      if gs = [] then None
      else Some (s\<lparr>threadGroups := (threadGroups s)(t :=
        (if last gs = 1 then butlast gs else butlast gs @ [dec_group (last gs)]))\<rparr>))"

section \<open>Head and tail of all threads\<close>

fun updateHead_loop :: "thread_id list \<Rightarrow> rob \<Rightarrow> (thread_id \<times> seq_num) option \<Rightarrow> (thread_id \<times> seq_num) option" where
  "updateHead_loop [] s h = h"
| "updateHead_loop (t # ts) s h =
     updateHead_loop ts s
       (if instList s t = [] then h
        else let q = ri_seqNum (hd (instList s t)) in
          case h of None \<Rightarrow> Some (t, q) | Some (u, low) \<Rightarrow> if q < low then Some (t, q) else Some (u, low))"

definition updateHead :: "thread_id list \<Rightarrow> rob \<Rightarrow> rob" where
  "updateHead activeThreads s = s\<lparr>rob_head := updateHead_loop activeThreads s None\<rparr>"

fun updateTail_loop :: "thread_id list \<Rightarrow> rob \<Rightarrow> (thread_id \<times> seq_num) option \<Rightarrow> (thread_id \<times> seq_num) option" where
  "updateTail_loop [] s h = h"
| "updateTail_loop (t # ts) s h =
     updateTail_loop ts s
       (if instList s t = [] then h
        else let q = ri_seqNum (last (instList s t)) in
          case h of None \<Rightarrow> Some (t, q) | Some (u, high) \<Rightarrow> if high < q then Some (t, q) else Some (u, high))"

definition updateTail :: "thread_id list \<Rightarrow> rob \<Rightarrow> rob" where
  "updateTail activeThreads s = s\<lparr>rob_tail := updateTail_loop activeThreads s None\<rparr>"

section \<open>Insertion and retirement\<close>

definition add_to_group :: "rob_cfg \<Rightarrow> bool \<Rightarrow> nat list \<Rightarrow> nat list option" where
  "add_to_group cfg alloc gs =
     (if alloc then Some (gs @ [1])
      else if gs \<noteq> [] \<and> last gs < instsPerGroup cfg then Some (butlast gs @ [last gs + 1]) else None)"

text \<open>The capacity assertion compares an \<open>int\<close> with an \<open>unsigned\<close>, hence as \<open>unsigned\<close>.\<close>

definition insertInst :: "rob_cfg \<Rightarrow> nat \<Rightarrow> rob_inst \<Rightarrow> rob \<Rightarrow> rob option" where
  "insertInst cfg cycle i s =
     (if \<not> numInstsInROB s mod 2 ^ 32 \<le> int (numEntries cfg * instsPerGroup cfg) mod 2 ^ 32 then None
      else let t = ri_threadNumber i in
        case add_to_group cfg (allocateNewGroup cfg cycle i t s) (threadGroups s t) of
          None \<Rightarrow> None
        | Some gs \<Rightarrow>
            if numInstsInROB s = 0 \<and> instList s t \<noteq> [] then None
            else Some (s\<lparr>lastInsertCycle := cycle, threadGroups := (threadGroups s)(t := gs),
              instList := (instList s)(t := instList s t @ [i\<lparr>ri_isInROB := True\<rparr>]),
              rob_head := (if numInstsInROB s = 0 then Some (t, ri_seqNum i) else rob_head s),
              rob_tail := Some (t, ri_seqNum i), numInstsInROB := numInstsInROB s + 1\<rparr>))"

definition retireHead :: "thread_id list \<Rightarrow> thread_id \<Rightarrow> rob \<Rightarrow> rob option" where
  "retireHead activeThreads t s =
     (if \<not> 0 < numInstsInROB s then None
      else case instList s t of
        [] \<Rightarrow> None
      | i # is \<Rightarrow>
          if \<not> ri_canCommit i \<or> ri_isSquashed i then None
          else case commitGroup t (s\<lparr>instList := (instList s)(t := is), numInstsInROB := numInstsInROB s - 1\<rparr>) of
            None \<Rightarrow> None
          | Some s1 \<Rightarrow>
              Some ((updateHead activeThreads s1)
                \<lparr>removedInsts := removedInsts s1 @ [i\<lparr>ri_isInROB := False, ri_isCommitted := True\<rparr>]\<rparr>))"

text \<open>The loops over the head group; running past the list fails.\<close>

fun group_ready :: "bool \<Rightarrow> nat \<Rightarrow> rob_inst list \<Rightarrow> bool option" where
  "group_ready first 0 is = Some True"
| "group_ready first (Suc n) [] = None"
| "group_ready first (Suc n) (i # is) =
     (if \<not> ri_canCommit i then Some (\<not> first \<and> ri_isSerializeBefore i)
      else if ri_isNonSpeculative i \<or> ri_isStoreConditional i \<or> \<not> ri_isExecuted i \<or> ri_faulted i then Some True
      else group_ready False n is)"

definition isHeadGroupReady :: "thread_id \<Rightarrow> rob \<Rightarrow> bool option" where
  "isHeadGroupReady t s =
     (case threadGroups s t of
        [] \<Rightarrow> Some False
      | g # gs \<Rightarrow> if g \<noteq> 0 then group_ready True g (instList s t) else Some False)"

fun last_done :: "seq_num \<Rightarrow> nat \<Rightarrow> rob_inst list \<Rightarrow> seq_num option" where
  "last_done q 0 is = Some q"
| "last_done q (Suc n) [] = None"
| "last_done q (Suc n) (i # is) =
     (if \<not> ri_canCommit i \<or> \<not> ri_isExecuted i \<or> ri_faulted i then Some q else last_done (ri_seqNum i) n is)"

definition getHeadGroupLastDoneSeq :: "thread_id \<Rightarrow> rob \<Rightarrow> seq_num option" where
  "getHeadGroupLastDoneSeq t s =
     (case threadGroups s t of
        [] \<Rightarrow> Some 0
      | g # gs \<Rightarrow> if g \<noteq> 0 then last_done 0 g (instList s t) else Some 0)"

definition findInst :: "seq_num \<Rightarrow> rob_inst list \<Rightarrow> rob_inst option" where
  "findInst q is = find (\<lambda>i. ri_seqNum i = q) is"

definition readHeadInst :: "thread_id \<Rightarrow> rob \<Rightarrow> rob_inst option option" where
  "readHeadInst t s =
     (case threadGroups s t of
        [] \<Rightarrow> Some None
      | g # gs \<Rightarrow>
          if g = 0 then Some None
          else case instList s t of [] \<Rightarrow> None | i # is \<Rightarrow> if ri_isInROB i then Some (Some i) else None)"

section \<open>Squash\<close>

text \<open>Rounding of a non-negative rational to a \<open>double\<close>: 53 significant bits, ties to even.\<close>

definition rat_exponent :: "rat \<Rightarrow> int" where
  "rat_exponent q =
     (case quotient_of q of (n, d) \<Rightarrow>
        let k = int (floorLog2 (nat n)) - int (floorLog2 (nat d))
        in if 2 powi k \<le> q then k else k - 1)"

definition round_double :: "rat \<Rightarrow> rat" where
  "round_double q =
     (if q \<le> 0 then 0
      else let ulp = 2 powi (rat_exponent q - 52); m = \<lfloor>q / ulp\<rfloor>; d = q / ulp - of_int m
        in of_int (if d < 1 / 2 \<or> d = 1 / 2 \<and> even m then m else m + 1) * ulp)"

definition computeDynSquashWidth :: "rob_cfg \<Rightarrow> nat \<Rightarrow> nat \<Rightarrow> nat" where
  "computeDynSquashWidth cfg uncommitted to_squash =
     (case robWalkPolicy cfg of
        Rollback \<Rightarrow> squashWidth cfg
      | Replay \<Rightarrow>
          let expected_cycles = max 2 (round_double (of_nat uncommitted / of_nat (squashWidth cfg)))
          in max (nat \<lceil>round_double (of_nat to_squash / expected_cycles)\<rceil>) 1
      | ConstCycle \<Rightarrow>
          max (nat \<lceil>round_double (of_nat to_squash / of_nat (constSquashCycle cfg))\<rceil>) (squashWidth cfg)
      | _ \<Rightarrow> 0)"

definition younger :: "seq_num \<Rightarrow> rob_inst list \<Rightarrow> rob_inst list" where
  "younger q is = filter (\<lambda>i. q < ri_seqNum i) is"

definition rob_squash :: "rob_cfg \<Rightarrow> seq_num \<Rightarrow> thread_id \<Rightarrow> rob \<Rightarrow> rob" where
  "rob_squash cfg squash_num t s =
     (if rob_isEmpty t s then s
      else
        let is = instList s t; n = length (younger squash_num is) in
        s\<lparr>robStatus := (robStatus s)(t := ROBSquashing), doneSquashing := (doneSquashing s)(t := False),
          squashedSeqNum := (squashedSeqNum s)(t := squash_num),
          dynSquashWidth := computeDynSquashWidth cfg (length is - n) n,
          squashIt := (if is = [] then squashIt s
            else (squashIt s)(t := Some (ri_seqNum (last is))))\<rparr>)"

text \<open>One turn of the loop of \<open>doSquash\<close> at the instruction \<open>i\<close> that \<open>squashIt\<close> points to; the
  first component tells whether the head of the list was reached.\<close>

definition prev_seq :: "seq_num \<Rightarrow> rob_inst list \<Rightarrow> seq_num option" where
  "prev_seq q is =
     (let older = takeWhile (\<lambda>i. ri_seqNum i \<noteq> q) is
      in if older = [] then None else Some (ri_seqNum (last older)))"

definition squash_one :: "thread_id \<Rightarrow> rob_inst \<Rightarrow> rob \<Rightarrow> (bool \<times> rob) option" where
  "squash_one t i s =
     (let is = instList s t; q = ri_seqNum i in
      case squashGroup t (s\<lparr>numInstsInROB := numInstsInROB s - 1\<rparr>) of
        None \<Rightarrow> None
      | Some s1 \<Rightarrow>
          let s2 = s1\<lparr>removedInsts := removedInsts s1 @
                 [i\<lparr>ri_isSquashed := True, ri_canCommit := True, ri_isInROB := False\<rparr>],
               instList := (instList s1)(t := remove1 i is)\<rparr>
          in if q = ri_seqNum (hd is)
             then Some (True, s2\<lparr>squashIt := (squashIt s2)(t := None), doneSquashing := (doneSquashing s2)(t := True)\<rparr>)
             else Some (False, s2\<lparr>squashIt := (squashIt s2)(t := prev_seq q is)\<rparr>))"

fun squash_loop :: "nat \<Rightarrow> thread_id \<Rightarrow> bool \<Rightarrow> rob \<Rightarrow> (bool \<times> bool \<times> rob) option" where
  "squash_loop 0 t upd s = Some (False, upd, s)"
| "squash_loop (Suc n) t upd s =
     (case squashIt s t of
        None \<Rightarrow> Some (False, upd, s)
      | Some q \<Rightarrow>
          (case findInst q (instList s t) of
             None \<Rightarrow> None
           | Some i \<Rightarrow>
               if \<not> squashedSeqNum s t < q then Some (False, upd, s)
               else case squash_one t i s of
                 None \<Rightarrow> None
               | Some (True, s1) \<Rightarrow> Some (True, upd, s1)
               | Some (False, s1) \<Rightarrow>
                   squash_loop n t (upd \<or> q = ri_seqNum (last (instList s t))) s1))"

definition rob_doSquash :: "rob_cfg \<Rightarrow> thread_id list \<Rightarrow> bool \<Rightarrow> thread_id \<Rightarrow> rob \<Rightarrow> rob option" where
  "rob_doSquash cfg activeThreads exiting t s =
     (let finish = \<lambda>s. s\<lparr>squashIt := (squashIt s)(t := None), doneSquashing := (doneSquashing s)(t := True)\<rparr> in
      case squashIt s t of
        None \<Rightarrow> None
      | Some q \<Rightarrow>
          if findInst q (instList s t) = None then None
          else if q < squashedSeqNum s t then Some (finish s)
          else if dynSquashWidth s = 0 then None
          else
            (case squash_loop (if exiting then numEntries cfg * instsPerGroup cfg else dynSquashWidth s) t False s of
               None \<Rightarrow> None
             | Some (True, upd, s1) \<Rightarrow> Some s1
             | Some (False, upd, s1) \<Rightarrow>
                 (case squashIt s1 t of
                    None \<Rightarrow> None
                  | Some q1 \<Rightarrow>
                      let s2 = (if q1 \<le> squashedSeqNum s1 t then finish s1 else s1)
                      in Some (if upd then updateTail activeThreads s2 else s2))))"

text \<open>The commit stage calls \<open>doSquash\<close> once per cycle until the squash is done.\<close>

fun squash_cycles :: "rob_cfg \<Rightarrow> thread_id list \<Rightarrow> nat \<Rightarrow> thread_id \<Rightarrow> rob \<Rightarrow> rob option" where
  "squash_cycles cfg ts 0 t s = Some s"
| "squash_cycles cfg ts (Suc k) t s =
     (if doneSquashing s t then Some s
      else case rob_doSquash cfg ts False t s of None \<Rightarrow> None | Some s1 \<Rightarrow> squash_cycles cfg ts k t s1)"

end
