(* ===== verification/Commit.thy ===== *)
theory Commit
  imports ROB
begin

text \<open>
  The commit stage, \<open>cpu/o3/commit.cc\<close>: how it fills the reorder buffer from rename, squashes
  it, picks the thread to commit, and commits the instructions at its head, traps and
  non-speculative instructions included.

  Not modelled: interrupts, drain, architectural side effects of a committed instruction,
  hardware transactions, value prediction, the difftest interface, trace mode and statistics.
  Whether the store queue is flushed (\<open>IEW::flushStores\<close>) and whether stores wait to be written back
  (\<open>IEW::hasStoresToWB\<close>) are arguments.
\<close>

datatype commit_status =
  cRunning | cIdle | cROBSquashing | TrapPending | FetchTrapPending | SquashAfterPending

datatype commit_policy = RoundRobin | OldestReady

record commit_cfg =
  c_robCfg :: rob_cfg
  commitPolicy :: commit_policy
  commitWidth :: nat
  activeThreads :: "thread_id list"

text \<open>What the stage sends back in a cycle; the time buffer hands out a cleared slot every cycle.\<close>

record commit_out =
  doneSeqNum :: "thread_id \<Rightarrow> seq_num"
  doneMemSeqNum :: "thread_id \<Rightarrow> seq_num"
  robheadSeqNum :: "thread_id \<Rightarrow> seq_num"
  nonSpecSeqNum :: "thread_id \<Rightarrow> seq_num"
  out_squash :: "thread_id \<Rightarrow> bool"
  robSquashing :: "thread_id \<Rightarrow> bool"
  usedROB :: "thread_id \<Rightarrow> bool"
  emptyROB :: "thread_id \<Rightarrow> bool"

definition no_out :: commit_out where
  "no_out = \<lparr>doneSeqNum = \<lambda>t. 0, doneMemSeqNum = \<lambda>t. 0, robheadSeqNum = \<lambda>t. 0, nonSpecSeqNum = \<lambda>t. 0,
     out_squash = \<lambda>t. False, robSquashing = \<lambda>t. False, usedROB = \<lambda>t. False, emptyROB = \<lambda>t. False\<rparr>"

record commit_state =
  c_rob :: rob
  fromRename :: "rob_inst list"
  fixedbuffer :: "thread_id \<Rightarrow> rob_inst list"
  commitStatus :: "thread_id \<Rightarrow> commit_status"
  youngestSeqNum :: "thread_id \<Rightarrow> seq_num"
  lastCommitedSeqNum :: "thread_id \<Rightarrow> seq_num"
  trapSquash :: "thread_id \<Rightarrow> bool"
  tcSquash :: "thread_id \<Rightarrow> bool"
  trapInFlight :: "thread_id \<Rightarrow> bool"
  squashAfterInst :: "thread_id \<Rightarrow> seq_num option"
  blockIEW :: "thread_id \<Rightarrow> bool"
  priority_list :: "thread_id list"
  changedROBNumEntries :: "thread_id \<Rightarrow> bool"
  checkEmptyROB :: "thread_id \<Rightarrow> bool"
  committedStores :: "thread_id \<Rightarrow> bool"
  toIEW :: commit_out

definition init_commit :: "commit_cfg \<Rightarrow> commit_state option" where
  "init_commit cfg =
     map_option (\<lambda>r.
       \<lparr>c_rob = r, fromRename = [], fixedbuffer = \<lambda>t. [], commitStatus = \<lambda>t. cIdle, youngestSeqNum = \<lambda>t. 0,
        lastCommitedSeqNum = \<lambda>t. 0, trapSquash = \<lambda>t. False, tcSquash = \<lambda>t. False, trapInFlight = \<lambda>t. False, squashAfterInst = \<lambda>t. None, blockIEW = \<lambda>t. False,
        priority_list = [0..<rob_numThreads (c_robCfg cfg)], changedROBNumEntries = \<lambda>t. False,
        checkEmptyROB = \<lambda>t. False, committedStores = \<lambda>t. False, toIEW = no_out\<rparr>)
       (newROB (c_robCfg cfg))"

section \<open>Squashes\<close>

definition squashInflight :: "thread_id \<Rightarrow> commit_state \<Rightarrow> commit_state" where
  "squashInflight t s =
     s\<lparr>fromRename := map (\<lambda>i. i\<lparr>ri_isSquashed := True\<rparr>) (fromRename s),
       fixedbuffer := (fixedbuffer s)(t := [])\<rparr>"

text \<open>The signals of a squash to the earlier stages.\<close>

definition send_squash :: "thread_id \<Rightarrow> seq_num \<Rightarrow> commit_state \<Rightarrow> commit_state" where
  "send_squash t q s =
     (let w = toIEW s in
      s\<lparr>changedROBNumEntries := (changedROBNumEntries s)(t := True),
        toIEW := w\<lparr>doneSeqNum := (doneSeqNum w)(t := q), doneMemSeqNum := (doneMemSeqNum w)(t := q),
          out_squash := (out_squash w)(t := True), robSquashing := (robSquashing w)(t := True)\<rparr>\<rparr>)"

definition squashAll :: "commit_cfg \<Rightarrow> thread_id \<Rightarrow> commit_state \<Rightarrow> commit_state option" where
  "squashAll cfg t s =
     (case (if rob_isEmpty t (c_rob s) then Some (lastCommitedSeqNum s t)
            else case readHeadInst t (c_rob s) of Some (Some i) \<Rightarrow> Some (ri_seqNum i - 1) | _ \<Rightarrow> None) of
        None \<Rightarrow> None
      | Some squashed_inst \<Rightarrow>
          Some (squashInflight t (send_squash t squashed_inst
            (s\<lparr>youngestSeqNum := (youngestSeqNum s)(t := lastCommitedSeqNum s t),
               c_rob := rob_squash (c_robCfg cfg) squashed_inst t (c_rob s)\<rparr>))))"

definition squashFromTrap :: "commit_cfg \<Rightarrow> thread_id \<Rightarrow> commit_state \<Rightarrow> commit_state option" where
  "squashFromTrap cfg t s =
     map_option (\<lambda>s1. s1\<lparr>trapInFlight := (trapInFlight s1)(t := False), trapSquash := (trapSquash s1)(t := False),
        commitStatus := (commitStatus s1)(t := cROBSquashing)\<rparr>) (squashAll cfg t s)"

definition squashFromTC :: "commit_cfg \<Rightarrow> thread_id \<Rightarrow> commit_state \<Rightarrow> commit_state option" where
  "squashFromTC cfg t s =
     map_option (\<lambda>s1. s1\<lparr>commitStatus := (commitStatus s1)(t := cROBSquashing),
        tcSquash := (tcSquash s1)(t := False)\<rparr>) (squashAll cfg t s)"

definition squashFromSquashAfter :: "commit_cfg \<Rightarrow> thread_id \<Rightarrow> commit_state \<Rightarrow> commit_state option" where
  "squashFromSquashAfter cfg t s =
     map_option (\<lambda>s1. s1\<lparr>squashAfterInst := (squashAfterInst s1)(t := None),
        commitStatus := (commitStatus s1)(t := cROBSquashing)\<rparr>) (squashAll cfg t s)"

definition squashAfterHead :: "thread_id \<Rightarrow> seq_num \<Rightarrow> commit_state \<Rightarrow> commit_state option" where
  "squashAfterHead t q s =
     (if squashAfterInst s t \<noteq> None \<and> squashAfterInst s t \<noteq> Some q then None
      else Some (s\<lparr>commitStatus := (commitStatus s)(t := SquashAfterPending),
        squashAfterInst := (squashAfterInst s)(t := Some q)\<rparr>))"

text \<open>A squash request from the execute stage: the sequence number, and whether the
  instruction itself is squashed too.\<close>

definition squashFromIEW ::
  "commit_cfg \<Rightarrow> (thread_id \<Rightarrow> (seq_num \<times> bool) option) \<Rightarrow> thread_id \<Rightarrow> commit_state \<Rightarrow> commit_state" where
  "squashFromIEW cfg fromIEW t s =
     (case fromIEW t of
        None \<Rightarrow> s
      | Some (q, includeSquashInst) \<Rightarrow>
          if commitStatus s t \<noteq> TrapPending \<and> q \<le> youngestSeqNum s t then
            let squashed_inst = (if includeSquashInst then q - 1 else q) in
            squashInflight t (send_squash t squashed_inst
              (s\<lparr>commitStatus := (commitStatus s)(t := cROBSquashing),
                 youngestSeqNum := (youngestSeqNum s)(t := squashed_inst),
                 c_rob := rob_squash (c_robCfg cfg) squashed_inst t (c_rob s)\<rparr>))
          else s)"

fun commit_squashes ::
  "commit_cfg \<Rightarrow> (thread_id \<Rightarrow> (seq_num \<times> bool) option) \<Rightarrow> thread_id list \<Rightarrow> commit_state \<Rightarrow> commit_state option" where
  "commit_squashes cfg fromIEW [] s = Some s"
| "commit_squashes cfg fromIEW (t # ts) s =
     (case (if trapSquash s t then if tcSquash s t then None else squashFromTrap cfg t s
            else if tcSquash s t then if commitStatus s t = TrapPending then None else squashFromTC cfg t s
            else if commitStatus s t = SquashAfterPending then squashFromSquashAfter cfg t s
            else Some s) of
        None \<Rightarrow> None
      | Some s1 \<Rightarrow> commit_squashes cfg fromIEW ts (squashFromIEW cfg fromIEW t s1))"

text \<open>The first loop of \<open>tick\<close>: one cycle of every squash in progress.\<close>

fun squash_progress ::
  "commit_cfg \<Rightarrow> (thread_id \<Rightarrow> bool) \<Rightarrow> thread_id list \<Rightarrow> commit_state \<Rightarrow> commit_state option" where
  "squash_progress cfg exiting [] s = Some s"
| "squash_progress cfg exiting (t # ts) s0 =
     (let s = s0\<lparr>committedStores := (committedStores s0)(t := False)\<rparr> in
      if commitStatus s t = cROBSquashing then
        if doneSquashing (c_rob s) t
        then squash_progress cfg exiting ts (s\<lparr>commitStatus := (commitStatus s)(t := cRunning)\<rparr>)
        else (case rob_doSquash (c_robCfg cfg) (activeThreads cfg) (exiting t) t (c_rob s) of
                None \<Rightarrow> None
              | Some r \<Rightarrow> squash_progress cfg exiting ts
                  (s\<lparr>c_rob := r, changedROBNumEntries := (changedROBNumEntries s)(t := True),
                     toIEW := (toIEW s)\<lparr>robSquashing := (robSquashing (toIEW s))(t := True)\<rparr>\<rparr>))
      else squash_progress cfg exiting ts s)"

section \<open>Filling the reorder buffer\<close>

definition receive_renamed :: "commit_state \<Rightarrow> commit_state option" where
  "receive_renamed s =
     (case fromRename s of
        [] \<Rightarrow> Some s
      | i # is \<Rightarrow>
          let t = ri_threadNumber i in
          if fixedbuffer s t \<noteq> [] \<or> (\<exists>j\<in>set (i # is). ri_threadNumber j \<noteq> t) then None
          else Some (s\<lparr>fixedbuffer := (fixedbuffer s)(t := filter (\<lambda>j. \<not> ri_isSquashed j) (i # is))\<rparr>))"

definition rob_block :: "thread_id \<Rightarrow> commit_state \<Rightarrow> bool" where
  "rob_block t s \<longleftrightarrow> commitStatus s t = cROBSquashing \<or> commitStatus s t = TrapPending"

definition thread_block :: "thread_id \<Rightarrow> commit_state \<Rightarrow> bool" where
  "thread_block t s \<longleftrightarrow>
     unat (rob_numFreeEntries t (c_rob s)) < length (fixedbuffer s t) \<or> rob_block t s"

text \<open>The loop over the threads: the block signals and the first thread with work.\<close>

fun pick_thread :: "thread_id list \<Rightarrow> thread_id option \<Rightarrow> commit_state \<Rightarrow> thread_id option \<times> commit_state" where
  "pick_thread [] tid s = (tid, s)"
| "pick_thread (i # is) tid s =
     (let block = thread_block i s; s1 = s\<lparr>blockIEW := (blockIEW s)(i := block)\<rparr> in
      if \<not> block \<and> fixedbuffer s i \<noteq> [] then
        (case tid of
           None \<Rightarrow> pick_thread is (Some i) s1
         | Some j \<Rightarrow> pick_thread is tid (s1\<lparr>blockIEW := (blockIEW s1)(j := True, i := True)\<rparr>))
      else pick_thread is tid s1)"

fun insert_buffered :: "commit_cfg \<Rightarrow> nat \<Rightarrow> thread_id \<Rightarrow> rob_inst list \<Rightarrow> commit_state \<Rightarrow> commit_state option" where
  "insert_buffered cfg cycle t [] s = Some s"
| "insert_buffered cfg cycle t (i # is) s =
     (if \<not> ri_isSquashed i \<and> \<not> rob_block t s then
        (case insertInst (c_robCfg cfg) cycle i (c_rob s) of
           None \<Rightarrow> None
         | Some r \<Rightarrow>
             if \<not> getThreadEntries t r \<le> maxEntries r t then None
             else insert_buffered cfg cycle t is
               (s\<lparr>c_rob := r, youngestSeqNum := (youngestSeqNum s)(t := ri_seqNum i),
                  fixedbuffer := (fixedbuffer s)(t := is),
                  changedROBNumEntries := (changedROBNumEntries s)(t := True)\<rparr>))
      else insert_buffered cfg cycle t is (s\<lparr>fixedbuffer := (fixedbuffer s)(t := is)\<rparr>))"

definition moveInstsToBuffer :: "commit_cfg \<Rightarrow> nat \<Rightarrow> commit_state \<Rightarrow> commit_state option" where
  "moveInstsToBuffer cfg cycle s =
     (case receive_renamed s of
        None \<Rightarrow> None
      | Some s1 \<Rightarrow>
          (case pick_thread [0..<rob_numThreads (c_robCfg cfg)] None s1 of
             (None, s2) \<Rightarrow> Some s2
           | (Some t, s2) \<Rightarrow> insert_buffered cfg cycle t (fixedbuffer s2 t) s2))"

section \<open>Committing\<close>

definition can_commit_thread :: "thread_id \<Rightarrow> commit_state \<Rightarrow> bool" where
  "can_commit_thread t s \<longleftrightarrow>
     commitStatus s t = cRunning \<or> commitStatus s t = cIdle \<or> commitStatus s t = FetchTrapPending"

fun roundRobin :: "thread_id list \<Rightarrow> commit_state \<Rightarrow> (thread_id option \<times> commit_state) option" where
  "roundRobin [] s = Some (None, s)"
| "roundRobin (t # ts) s =
     (if can_commit_thread t s then
        (case isHeadGroupReady t (c_rob s) of
           None \<Rightarrow> None
         | Some True \<Rightarrow> Some (Some t, s\<lparr>priority_list := remove1 t (priority_list s) @ [t]\<rparr>)
         | Some False \<Rightarrow> roundRobin ts s)
      else roundRobin ts s)"

text \<open>\<open>oldest_seq_num\<close> is an \<open>unsigned\<close>: the sequence number is cut to 32 bits.\<close>

fun oldestReady :: "thread_id list \<Rightarrow> (thread_id \<times> nat) option \<Rightarrow> commit_state \<Rightarrow> thread_id option option" where
  "oldestReady [] best s = Some (map_option fst best)"
| "oldestReady (t # ts) best s =
     (if \<not> rob_isEmpty t (c_rob s) \<and> can_commit_thread t s then
        (case isHeadGroupReady t (c_rob s) of
           None \<Rightarrow> None
         | Some False \<Rightarrow> oldestReady ts best s
         | Some True \<Rightarrow>
             (case readHeadInst t (c_rob s) of
                Some (Some i) \<Rightarrow>
                  oldestReady ts
                    (case best of
                       None \<Rightarrow> Some (t, ri_seqNum i mod 2 ^ 32)
                     | Some (u, q) \<Rightarrow> if ri_seqNum i < q then Some (t, ri_seqNum i mod 2 ^ 32) else best) s
              | _ \<Rightarrow> None))
      else oldestReady ts best s)"

definition getCommittingThread :: "commit_cfg \<Rightarrow> commit_state \<Rightarrow> (thread_id option \<times> commit_state) option" where
  "getCommittingThread cfg s =
     (if 1 < rob_numThreads (c_robCfg cfg) then
        (case commitPolicy cfg of
           RoundRobin \<Rightarrow> roundRobin (priority_list s) s
         | OldestReady \<Rightarrow> map_option (\<lambda>t. (t, s)) (oldestReady (activeThreads cfg) None s))
      else case activeThreads cfg of
        [] \<Rightarrow> None
      | t # ts \<Rightarrow> Some (if can_commit_thread t s then Some t else None, s))"

text \<open>\<open>commitHead\<close>: a non-speculative instruction that has not executed is sent to execute, a
  fault becomes a trap once older stores are done, anything else is committed.\<close>

definition set_inst :: "thread_id \<Rightarrow> (rob_inst \<Rightarrow> rob_inst) \<Rightarrow> seq_num \<Rightarrow> rob \<Rightarrow> rob" where
  "set_inst t f q r =
     r\<lparr>instList := (instList r)(t := map (\<lambda>i. if ri_seqNum i = q then f i else i) (instList r t))\<rparr>"

definition commitHead ::
  "commit_cfg \<Rightarrow> (thread_id \<Rightarrow> bool) \<Rightarrow> rob_inst \<Rightarrow> nat \<Rightarrow> commit_state \<Rightarrow> (bool \<times> commit_state) option" where
  "commitHead cfg flushStores i inst_num s =
     (let t = ri_threadNumber i in
      if \<not> ri_isExecuted i then
        if \<not> (ri_isNonSpeculative i \<or> ri_isStoreConditional i \<or> ri_isReadBarrier i \<or> ri_isWriteBarrier i \<or>
              ri_isAtomic i \<or> ri_isLoad i \<and> ri_strictlyOrdered i) then None
        else if (ri_isMemRef i \<or> ri_isReturn i \<or> ri_isReadBarrier i \<or> ri_isWriteBarrier i) \<and>
                (0 < inst_num \<or> \<not> flushStores t) then Some (False, s)
        else Some (False, s\<lparr>toIEW := (toIEW s)\<lparr>nonSpecSeqNum := (nonSpecSeqNum (toIEW s))(t := ri_seqNum i)\<rparr>,
               c_rob := set_inst t (\<lambda>i. i\<lparr>ri_canCommit := False\<rparr>) (ri_seqNum i) (c_rob s)\<rparr>)
      else if ri_faulted i then
        if \<not> flushStores t \<or> 0 < inst_num then Some (False, s)
        else Some (False, s\<lparr>commitStatus := (commitStatus s)(t := TrapPending),
               trapInFlight := (trapInFlight s)(t := True)\<rparr>)
      else map_option (\<lambda>r. (True, s\<lparr>c_rob := r, committedStores :=
             (if ri_isStore i \<or> ri_isAtomic i then (committedStores s)(t := True) else committedStores s)\<rparr>)) (retireHead (activeThreads cfg) t (c_rob s)))"

text \<open>The bookkeeping of \<open>commitInsts\<close> after a successful \<open>commitHead\<close>.\<close>

definition after_commit :: "rob_inst \<Rightarrow> commit_state \<Rightarrow> commit_state option" where
  "after_commit i s =
     (let t = ri_threadNumber i;
          s1 = s\<lparr>changedROBNumEntries := (changedROBNumEntries s)(t := True),
                 toIEW := (toIEW s)\<lparr>doneSeqNum := (doneSeqNum (toIEW s))(t := ri_seqNum i)\<rparr>,
                 lastCommitedSeqNum := (lastCommitedSeqNum s)(t := ri_seqNum i)\<rparr>
      in if ri_isSquashAfter i then squashAfterHead t (ri_seqNum i) s1 else Some s1)"

partial_function (option) commit_loop ::
  "commit_cfg \<Rightarrow> (thread_id \<Rightarrow> bool) \<Rightarrow> nat \<Rightarrow> nat \<Rightarrow> commit_state \<Rightarrow> commit_state option" where
  [code]: "commit_loop cfg flushStores commit_width num_committed s =
     (if \<not> num_committed < commit_width then Some s
      else case getCommittingThread cfg s of
        None \<Rightarrow> None
      | Some (None, s1) \<Rightarrow> Some s1
      | Some (Some t, s1) \<Rightarrow>
          (case isHeadGroupReady t (c_rob s1) of
             None \<Rightarrow> None
           | Some ready \<Rightarrow>
               if \<not> ready then Some s1
               else case readHeadInst t (c_rob s1) of
                 Some (Some i) \<Rightarrow>
                   if ri_threadNumber i \<noteq> t then None
                   else if ri_isSquashed i then
                     (case retireHead (activeThreads cfg) t (c_rob s1) of
                        None \<Rightarrow> None
                      | Some r \<Rightarrow> commit_loop cfg flushStores commit_width num_committed
                          (s1\<lparr>c_rob := r, changedROBNumEntries := (changedROBNumEntries s1)(t := True)\<rparr>))
                   else
                     (case commitHead cfg flushStores i num_committed s1 of
                        None \<Rightarrow> None
                      | Some (committed, s2) \<Rightarrow>
                          if \<not> committed then Some s2
                          else case after_commit i s2 of
                            None \<Rightarrow> None
                          | Some s3 \<Rightarrow> commit_loop cfg flushStores commit_width (num_committed + 1) s3)
               | _ \<Rightarrow> None))"

text \<open>At the end of \<open>commitInsts\<close>: up to which instruction stores may leave for the store buffer,
  and which instruction is at the head.\<close>

fun report_heads :: "thread_id list \<Rightarrow> commit_state \<Rightarrow> commit_state option" where
  "report_heads [] s = Some s"
| "report_heads (t # ts) s =
     (case getHeadGroupLastDoneSeq t (c_rob s) of
        None \<Rightarrow> None
      | Some q \<Rightarrow>
          (case readHeadInst t (c_rob s) of
             None \<Rightarrow> None
           | Some h \<Rightarrow>
               let w = toIEW s in
               report_heads ts (s\<lparr>toIEW := w\<lparr>doneMemSeqNum := (doneMemSeqNum w)(t := max (doneSeqNum w t) q),
                 robheadSeqNum := (robheadSeqNum w)(t := (case h of None \<Rightarrow> 0 | Some i \<Rightarrow> ri_seqNum i))\<rparr>\<rparr>)))"

definition commitInsts :: "commit_cfg \<Rightarrow> (thread_id \<Rightarrow> bool) \<Rightarrow> commit_state \<Rightarrow> commit_state option" where
  "commitInsts cfg flushStores s =
     (case commit_loop cfg flushStores (countInstsOfGroups (c_robCfg cfg) (commitWidth cfg) (c_rob s)) 0 s of
        None \<Rightarrow> None
      | Some s1 \<Rightarrow> report_heads [0..<rob_numThreads (c_robCfg cfg)] s1)"

text \<open>\<open>markCompletedInsts\<close>: instructions of the execute stage with whether they are squashed; the
  search is in the list of thread 0.\<close>

fun markCompletedInsts :: "(thread_id \<times> seq_num \<times> bool) list \<Rightarrow> commit_state \<Rightarrow> commit_state option" where
  "markCompletedInsts [] s = Some s"
| "markCompletedInsts ((t, q, squashed) # is) s =
     (if squashed then markCompletedInsts is s
      else let s1 = s\<lparr>c_rob := set_inst t (\<lambda>i. i\<lparr>ri_canCommit := True\<rparr>) q (c_rob s)\<rparr> in
        if findInst q (instList (c_rob s1) 0) = None then None else markCompletedInsts is s1)"

section \<open>The stage\<close>

definition num_squashing :: "commit_cfg \<Rightarrow> commit_state \<Rightarrow> nat" where
  "num_squashing cfg s = length (filter (\<lambda>t. commitStatus s t = cROBSquashing) (activeThreads cfg))"

text \<open>The last loop of \<open>commit\<close>: whether entries of the buffer changed and whether it is empty for
  the earlier stages.\<close>

fun report_activity :: "(thread_id \<Rightarrow> bool) \<Rightarrow> thread_id list \<Rightarrow> commit_state \<Rightarrow> commit_state" where
  "report_activity hasStoresToWB [] s = s"
| "report_activity hasStoresToWB (t # ts) s =
     (let s1 = (if changedROBNumEntries s t
                then s\<lparr>toIEW := (toIEW s)\<lparr>usedROB := (usedROB (toIEW s))(t := True)\<rparr>,
                       changedROBNumEntries := (changedROBNumEntries s)(t := False),
                       checkEmptyROB := (if rob_isEmpty t (c_rob s) then (checkEmptyROB s)(t := True) else checkEmptyROB s)\<rparr>
                else s)
      in report_activity hasStoresToWB ts
        (if checkEmptyROB s1 t \<and> rob_isEmpty t (c_rob s1) \<and> \<not> hasStoresToWB t \<and> \<not> committedStores s1 t \<and>
            commitStatus s1 t \<noteq> SquashAfterPending
         then s1\<lparr>checkEmptyROB := (checkEmptyROB s1)(t := False),
                 toIEW := (toIEW s1)\<lparr>usedROB := (usedROB (toIEW s1))(t := True),
                   emptyROB := (emptyROB (toIEW s1))(t := True)\<rparr>\<rparr>
         else s1))"

text \<open>What the stage reads in a cycle.\<close>

record commit_in =
  in_cycle :: nat
  in_rename :: "rob_inst list"
  in_squash :: "thread_id \<Rightarrow> (seq_num \<times> bool) option"
  in_completed :: "(thread_id \<times> seq_num \<times> bool) list"
  in_flushed :: "thread_id \<Rightarrow> bool"
  in_exiting :: "thread_id \<Rightarrow> bool"
  in_storesToWB :: "thread_id \<Rightarrow> bool"

definition commit_commit :: "commit_cfg \<Rightarrow> commit_in \<Rightarrow> commit_state \<Rightarrow> commit_state option" where
  "commit_commit cfg inp s =
     (case commit_squashes cfg (in_squash inp) (activeThreads cfg) s of
        None \<Rightarrow> None
      | Some s1 \<Rightarrow>
          (case moveInstsToBuffer cfg (in_cycle inp) s1 of
             None \<Rightarrow> None
           | Some s2 \<Rightarrow>
               map_option (report_activity (in_storesToWB inp) (activeThreads cfg))
                 (if num_squashing cfg s1 \<noteq> rob_numThreads (c_robCfg cfg)
                  then commitInsts cfg (in_flushed inp) s2 else Some s2)))"

definition commit_front :: "commit_cfg \<Rightarrow> commit_in \<Rightarrow> commit_state \<Rightarrow> commit_state option" where
  "commit_front cfg inp s =
     (case squash_progress cfg (in_exiting inp) (activeThreads cfg) 
             (s\<lparr>fromRename := in_rename inp, toIEW := no_out\<rparr>) of
        None \<Rightarrow> None
      | Some s1 \<Rightarrow> commit_commit cfg inp s1)"

definition commit_tick :: "commit_cfg \<Rightarrow> commit_in \<Rightarrow> commit_state \<Rightarrow> commit_state option" where
  "commit_tick cfg inp s =
     (if activeThreads cfg = [] then Some s
      else case commit_front cfg inp s of
        None \<Rightarrow> None
      | Some s1 \<Rightarrow> markCompletedInsts (in_completed inp) s1)"

text \<open>What happens between the cycles: an instruction executes, perhaps with a fault, the
  event of a trap fires, and a thread context asks for a squash.\<close>

definition execute_inst :: "thread_id \<Rightarrow> seq_num \<Rightarrow> bool \<Rightarrow> commit_state \<Rightarrow> commit_state" where
  "execute_inst t q fault s =
     s\<lparr>c_rob := set_inst t (\<lambda>i. i\<lparr>ri_isExecuted := True, ri_faulted := fault\<rparr>) q (c_rob s)\<rparr>"

definition processTrapEvent :: "thread_id \<Rightarrow> commit_state \<Rightarrow> commit_state" where
  "processTrapEvent t s = s\<lparr>trapSquash := (trapSquash s)(t := True)\<rparr>"

definition generateTCEvent :: "thread_id \<Rightarrow> commit_state \<Rightarrow> commit_state option" where
  "generateTCEvent t s =
     (if trapInFlight s t then None else Some (s\<lparr>tcSquash := (tcSquash s)(t := True)\<rparr>))"

datatype commit_event =
  CTick commit_in
| CExecute thread_id seq_num bool
| CTrap thread_id
| CTC thread_id

fun commit_step :: "commit_cfg \<Rightarrow> commit_event \<Rightarrow> commit_state \<Rightarrow> commit_state option" where
  "commit_step cfg (CTick inp) s = commit_tick cfg inp s"
| "commit_step cfg (CExecute t q fault) s = Some (execute_inst t q fault s)"
| "commit_step cfg (CTrap t) s = Some (processTrapEvent t s)"
| "commit_step cfg (CTC t) s = generateTCEvent t s"

fun commit_run :: "commit_cfg \<Rightarrow> commit_event list \<Rightarrow> commit_state \<Rightarrow> commit_state option" where
  "commit_run cfg [] s = Some s"
| "commit_run cfg (e # es) s = (case commit_step cfg e s of None \<Rightarrow> None | Some s1 \<Rightarrow> commit_run cfg es s1)"

end
