(* ===== verification/RobProps.thy ===== *)
theory RobProps
  imports ROB
begin

text \<open>
  The invariant of the reorder buffer and what its operations do under it: the groups of a
  thread partition its instructions, a squash removes exactly the younger instructions within
  the number of cycles its width allows, and the buffer of a thread is a squashable queue.
\<close>

section \<open>Invariant\<close>

definition rob_cfg_ok :: "rob_cfg \<Rightarrow> bool" where
  "rob_cfg_ok cfg \<longleftrightarrow>
     walk_ok cfg \<and> 0 < squashWidth cfg \<and> 0 < instsPerGroup cfg \<and> numEntries cfg * instsPerGroup cfg < 2 ^ 32"

definition groups_ok :: "rob_cfg \<Rightarrow> nat list \<Rightarrow> nat \<Rightarrow> bool" where
  "groups_ok cfg gs n \<longleftrightarrow> (\<forall>g\<in>set gs. 0 < g \<and> g \<le> instsPerGroup cfg) \<and> sum_list gs = n"

definition insts_ok :: "thread_id \<Rightarrow> rob_inst list \<Rightarrow> bool" where
  "insts_ok t is \<longleftrightarrow>
     sorted_wrt (<) (map ri_seqNum is) \<and>
     (\<forall>i\<in>set is. ri_threadNumber i = t \<and> ri_isInROB i \<and> \<not> ri_isSquashed i)"

definition squash_ok :: "rob \<Rightarrow> thread_id \<Rightarrow> bool" where
  "squash_ok s t \<longleftrightarrow>
     (if doneSquashing s t then squashIt s t = None
      else instList s t \<noteq> [] \<and> squashIt s t = Some (ri_seqNum (last (instList s t))))"

definition rob_total :: "rob_cfg \<Rightarrow> rob \<Rightarrow> nat" where
  "rob_total cfg s = (\<Sum>t<rob_numThreads cfg. length (instList s t))"

definition rob_inv :: "rob_cfg \<Rightarrow> rob \<Rightarrow> bool" where
  "rob_inv cfg s \<longleftrightarrow>
     (\<forall>t. groups_ok cfg (threadGroups s t) (length (instList s t)) \<and> insts_ok t (instList s t) \<and> squash_ok s t) \<and>
     (\<forall>t\<ge>rob_numThreads cfg. instList s t = []) \<and>
     numInstsInROB s = int (rob_total cfg s) \<and> 0 < dynSquashWidth s"

lemma groups_ok_Nil [simp]: "groups_ok cfg [] n \<longleftrightarrow> n = 0" "groups_ok cfg gs 0 \<longleftrightarrow> gs = []"
proof -
  show "groups_ok cfg [] n \<longleftrightarrow> n = 0"
    by (auto simp: groups_ok_def)
  show "groups_ok cfg gs 0 \<longleftrightarrow> gs = []"
    by (cases gs) (auto simp: groups_ok_def)
qed

lemma insts_ok_take: "insts_ok t is \<Longrightarrow> insts_ok t (take n is)"
  by (auto simp: insts_ok_def sorted_wrt_take take_map [symmetric] dest: in_set_takeD)

lemma insts_ok_tl: "insts_ok t (i # is) \<Longrightarrow> insts_ok t is"
  by (simp add: insts_ok_def)

lemma insts_ok_distinct: "insts_ok t is \<Longrightarrow> distinct (map ri_seqNum is)"
  by (simp add: insts_ok_def strict_sorted_iff)

section \<open>Groups\<close>

lemma groups_ok_commit:
  assumes "groups_ok cfg (g # gs) (Suc n)"
  shows "groups_ok cfg (if g = 1 then gs else dec_group g # gs) n"
  using assms by (auto simp: groups_ok_def dec_group_def)

lemma groups_ok_squash:
  assumes "groups_ok cfg gs (Suc n)"
  shows "gs \<noteq> [] \<and> groups_ok cfg (if last gs = 1 then butlast gs else butlast gs @ [dec_group (last gs)]) n"
proof -
  have "gs \<noteq> []"
    using assms by (auto simp: groups_ok_def)
  then obtain hs g where "gs = hs @ [g]"
    by (cases gs rule: rev_cases) auto
  then show ?thesis
    using assms by (auto simp: groups_ok_def dec_group_def)
qed

lemma groups_ok_add:
  assumes "groups_ok cfg gs n" and "0 < instsPerGroup cfg" and "\<not> alloc \<longrightarrow> gs \<noteq> [] \<and> last gs < instsPerGroup cfg"
  shows "\<exists>gs'. add_to_group cfg alloc gs = Some gs' \<and> groups_ok cfg gs' (Suc n) \<and> length gs' \<le> Suc (length gs)"
proof (cases alloc)
  case True
  then show ?thesis
    using assms(1,2) by (auto simp: add_to_group_def groups_ok_def)
next
  case False
  then obtain hs g where "gs = hs @ [g]"
    using assms(3) by (cases gs rule: rev_cases) auto
  with False show ?thesis
    using assms by (auto simp: add_to_group_def groups_ok_def)
qed

lemma allocateNewGroup_room:
  "\<not> allocateNewGroup cfg cycle i t s \<Longrightarrow> threadGroups s t \<noteq> [] \<and> last (threadGroups s t) < instsPerGroup cfg"
  by (auto simp: allocateNewGroup_def allocateGroup_none_def allocateGroup_kmhv2_def allocateGroup_MohBoE_def
      allocateGroup_kmhv3_def Let_def split: compress_policy.splits if_splits)

section \<open>Squash\<close>

definition squashed_copy :: "rob_inst \<Rightarrow> rob_inst" where
  "squashed_copy i = i\<lparr>ri_isSquashed := True, ri_canCommit := True, ri_isInROB := False\<rparr>"

text \<open>The state in which the \<open>k\<close> youngest instructions of a thread have been squashed.\<close>

definition shrunk :: "nat \<Rightarrow> thread_id \<Rightarrow> rob \<Rightarrow> rob \<Rightarrow> bool" where
  "shrunk k t s s' \<longleftrightarrow>
     (let is = instList s t; n = length is - k in
      k \<le> length is \<and>
      instList s' = (instList s)(t := take n is) \<and> numInstsInROB s' = numInstsInROB s - int k \<and>
      removedInsts s' = removedInsts s @ map squashed_copy (rev (drop n is)) \<and>
      maxEntries s' = maxEntries s \<and> squashedSeqNum s' = squashedSeqNum s \<and>
      dynSquashWidth s' = dynSquashWidth s \<and>
      length (threadGroups s' t) \<le> length (threadGroups s t) \<and>
      (\<forall>u. u \<noteq> t \<longrightarrow> threadGroups s' u = threadGroups s u \<and> squashIt s' u = squashIt s u \<and>
         doneSquashing s' u = doneSquashing s u))"

lemma shrunk_0: "shrunk 0 t s s"
  by (simp add: shrunk_def)

lemma shrunk_trans:
  assumes "shrunk k t s s1" and "shrunk j t s1 s2"
  shows "shrunk (k + j) t s s2"
proof -
  let ?is = "instList s t"
  have "k + j \<le> length ?is"
    using assms unfolding shrunk_def Let_def by fastforce
  moreover from this have "drop (length ?is - (k + j)) (take (length ?is - k) ?is) @ drop (length ?is - k) ?is =
      drop (length ?is - (k + j)) ?is"
    using drop_append [of "length ?is - (k + j)" "take (length ?is - k) ?is" "drop (length ?is - k) ?is"] by simp
  then have "map squashed_copy (rev (drop (length ?is - k) ?is)) @
      map squashed_copy (rev (drop (length ?is - (k + j)) (take (length ?is - k) ?is))) =
      map squashed_copy (rev (drop (length ?is - (k + j)) ?is))"
    by (metis map_append rev_append)
  ultimately show ?thesis
    using assms by (auto simp: shrunk_def Let_def min.absorb2)
qed

lemma find_snoc: "\<forall>j\<in>set js. \<not> P j \<Longrightarrow> P i \<Longrightarrow> find P (js @ [i]) = Some i"
  by (induction js) auto

lemma last_distinct_seq:
  assumes "distinct (map ri_seqNum is)" and "is \<noteq> []"
  shows "findInst (ri_seqNum (last is)) is = Some (last is)"
    and "takeWhile (\<lambda>i. ri_seqNum i \<noteq> ri_seqNum (last is)) is = butlast is"
    and "remove1 (last is) is = butlast is"
    and "ri_seqNum (last is) = ri_seqNum (hd is) \<longleftrightarrow> length is = 1"
proof -
  obtain js i where eq: "is = js @ [i]"
    using assms(2) by (cases "is" rule: rev_cases) auto
  with assms(1) have "ri_seqNum i \<notin> ri_seqNum ` set js"
    by simp
  then have js: "\<forall>j\<in>set js. ri_seqNum j \<noteq> ri_seqNum i"
    by (metis imageI)
  then show "findInst (ri_seqNum (last is)) is = Some (last is)"
    by (simp add: eq findInst_def find_snoc)
  show "takeWhile (\<lambda>i. ri_seqNum i \<noteq> ri_seqNum (last is)) is = butlast is"
    using js by (simp add: eq)
  show "remove1 (last is) is = butlast is"
    using js by (auto simp: eq remove1_append)
  show "ri_seqNum (last is) = ri_seqNum (hd is) \<longleftrightarrow> length is = 1"
    using js by (cases js) (auto simp: eq)
qed

lemma squash_one_shrunk:
  assumes "groups_ok cfg (threadGroups s t) (length (instList s t))" and "insts_ok t (instList s t)"
    and "instList s t \<noteq> []"
  shows "\<exists>s'. squash_one t (last (instList s t)) s = Some (length (instList s t) = 1, s') \<and> shrunk 1 t s s' \<and>
    groups_ok cfg (threadGroups s' t) (length (instList s' t)) \<and>
    squashIt s' t = (if length (instList s t) = 1 then None else Some (ri_seqNum (last (instList s' t)))) \<and>
    (doneSquashing s' t \<longleftrightarrow> length (instList s t) = 1 \<or> doneSquashing s t)"
proof -
  let ?is = "instList s t"
  note d = last_distinct_seq [OF insts_ok_distinct [OF assms(2)] assms(3)]
  obtain n where n: "length ?is = Suc n"
    using assms(3) by (cases ?is) auto
  then have g: "threadGroups s t \<noteq> []"
    and "groups_ok cfg (if last (threadGroups s t) = 1 then butlast (threadGroups s t)
      else butlast (threadGroups s t) @ [dec_group (last (threadGroups s t))]) n"
    using groups_ok_squash [of cfg "threadGroups s t" n] assms(1) by auto
  moreover have "drop n ?is = [last ?is]" "take n ?is = butlast ?is"
    using n by (cases ?is rule: rev_cases; simp)+
  ultimately show ?thesis
    using d n by (auto simp: squash_one_def squashGroup_def prev_seq_def Let_def shrunk_def squashed_copy_def)
qed

lemma younger_take: "insts_ok t is \<Longrightarrow> is \<noteq> [] \<Longrightarrow>
   length (younger q is) = (if q < ri_seqNum (last is) then Suc (length (younger q (take (length is - 1) is))) else 0)"
proof -
  assume ok: "insts_ok t is" and "is \<noteq> []"
  then obtain js i where eq: "is = js @ [i]"
    by (cases "is" rule: rev_cases) auto
  then have "\<forall>j\<in>set js. ri_seqNum j < ri_seqNum i"
    using ok by (auto simp: insts_ok_def sorted_wrt_append)
  then show ?thesis
    by (auto simp: eq younger_def filter_empty_conv)
qed

lemma squash_loop_shrunk:
  assumes "groups_ok cfg (threadGroups s t) (length (instList s t))" and "insts_ok t (instList s t)"
    and "instList s t \<noteq> []" and "squashIt s t = Some (ri_seqNum (last (instList s t)))" and "\<not> doneSquashing s t"
  shows "\<exists>early upd' s'. squash_loop n t upd s = Some (early, upd', s') \<and>
    shrunk (min n (length (younger (squashedSeqNum s t) (instList s t)))) t s s' \<and>
    groups_ok cfg (threadGroups s' t) (length (instList s' t)) \<and>
    (early \<longleftrightarrow> instList s' t = []) \<and> doneSquashing s' t = early \<and>
    squashIt s' t = (if early then None else Some (ri_seqNum (last (instList s' t))))"
  using assms
proof (induction n arbitrary: upd s)
  case 0
  then show ?case
    using shrunk_0 by auto
next
  case (Suc n)
  let ?is = "instList s t" and ?q = "squashedSeqNum s t"
  have f: "findInst (ri_seqNum (last ?is)) ?is = Some (last ?is)"
    by (rule last_distinct_seq(1) [OF insts_ok_distinct [OF Suc.prems(2)] Suc.prems(3)])
  show ?case
  proof (cases "?q < ri_seqNum (last ?is)")
    case False
    then show ?thesis
      using f Suc.prems younger_take [OF Suc.prems(2,3), of ?q] shrunk_0 [of t s] by auto
  next
    case True
    obtain s1 where s1: "squash_one t (last ?is) s = Some (length ?is = 1, s1)" "shrunk 1 t s s1"
      "groups_ok cfg (threadGroups s1 t) (length (instList s1 t))"
      "squashIt s1 t = (if length ?is = 1 then None else Some (ri_seqNum (last (instList s1 t))))"
      "doneSquashing s1 t \<longleftrightarrow> length ?is = 1"
      using squash_one_shrunk [OF Suc.prems(1-3)] Suc.prems(5) by blast
    have is1: "instList s1 t = take (length ?is - 1) ?is" "squashedSeqNum s1 = squashedSeqNum s"
      using s1(2) by (simp_all add: shrunk_def Let_def)
    have y: "length (younger ?q ?is) = Suc (length (younger ?q (instList s1 t)))"
      using younger_take [OF Suc.prems(2,3), of ?q] True is1 by simp
    show ?thesis
    proof (cases "length ?is = 1")
      case True
      then show ?thesis
        using f s1 Suc.prems(4) \<open>?q < _\<close> y is1 by (auto simp: younger_def)
    next
      case False
      then have ne: "instList s1 t \<noteq> []"
        using is1 Suc.prems(3) by (cases ?is) auto
      have "insts_ok t (instList s1 t)"
        using insts_ok_take [OF Suc.prems(2)] is1 by simp
      from Suc.IH [OF s1(3) this ne, of "upd \<or> True"] False s1(4,5)
      obtain early upd' s' where IH: "squash_loop n t True s1 = Some (early, upd', s')"
        "shrunk (min n (length (younger ?q (instList s1 t)))) t s1 s'"
        "groups_ok cfg (threadGroups s' t) (length (instList s' t))"
        "early \<longleftrightarrow> instList s' t = []" "doneSquashing s' t = early"
        "squashIt s' t = (if early then None else Some (ri_seqNum (last (instList s' t))))"
        unfolding is1 by auto
      show ?thesis
        using shrunk_trans [OF s1(2) IH(2)] IH f s1(1) Suc.prems(4) True False y by auto
    qed
  qed
qed

lemma rob_inv_shrunk:
  assumes "rob_inv cfg s" and "shrunk k t s s'" and "instList s t \<noteq> []"
    and "groups_ok cfg (threadGroups s' t) (length (instList s' t))" and "squash_ok s' t"
  shows "rob_inv cfg s'"
proof -
  have t: "t < rob_numThreads cfg"
    using assms(1,3) by (metis rob_inv_def not_le)
  have is': "instList s' = (instList s)(t := take (length (instList s t) - k) (instList s t))"
    and k: "k \<le> length (instList s t)" "numInstsInROB s' = numInstsInROB s - int k"
    using assms(2) by (auto simp: shrunk_def Let_def)
  have "rob_total cfg s' + k = rob_total cfg s"
    using sum_upd_lessThan [OF t, of "\<lambda>u. length (instList s' u)" "\<lambda>u. length (instList s u)"] is' k(1)
    by (auto simp: rob_total_def)
  then have "numInstsInROB s' = int (rob_total cfg s')"
    using assms(1) k(2) by (simp add: rob_inv_def)
  moreover have "groups_ok cfg (threadGroups s' u) (length (instList s' u)) \<and> insts_ok u (instList s' u) \<and> squash_ok s' u" for u
  proof (cases "u = t")
    case True
    then show ?thesis
      using assms insts_ok_take [of t "instList s t"] is' by (simp add: rob_inv_def)
  next
    case False
    then show ?thesis
      using assms(1,2) is' by (simp add: rob_inv_def shrunk_def squash_ok_def Let_def)
  qed
  ultimately show ?thesis
    using assms(1,2) is' t by (auto simp: rob_inv_def shrunk_def Let_def)
qed

lemma split_younger:
  "insts_ok t is \<Longrightarrow> is = filter (\<lambda>i. ri_seqNum i \<le> q) is @ younger q is"
proof (induction "is")
  case (Cons i "is")
  then have "\<forall>j\<in>set is. ri_seqNum i < ri_seqNum j"
    by (auto simp: insts_ok_def)
  then have "q < ri_seqNum i \<Longrightarrow> filter (\<lambda>i. ri_seqNum i \<le> q) is = []"
    by (auto simp: filter_empty_conv)
  then show ?case
    using Cons.IH insts_ok_tl [OF Cons.prems] by (auto simp: younger_def)
qed (simp add: younger_def)

lemma younger_drop:
  assumes "insts_ok t is" and "k \<le> length (younger q is)"
  shows "length (younger q (take (length is - k) is)) = length (younger q is) - k"
proof -
  let ?o = "filter (\<lambda>i. ri_seqNum i \<le> q) is" and ?y = "younger q is"
  have len: "length is = length ?o + length ?y"
    using arg_cong [OF split_younger [OF assms(1), of q], of length] by simp
  have "take (length is - k) is = take (length is - k) (?o @ ?y)"
    using split_younger [OF assms(1), of q] by simp
  also have "\<dots> = ?o @ take (length ?y - k) ?y"
    using len assms(2) by simp
  finally have "younger q (take (length is - k) is) = take (length ?y - k) ?y"
    by (auto simp: younger_def filter_empty_conv filter_id_conv dest: in_set_takeD)
  then show ?thesis
    by simp
qed

text \<open>One cycle of a squash.\<close>

lemma doSquash_step:
  assumes "rob_inv cfg s" and "\<not> doneSquashing s t"
    and n: "n = length (younger (squashedSeqNum s t) (instList s t))"
    and w: "w = (if exiting then numEntries cfg * instsPerGroup cfg else dynSquashWidth s)"
  shows "\<exists>s'. rob_doSquash cfg ts exiting t s = Some s' \<and> shrunk (min w n) t s s' \<and> rob_inv cfg s' \<and>
    (doneSquashing s' t \<longleftrightarrow> n \<le> w)"
proof -
  let ?is = "instList s t" and ?q = "squashedSeqNum s t"
  let ?fin = "\<lambda>s. s\<lparr>squashIt := (squashIt s)(t := None), doneSquashing := (doneSquashing s)(t := True)\<rparr>"
  have inv: "groups_ok cfg (threadGroups s t) (length ?is)" "insts_ok t ?is" "?is \<noteq> []"
    "squashIt s t = Some (ri_seqNum (last ?is))" "0 < dynSquashWidth s"
    using assms(1,2) by (auto simp: rob_inv_def squash_ok_def split: if_splits)
  have f: "findInst (ri_seqNum (last ?is)) ?is = Some (last ?is)"
    by (rule last_distinct_seq(1) [OF insts_ok_distinct [OF inv(2)] inv(3)])
  have y: "n = (if ?q < ri_seqNum (last ?is) then Suc (length (younger ?q (take (length ?is - 1) ?is))) else 0)"
    using younger_take [OF inv(2,3), of ?q] n by simp
  obtain early upd s1 where l: "squash_loop w t False s = Some (early, upd, s1)" "shrunk (min w n) t s s1"
    "groups_ok cfg (threadGroups s1 t) (length (instList s1 t))" "early \<longleftrightarrow> instList s1 t = []"
    "doneSquashing s1 t = early"
    "squashIt s1 t = (if early then None else Some (ri_seqNum (last (instList s1 t))))"
    using squash_loop_shrunk [OF inv(1-4) assms(2), of w False] n by blast
  show ?thesis
  proof (cases "ri_seqNum (last ?is) < ?q")
    case True
    then have "rob_doSquash cfg ts exiting t s = Some (?fin s)" "n = 0" "shrunk 0 t s (?fin s)"
      using y f inv(4) by (auto simp: rob_doSquash_def Let_def shrunk_def)
    then show ?thesis
      using rob_inv_shrunk [OF assms(1) _ inv(3), of 0 "?fin s"] inv(1) by (auto simp: squash_ok_def)
  next
    case False
    have "n - w = length (younger ?q (instList s1 t))"
      using younger_drop [OF inv(2), of "min w n" ?q] l(2) n by (simp add: shrunk_def Let_def)
    moreover have "insts_ok t (instList s1 t)"
      using insts_ok_take [OF inv(2)] l(2) by (simp add: shrunk_def Let_def)
    ultimately have last: "\<not> early \<Longrightarrow> ri_seqNum (last (instList s1 t)) \<le> ?q \<longleftrightarrow> n \<le> w"
      and none: "early \<Longrightarrow> n \<le> w"
      using younger_take [of t "instList s1 t" ?q] l(4) by (auto simp: younger_def split: if_splits)
    let ?s2 = "if early then s1 else if ri_seqNum (last (instList s1 t)) \<le> ?q then ?fin s1 else s1"
    let ?s' = "if \<not> early \<and> upd then updateTail ts ?s2 else ?s2"
    have q1: "squashedSeqNum s1 t = ?q"
      using l(2) by (simp add: shrunk_def Let_def)
    have "rob_doSquash cfg ts exiting t s = Some ?s'"
      using False f inv(4,5) l(1,6) w q1 by (auto simp: rob_doSquash_def Let_def split: bool.splits)
    moreover have sh: "shrunk (min w n) t s ?s'"
      using l(2) by (auto simp: shrunk_def updateTail_def Let_def)
    moreover have "rob_inv cfg ?s'"
      using rob_inv_shrunk [OF assms(1) sh inv(3)] l(3-6) by (auto simp: squash_ok_def updateTail_def)
    moreover have "doneSquashing ?s' t \<longleftrightarrow> n \<le> w"
      using last none l(5) by (auto simp: updateTail_def)
    ultimately show ?thesis
      by blast
  qed
qed

text \<open>A squash over several cycles.\<close>

lemma squash_cycles_done: "doneSquashing s t \<Longrightarrow> squash_cycles cfg ts k t s = Some s"
  by (cases k) auto

lemma squash_cycles_shrunk:
  assumes "rob_inv cfg s" and "\<not> doneSquashing s t"
    and "n = length (younger (squashedSeqNum s t) (instList s t))"
  shows "\<exists>s'. squash_cycles cfg ts k t s = Some s' \<and> shrunk (min (k * dynSquashWidth s) n) t s s' \<and>
    rob_inv cfg s' \<and> (doneSquashing s' t \<longleftrightarrow> 0 < k \<and> n \<le> k * dynSquashWidth s)"
  using assms
proof (induction k arbitrary: s n)
  case 0
  then show ?case
    using shrunk_0 by auto
next
  case (Suc k)
  let ?w = "dynSquashWidth s"
  obtain s1 where s1: "rob_doSquash cfg ts False t s = Some s1" "shrunk (min ?w n) t s s1" "rob_inv cfg s1"
    "doneSquashing s1 t \<longleftrightarrow> n \<le> ?w"
    using doSquash_step [OF Suc.prems(1,2,3), of ?w False ts] by auto
  show ?case
  proof (cases "n \<le> ?w")
    case True
    then have "min ?w n = n" "min (Suc k * ?w) n = n"
      by (simp_all add: min.absorb2 trans_le_add1)
    with True show ?thesis
      using s1 Suc.prems(2) squash_cycles_done [of s1 t cfg ts k] by auto
  next
    case False
    have ok: "insts_ok t (instList s t)"
      using Suc.prems(1) by (simp add: rob_inv_def)
    have "n - ?w = length (younger (squashedSeqNum s1 t) (instList s1 t))" and w: "dynSquashWidth s1 = ?w"
      using s1(2) younger_drop [OF ok, of "min ?w n" "squashedSeqNum s t"] Suc.prems(3) False
      by (simp_all add: shrunk_def Let_def min_def)
    from Suc.IH [OF s1(3) _ this(1)] False s1(4)
    obtain s' where s': "squash_cycles cfg ts k t s1 = Some s'" "shrunk (min (k * ?w) (n - ?w)) t s1 s'"
      "rob_inv cfg s'" "doneSquashing s' t \<longleftrightarrow> 0 < k \<and> n - ?w \<le> k * ?w"
      unfolding w by auto
    have "\<not> n \<le> w \<Longrightarrow> min w n + min m (n - w) = min (w + m) n" for m w :: nat
      by arith
    then have "min ?w n + min (k * ?w) (n - ?w) = min (Suc k * ?w) n"
      using False by simp
    then have "shrunk (min (Suc k * ?w) n) t s s'"
      using shrunk_trans [OF s1(2) s'(2)] by simp
    then show ?thesis
      using s' s1(1) Suc.prems(2) False by auto
  qed
qed

lemma computeDynSquashWidth_pos: "rob_cfg_ok cfg \<Longrightarrow> 0 < computeDynSquashWidth cfg u n"
  by (auto simp: rob_cfg_ok_def walk_ok_def computeDynSquashWidth_def Let_def split: walk_policy.splits)

lemma rob_isEmpty_iff: "rob_inv cfg s \<Longrightarrow> rob_isEmpty t s \<longleftrightarrow> instList s t = []"
  by (metis groups_ok_Nil length_0_conv rob_inv_def rob_isEmpty_def getThreadEntries_def)

lemma rob_squash_inv:
  assumes "rob_cfg_ok cfg" and "rob_inv cfg s"
  shows "rob_inv cfg (rob_squash cfg q t s)"
  using assms rob_isEmpty_iff [OF assms(2), of t] computeDynSquashWidth_pos [OF assms(1)]
  by (auto simp: rob_squash_def rob_inv_def rob_total_def squash_ok_def Let_def)

section \<open>Insertion and retirement\<close>

definition rob_inserted :: "nat \<Rightarrow> nat list \<Rightarrow> rob_inst \<Rightarrow> rob \<Rightarrow> rob" where
  "rob_inserted cycle gs i s =
     (let t = ri_threadNumber i in
      s\<lparr>lastInsertCycle := cycle, threadGroups := (threadGroups s)(t := gs),
        instList := (instList s)(t := instList s t @ [i\<lparr>ri_isInROB := True\<rparr>]),
        rob_head := (if numInstsInROB s = 0 then Some (t, ri_seqNum i) else rob_head s),
        rob_tail := Some (t, ri_seqNum i), numInstsInROB := numInstsInROB s + 1\<rparr>)"

lemma insertInst_inv:
  assumes "rob_cfg_ok cfg" and "rob_inv cfg s" and t: "t = ri_threadNumber i" "t < rob_numThreads cfg"
    and "doneSquashing s t" and "\<forall>j\<in>set (instList s t). ri_seqNum j < ri_seqNum i" and "\<not> ri_isSquashed i"
    and "rob_total cfg s \<le> numEntries cfg * instsPerGroup cfg"
  shows "\<exists>gs. insertInst cfg cycle i s = Some (rob_inserted cycle gs i s) \<and>
    rob_inv cfg (rob_inserted cycle gs i s) \<and>
    add_to_group cfg (allocateNewGroup cfg cycle i t s) (threadGroups s t) = Some gs \<and>
    length gs \<le> Suc (length (threadGroups s t))"
proof -
  have g: "groups_ok cfg (threadGroups s t) (length (instList s t))" "numInstsInROB s = int (rob_total cfg s)"
    using assms(2) by (simp_all add: rob_inv_def)
  obtain gs where gs: "add_to_group cfg (allocateNewGroup cfg cycle i t s) (threadGroups s t) = Some gs"
    "groups_ok cfg gs (Suc (length (instList s t)))" "length gs \<le> Suc (length (threadGroups s t))"
    using groups_ok_add [OF g(1), of "allocateNewGroup cfg cycle i t s"] allocateNewGroup_room [of cfg cycle i t s]
      assms(1) by (auto simp: rob_cfg_ok_def)
  have cap: "numInstsInROB s mod 2 ^ 32 \<le> int (numEntries cfg * instsPerGroup cfg) mod 2 ^ 32"
  proof -
    have small: "int m mod 2 ^ 32 = int m" if "m < 2 ^ 32" for m
      by (rule mod_pos_pos_trivial) (use that in auto)
    have "numEntries cfg * instsPerGroup cfg < 2 ^ 32"
      using assms(1) by (simp add: rob_cfg_ok_def)
    then show ?thesis
      unfolding g(2) using small [of "rob_total cfg s"] small [of "numEntries cfg * instsPerGroup cfg"]
        assms(8) by (metis le_less_trans of_nat_le_iff)
  qed
  have empty: "numInstsInROB s = 0 \<Longrightarrow> instList s t = []"
  proof -
    assume "numInstsInROB s = 0"
    then have "rob_total cfg s = 0"
      using g(2) by simp
    then show ?thesis
      using t(2) by (simp add: rob_total_def)
  qed
  let ?s' = "rob_inserted cycle gs i s"
  have "rob_total cfg ?s' = Suc (rob_total cfg s)"
    using sum_upd_lessThan [OF t(2), of "\<lambda>u. length (instList ?s' u)" "\<lambda>u. length (instList s u)"]
    by (simp add: rob_total_def rob_inserted_def t(1) [symmetric] Let_def)
  then have "rob_inv cfg ?s'"
    using assms(2,5-7) t gs(2) by (auto simp: rob_inv_def rob_inserted_def squash_ok_def insts_ok_def sorted_wrt_append Let_def)
  then show ?thesis
    using gs cap empty t(1) by (auto simp: insertInst_def rob_inserted_def Let_def)
qed

lemma retireHead_inv:
  assumes "rob_inv cfg s" and "instList s t = i # is" and "ri_canCommit i" and "doneSquashing s t"
  shows "\<exists>s'. retireHead ts t s = Some s' \<and> rob_inv cfg s' \<and> instList s' = (instList s)(t := is) \<and>
    removedInsts s' = removedInsts s @ [i\<lparr>ri_isInROB := False, ri_isCommitted := True\<rparr>] \<and>
    maxEntries s' = maxEntries s \<and> doneSquashing s' = doneSquashing s \<and> squashedSeqNum s' = squashedSeqNum s \<and>
    (\<forall>u. length (threadGroups s' u) \<le> length (threadGroups s u)) \<and> (\<forall>u. u \<noteq> t \<longrightarrow> threadGroups s' u = threadGroups s u)"
proof -
  have t: "t < rob_numThreads cfg"
    using assms(1,2) by (metis rob_inv_def not_le list.distinct(1))
  have inv: "groups_ok cfg (threadGroups s t) (Suc (length is))" "insts_ok t (i # is)"
    "numInstsInROB s = int (rob_total cfg s)" "squash_ok s t"
  proof -
    show "groups_ok cfg (threadGroups s t) (Suc (length is))" "insts_ok t (i # is)"
      using assms(1) unfolding rob_inv_def by (metis assms(2) length_Cons)+
  qed (use assms(1) in \<open>simp_all add: rob_inv_def\<close>)
  then obtain g gs where g: "threadGroups s t = g # gs"
    by (cases "threadGroups s t") auto
  let ?gs = "if g = 1 then gs else dec_group g # gs"
  let ?s' = "(updateHead ts (s\<lparr>instList := (instList s)(t := is), numInstsInROB := numInstsInROB s - 1,
      threadGroups := (threadGroups s)(t := ?gs)\<rparr>))
      \<lparr>removedInsts := removedInsts s @ [i\<lparr>ri_isInROB := False, ri_isCommitted := True\<rparr>]\<rparr>"
  have tot: "Suc (rob_total cfg ?s') = rob_total cfg s"
    using sum_upd_lessThan [OF t, of "\<lambda>u. length (instList ?s' u)" "\<lambda>u. length (instList s u)"] assms(2)
    by (simp add: rob_total_def updateHead_def)
  have "retireHead ts t s = Some ?s'"
    using assms(2,3) inv tot g by (auto simp: retireHead_def commitGroup_def insts_ok_def updateHead_def)
  moreover have "groups_ok cfg ?gs (length is)"
    using groups_ok_commit [of cfg g gs "length is"] inv(1) g by simp
  then have "rob_inv cfg ?s'"
    using assms(1,4) t inv tot insts_ok_tl [OF inv(2)] by (auto simp: rob_inv_def squash_ok_def updateHead_def)
  ultimately show ?thesis
    using g by (auto simp: updateHead_def)
qed

section \<open>A whole squash\<close>

lemma rob_squash_state:
  assumes "rob_inv cfg s" and "instList s t \<noteq> []" and "n = length (younger q (instList s t))"
  shows "instList (rob_squash cfg q t s) = instList s" "removedInsts (rob_squash cfg q t s) = removedInsts s"
    "\<not> doneSquashing (rob_squash cfg q t s) t" "squashedSeqNum (rob_squash cfg q t s) t = q"
    "dynSquashWidth (rob_squash cfg q t s) = computeDynSquashWidth cfg (length (instList s t) - n) n"
  using assms rob_isEmpty_iff [OF assms(1), of t] by (auto simp: rob_squash_def Let_def)

text \<open>What \<open>k\<close> cycles of a fresh squash leave.\<close>

lemma rob_squash_cycles:
  assumes "rob_cfg_ok cfg" and "rob_inv cfg s" and "instList s t \<noteq> []"
    and n: "n = length (younger q (instList s t))"
    and w: "w = computeDynSquashWidth cfg (length (instList s t) - n) n"
  shows "\<exists>s'. squash_cycles cfg ts k t (rob_squash cfg q t s) = Some s' \<and> rob_inv cfg s' \<and>
    (doneSquashing s' t \<longleftrightarrow> 0 < k \<and> n \<le> k * w) \<and>
    (doneSquashing s' t \<longrightarrow>
       instList s' = (instList s)(t := filter (\<lambda>i. ri_seqNum i \<le> q) (instList s t)) \<and>
       removedInsts s' = removedInsts s @ map squashed_copy (rev (younger q (instList s t))))"
proof -
  let ?is = "instList s t" and ?s0 = "rob_squash cfg q t s"
  note s0 = rob_squash_state [OF assms(2,3) n]
  obtain s' where s': "squash_cycles cfg ts k t ?s0 = Some s'" "shrunk (min (k * w) n) t ?s0 s'" "rob_inv cfg s'"
    "doneSquashing s' t \<longleftrightarrow> 0 < k \<and> n \<le> k * w"
    using squash_cycles_shrunk [OF rob_squash_inv [OF assms(1,2)] s0(3), of n ts k] s0 n w by auto
  have ok: "insts_ok t ?is"
    using assms(2) by (simp add: rob_inv_def)
  have len: "length ?is - n = length (filter (\<lambda>i. ri_seqNum i \<le> q) ?is)"
    using arg_cong [OF split_younger [OF ok, of q], of length] n by simp
  have td: "take (length ?is - n) ?is = filter (\<lambda>i. ri_seqNum i \<le> q) ?is" "drop (length ?is - n) ?is = younger q ?is"
    unfolding len using split_younger [OF ok, of q] by (metis append_eq_conv_conj)+
  have "doneSquashing s' t \<Longrightarrow> shrunk n t ?s0 s'"
    using s'(2,4) by (simp add: min.absorb2)
  then show ?thesis
    using s' td s0(1,2) by (auto simp: shrunk_def Let_def)
qed

lemma ceil_div_le: "0 < w \<Longrightarrow> n \<le> k * w \<longleftrightarrow> (n + w - 1) div w \<le> k" for n w k :: nat
proof -
  assume w: "0 < w"
  have "(n + w - 1) div w \<le> k \<longleftrightarrow> (n + w - 1) div w < Suc k"
    by auto
  also have "\<dots> \<longleftrightarrow> n + w - 1 < Suc k * w"
    using w by (rule div_less_iff_less_mult)
  finally show ?thesis
    using w by auto
qed

text \<open>C7: A squash of the reorder buffer terminates, and exactly when its width promises. After
  \<open>squash\<close> to a sequence number with \<open>n\<close> younger instructions in the thread, the width that
  \<open>computeDynSquashWidth\<close> chose is positive, \<open>doSquash\<close> finishes after the quotient of \<open>n\<close> and the width,
  rounded up and at least one, many cycles and not after fewer; no assertion fails on the way. Then
  the thread holds exactly its instructions up to the number, the younger ones have left, marked
  squashed and youngest first, and the other threads are as before.\<close>

theorem rob_squash_completes:
  assumes "rob_cfg_ok cfg" and "rob_inv cfg s" and "instList s t \<noteq> []"
    and "n = length (younger q (instList s t))"
    and "w = computeDynSquashWidth cfg (length (instList s t) - n) n"
    and "cycles = max 1 ((n + w - 1) div w)"
  shows "0 < w \<and>
    (\<exists>s'. squash_cycles cfg ts cycles t (rob_squash cfg q t s) = Some s' \<and> doneSquashing s' t \<and> rob_inv cfg s' \<and>
       instList s' = (instList s)(t := filter (\<lambda>i. ri_seqNum i \<le> q) (instList s t)) \<and>
       removedInsts s' = removedInsts s @ map squashed_copy (rev (younger q (instList s t)))) \<and>
    (\<forall>k<cycles. \<exists>s'. squash_cycles cfg ts k t (rob_squash cfg q t s) = Some s' \<and> \<not> doneSquashing s' t)"
proof -
  have w: "0 < w"
    using computeDynSquashWidth_pos [OF assms(1)] assms(5) by simp
  have c: "0 < k \<and> n \<le> k * w \<longleftrightarrow> cycles \<le> k" for k
    using ceil_div_le [OF w, of n k] assms(6) by auto
  show ?thesis
    using w rob_squash_cycles [OF assms(1-5), of ts cycles] rob_squash_cycles [OF assms(1-5), of ts]
    unfolding c by (meson not_le order_refl)
qed

definition wit_rob_cfg :: rob_cfg where
  "wit_rob_cfg = \<lparr>robPolicy = Dynamic, robWalkPolicy = Rollback, robCompressPolicy = kmhv3, numEntries = 4,
     CROB_instPerGroup = 2, squashWidth = 2, constSquashCycle = 0, smtROBThreshold = 0, rob_numThreads = 1\<rparr>"

definition wit_rob_inst :: "seq_num \<Rightarrow> rob_inst" where
  "wit_rob_inst q = \<lparr>ri_seqNum = q, ri_threadNumber = 0, ri_ftqId = 0, ri_isMemRef = False, ri_isControl = False,
     ri_isNonSpeculative = False, ri_isSerializeBefore = False, ri_isStoreConditional = False, ri_isLoad = False,
     ri_isStore = False, ri_isAtomic = False, ri_isReadBarrier = False, ri_isWriteBarrier = False, ri_isReturn = False,
     ri_strictlyOrdered = False, ri_isSquashAfter = False, ri_canCommit = False, ri_isExecuted = False,
     ri_faulted = False, ri_isSquashed = False, ri_isCommitted = False, ri_isInROB = True\<rparr>"

definition wit_rob :: rob where
  "wit_rob = \<lparr>instList = (\<lambda>t. [])(0 := map wit_rob_inst [1, 2, 3, 4, 5]), threadGroups = (\<lambda>t. [])(0 := [2, 2, 1]),
     maxEntries = \<lambda>t. 4, squashIt = \<lambda>t. None, squashedSeqNum = \<lambda>t. 0, doneSquashing = \<lambda>t. True,
     robStatus = \<lambda>t. Running, numInstsInROB = 5, lastInsertCycle = 0, dynSquashWidth = 6, rob_head = Some (0, 1),
     rob_tail = Some (0, 5), removedInsts = []\<rparr>"

lemma wit_rob_ok: "rob_cfg_ok wit_rob_cfg" "rob_inv wit_rob_cfg wit_rob"
  by (auto simp: rob_cfg_ok_def walk_ok_def instsPerGroup_def wit_rob_cfg_def rob_inv_def wit_rob_def rob_total_def
      groups_ok_def insts_ok_def squash_ok_def wit_rob_inst_def)

theorem rob_squash_completes_witness:
  "rob_cfg_ok wit_rob_cfg \<and> rob_inv wit_rob_cfg wit_rob \<and>
   (\<exists>s'. squash_cycles wit_rob_cfg [0] 2 0 (rob_squash wit_rob_cfg 2 0 wit_rob) = Some s' \<and> doneSquashing s' 0 \<and>
      map ri_seqNum (instList s' 0) = [1, 2] \<and> map ri_seqNum (removedInsts s') = [5, 4, 3]) \<and>
   (\<exists>s'. squash_cycles wit_rob_cfg [0] 1 0 (rob_squash wit_rob_cfg 2 0 wit_rob) = Some s' \<and> \<not> doneSquashing s' 0)"
proof -
  have "instList wit_rob 0 \<noteq> []" "3 = length (younger 2 (instList wit_rob 0))"
    "2 = computeDynSquashWidth wit_rob_cfg (length (instList wit_rob 0) - 3) 3" "2 = max 1 ((3 + 2 - 1) div 2 :: nat)"
    by (simp_all add: wit_rob_def younger_def wit_rob_inst_def computeDynSquashWidth_def wit_rob_cfg_def)
  note completes = rob_squash_completes [OF wit_rob_ok this, of "[0]"]
  have "map ri_seqNum (filter (\<lambda>i. ri_seqNum i \<le> 2) (instList wit_rob 0)) = [1, 2]" "removedInsts wit_rob = []"
    "map ri_seqNum (map squashed_copy (rev (younger 2 (instList wit_rob 0)))) = [5, 4, 3]"
    by (simp_all add: wit_rob_def younger_def wit_rob_inst_def squashed_copy_def)
  then have "\<exists>s'. squash_cycles wit_rob_cfg [0] 2 0 (rob_squash wit_rob_cfg 2 0 wit_rob) = Some s' \<and> doneSquashing s' 0 \<and>
      map ri_seqNum (instList s' 0) = [1, 2] \<and> map ri_seqNum (removedInsts s') = [5, 4, 3]"
    using completes by (metis append_Nil fun_upd_same)
  moreover have "\<exists>s'. squash_cycles wit_rob_cfg [0] 1 0 (rob_squash wit_rob_cfg 2 0 wit_rob) = Some s' \<and> \<not> doneSquashing s' 0"
    using completes by (metis one_less_numeral_iff semiring_norm(76))
  ultimately show ?thesis
    using wit_rob_ok by blast
qed

section \<open>The buffer of a thread as a squashable queue\<close>

text \<open>Insertion under the guards of the commit stage, and a squash run to its end.\<close>

definition rob_enq :: "rob_cfg \<Rightarrow> thread_id \<Rightarrow> nat \<times> rob_inst \<Rightarrow> rob \<Rightarrow> rob option" where
  "rob_enq cfg t x s =
     (case x of (cycle, i) \<Rightarrow>
        if ri_threadNumber i = t \<and> \<not> ri_isSquashed i \<and> rob_total cfg s < numEntries cfg * instsPerGroup cfg
        then insertInst cfg cycle i s else None)"

definition rob_squash_all :: "rob_cfg \<Rightarrow> thread_id list \<Rightarrow> thread_id \<Rightarrow> seq_num \<Rightarrow> rob \<Rightarrow> rob option" where
  "rob_squash_all cfg ts t q s = squash_cycles cfg ts (length (instList s t)) t (rob_squash cfg q t s)"

definition robq_ok :: "rob_cfg \<Rightarrow> thread_id \<Rightarrow> rob \<Rightarrow> bool" where
  "robq_ok cfg t s \<longleftrightarrow> rob_cfg_ok cfg \<and> rob_inv cfg s \<and> t < rob_numThreads cfg \<and> doneSquashing s t"

lemma rob_enq_law:
  assumes "robq_ok cfg t s" and "rob_enq cfg t x s = Some s'" and "\<forall>k\<in>set (map ri_seqNum (instList s t)). k < ri_seqNum (snd x)"
  shows "robq_ok cfg t s' \<and> map ri_seqNum (instList s' t) = map ri_seqNum (instList s t) @ [ri_seqNum (snd x)]"
proof -
  obtain cycle i where x: "x = (cycle, i)"
    by (cases x)
  then have i: "ri_threadNumber i = t" "\<not> ri_isSquashed i" "rob_total cfg s \<le> numEntries cfg * instsPerGroup cfg"
    "insertInst cfg cycle i s = Some s'" "\<forall>j\<in>set (instList s t). ri_seqNum j < ri_seqNum i"
    using assms(2,3) by (auto simp: rob_enq_def split: if_splits)
  then obtain gs where "s' = rob_inserted cycle gs i s" "rob_inv cfg s'"
    using insertInst_inv [of cfg s t i cycle] assms(1) by (auto simp: robq_ok_def)
  then show ?thesis
    using assms(1) x i(1) by (simp add: robq_ok_def rob_inserted_def Let_def)
qed

lemma rob_squash_all_law:
  assumes "robq_ok cfg t s"
  shows "\<exists>s'. rob_squash_all cfg ts t q s = Some s' \<and> robq_ok cfg t s' \<and>
    instList s' t = filter (\<lambda>i. ri_seqNum i \<le> q) (instList s t)"
proof (cases "instList s t = []")
  case True
  then show ?thesis
    using assms rob_isEmpty_iff [of cfg s t] by (simp add: rob_squash_all_def robq_ok_def rob_squash_def)
next
  case False
  define n where "n = length (younger q (instList s t))"
  have "0 < computeDynSquashWidth cfg (length (instList s t) - n) n" "n \<le> length (instList s t)"
    using computeDynSquashWidth_pos assms by (auto simp: robq_ok_def n_def younger_def)
  then have "n \<le> length (instList s t) * computeDynSquashWidth cfg (length (instList s t) - n) n"
    by (metis One_nat_def Suc_leI le_trans mult.right_neutral mult_le_mono2)
  then show ?thesis
    using rob_squash_cycles [of cfg s t n q _ ts "length (instList s t)"] assms False n_def
    by (fastforce simp: rob_squash_all_def robq_ok_def)
qed

interpretation robq: squashable_queue "\<lambda>s. map ri_seqNum (instList s t)" "robq_ok cfg t" "\<lambda>x. ri_seqNum (snd x)"
  "rob_enq cfg t" "rob_squash_all cfg ts t" for cfg t ts
proof unfold_locales
  fix s :: rob and k
  assume ok: "robq_ok cfg t s"
  then show "sorted_wrt (<) (map ri_seqNum (instList s t))"
    by (simp add: robq_ok_def rob_inv_def insts_ok_def)
  show "\<exists>s'. rob_squash_all cfg ts t k s = Some s' \<and> robq_ok cfg t s' \<and>
      map ri_seqNum (instList s' t) = filter (\<lambda>j. j \<le> k) (map ri_seqNum (instList s t))"
    using rob_squash_all_law [OF ok, of ts k] by (auto simp: filter_map comp_def)
qed (rule rob_enq_law)

text \<open>C33: A squash undoes speculation in the reorder buffer: after any number of insertions in
  program order, squashing to the youngest instruction before them returns and leaves the buffer of
  the thread with exactly the instructions it had, its invariant intact.\<close>

theorem rob_squash_undoes_inserts:
  assumes "robq_ok cfg t s" and "enq_all (rob_enq cfg t) xs s = Some s1"
    and "sorted_wrt (<) (map ri_seqNum (instList s t) @ map (\<lambda>x. ri_seqNum (snd x)) xs)"
    and "\<forall>i\<in>set (instList s t). ri_seqNum i \<le> q" and "\<forall>x\<in>set xs. q < ri_seqNum (snd x)"
  shows "\<exists>s2. rob_squash_all cfg ts t q s1 = Some s2 \<and> robq_ok cfg t s2 \<and>
    map ri_seqNum (instList s2 t) = map ri_seqNum (instList s t)"
  by (rule robq.squash_undoes_enq_all [OF assms(1-3)]) (use assms(4,5) in auto)

theorem rob_squash_undoes_inserts_witness:
  "robq_ok wit_rob_cfg 0 wit_rob \<and>
   (\<exists>s1. enq_all (rob_enq wit_rob_cfg 0) [(7, wit_rob_inst 6), (7, wit_rob_inst 8)] wit_rob = Some s1 \<and>
     threadGroups s1 0 = [2, 2, 1, 2] \<and>
     (\<exists>s2. rob_squash_all wit_rob_cfg [0] 0 5 s1 = Some s2 \<and> robq_ok wit_rob_cfg 0 s2 \<and>
        map ri_seqNum (instList s2 0) = [1, 2, 3, 4, 5]))"
proof -
  let ?xs = "[(7, wit_rob_inst 6), (7, wit_rob_inst 8)]"
  have ok: "robq_ok wit_rob_cfg 0 wit_rob"
    using wit_rob_ok by (simp add: robq_ok_def wit_rob_cfg_def wit_rob_def)
  have "\<exists>s1. enq_all (rob_enq wit_rob_cfg 0) ?xs wit_rob = Some s1 \<and> threadGroups s1 0 = [2, 2, 1, 2]"
    by (simp add: rob_enq_def insertInst_def wit_rob_def wit_rob_cfg_def wit_rob_inst_def rob_total_def
        instsPerGroup_def allocateNewGroup_def allocateGroup_kmhv3_def add_to_group_def Let_def)
  then obtain s1 where s1: "enq_all (rob_enq wit_rob_cfg 0) ?xs wit_rob = Some s1" "threadGroups s1 0 = [2, 2, 1, 2]"
    by blast
  have "map ri_seqNum (instList wit_rob 0) = [1, 2, 3, 4, 5]"
    by (simp add: wit_rob_def wit_rob_inst_def)
  then show ?thesis
    using rob_squash_undoes_inserts [OF ok s1(1), of 5 "[0]"] ok s1
    by (auto simp: wit_rob_inst_def wit_rob_def)
qed

end
