(* ===== verification/CommitProps.thy ===== *)
theory CommitProps
  imports Commit RobProps
begin

text \<open>
  What the commit stage guarantees: through every run, instructions of a thread commit in
  program order, each executed and without a fault, no instruction leaves the reorder buffer
  twice, and no assertion of the buffer or of the stage fails.
\<close>

section \<open>Invariant\<close>

text \<open>The instructions of a thread that have left the buffer, oldest departure first.\<close>

definition left_insts :: "thread_id \<Rightarrow> rob \<Rightarrow> rob_inst list" where
  "left_insts t r = filter (\<lambda>i. ri_threadNumber i = t) (removedInsts r)"

text \<open>An instruction may be marked ready before it has executed only if it executes at the head.\<close>

definition ready_ok :: "rob_inst \<Rightarrow> bool" where
  "ready_ok i \<longleftrightarrow>
     (ri_canCommit i \<longrightarrow> ri_isExecuted i \<or> ri_isNonSpeculative i \<or> ri_isStoreConditional i \<or>
        ri_isReadBarrier i \<or> ri_isWriteBarrier i \<or> ri_isAtomic i \<or> ri_isLoad i \<and> ri_strictlyOrdered i)"

definition out_ok :: "seq_num \<Rightarrow> rob_inst list \<Rightarrow> bool" where
  "out_ok q out \<longleftrightarrow>
     distinct (map ri_seqNum out) \<and> sorted_wrt (<) (map ri_seqNum (filter ri_isCommitted out)) \<and>
     (\<forall>i\<in>set out. ri_isCommitted i \<longrightarrow> ri_seqNum i \<le> q \<and> ri_isExecuted i \<and> \<not> ri_faulted i)"

definition pending_ok :: "seq_num \<Rightarrow> rob_inst list \<Rightarrow> rob_inst list \<Rightarrow> bool" where
  "pending_ok q out is \<longleftrightarrow>
     sorted_wrt (<) (map ri_seqNum is) \<and>
     (\<forall>i\<in>set is. q < ri_seqNum i \<and> \<not> ri_isCommitted i \<and> ready_ok i) \<and>
     ri_seqNum ` set out \<inter> ri_seqNum ` set is = {}"

definition status_ok :: "commit_state \<Rightarrow> thread_id \<Rightarrow> bool" where
  "status_ok s t \<longleftrightarrow>
     (\<not> doneSquashing (c_rob s) t \<longrightarrow> commitStatus s t = cROBSquashing) \<and>
     (squashAfterInst s t \<noteq> None \<longrightarrow> commitStatus s t = SquashAfterPending) \<and>
     (trapInFlight s t \<longrightarrow> commitStatus s t = TrapPending) \<and> (trapSquash s t \<longrightarrow> trapInFlight s t) \<and>
     (tcSquash s t \<longrightarrow> commitStatus s t \<noteq> TrapPending \<and> commitStatus s t \<noteq> SquashAfterPending) \<and>
     (\<not> out_squash (toIEW s) t \<and> \<not> robSquashing (toIEW s) t \<longrightarrow> doneSeqNum (toIEW s) t \<le> lastCommitedSeqNum s t)"

definition thread_inv :: "commit_state \<Rightarrow> thread_id \<Rightarrow> bool" where
  "thread_inv s t \<longleftrightarrow>
     length (threadGroups (c_rob s) t) \<le> maxEntries (c_rob s) t \<and>
     pending_ok (lastCommitedSeqNum s t) (left_insts t (c_rob s)) (instList (c_rob s) t @ fixedbuffer s t) \<and>
     (\<forall>i\<in>set (fixedbuffer s t). ri_threadNumber i = t \<and> \<not> ri_isSquashed i) \<and>
     out_ok (lastCommitedSeqNum s t) (left_insts t (c_rob s)) \<and> status_ok s t"

definition commit_inv :: "commit_cfg \<Rightarrow> commit_state \<Rightarrow> bool" where
  "commit_inv cfg s \<longleftrightarrow>
     rob_inv (c_robCfg cfg) (c_rob s) \<and> maxEntries (c_rob s) = init_maxEntries (c_robCfg cfg) \<and>
     (\<forall>t\<ge>rob_numThreads (c_robCfg cfg). fixedbuffer s t = []) \<and> (\<forall>t. thread_inv s t)"

definition commit_cfg_ok :: "commit_cfg \<Rightarrow> bool" where
  "commit_cfg_ok cfg \<longleftrightarrow>
     rob_cfg_ok (c_robCfg cfg) \<and> activeThreads cfg \<noteq> [] \<and>
     set (activeThreads cfg) = {..<rob_numThreads (c_robCfg cfg)} \<and>
     (\<Sum>t<rob_numThreads (c_robCfg cfg). init_maxEntries (c_robCfg cfg) t) \<le> numEntries (c_robCfg cfg)"

text \<open>What the stage tells the store queue: without a squash, every instruction up to the reported
  number is done.\<close>

definition inst_done :: "rob_inst \<Rightarrow> bool" where
  "inst_done i \<longleftrightarrow> ri_canCommit i \<and> ri_isExecuted i \<and> \<not> ri_faulted i"

definition released_ok :: "commit_state \<Rightarrow> thread_id \<Rightarrow> bool" where
  "released_ok s t \<longleftrightarrow>
     (\<not> out_squash (toIEW s) t \<and> \<not> robSquashing (toIEW s) t \<longrightarrow>
        (\<forall>i\<in>set (instList (c_rob s) t). ri_seqNum i \<le> doneMemSeqNum (toIEW s) t \<longrightarrow> inst_done i))"

definition sends_ok :: "commit_state \<Rightarrow> thread_id \<Rightarrow> bool" where
  "sends_ok s t \<longleftrightarrow> out_squash (toIEW s) t \<or> doneMemSeqNum (toIEW s) t = 0"

lemma seq_after_committed:
  "commit_inv cfg s \<Longrightarrow> i \<in> set (instList (c_rob s) t) \<Longrightarrow> lastCommitedSeqNum s t < ri_seqNum i"
  by (simp add: commit_inv_def thread_inv_def pending_ok_def ball_Un)

lemma sends_released: "commit_inv cfg s \<Longrightarrow> sends_ok s t \<Longrightarrow> released_ok s t"
  using seq_after_committed [of cfg s _ t] by (fastforce simp: sends_ok_def released_ok_def)

text \<open>The invariant does not depend on the bookkeeping of the stage.\<close>

lemma commit_inv_cong:
  assumes "c_rob s' = c_rob s" "fixedbuffer s' = fixedbuffer s" "commitStatus s' = commitStatus s"
    "lastCommitedSeqNum s' = lastCommitedSeqNum s" "trapSquash s' = trapSquash s" "tcSquash s' = tcSquash s"
    "trapInFlight s' = trapInFlight s" "squashAfterInst s' = squashAfterInst s"
    "doneSeqNum (toIEW s') = doneSeqNum (toIEW s)" "out_squash (toIEW s') = out_squash (toIEW s)"
    "\<And>t. robSquashing (toIEW s) t \<Longrightarrow> robSquashing (toIEW s') t"
  shows "commit_inv cfg s \<Longrightarrow> commit_inv cfg s'"
  using assms(11) unfolding commit_inv_def thread_inv_def status_ok_def assms(1-10) by blast

section \<open>Squash\<close>

lemma left_insts_shrunk:
  assumes "shrunk k t r r'" and "insts_ok t (instList r t)"
  shows "left_insts u r' = left_insts u r @
    (if u = t then map squashed_copy (rev (drop (length (instList r t) - k) (instList r t))) else [])"
proof -
  have "\<forall>i\<in>set (map squashed_copy (rev (drop n (instList r t)))). ri_threadNumber i = t" for n
    using assms(2) by (auto simp: insts_ok_def squashed_copy_def dest: in_set_dropD)
  then show ?thesis
    using assms(1) by (auto simp: shrunk_def Let_def left_insts_def filter_id_conv filter_empty_conv)
qed

lemma pending_ok_shrink:
  assumes "pending_ok q out (xs @ ys @ bs)" and "out_ok q out"
  shows "pending_ok q (out @ map squashed_copy (rev ys)) (xs @ bs) \<and> out_ok q (out @ map squashed_copy (rev ys))"
proof -
  have seq: "ri_seqNum ` set (map squashed_copy (rev ys)) = ri_seqNum ` set ys"
    by (simp add: squashed_copy_def image_image)
  have dist: "distinct (map ri_seqNum (xs @ ys @ bs))"
    using assms(1) strict_sorted_iff unfolding pending_ok_def by blast
  have nc: "\<forall>i\<in>set (map squashed_copy (rev ys)). \<not> ri_isCommitted i"
    using assms(1) by (simp add: pending_ok_def squashed_copy_def)
  have m: "map ri_seqNum (map squashed_copy (rev ys)) = rev (map ri_seqNum ys)"
    by (simp add: squashed_copy_def rev_map comp_def)
  have dj: "ri_seqNum ` set out \<inter> ri_seqNum ` set ys = {}"
    using assms(1) by (simp add: pending_ok_def image_Un Int_Un_distrib)
  have f: "filter ri_isCommitted (map squashed_copy (rev ys)) = []"
    using nc filter_False by blast
  have "distinct (map ri_seqNum (out @ map squashed_copy (rev ys)))"
    unfolding map_append m using assms(2) dist dj by (simp add: out_ok_def)
  then have "out_ok q (out @ map squashed_copy (rev ys))"
    using assms(2) nc unfolding out_ok_def filter_append f by auto
  moreover have "sorted_wrt (<) (map ri_seqNum (xs @ bs))"
    using assms(1) by (auto simp: pending_ok_def sorted_wrt_append)
  moreover have "ri_seqNum ` set ys \<inter> ri_seqNum ` set (xs @ bs) = {}"
    using dist by (simp add: image_Un Int_Un_distrib Int_Un_distrib2 Int_commute)
  ultimately show ?thesis
    using assms(1) seq by (simp add: pending_ok_def image_Un Int_Un_distrib Int_Un_distrib2 ball_Un)
qed

lemma commit_inv_shrunk:
  assumes "commit_inv cfg s" and "shrunk k t (c_rob s) r" and "rob_inv (c_robCfg cfg) r"
    and "commitStatus s t = cROBSquashing"
  shows "commit_inv cfg (s\<lparr>c_rob := r\<rparr>)"
proof -
  have ok: "insts_ok t (instList (c_rob s) t)"
    using assms(1) by (simp add: commit_inv_def rob_inv_def)
  have r: "maxEntries r = maxEntries (c_rob s)" "length (threadGroups r t) \<le> length (threadGroups (c_rob s) t)"
    "\<And>u. u \<noteq> t \<Longrightarrow> threadGroups r u = threadGroups (c_rob s) u \<and> doneSquashing r u = doneSquashing (c_rob s) u"
    "instList r = (instList (c_rob s))(t := take (length (instList (c_rob s) t) - k) (instList (c_rob s) t))"
    using assms(2) by (auto simp: shrunk_def Let_def)
  have td: "take n is @ drop n is @ bs = is @ bs" for n and "is" bs :: "rob_inst list"
    by (simp only: append_assoc [symmetric] append_take_drop_id)
  have "thread_inv (s\<lparr>c_rob := r\<rparr>) u" for u
  proof (cases "u = t")
    case True
    have "thread_inv s t"
      using assms(1) by (simp add: commit_inv_def)
    then show ?thesis
      using True r assms(4) left_insts_shrunk [OF assms(2) ok, of t]
        pending_ok_shrink [of "lastCommitedSeqNum s t" "left_insts t (c_rob s)"
          "take (length (instList (c_rob s) t) - k) (instList (c_rob s) t)"
          "drop (length (instList (c_rob s) t) - k) (instList (c_rob s) t)" "fixedbuffer s t"]
      by (auto simp: thread_inv_def status_ok_def td)
  next
    case False
    then show ?thesis
      using assms(1) r left_insts_shrunk [OF assms(2) ok, of u]
      by (auto simp: commit_inv_def thread_inv_def status_ok_def)
  qed
  then show ?thesis
    using assms(1,3) r(1) by (auto simp: commit_inv_def)
qed

definition renamed_ok :: "commit_cfg \<Rightarrow> rob_inst list \<Rightarrow> commit_state \<Rightarrow> bool" where
  "renamed_ok cfg is s \<longleftrightarrow>
     sorted_wrt (<) (map ri_seqNum is) \<and>
     (\<exists>t<rob_numThreads (c_robCfg cfg). \<forall>i\<in>set is.
        ri_threadNumber i = t \<and> fixedbuffer s t = [] \<and> \<not> ri_isCommitted i \<and> ready_ok i \<and>
        lastCommitedSeqNum s t < ri_seqNum i \<and>
        (\<forall>j\<in>set (instList (c_rob s) t @ left_insts t (c_rob s)). ri_seqNum j < ri_seqNum i))"

lemma renamed_ok_shrunk:
  assumes "renamed_ok cfg is s" and "shrunk k t (c_rob s) r" and "insts_ok t (instList (c_rob s) t)"
  shows "renamed_ok cfg is (s\<lparr>c_rob := r\<rparr>)"
proof -
  let ?js = "instList (c_rob s) t"
  let ?n = "length ?js - k"
  have copy: "ri_seqNum ` set (map squashed_copy (rev xs)) = ri_seqNum ` set xs" for xs
    by (simp add: squashed_copy_def image_image)
  have "set (take ?n ?js) \<union> set (drop ?n ?js) = set ?js"
    by (metis append_take_drop_id set_append)
  then have split: "ri_seqNum ` set (drop ?n ?js) \<union> ri_seqNum ` set (take ?n ?js) = ri_seqNum ` set ?js"
    by (metis image_Un Un_commute)
  have eq: "ri_seqNum ` set (instList r u @ left_insts u r) =
      ri_seqNum ` set (instList (c_rob s) u @ left_insts u (c_rob s))" for u
  proof (cases "u = t")
    case True
    have "instList r t = take ?n ?js"
      using assms(2) by (simp add: shrunk_def Let_def)
    then show ?thesis
      unfolding True left_insts_shrunk [OF assms(2,3)]
      by (simp only: set_append image_Un copy if_True Un_ac split refl)
  next
    case False
    then show ?thesis
      using assms(2) left_insts_shrunk [OF assms(2,3), of u] by (simp add: shrunk_def Let_def)
  qed
  have "(\<forall>j\<in>A. ri_seqNum j < q) \<longleftrightarrow> (\<forall>x\<in>ri_seqNum ` A. x < q)" for A :: "rob_inst set" and q
    by simp
  then have "(\<forall>j\<in>set (instList r u @ left_insts u r). ri_seqNum j < q) \<longleftrightarrow>
      (\<forall>j\<in>set (instList (c_rob s) u @ left_insts u (c_rob s)). ri_seqNum j < q)" for u q
    unfolding eq [symmetric] by (simp only: eq)
  then show ?thesis
    using assms(1) by (simp add: renamed_ok_def)
qed

lemma squash_progress_inv:
  assumes "commit_inv cfg s" and "set ts \<subseteq> {..<rob_numThreads (c_robCfg cfg)}"
  shows "\<exists>s'. squash_progress cfg exiting ts s = Some s' \<and> commit_inv cfg s' \<and>
    fromRename s' = fromRename s \<and> doneMemSeqNum (toIEW s') = doneMemSeqNum (toIEW s) \<and>
    (renamed_ok cfg js s \<longrightarrow> renamed_ok cfg js s')"
  using assms
proof (induction ts arbitrary: s)
  case (Cons t ts)
  show ?case
  proof (cases "commitStatus s t = cROBSquashing")
    case False
    have "commit_inv cfg (s\<lparr>committedStores := (committedStores s)(t := False)\<rparr>)"
      by (rule commit_inv_cong [OF _ _ _ _ _ _ _ _ _ _ _ Cons.prems(1)]) auto
    from Cons.IH [OF this] show ?thesis
      using Cons.prems(2) False by (auto simp: renamed_ok_def)
  next
    case sq: True
    show ?thesis
    proof (cases "doneSquashing (c_rob s) t")
      case True
      have "commit_inv cfg (s\<lparr>committedStores := (committedStores s)(t := False),
          commitStatus := (commitStatus s)(t := cRunning)\<rparr>)"
        using Cons.prems(1) sq True by (auto simp: commit_inv_def thread_inv_def status_ok_def)
      from Cons.IH [OF this] show ?thesis
        using Cons.prems(2) sq True by (auto simp: renamed_ok_def)
    next
      case False
      let ?r = "c_rob s"
      have inv: "rob_inv (c_robCfg cfg) ?r" "thread_inv s t"
        using Cons.prems(1) by (auto simp: commit_inv_def)
      obtain k r where r: "rob_doSquash (c_robCfg cfg) (activeThreads cfg) (exiting t) t ?r = Some r"
        "shrunk k t ?r r" "rob_inv (c_robCfg cfg) r"
        using doSquash_step [OF inv(1) False refl refl] by blast
      let ?s1 = "s\<lparr>committedStores := (committedStores s)(t := False), c_rob := r,
        changedROBNumEntries := (changedROBNumEntries s)(t := True),
        toIEW := (toIEW s)\<lparr>robSquashing := (robSquashing (toIEW s))(t := True)\<rparr>\<rparr>"
      have "commit_inv cfg ?s1"
        by (rule commit_inv_cong [OF _ _ _ _ _ _ _ _ _ _ _ commit_inv_shrunk [OF Cons.prems(1) r(2,3) sq]]) auto
      moreover have "renamed_ok cfg js s \<Longrightarrow> renamed_ok cfg js ?s1"
        using renamed_ok_shrunk [OF _ r(2), of cfg js] inv(1) by (auto simp: rob_inv_def renamed_ok_def)
      ultimately show ?thesis
        using Cons.IH [of ?s1] Cons.prems(2) sq False r(1) by (auto simp: Let_def)
    qed
  qed
qed simp

lemma rob_squash_frame [simp]:
  "instList (rob_squash cfg q t r) = instList r" "threadGroups (rob_squash cfg q t r) = threadGroups r"
  "maxEntries (rob_squash cfg q t r) = maxEntries r" "removedInsts (rob_squash cfg q t r) = removedInsts r"
  "left_insts u (rob_squash cfg q t r) = left_insts u r"
  "u \<noteq> t \<Longrightarrow> doneSquashing (rob_squash cfg q t r) u = doneSquashing r u"
  by (simp_all add: rob_squash_def left_insts_def Let_def)

lemma pending_ok_prefix: "pending_ok q out (is @ bs) \<Longrightarrow> pending_ok q out is"
  by (simp add: pending_ok_def sorted_wrt_append image_Un Int_Un_distrib ball_Un)

text \<open>The state after a squash of a thread, whatever asked for it.\<close>

definition mark_squashed :: "rob_inst \<Rightarrow> rob_inst" where
  "mark_squashed i = i\<lparr>ri_isSquashed := True\<rparr>"

definition squashed_at :: "commit_cfg \<Rightarrow> thread_id \<Rightarrow> seq_num \<Rightarrow> commit_state \<Rightarrow> commit_state \<Rightarrow> bool" where
  "squashed_at cfg t q s s' \<longleftrightarrow>
     c_rob s' = rob_squash (c_robCfg cfg) q t (c_rob s) \<and> fixedbuffer s' = (fixedbuffer s)(t := []) \<and>
     fromRename s' = map mark_squashed (fromRename s) \<and> lastCommitedSeqNum s' = lastCommitedSeqNum s \<and>
     commitStatus s' = (commitStatus s)(t := cROBSquashing) \<and> toIEW s' = toIEW (send_squash t q s) \<and>
     squashAfterInst s' t = None \<and> \<not> trapInFlight s' t \<and> \<not> trapSquash s' t \<and> \<not> tcSquash s' t \<and>
     (\<forall>u. u \<noteq> t \<longrightarrow> squashAfterInst s' u = squashAfterInst s u \<and> trapInFlight s' u = trapInFlight s u \<and>
        trapSquash s' u = trapSquash s u \<and> tcSquash s' u = tcSquash s u)"

lemma commit_inv_squashed:
  assumes "commit_inv cfg s" and "rob_cfg_ok (c_robCfg cfg)" and sq: "squashed_at cfg t q s s'"
  shows "commit_inv cfg s'"
proof -
  have "thread_inv s' v" for v
  proof (cases "v = t")
    case True
    have "thread_inv s t"
      using assms(1) by (simp add: commit_inv_def)
    with True show ?thesis
      using sq pending_ok_prefix by (auto simp: thread_inv_def status_ok_def squashed_at_def send_squash_def Let_def)
  next
    case False
    have "thread_inv s v"
      using assms(1) by (simp add: commit_inv_def)
    with False show ?thesis
      using sq by (simp add: thread_inv_def status_ok_def squashed_at_def send_squash_def Let_def)
  qed
  moreover have "rob_inv (c_robCfg cfg) (c_rob s')"
    using assms rob_squash_inv by (simp add: commit_inv_def squashed_at_def)
  ultimately show ?thesis
    using assms(1) sq by (simp add: commit_inv_def squashed_at_def)
qed

lemma squashAll_ok:
  assumes "commit_inv cfg s"
  shows "\<exists>q. squashAll cfg t s = Some (squashInflight t (send_squash t q
    (s\<lparr>youngestSeqNum := (youngestSeqNum s)(t := lastCommitedSeqNum s t),
       c_rob := rob_squash (c_robCfg cfg) q t (c_rob s)\<rparr>)))"
proof (cases "rob_isEmpty t (c_rob s)")
  case False
  let ?r = "c_rob s"
  have inv: "groups_ok (c_robCfg cfg) (threadGroups ?r t) (length (instList ?r t))" "insts_ok t (instList ?r t)"
    using assms by (auto simp: commit_inv_def rob_inv_def)
  obtain g gs where g: "threadGroups ?r t = g # gs"
    using False by (cases "threadGroups ?r t") (auto simp: rob_isEmpty_def getThreadEntries_def)
  then have "0 < g" "instList ?r t \<noteq> []"
    using inv(1) by (auto simp: groups_ok_def)
  then obtain i "is" where "instList ?r t = i # is" "readHeadInst t ?r = Some (Some i)"
    using g inv(2) by (cases "instList ?r t") (auto simp: readHeadInst_def insts_ok_def)
  with False show ?thesis
    by (auto simp: squashAll_def)
qed (auto simp: squashAll_def)

text \<open>After the squashes of a cycle no request is pending.\<close>

definition quiet :: "commit_state \<Rightarrow> thread_id \<Rightarrow> bool" where
  "quiet s t \<longleftrightarrow> \<not> trapSquash s t \<and> \<not> tcSquash s t \<and> commitStatus s t \<noteq> SquashAfterPending"

text \<open>What the squashes of a cycle leave alone.\<close>

definition squash_frame :: "commit_state \<Rightarrow> commit_state \<Rightarrow> bool" where
  "squash_frame s s' \<longleftrightarrow>
     instList (c_rob s') = instList (c_rob s) \<and> removedInsts (c_rob s') = removedInsts (c_rob s) \<and>
     lastCommitedSeqNum s' = lastCommitedSeqNum s \<and>
     (\<forall>u. fixedbuffer s' u = fixedbuffer s u \<or> fixedbuffer s' u = []) \<and>
     (fromRename s' = fromRename s \<or> fromRename s' = map mark_squashed (fromRename s)) \<and>
     (\<forall>u. quiet s u \<longrightarrow> quiet s' u) \<and> (\<forall>u. sends_ok s u \<longrightarrow> sends_ok s' u)"

lemma squash_frame_refl: "squash_frame s s"
  by (simp add: squash_frame_def)

lemma squash_frame_trans: "squash_frame s s1 \<Longrightarrow> squash_frame s1 s2 \<Longrightarrow> squash_frame s s2"
  by (auto simp: squash_frame_def mark_squashed_def comp_def) metis+

lemma squashed_at_frame:
  assumes "squashed_at cfg t q s s'"
  shows "squash_frame s s'" "quiet s' t"
proof -
  have "quiet s u \<longrightarrow> quiet s' u" "sends_ok s u \<longrightarrow> sends_ok s' u" for u
    using assms by (cases "u = t"; simp add: squashed_at_def quiet_def sends_ok_def send_squash_def Let_def)+
  then show "squash_frame s s'"
    using assms by (simp add: squash_frame_def squashed_at_def)
  show "quiet s' t"
    using assms by (simp add: squashed_at_def quiet_def)
qed

lemma squashFromIEW_inv:
  assumes "commit_inv cfg s" and "rob_cfg_ok (c_robCfg cfg)" and "quiet s t"
  shows "commit_inv cfg (squashFromIEW cfg req t s) \<and> squash_frame s (squashFromIEW cfg req t s)"
proof -
  have "thread_inv s t"
    using assms(1) by (simp add: commit_inv_def)
  then have st: "squashAfterInst s t = None" "commitStatus s t \<noteq> TrapPending \<Longrightarrow> \<not> trapInFlight s t"
    using assms(3) by (auto simp: thread_inv_def status_ok_def quiet_def)
  show ?thesis
  proof (cases "\<exists>q inc. req t = Some (q, inc) \<and> commitStatus s t \<noteq> TrapPending \<and> q \<le> youngestSeqNum s t")
    case True
    then obtain q inc where q: "req t = Some (q, inc)" "commitStatus s t \<noteq> TrapPending" "q \<le> youngestSeqNum s t"
      by blast
    then have "squashed_at cfg t (if inc then q - 1 else q) s (squashFromIEW cfg req t s)"
      using st assms(3)
      by (simp add: squashed_at_def squashFromIEW_def squashInflight_def send_squash_def quiet_def mark_squashed_def Let_def)
    then show ?thesis
      using commit_inv_squashed [OF assms(1,2)] squashed_at_frame by blast
  next
    case False
    then have "squashFromIEW cfg req t s = s"
      by (auto simp: squashFromIEW_def split: option.splits)
    then show ?thesis
      using assms squash_frame_refl by simp
  qed
qed

definition requested_squash :: "commit_cfg \<Rightarrow> thread_id \<Rightarrow> commit_state \<Rightarrow> commit_state option" where
  "requested_squash cfg t s =
     (if trapSquash s t then if tcSquash s t then None else squashFromTrap cfg t s
      else if tcSquash s t then if commitStatus s t = TrapPending then None else squashFromTC cfg t s
      else if commitStatus s t = SquashAfterPending then squashFromSquashAfter cfg t s
      else Some s)"

lemma requested_squash_inv:
  assumes "commit_inv cfg s" and "rob_cfg_ok (c_robCfg cfg)"
  shows "\<exists>s'. requested_squash cfg t s = Some s' \<and> commit_inv cfg s' \<and> squash_frame s s' \<and> quiet s' t"
proof (cases "quiet s t")
  case True
  then show ?thesis
    using assms(1) squash_frame_refl by (auto simp: requested_squash_def quiet_def)
next
  case False
  obtain q where q: "squashAll cfg t s = Some (squashInflight t (send_squash t q
    (s\<lparr>youngestSeqNum := (youngestSeqNum s)(t := lastCommitedSeqNum s t),
       c_rob := rob_squash (c_robCfg cfg) q t (c_rob s)\<rparr>)))"
    using squashAll_ok [OF assms(1)] by blast
  have "thread_inv s t"
    using assms(1) by (simp add: commit_inv_def)
  then have st: "status_ok s t"
    by (simp add: thread_inv_def)
  with q have "\<exists>s'. requested_squash cfg t s = Some s'"
    by (auto simp: requested_squash_def squashFromTrap_def squashFromTC_def squashFromSquashAfter_def status_ok_def)
  then obtain s' where s': "requested_squash cfg t s = Some s'"
    by blast
  note squash = squashInflight_def send_squash_def mark_squashed_def squashed_at_def Let_def
  have "squashed_at cfg t q s s'"
  proof (cases "trapSquash s t")
    case True
    then have "squashFromTrap cfg t s = Some s'" "\<not> tcSquash s t" "squashAfterInst s t = None"
      using s' st by (auto simp: requested_squash_def status_ok_def split: if_splits)
    then show ?thesis
      unfolding squashFromTrap_def q by (auto simp: squash)
  next
    case no_trap: False
    show ?thesis
    proof (cases "tcSquash s t")
      case True
      then have "squashFromTC cfg t s = Some s'" "\<not> trapInFlight s t" "squashAfterInst s t = None"
        using s' st no_trap by (auto simp: requested_squash_def status_ok_def split: if_splits)
      then show ?thesis
        using no_trap unfolding squashFromTC_def q by (auto simp: squash)
    next
      case False
      then have "squashFromSquashAfter cfg t s = Some s'" "\<not> trapInFlight s t"
        using s' st no_trap \<open>\<not> quiet s t\<close> by (auto simp: requested_squash_def status_ok_def quiet_def)
      then show ?thesis
        using no_trap False unfolding squashFromSquashAfter_def q by (auto simp: squash)
    qed
  qed
  then show ?thesis
    using s' commit_inv_squashed [OF assms] squashed_at_frame by blast
qed

lemma commit_squashes_inv:
  assumes "commit_inv cfg s" and "rob_cfg_ok (c_robCfg cfg)"
  shows "\<exists>s'. commit_squashes cfg req ts s = Some s' \<and> commit_inv cfg s' \<and> squash_frame s s' \<and> (\<forall>t\<in>set ts. quiet s' t)"
  using assms(1)
proof (induction ts arbitrary: s)
  case Nil
  then show ?case
    using squash_frame_refl by auto
next
  case (Cons t ts)
  obtain s1 where s1: "requested_squash cfg t s = Some s1" "commit_inv cfg s1" "squash_frame s s1" "quiet s1 t"
    using requested_squash_inv [OF Cons.prems assms(2)] by blast
  let ?s2 = "squashFromIEW cfg req t s1"
  have f: "commit_inv cfg ?s2" "squash_frame s1 ?s2"
    using squashFromIEW_inv [OF s1(2) assms(2) s1(4), of req] by simp_all
  then have s2: "commit_inv cfg ?s2" "quiet ?s2 t" "squash_frame s ?s2"
    using squash_frame_trans [OF s1(3)] s1(4) unfolding squash_frame_def by blast+
  obtain s' where s': "commit_squashes cfg req ts ?s2 = Some s'" "commit_inv cfg s'" "squash_frame ?s2 s'"
    "\<forall>t\<in>set ts. quiet s' t"
    using Cons.IH [OF s2(1)] by blast
  have "quiet s' t"
    using s2(2) s'(3) by (simp add: squash_frame_def)
  then show ?case
    using s1(1) s' squash_frame_trans [OF s2(3) s'(3)] by (simp add: requested_squash_def)
qed

section \<open>Filling the reorder buffer\<close>

lemma renamed_ok_frame:
  assumes "renamed_ok cfg is s" and "squash_frame s s'"
  shows "renamed_ok cfg is s' \<and> renamed_ok cfg (map mark_squashed is) s'"
proof -
  have "fixedbuffer s t = [] \<Longrightarrow> fixedbuffer s' t = []" for t
    using assms(2) by (metis squash_frame_def)
  moreover have "left_insts t (c_rob s') = left_insts t (c_rob s)" for t
    using assms(2) by (simp add: squash_frame_def left_insts_def)
  ultimately have ok: "renamed_ok cfg is s'"
    using assms by (auto simp: renamed_ok_def squash_frame_def)
  then show ?thesis
    by (auto simp: renamed_ok_def mark_squashed_def ready_ok_def comp_def)
qed

lemma receive_renamed_inv:
  assumes "commit_inv cfg s" and "renamed_ok cfg (fromRename s) s"
  shows "\<exists>b. receive_renamed s = Some (s\<lparr>fixedbuffer := b\<rparr>) \<and> commit_inv cfg (s\<lparr>fixedbuffer := b\<rparr>)"
proof (cases "fromRename s")
  case Nil
  then show ?thesis
    using assms(1) by (intro exI [of _ "fixedbuffer s"]) (simp add: receive_renamed_def)
next
  case (Cons i "is")
  let ?t = "ri_threadNumber i" and ?b = "filter (\<lambda>j. \<not> ri_isSquashed j) (fromRename s)"
  let ?s' = "s\<lparr>fixedbuffer := (fixedbuffer s)(?t := ?b)\<rparr>"
  have r: "sorted_wrt (<) (map ri_seqNum (fromRename s))" "?t < rob_numThreads (c_robCfg cfg)"
    "\<forall>j\<in>set (fromRename s). ri_threadNumber j = ?t \<and> \<not> ri_isCommitted j \<and> ready_ok j \<and>
      lastCommitedSeqNum s ?t < ri_seqNum j \<and>
      (\<forall>k\<in>set (instList (c_rob s) ?t @ left_insts ?t (c_rob s)). ri_seqNum k < ri_seqNum j)"
    "fixedbuffer s ?t = []"
    using assms(2) Cons by (auto simp: renamed_ok_def)
  have inv: "thread_inv s ?t"
    using assms(1) by (simp add: commit_inv_def)
  have "pending_ok (lastCommitedSeqNum s ?t) (left_insts ?t (c_rob s)) (instList (c_rob s) ?t @ ?b)"
  proof -
    have "sorted_wrt (<) (map ri_seqNum ?b)"
      using sorted_wrt_filter [of "\<lambda>a b. ri_seqNum a < ri_seqNum b"] r(1) by (simp add: sorted_wrt_map)
    moreover have "ri_seqNum ` set (left_insts ?t (c_rob s)) \<inter> ri_seqNum ` set ?b = {}"
      using r(3) by (auto simp: disjoint_iff) (metis UnI2 less_irrefl)
    ultimately show ?thesis
      using inv r(3,4) by (auto simp: thread_inv_def pending_ok_def sorted_wrt_append image_Un Int_Un_distrib)
  qed
  then have "thread_inv ?s' u" for u
    using assms(1) inv r(3,4) by (cases "u = ?t") (auto simp: commit_inv_def thread_inv_def status_ok_def)
  then have "commit_inv cfg ?s'"
    using assms(1) r(2) by (auto simp: commit_inv_def)
  moreover have "receive_renamed s = Some ?s'"
    using r(3,4) Cons by (auto simp: receive_renamed_def Let_def)
  ultimately show ?thesis
    by blast
qed

lemma pick_thread_ok:
  "pick_thread is tid s = (r, s') \<Longrightarrow>
   (\<exists>b. s' = s\<lparr>blockIEW := b\<rparr>) \<and> (\<forall>t. r = Some t \<longrightarrow> tid = Some t \<or> t \<in> set is \<and> \<not> thread_block t s)"
proof (induction "is" arbitrary: tid s)
  case Nil
  then show ?case
    by (auto intro: exI [of _ "blockIEW s"])
next
  case (Cons i "is")
  have blk: "thread_block u (s\<lparr>blockIEW := b\<rparr>) = thread_block u s" for u b
    by (simp add: thread_block_def rob_block_def)
  have "\<exists>b tid1. pick_thread is tid1 (s\<lparr>blockIEW := b\<rparr>) = (r, s') \<and> (tid1 = tid \<or> tid1 = Some i \<and> \<not> thread_block i s)"
    using Cons.prems by (cases tid) (auto simp: Let_def split: if_splits)
  then obtain b tid1 where p: "pick_thread is tid1 (s\<lparr>blockIEW := b\<rparr>) = (r, s')"
    "tid1 = tid \<or> tid1 = Some i \<and> \<not> thread_block i s"
    by blast
  show ?case
    using Cons.IH [OF p(1)] p(2) by (auto simp: blk)
qed

lemma rob_total_bound:
  assumes "commit_inv cfg s" and "commit_cfg_ok cfg"
  shows "rob_total (c_robCfg cfg) (c_rob s) \<le> numEntries (c_robCfg cfg) * instsPerGroup (c_robCfg cfg)"
proof -
  let ?c = "c_robCfg cfg" and ?r = "c_rob s"
  have sum_le: "(\<forall>g\<in>set gs. g \<le> k) \<Longrightarrow> sum_list gs \<le> length gs * k" for gs :: "nat list" and k
    by (induction gs) auto
  have "length (instList ?r t) \<le> init_maxEntries ?c t * instsPerGroup ?c" for t
  proof -
    have "groups_ok ?c (threadGroups ?r t) (length (instList ?r t))"
      "length (threadGroups ?r t) \<le> init_maxEntries ?c t"
      using assms(1) by (auto simp: commit_inv_def rob_inv_def thread_inv_def)
    then show ?thesis
      using sum_le [of "threadGroups ?r t" "instsPerGroup ?c"]
      by (auto simp: groups_ok_def intro: order_trans [OF _ mult_le_mono1])
  qed
  then have "rob_total ?c ?r \<le> (\<Sum>t<rob_numThreads ?c. init_maxEntries ?c t * instsPerGroup ?c)"
    unfolding rob_total_def by (rule sum_mono)
  also have "\<dots> = (\<Sum>t<rob_numThreads ?c. init_maxEntries ?c t) * instsPerGroup ?c"
    by (simp add: sum_distrib_right)
  also have "\<dots> \<le> numEntries ?c * instsPerGroup ?c"
    using assms(2) by (intro mult_le_mono1) (simp add: commit_cfg_ok_def)
  finally show ?thesis .
qed

lemma numFreeEntries_exact:
  assumes "commit_inv cfg s" and "commit_cfg_ok cfg" and "t < rob_numThreads (c_robCfg cfg)"
  shows "unat (rob_numFreeEntries t (c_rob s)) = maxEntries (c_rob s) t - length (threadGroups (c_rob s) t)"
proof -
  let ?c = "c_robCfg cfg" and ?m = "maxEntries (c_rob s) t" and ?e = "length (threadGroups (c_rob s) t)"
  have "?e \<le> ?m" and m: "?m = init_maxEntries ?c t"
    using assms(1) by (auto simp: commit_inv_def thread_inv_def)
  have "init_maxEntries ?c t \<le> (\<Sum>u<rob_numThreads ?c. init_maxEntries ?c u)"
    using assms(3) by (intro member_le_sum) auto
  also have "\<dots> \<le> numEntries ?c * instsPerGroup ?c"
    using assms(2) by (auto simp: commit_cfg_ok_def rob_cfg_ok_def intro: order_trans)
  also have "\<dots> < 2 ^ 32"
    using assms(2) by (simp add: commit_cfg_ok_def rob_cfg_ok_def)
  finally have "?m < 2 ^ 32"
    using m by simp
  then have "unat (of_nat ?m :: 32 word) = ?m" "unat (of_nat ?e :: 32 word) = ?e"
    using \<open>?e \<le> ?m\<close> by (auto intro!: of_nat_inverse)
  then show ?thesis
    using \<open>?e \<le> ?m\<close> unfolding rob_numFreeEntries_def getThreadEntries_def
    by (metis unat_sub word_le_nat_alt)
qed

lemma insert_buffered_inv:
  assumes "commit_cfg_ok cfg" and "commit_inv cfg s" and "fixedbuffer s t = is" and "\<not> rob_block t s"
    and "length (threadGroups (c_rob s) t) + length is \<le> maxEntries (c_rob s) t" and "t < rob_numThreads (c_robCfg cfg)"
  shows "\<exists>s'. insert_buffered cfg cycle t is s = Some s' \<and> commit_inv cfg s' \<and> commitStatus s' = commitStatus s \<and>
    trapSquash s' = trapSquash s \<and> tcSquash s' = tcSquash s \<and> toIEW s' = toIEW s"
  using assms
proof (induction "is" arbitrary: s)
  case (Cons i "is")
  let ?c = "c_robCfg cfg" and ?r = "c_rob s"
  have inv: "rob_inv ?c ?r" "thread_inv s t"
    using Cons.prems(2) by (auto simp: commit_inv_def)
  have i: "ri_threadNumber i = t" "\<not> ri_isSquashed i" "doneSquashing ?r t"
    "\<forall>j\<in>set (instList ?r t). ri_seqNum j < ri_seqNum i"
    using inv(2) Cons.prems(3,4)
    by (auto simp: thread_inv_def status_ok_def rob_block_def pending_ok_def sorted_wrt_append)
  obtain gs where gs: "insertInst ?c cycle i ?r = Some (rob_inserted cycle gs i ?r)"
    "rob_inv ?c (rob_inserted cycle gs i ?r)" "length gs \<le> Suc (length (threadGroups ?r t))"
    using insertInst_inv [OF _ inv(1) i(1) [symmetric] Cons.prems(6) i(3,4,2) rob_total_bound [OF Cons.prems(2,1)], of cycle]
      Cons.prems(1) by (auto simp: commit_cfg_ok_def)
  let ?s' = "s\<lparr>c_rob := rob_inserted cycle gs i ?r, youngestSeqNum := (youngestSeqNum s)(t := ri_seqNum i),
    fixedbuffer := (fixedbuffer s)(t := is), changedROBNumEntries := (changedROBNumEntries s)(t := True)\<rparr>"
  have "thread_inv ?s' u" for u
  proof (cases "u = t")
    case True
    then show ?thesis
      using inv(2) Cons.prems(3,5) gs(3)
      by (auto simp: thread_inv_def status_ok_def pending_ok_def left_insts_def ready_ok_def rob_inserted_def i(1) Let_def)
  next
    case False
    then show ?thesis
      using Cons.prems(2)
      by (auto simp: commit_inv_def thread_inv_def status_ok_def left_insts_def rob_inserted_def i(1) Let_def)
  qed
  then have "commit_inv cfg ?s'"
    using Cons.prems(2,6) gs(2) by (auto simp: commit_inv_def rob_inserted_def Let_def)
  from Cons.IH [OF Cons.prems(1) this] show ?case
    using Cons.prems(4-6) gs i by (auto simp: rob_block_def getThreadEntries_def rob_inserted_def Let_def)
qed auto

lemma moveInstsToBuffer_inv:
  assumes "commit_cfg_ok cfg" and "commit_inv cfg s" and "renamed_ok cfg (fromRename s) s"
  shows "\<exists>s'. moveInstsToBuffer cfg cycle s = Some s' \<and> commit_inv cfg s' \<and> (\<forall>u. quiet s u \<longrightarrow> quiet s' u) \<and>
    toIEW s' = toIEW s"
proof -
  obtain b where b: "receive_renamed s = Some (s\<lparr>fixedbuffer := b\<rparr>)" "commit_inv cfg (s\<lparr>fixedbuffer := b\<rparr>)"
    using receive_renamed_inv [OF assms(2,3)] by blast
  let ?s1 = "s\<lparr>fixedbuffer := b\<rparr>"
  obtain r s2 where p: "pick_thread [0..<rob_numThreads (c_robCfg cfg)] None ?s1 = (r, s2)"
    by fastforce
  then obtain k where k: "s2 = ?s1\<lparr>blockIEW := k\<rparr>"
    and t: "\<And>t. r = Some t \<Longrightarrow> t < rob_numThreads (c_robCfg cfg) \<and> \<not> thread_block t ?s1"
    using pick_thread_ok by fastforce
  have inv: "commit_inv cfg s2"
    using b(2) unfolding k commit_inv_def thread_inv_def status_ok_def by auto
  show ?thesis
  proof (cases r)
    case None
    then show ?thesis
      using b(1) p inv k by (auto simp: moveInstsToBuffer_def quiet_def)
  next
    case (Some t)
    have "\<not> rob_block t s2" "length (threadGroups (c_rob s2) t) + length (fixedbuffer s2 t) \<le> maxEntries (c_rob s2) t"
    proof -
      have "length (threadGroups (c_rob s2) t) \<le> maxEntries (c_rob s2) t"
        using inv by (auto simp: commit_inv_def thread_inv_def)
      then show "\<not> rob_block t s2"
        "length (threadGroups (c_rob s2) t) + length (fixedbuffer s2 t) \<le> maxEntries (c_rob s2) t"
        using t [OF Some] numFreeEntries_exact [OF b(2) assms(1), of t] k
        by (auto simp: thread_block_def rob_block_def)
    qed
    then obtain s' where "insert_buffered cfg cycle t (fixedbuffer s2 t) s2 = Some s'" "commit_inv cfg s'"
      "commitStatus s' = commitStatus s2" "trapSquash s' = trapSquash s2" "tcSquash s' = tcSquash s2" "toIEW s' = toIEW s2"
      using insert_buffered_inv [OF assms(1) inv refl, of t cycle] t [OF Some] by blast
    then show ?thesis
      using Some b(1) p k by (auto simp: moveInstsToBuffer_def quiet_def)
  qed
qed

section \<open>Committing\<close>

lemma group_ready_ok: "n \<le> length is \<Longrightarrow> \<exists>b. group_ready first n is = Some b"
  by (induction first n "is" rule: group_ready.induct) auto

lemma isHeadGroupReady_ok:
  assumes "rob_inv cfg r"
  shows "\<exists>b. isHeadGroupReady t r = Some b \<and>
    (b \<longrightarrow> (\<exists>i is. instList r t = i # is \<and> ri_canCommit i \<and> readHeadInst t r = Some (Some i)))"
proof (cases "threadGroups r t")
  case (Cons g gs)
  have ok: "groups_ok cfg (threadGroups r t) (length (instList r t))" "insts_ok t (instList r t)"
    using assms by (auto simp: rob_inv_def)
  then have g: "0 < g" "g \<le> length (instList r t)"
    using Cons by (auto simp: groups_ok_def)
  then obtain i "is" n where l: "instList r t = i # is" "g = Suc n"
    by (cases "instList r t"; cases g) auto
  obtain b where b: "group_ready True g (instList r t) = Some b"
    using group_ready_ok [OF g(2)] by blast
  then show ?thesis
    using Cons l ok(2) by (auto simp: isHeadGroupReady_def readHeadInst_def insts_ok_def split: if_splits)
qed (auto simp: isHeadGroupReady_def)

lemma roundRobin_ok:
  assumes "commit_inv cfg s"
  shows "\<exists>r p. roundRobin ts s = Some (r, s\<lparr>priority_list := p\<rparr>) \<and> (\<forall>t. r = Some t \<longrightarrow> can_commit_thread t s)"
proof (induction ts)
  case Nil
  show ?case
    by (auto intro: exI [of _ "priority_list s"])
next
  case (Cons t ts)
  obtain b where "isHeadGroupReady t (c_rob s) = Some b"
    using isHeadGroupReady_ok [of "c_robCfg cfg" "c_rob s" t] assms by (auto simp: commit_inv_def)
  with Cons show ?case
    by (cases b) auto
qed

lemma oldestReady_ok:
  assumes "commit_inv cfg s"
  shows "(\<forall>u q. best = Some (u, q) \<longrightarrow> can_commit_thread u s) \<Longrightarrow>
    \<exists>r. oldestReady ts best s = Some r \<and> (\<forall>t. r = Some t \<longrightarrow> can_commit_thread t s)"
proof (induction ts arbitrary: best)
  case (Cons t ts)
  obtain b where b: "isHeadGroupReady t (c_rob s) = Some b"
    "b \<longrightarrow> (\<exists>i. readHeadInst t (c_rob s) = Some (Some i))"
    using isHeadGroupReady_ok [of "c_robCfg cfg" "c_rob s" t] assms by (auto simp: commit_inv_def)
  show ?case
  proof (cases "\<not> rob_isEmpty t (c_rob s) \<and> can_commit_thread t s \<and> b")
    case True
    then obtain i where i: "readHeadInst t (c_rob s) = Some (Some i)"
      using b by blast
    let ?best = "case best of None \<Rightarrow> Some (t, ri_seqNum i mod 2 ^ 32)
      | Some (u, q) \<Rightarrow> if ri_seqNum i < q then Some (t, ri_seqNum i mod 2 ^ 32) else best"
    have "\<forall>u q. ?best = Some (u, q) \<longrightarrow> can_commit_thread u s"
      using True Cons.prems by (auto split: option.splits)
    from Cons.IH [OF this] show ?thesis
      using True b i by simp
  next
    case False
    then show ?thesis
      using b Cons by (cases b) auto
  qed
qed auto

lemma getCommittingThread_ok:
  assumes "commit_inv cfg s" and "activeThreads cfg \<noteq> []"
  shows "\<exists>r p. getCommittingThread cfg s = Some (r, s\<lparr>priority_list := p\<rparr>) \<and>
    (\<forall>t. r = Some t \<longrightarrow> can_commit_thread t s)"
proof (cases "1 < rob_numThreads (c_robCfg cfg) \<and> commitPolicy cfg = RoundRobin")
  case True
  then show ?thesis
    using roundRobin_ok [OF assms(1)] by (auto simp: getCommittingThread_def)
next
  case False
  have id: "s = s\<lparr>priority_list := priority_list s\<rparr>"
    by simp
  obtain r where "oldestReady (activeThreads cfg) None s = Some r" "\<forall>t. r = Some t \<longrightarrow> can_commit_thread t s"
    using oldestReady_ok [OF assms(1), of None "activeThreads cfg"] by auto
  then show ?thesis
    using False assms(2) id
    by (cases "commitPolicy cfg") (auto simp: getCommittingThread_def neq_Nil_conv intro!: exI [of _ "priority_list s"])
qed

lemma commit_inv_set_inst:
  assumes "commit_inv cfg s"
    and f: "\<And>i. i \<in> set (instList (c_rob s) t) \<Longrightarrow> ri_seqNum i = q \<Longrightarrow>
      ri_seqNum (f i) = q \<and> ri_threadNumber (f i) = t \<and> ri_isInROB (f i) \<and> \<not> ri_isSquashed (f i) \<and>
      \<not> ri_isCommitted (f i) \<and> ready_ok (f i)"
  shows "commit_inv cfg (s\<lparr>c_rob := set_inst t f q (c_rob s)\<rparr>)"
proof -
  let ?r = "c_rob s" and ?g = "\<lambda>i. if ri_seqNum i = q then f i else i"
  let ?is = "instList ?r t"
  have seq: "map ri_seqNum (map ?g ?is) = map ri_seqNum ?is"
    using f by auto
  then have seqs: "ri_seqNum ` set (map ?g ?is) = ri_seqNum ` set ?is"
    by (metis list.set_map)
  have inv: "rob_inv (c_robCfg cfg) ?r" "thread_inv s t"
    using assms(1) by (auto simp: commit_inv_def)
  have "sorted_wrt (<) (map ri_seqNum (map ?g ?is))"
    unfolding seq using inv(1) by (simp add: rob_inv_def insts_ok_def)
  moreover have "\<forall>i\<in>set (map ?g ?is). ri_threadNumber i = t \<and> ri_isInROB i \<and> \<not> ri_isSquashed i"
    using inv(1) f by (auto simp: rob_inv_def insts_ok_def)
  ultimately have "insts_ok t (map ?g ?is)"
    unfolding insts_ok_def by blast
  moreover have "squash_ok (set_inst t f q ?r) u" for u
  proof (cases "u = t")
    case True
    have "?is \<noteq> [] \<Longrightarrow> ri_seqNum (last (map ?g ?is)) = ri_seqNum (last ?is)"
      using f [of "last ?is"] by (simp add: last_map)
    then show ?thesis
      using True inv(1) by (auto simp: rob_inv_def squash_ok_def set_inst_def)
  qed (use inv(1) in \<open>simp add: rob_inv_def squash_ok_def set_inst_def\<close>)
  moreover have "rob_total (c_robCfg cfg) (set_inst t f q ?r) = rob_total (c_robCfg cfg) ?r"
    unfolding rob_total_def by (rule sum.cong) (auto simp: set_inst_def)
  ultimately have "rob_inv (c_robCfg cfg) (set_inst t f q ?r)"
    using inv(1) by (auto simp: rob_inv_def set_inst_def)
  moreover have "thread_inv (s\<lparr>c_rob := set_inst t f q ?r\<rparr>) u" for u
  proof (cases "u = t")
    case True
    have p: "pending_ok (lastCommitedSeqNum s t) (left_insts t ?r) (?is @ fixedbuffer s t)"
      using inv(2) by (simp add: thread_inv_def)
    then have "\<forall>i\<in>set (map ?g ?is). lastCommitedSeqNum s t < ri_seqNum i \<and> \<not> ri_isCommitted i \<and> ready_ok i"
      using f by (auto simp: pending_ok_def)
    then have "pending_ok (lastCommitedSeqNum s t) (left_insts t ?r) (map ?g ?is @ fixedbuffer s t)"
      using p seqs unfolding pending_ok_def map_append seq set_append image_Un ball_Un by simp
    then show ?thesis
      using True inv(2) by (auto simp: thread_inv_def status_ok_def set_inst_def left_insts_def)
  next
    case False
    then show ?thesis
      using assms(1) by (auto simp: commit_inv_def thread_inv_def status_ok_def set_inst_def left_insts_def)
  qed
  ultimately show ?thesis
    using assms(1) by (simp add: commit_inv_def set_inst_def)
qed

definition no_request :: "commit_state \<Rightarrow> bool" where
  "no_request s \<longleftrightarrow> (\<forall>t. trapSquash s t \<longrightarrow> instList (c_rob s) t = []) \<and> (\<forall>t. tcSquash s t \<longrightarrow> instList (c_rob s) t = [])"

lemma retire_one_inv:
  assumes "commit_inv cfg s" and l: "instList (c_rob s) t = i # is" and "ri_canCommit i" and "ri_isExecuted i"
    and "\<not> ri_faulted i" and "can_commit_thread t s" and "\<not> tcSquash s t"
  shows "\<exists>r s'. retireHead ts t (c_rob s) = Some r \<and> after_commit i (s\<lparr>c_rob := r, committedStores := cs\<rparr>) = Some s' \<and>
    commit_inv cfg s' \<and>
    trapSquash s' = trapSquash s \<and> tcSquash s' = tcSquash s \<and> instList (c_rob s') = (instList (c_rob s))(t := is)"
proof -
  let ?r = "c_rob s" and ?q = "ri_seqNum i" and ?i = "i\<lparr>ri_isInROB := False, ri_isCommitted := True\<rparr>"
  have inv: "rob_inv (c_robCfg cfg) ?r" "thread_inv s t"
    using assms(1) by (auto simp: commit_inv_def)
  have st: "doneSquashing ?r t" "squashAfterInst s t = None" "\<not> trapInFlight s t" "\<not> trapSquash s t"
    using inv(2) assms(6) by (auto simp: thread_inv_def status_ok_def can_commit_thread_def)
  have t: "ri_threadNumber i = t"
    using inv(1) l by (metis insts_ok_def list.set_intros(1) rob_inv_def)
  obtain r where r: "retireHead ts t ?r = Some r" "rob_inv (c_robCfg cfg) r" "instList r = (instList ?r)(t := is)"
    "removedInsts r = removedInsts ?r @ [?i]" "maxEntries r = maxEntries ?r" "doneSquashing r = doneSquashing ?r"
    "\<And>u. length (threadGroups r u) \<le> length (threadGroups ?r u)"
    using retireHead_inv [OF inv(1) l assms(3) st(1), of ts] by blast
  let ?s1 = "s\<lparr>c_rob := r, committedStores := cs, changedROBNumEntries := (changedROBNumEntries s)(t := True),
      toIEW := (toIEW s)\<lparr>doneSeqNum := (doneSeqNum (toIEW s))(t := ?q)\<rparr>,
      lastCommitedSeqNum := (lastCommitedSeqNum s)(t := ?q)\<rparr>"
  let ?s' = "if ri_isSquashAfter i then ?s1\<lparr>commitStatus := (commitStatus ?s1)(t := SquashAfterPending),
      squashAfterInst := (squashAfterInst ?s1)(t := Some ?q)\<rparr> else ?s1"
  have out: "left_insts u r = left_insts u ?r @ (if u = t then [?i] else [])" for u
    using t by (simp add: left_insts_def r(4))
  have pend: "pending_ok (lastCommitedSeqNum s t) (left_insts t ?r) (i # is @ fixedbuffer s t)"
    "out_ok (lastCommitedSeqNum s t) (left_insts t ?r)"
    using inv(2) l by (auto simp: thread_inv_def)
  have "pending_ok ?q (left_insts t r) (is @ fixedbuffer s t) \<and> out_ok ?q (left_insts t r)"
    using pend assms(4,5) out [of t]
    by (auto simp: pending_ok_def out_ok_def sorted_wrt_append disjoint_iff intro: le_less_trans less_imp_le)
  then have "thread_inv ?s' u" for u
  proof (cases "u = t")
    case True
    then show ?thesis
      using inv(2) r(3,5-7) st assms(7) \<open>pending_ok ?q _ _ \<and> _\<close>
      by (auto simp: thread_inv_def status_ok_def intro: order_trans)
  next
    case False
    have "thread_inv s u"
      using assms(1) by (simp add: commit_inv_def)
    with False show ?thesis
      using r(3,5-7) out [of u] by (auto simp: thread_inv_def status_ok_def intro: order_trans)
  qed
  then have "commit_inv cfg ?s'"
    using assms(1) r(2,5) by (auto simp: commit_inv_def)
  moreover have "after_commit i (s\<lparr>c_rob := r, committedStores := cs\<rparr>) = Some ?s'"
    using t st(2) by (simp add: after_commit_def squashAfterHead_def Let_def)
  ultimately show ?thesis
    using r(1,3) by auto
qed

lemma commitHead_stop_inv:
  assumes "commit_inv cfg s" and l: "instList (c_rob s) t = i # is" and "ri_canCommit i"
    and "\<not> ri_isExecuted i \<or> ri_faulted i" and "can_commit_thread t s" and "\<not> tcSquash s t"
  shows "\<exists>s'. commitHead cfg fl i n s = Some (False, s') \<and> commit_inv cfg s'"
proof -
  have inv: "rob_inv (c_robCfg cfg) (c_rob s)" "thread_inv s t"
    using assms(1) by (auto simp: commit_inv_def)
  have t: "ri_threadNumber i = t"
    using inv(1) l by (metis insts_ok_def list.set_intros(1) rob_inv_def)
  have rd: "ready_ok i"
    using inv(2) l by (auto simp: thread_inv_def pending_ok_def)
  show ?thesis
  proof (cases "ri_isExecuted i")
    case False
    let ?s' = "s\<lparr>c_rob := set_inst t (\<lambda>i. i\<lparr>ri_canCommit := False\<rparr>) (ri_seqNum i) (c_rob s)\<rparr>"
    have "commit_inv cfg ?s'"
    proof (rule commit_inv_set_inst [OF assms(1)])
      fix j assume "j \<in> set (instList (c_rob s) t)" "ri_seqNum j = ri_seqNum i"
      moreover have "insts_ok t (instList (c_rob s) t)"
        "pending_ok (lastCommitedSeqNum s t) (left_insts t (c_rob s)) (instList (c_rob s) t @ fixedbuffer s t)"
        using inv by (auto simp: rob_inv_def thread_inv_def)
      ultimately show "ri_seqNum (j\<lparr>ri_canCommit := False\<rparr>) = ri_seqNum i \<and> ri_threadNumber (j\<lparr>ri_canCommit := False\<rparr>) = t \<and>
        ri_isInROB (j\<lparr>ri_canCommit := False\<rparr>) \<and> \<not> ri_isSquashed (j\<lparr>ri_canCommit := False\<rparr>) \<and>
        \<not> ri_isCommitted (j\<lparr>ri_canCommit := False\<rparr>) \<and> ready_ok (j\<lparr>ri_canCommit := False\<rparr>)"
        by (auto simp: insts_ok_def pending_ok_def ready_ok_def)
    qed
    then have "commit_inv cfg (s\<lparr>toIEW := (toIEW s)\<lparr>nonSpecSeqNum := k\<rparr>,
        c_rob := set_inst t (\<lambda>i. i\<lparr>ri_canCommit := False\<rparr>) (ri_seqNum i) (c_rob s)\<rparr>)" for k
      by (rule commit_inv_cong [rotated -1]) simp_all
    then show ?thesis
      using False t rd assms(1,3) by (auto simp: commitHead_def ready_ok_def Let_def)
  next
    case True
    let ?s' = "s\<lparr>commitStatus := (commitStatus s)(t := TrapPending), trapInFlight := (trapInFlight s)(t := True)\<rparr>"
    have "thread_inv ?s' u" for u
      using assms(1,5,6)
      by (cases "u = t") (auto simp: commit_inv_def thread_inv_def status_ok_def can_commit_thread_def)
    then have "commit_inv cfg ?s'"
      using assms(1) by (auto simp: commit_inv_def)
    then show ?thesis
      using True t assms(1,4) by (auto simp: commitHead_def Let_def)
  qed
qed

lemma commit_loop_inv:
  assumes "activeThreads cfg \<noteq> []"
  shows "commit_inv cfg s \<Longrightarrow> no_request s \<Longrightarrow>
    \<exists>s'. commit_loop cfg fl w n s = Some s' \<and> commit_inv cfg s'"
proof (induction "w - n" arbitrary: n s rule: less_induct)
  case less
  show ?case
  proof (cases "n < w")
    case False
    then show ?thesis
      using less.prems by (subst commit_loop.simps) simp
  next
    case True
    obtain r p where rp: "getCommittingThread cfg s = Some (r, s\<lparr>priority_list := p\<rparr>)"
      "\<forall>t. r = Some t \<longrightarrow> can_commit_thread t s"
      using getCommittingThread_ok [OF less.prems(1) assms] by blast
    let ?s1 = "s\<lparr>priority_list := p\<rparr>"
    have s1: "commit_inv cfg ?s1" "no_request ?s1" "\<And>t. can_commit_thread t ?s1 = can_commit_thread t s"
      using less.prems by (auto simp: commit_inv_def thread_inv_def status_ok_def no_request_def can_commit_thread_def)
    show ?thesis
    proof (cases r)
      case None
      then show ?thesis
        using True rp s1 by (subst commit_loop.simps) simp
    next
      case (Some t)
      obtain b where b: "isHeadGroupReady t (c_rob ?s1) = Some b"
        "b \<longrightarrow> (\<exists>i is. instList (c_rob ?s1) t = i # is \<and> ri_canCommit i \<and> readHeadInst t (c_rob ?s1) = Some (Some i))"
        using isHeadGroupReady_ok [of "c_robCfg cfg" "c_rob ?s1" t] s1(1) unfolding commit_inv_def by blast
      show ?thesis
      proof (cases b)
        case False
        then show ?thesis
          using True rp Some b s1 by (subst commit_loop.simps) simp
      next
        case ready: True
        then obtain i "is" where i: "instList (c_rob ?s1) t = i # is" "ri_canCommit i"
          "readHeadInst t (c_rob ?s1) = Some (Some i)"
          using b(2) by blast
        have "insts_ok t (i # is)"
          using s1(1) i(1) by (metis commit_inv_def rob_inv_def)
        then have ti: "ri_threadNumber i = t" "\<not> ri_isSquashed i"
          by (auto simp: insts_ok_def)
        have ct: "can_commit_thread t ?s1" "\<not> tcSquash ?s1 t"
          using rp(2) Some s1(2,3) i(1) by (auto simp: no_request_def)
        note step = True rp(1) Some b(1) ready i(3) ti
        show ?thesis
        proof (cases "\<not> ri_isExecuted i \<or> ri_faulted i")
          case True
          then show ?thesis
            using commitHead_stop_inv [OF s1(1) i(1,2) True ct, of fl n] step by (subst commit_loop.simps) auto
        next
          case False
          then obtain r s' where c: "retireHead (activeThreads cfg) t (c_rob ?s1) = Some r"
            "after_commit i (?s1\<lparr>c_rob := r, committedStores :=
              (if ri_isStore i \<or> ri_isAtomic i then (committedStores s)(t := True) else committedStores s)\<rparr>) = Some s'"
            "commit_inv cfg s'" "trapSquash s' = trapSquash ?s1"
            "tcSquash s' = tcSquash ?s1" "instList (c_rob s') = (instList (c_rob ?s1))(t := is)"
            using retire_one_inv [OF s1(1) i(1,2) _ _ ct, of "activeThreads cfg"] by blast
          then have "no_request s'"
            using s1(2) i(1) by (auto simp: no_request_def)
          from less.hyps [OF _ c(3) this, of "n + 1"] True show ?thesis
            using step c False by (subst commit_loop.simps) (auto simp: commitHead_def Let_def)
        qed
      qed
    qed
  qed
qed

lemma last_done_ok:
  assumes "n \<le> length is" and "sorted_wrt (<) (map ri_seqNum is)" and "\<forall>i\<in>set is. q < ri_seqNum i"
  shows "\<exists>q'. last_done q n is = Some q' \<and> (\<forall>i\<in>set is. ri_seqNum i \<le> q' \<longrightarrow> inst_done i)"
  using assms
proof (induction q n "is" rule: last_done.induct)
  case (1 q "is")
  then show ?case
    by auto
next
  case (3 q n i "is")
  show ?case
  proof (cases "inst_done i")
    case True
    then show ?thesis
      using 3 by (auto simp: inst_done_def)
  next
    case False
    then show ?thesis
      using 3(4) by (auto simp: inst_done_def)
  qed
qed simp

lemma report_head_ok:
  assumes "commit_inv cfg s"
  shows "\<exists>q h. getHeadGroupLastDoneSeq t (c_rob s) = Some q \<and> readHeadInst t (c_rob s) = Some h \<and>
    (\<forall>i\<in>set (instList (c_rob s) t). ri_seqNum i \<le> q \<longrightarrow> inst_done i)"
proof -
  let ?is = "instList (c_rob s) t"
  have "groups_ok (c_robCfg cfg) (threadGroups (c_rob s) t) (length ?is)" and "insts_ok t ?is"
    using assms by (simp_all add: commit_inv_def rob_inv_def)
  moreover have "\<forall>i\<in>set ?is. 0 < ri_seqNum i"
    using seq_after_committed [OF assms] by fastforce
  ultimately show ?thesis
    using last_done_ok [of "hd (threadGroups (c_rob s) t)" ?is 0]
    by (cases "threadGroups (c_rob s) t"; cases ?is)
      (auto simp: getHeadGroupLastDoneSeq_def readHeadInst_def insts_ok_def groups_ok_def)
qed

lemma report_heads_ok:
  "commit_inv cfg s \<Longrightarrow> \<exists>s'. report_heads ts s = Some s' \<and> commit_inv cfg s' \<and>
     (\<forall>t. t \<in> set ts \<or> released_ok s t \<longrightarrow> released_ok s' t)"
proof (induction ts arbitrary: s)
  case (Cons t ts)
  obtain q h where q: "getHeadGroupLastDoneSeq t (c_rob s) = Some q" "readHeadInst t (c_rob s) = Some h"
    "\<forall>i\<in>set (instList (c_rob s) t). ri_seqNum i \<le> q \<longrightarrow> inst_done i"
    using report_head_ok [OF Cons.prems] by blast
  let ?s1 = "s\<lparr>toIEW := (toIEW s)
    \<lparr>doneMemSeqNum := (doneMemSeqNum (toIEW s))(t := max (doneSeqNum (toIEW s) t) q),
     robheadSeqNum := (robheadSeqNum (toIEW s))(t := (case h of None \<Rightarrow> 0 | Some i \<Rightarrow> ri_seqNum i))\<rparr>\<rparr>"
  have "commit_inv cfg ?s1"
    by (rule commit_inv_cong [OF _ _ _ _ _ _ _ _ _ _ _ Cons.prems]) simp_all
  moreover have "\<not> out_squash (toIEW s) t \<and> \<not> robSquashing (toIEW s) t \<longrightarrow> doneSeqNum (toIEW s) t \<le> lastCommitedSeqNum s t"
    using Cons.prems by (simp add: commit_inv_def thread_inv_def status_ok_def)
  then have "released_ok ?s1 t"
    using q(3) seq_after_committed [OF Cons.prems, of _ t] by (fastforce simp: released_ok_def)
  moreover have "released_ok s u \<Longrightarrow> u \<noteq> t \<Longrightarrow> released_ok ?s1 u" for u
    by (simp add: released_ok_def)
  ultimately show ?case
    using Cons.IH [of ?s1] q(1,2) by (auto simp: Let_def)
qed auto

lemma report_activity_ok:
  "commit_inv cfg s \<Longrightarrow>
   commit_inv cfg (report_activity st ts s) \<and> (\<forall>t. released_ok (report_activity st ts s) t = released_ok s t)"
proof (induction ts arbitrary: s)
  case (Cons t ts)
  define s1 where "s1 = (if changedROBNumEntries s t
    then s\<lparr>toIEW := (toIEW s)\<lparr>usedROB := (usedROB (toIEW s))(t := True)\<rparr>,
           changedROBNumEntries := (changedROBNumEntries s)(t := False),
           checkEmptyROB := (if rob_isEmpty t (c_rob s) then (checkEmptyROB s)(t := True) else checkEmptyROB s)\<rparr>
    else s)"
  define s2 where "s2 = (if checkEmptyROB s1 t \<and> rob_isEmpty t (c_rob s1) \<and> \<not> st t \<and> \<not> committedStores s1 t \<and>
        commitStatus s1 t \<noteq> SquashAfterPending
     then s1\<lparr>checkEmptyROB := (checkEmptyROB s1)(t := False),
             toIEW := (toIEW s1)\<lparr>usedROB := (usedROB (toIEW s1))(t := True),
               emptyROB := (emptyROB (toIEW s1))(t := True)\<rparr>\<rparr>
     else s1)"
  have "commit_inv cfg s2"
    by (rule commit_inv_cong [OF _ _ _ _ _ _ _ _ _ _ _ Cons.prems]) (simp_all add: s1_def s2_def)
  moreover have "released_ok s2 u = released_ok s u" for u
    by (simp add: released_ok_def s1_def s2_def)
  moreover have "report_activity st (t # ts) s = report_activity st ts s2"
    by (simp only: report_activity.simps Let_def s1_def s2_def)
  ultimately show ?case
    using Cons.IH [of s2] by simp
qed simp

lemma commitInsts_inv:
  assumes "activeThreads cfg \<noteq> []" and "commit_inv cfg s" and "no_request s"
  shows "\<exists>s'. commitInsts cfg fl s = Some s' \<and> commit_inv cfg s' \<and> (\<forall>t. released_ok s' t)"
proof -
  obtain s1 where s1: "commit_loop cfg fl (countInstsOfGroups (c_robCfg cfg) (commitWidth cfg) (c_rob s)) 0 s = Some s1"
    "commit_inv cfg s1"
    using commit_loop_inv [OF assms] by blast
  obtain s' where s': "report_heads [0..<rob_numThreads (c_robCfg cfg)] s1 = Some s'" "commit_inv cfg s'"
    "\<And>t. t < rob_numThreads (c_robCfg cfg) \<Longrightarrow> released_ok s' t"
    using report_heads_ok [OF s1(2), of "[0..<rob_numThreads (c_robCfg cfg)]"] by auto
  have "released_ok s' t" if "\<not> t < rob_numThreads (c_robCfg cfg)" for t
    using s'(2) that by (simp add: commit_inv_def rob_inv_def released_ok_def)
  then show ?thesis
    using s1(1) s' by (auto simp: commitInsts_def)
qed

section \<open>Runs\<close>

definition may_complete :: "rob_inst \<Rightarrow> bool" where
  "may_complete i \<longleftrightarrow> ready_ok (i\<lparr>ri_canCommit := True\<rparr>)"

definition completed_ok :: "(thread_id \<times> seq_num \<times> bool) list \<Rightarrow> commit_state \<Rightarrow> bool" where
  "completed_ok cs s \<longleftrightarrow>
     (\<forall>(t, q, squashed)\<in>set cs. \<not> squashed \<longrightarrow>
        q \<in> ri_seqNum ` set (instList (c_rob s) 0) \<and>
        (\<forall>i\<in>set (instList (c_rob s) t). ri_seqNum i = q \<longrightarrow> may_complete i))"

lemma completed_ok_iff:
  "completed_ok cs s \<longleftrightarrow>
     (\<forall>t q. (t, q, False) \<in> set cs \<longrightarrow>
        q \<in> ri_seqNum ` set (instList (c_rob s) 0) \<and>
        (\<forall>i\<in>set (instList (c_rob s) t). ri_seqNum i = q \<longrightarrow> may_complete i))"
proof -
  have "(\<forall>(t, q, sq)\<in>S. \<not> sq \<longrightarrow> P t q) \<longleftrightarrow> (\<forall>t q. (t, q, False) \<in> S \<longrightarrow> P t q)"
    for S :: "(thread_id \<times> seq_num \<times> bool) set" and P
    by auto
  then show ?thesis
    unfolding completed_ok_def .
qed

lemma set_inst_keeps:
  assumes "commit_inv cfg s" and "\<And>i. i \<in> set (instList (c_rob s) t) \<Longrightarrow> ri_seqNum i = q \<Longrightarrow> ready_ok (f i)"
    and "\<And>i. ri_seqNum (f i) = ri_seqNum i \<and> ri_threadNumber (f i) = ri_threadNumber i \<and> ri_isInROB (f i) = ri_isInROB i \<and>
      ri_isSquashed (f i) = ri_isSquashed i \<and> ri_isCommitted (f i) = ri_isCommitted i"
  shows "commit_inv cfg (s\<lparr>c_rob := set_inst t f q (c_rob s)\<rparr>)"
proof (rule commit_inv_set_inst [OF assms(1)])
  fix i assume i: "i \<in> set (instList (c_rob s) t)" "ri_seqNum i = q"
  moreover have "insts_ok t (instList (c_rob s) t)"
    "pending_ok (lastCommitedSeqNum s t) (left_insts t (c_rob s)) (instList (c_rob s) t @ fixedbuffer s t)"
    using assms(1) by (auto simp: commit_inv_def rob_inv_def thread_inv_def)
  ultimately show "ri_seqNum (f i) = q \<and> ri_threadNumber (f i) = t \<and> ri_isInROB (f i) \<and> \<not> ri_isSquashed (f i) \<and>
      \<not> ri_isCommitted (f i) \<and> ready_ok (f i)"
    using assms(2) [OF i] assms(3) by (auto simp: insts_ok_def pending_ok_def)
qed

lemma findInst_mem: "q \<in> ri_seqNum ` set xs \<Longrightarrow> findInst q xs \<noteq> None"
  by (auto simp: findInst_def find_None_iff)

lemma markCompletedInsts_inv:
  "commit_inv cfg s \<Longrightarrow> completed_ok cs s \<Longrightarrow> \<exists>s'. markCompletedInsts cs s = Some s' \<and> commit_inv cfg s' \<and>
     (\<forall>t. released_ok s t \<longrightarrow> released_ok s' t)"
proof (induction cs s rule: markCompletedInsts.induct)
  case (2 t q squashed cs s)
  show ?case
  proof (cases squashed)
    case True
    then show ?thesis
      using 2 by (auto simp: completed_ok_def)
  next
    case False
    let ?f = "\<lambda>i. i\<lparr>ri_canCommit := True\<rparr>"
    let ?s1 = "s\<lparr>c_rob := set_inst t ?f q (c_rob s)\<rparr>"
    have q: "q \<in> ri_seqNum ` set (instList (c_rob s) 0)"
      "\<forall>i\<in>set (instList (c_rob s) t). ri_seqNum i = q \<longrightarrow> may_complete i"
      using 2(4) False by (auto simp: completed_ok_def)
    have inv: "commit_inv cfg ?s1"
      by (rule set_inst_keeps [OF 2(3)]) (use q(2) in \<open>auto simp: may_complete_def\<close>)
    have seqs: "ri_seqNum ` set (instList (c_rob ?s1) u) = ri_seqNum ` set (instList (c_rob s) u)" for u
    proof -
      have "map ri_seqNum (instList (c_rob ?s1) u) = map ri_seqNum (instList (c_rob s) u)"
        by (simp add: set_inst_def)
      then show ?thesis
        by (metis list.set_map)
    qed
    have mc: "\<forall>i\<in>set (instList (c_rob s) u). ri_seqNum i = k \<longrightarrow> may_complete i \<Longrightarrow>
        \<forall>i\<in>set (instList (c_rob ?s1) u). ri_seqNum i = k \<longrightarrow> may_complete i" for u k
      by (auto simp: set_inst_def may_complete_def)
    have "k \<in> ri_seqNum ` set (instList (c_rob ?s1) 0) \<and>
        (\<forall>i\<in>set (instList (c_rob ?s1) u). ri_seqNum i = k \<longrightarrow> may_complete i)" if "(u, k, False) \<in> set cs" for u k
    proof -
      have "k \<in> ri_seqNum ` set (instList (c_rob s) 0)"
        "\<forall>i\<in>set (instList (c_rob s) u). ri_seqNum i = k \<longrightarrow> may_complete i"
        using 2(4) that by (auto simp: completed_ok_iff)
      then show ?thesis
        using mc seqs by blast
    qed
    then have "completed_ok cs ?s1"
      unfolding completed_ok_iff by blast
    moreover have "findInst q (instList (c_rob ?s1) 0) \<noteq> None"
      using findInst_mem [of q] q(1) seqs [of 0] by metis
    moreover have "released_ok s u \<Longrightarrow> released_ok ?s1 u" for u
      by (auto simp: released_ok_def set_inst_def inst_done_def)
    ultimately show ?thesis
      using 2(2) [OF False refl _ inv] False by auto
  qed
qed simp

definition legal_in :: "commit_cfg \<Rightarrow> commit_in \<Rightarrow> commit_state \<Rightarrow> bool" where
  "legal_in cfg inp s \<longleftrightarrow>
     renamed_ok cfg (in_rename inp) s \<and> (\<forall>t\<in>set (activeThreads cfg). in_squash inp t \<noteq> Some (0, True)) \<and>
     (case commit_front cfg inp s of None \<Rightarrow> True | Some s1 \<Rightarrow> completed_ok (in_completed inp) s1)"

lemma commit_front_inv:
  assumes "commit_cfg_ok cfg" and "commit_inv cfg s" and "renamed_ok cfg (in_rename inp) s"
  shows "\<exists>s'. commit_front cfg inp s = Some s' \<and> commit_inv cfg s' \<and> (\<forall>t. released_ok s' t)"
proof -
  let ?s0 = "s\<lparr>fromRename := in_rename inp, toIEW := no_out\<rparr>" and ?ts = "activeThreads cfg"
  have ts: "set ?ts = {..<rob_numThreads (c_robCfg cfg)}" "?ts \<noteq> []" "rob_cfg_ok (c_robCfg cfg)"
    using assms(1) by (auto simp: commit_cfg_ok_def)
  have s0: "commit_inv cfg ?s0" "renamed_ok cfg (in_rename inp) ?s0"
    using assms(2,3) by (auto simp: commit_inv_def thread_inv_def status_ok_def renamed_ok_def no_out_def)
  obtain s1 where s1: "squash_progress cfg (in_exiting inp) ?ts ?s0 = Some s1" "commit_inv cfg s1"
    "fromRename s1 = in_rename inp" "renamed_ok cfg (in_rename inp) s1" "\<And>t. sends_ok s1 t"
    using squash_progress_inv [OF s0(1), of ?ts "in_exiting inp" "in_rename inp"] ts(1) s0(2)
    by (auto simp: sends_ok_def no_out_def)
  obtain s2 where s2: "commit_squashes cfg (in_squash inp) ?ts s1 = Some s2" "commit_inv cfg s2"
    "squash_frame s1 s2" "\<forall>t\<in>set ?ts. quiet s2 t"
    using commit_squashes_inv [OF s1(2) ts(3)] by blast
  have "renamed_ok cfg (fromRename s2) s2"
    using renamed_ok_frame [OF s1(4) s2(3)] s2(3) s1(3) by (auto simp: squash_frame_def)
  then obtain s3 where s3: "moveInstsToBuffer cfg (in_cycle inp) s2 = Some s3" "commit_inv cfg s3"
    "\<forall>u. quiet s2 u \<longrightarrow> quiet s3 u" "toIEW s3 = toIEW s2"
    using moveInstsToBuffer_inv [OF assms(1) s2(2)] by blast
  have "no_request s3"
    using s2(4) s3(2,3) ts(1) unfolding no_request_def quiet_def commit_inv_def rob_inv_def
    by (metis lessThan_iff not_le)
  moreover have "released_ok s3 t" for t
    using sends_released [OF s3(2)] s1(5) s2(3) s3(4) by (auto simp: squash_frame_def sends_ok_def)
  ultimately obtain s4 where "(if num_squashing cfg s2 \<noteq> rob_numThreads (c_robCfg cfg)
      then commitInsts cfg (in_flushed inp) s3 else Some s3) = Some s4" "commit_inv cfg s4" "\<forall>t. released_ok s4 t"
    using s3(2) commitInsts_inv [OF ts(2) s3(2), of "in_flushed inp"]
    by (cases "num_squashing cfg s2 = rob_numThreads (c_robCfg cfg)") auto
  then show ?thesis
    using s1(1) s2(1) s3(1) report_activity_ok [of cfg s4 "in_storesToWB inp" ?ts]
    by (auto simp: commit_front_def commit_commit_def)
qed

lemma commit_tick_inv:
  assumes "commit_cfg_ok cfg" and "commit_inv cfg s" and "legal_in cfg inp s"
  shows "\<exists>s'. commit_tick cfg inp s = Some s' \<and> commit_inv cfg s' \<and> (\<forall>t. released_ok s' t)"
proof -
  obtain s1 where s1: "commit_front cfg inp s = Some s1" "commit_inv cfg s1" "\<forall>t. released_ok s1 t"
    "completed_ok (in_completed inp) s1"
    using commit_front_inv [OF assms(1,2), of inp] assms(3) by (auto simp: legal_in_def)
  then show ?thesis
    using markCompletedInsts_inv [OF s1(2,4)] assms(1) by (auto simp: commit_tick_def commit_cfg_ok_def)
qed

fun legal_commit :: "commit_cfg \<Rightarrow> commit_event \<Rightarrow> commit_state \<Rightarrow> bool" where
  "legal_commit cfg (CTick inp) s \<longleftrightarrow> legal_in cfg inp s"
| "legal_commit cfg (CExecute t q fault) s \<longleftrightarrow> True"
| "legal_commit cfg (CTrap t) s \<longleftrightarrow> trapInFlight s t"
| "legal_commit cfg (CTC t) s \<longleftrightarrow>
     \<not> trapInFlight s t \<and> commitStatus s t \<noteq> TrapPending \<and> commitStatus s t \<noteq> SquashAfterPending"

fun legal_commit_run :: "commit_cfg \<Rightarrow> commit_event list \<Rightarrow> commit_state \<Rightarrow> bool" where
  "legal_commit_run cfg [] s \<longleftrightarrow> True"
| "legal_commit_run cfg (e # es) s \<longleftrightarrow>
     legal_commit cfg e s \<and> (case commit_step cfg e s of None \<Rightarrow> True | Some s1 \<Rightarrow> legal_commit_run cfg es s1)"

lemma commit_event_inv:
  assumes "commit_cfg_ok cfg" and "commit_inv cfg s" and "legal_commit cfg e s"
  shows "\<exists>s'. commit_step cfg e s = Some s' \<and> commit_inv cfg s'"
proof (cases e)
  case (CTick inp)
  then show ?thesis
    using commit_tick_inv [OF assms(1,2), of inp] assms(3) by auto
next
  case (CExecute t q fault)
  have "commit_inv cfg (execute_inst t q fault s)"
    unfolding execute_inst_def by (rule set_inst_keeps [OF assms(2)]) (auto simp: ready_ok_def)
  then show ?thesis
    using CExecute by simp
next
  case (CTrap t)
  have "thread_inv (processTrapEvent t s) u" for u
    using assms(2,3) CTrap
    by (cases "u = t") (auto simp: commit_inv_def thread_inv_def status_ok_def processTrapEvent_def)
  then show ?thesis
    using CTrap assms(2) by (auto simp: commit_inv_def processTrapEvent_def)
next
  case (CTC t)
  let ?s' = "s\<lparr>tcSquash := (tcSquash s)(t := True)\<rparr>"
  have "thread_inv ?s' u" for u
    using assms(2,3) CTC by (cases "u = t") (auto simp: commit_inv_def thread_inv_def status_ok_def)
  then show ?thesis
    using CTC assms(2,3) by (auto simp: commit_inv_def generateTCEvent_def)
qed

lemma commit_run_inv:
  assumes "commit_cfg_ok cfg"
  shows "commit_inv cfg s \<Longrightarrow> legal_commit_run cfg es s \<Longrightarrow> \<exists>s'. commit_run cfg es s = Some s' \<and> commit_inv cfg s'"
proof (induction es arbitrary: s)
  case (Cons e es)
  obtain s1 where "commit_step cfg e s = Some s1" "commit_inv cfg s1"
    using commit_event_inv [OF assms Cons.prems(1)] Cons.prems(2) by auto
  then show ?case
    using Cons by auto
qed auto

lemma commit_run_append: "commit_run cfg es s = Some s1 \<Longrightarrow> commit_run cfg (es @ fs) s = commit_run cfg fs s1"
  by (induction es arbitrary: s) (auto split: option.splits)

lemma legal_commit_run_append:
  "commit_run cfg es s = Some s1 \<Longrightarrow> legal_commit_run cfg (es @ fs) s \<longleftrightarrow> legal_commit_run cfg es s \<and> legal_commit_run cfg fs s1"
  by (induction es arbitrary: s) (auto split: option.splits)

lemma legal_commit_run_prefix: "legal_commit_run cfg (es @ fs) s \<Longrightarrow> legal_commit_run cfg es s"
  by (induction es arbitrary: s) (auto split: option.splits)

lemma init_commit_inv:
  assumes "commit_cfg_ok cfg"
  shows "\<exists>s. init_commit cfg = Some s \<and> commit_inv cfg s"
  using assms
  by (auto simp: init_commit_def newROB_def commit_cfg_ok_def rob_cfg_ok_def resetState_def commit_inv_def rob_inv_def
      rob_total_def insts_ok_def squash_ok_def thread_inv_def pending_ok_def out_ok_def left_insts_def status_ok_def no_out_def)

text \<open>A thread-context squash that is taken in place of a pending squash after an instruction leaves the pointer to
  that instruction behind, and the assertion of the next squash after another instruction fails.\<close>

lemma tc_squash_pending_fails:
  assumes "squashAfterHead t q s = Some s1" and "squashFromTC cfg t s1 = Some s2" and "q' \<noteq> q"
  shows "squashAfterHead t q' s2 = None"
proof -
  have "squashAfterInst s1 t = Some q"
    using assms(1) by (auto simp: squashAfterHead_def split: if_splits)
  then have "squashAfterInst s2 t = Some q"
    using assms(2) by (auto simp: squashFromTC_def squashAll_def squashInflight_def send_squash_def Let_def split: if_splits option.splits)
  then show ?thesis
    using assms(3) by (simp add: squashAfterHead_def)
qed

text \<open>C6: The commit stage is precise. A run of the stage from its initial state, in which cycles with any squash
  requests, executions, traps and thread-context squashes follow one another in any order, never fails an
  assertion. At its end, for every thread, no instruction has left the reorder buffer twice, the committed
  ones left it in program order, each executed and without a fault, and every instruction still in the buffer
  is younger than all committed ones and not among those that left.

  The run is a legal one (\<open>legal_commit_run\<close>): the instructions that come from rename in a
  cycle are in program order, younger than those of the thread that came before, and of one thread, whose buffer
  in front of the reorder buffer is empty; no squash request asks for instruction 0 itself; an instruction reported as complete
  and not squashed is in the list of thread 0, where \<open>markCompletedInsts\<close> looks for it and otherwise panics,
  and has been executed or waits for its turn at the head; a trap event comes only while a trap is in flight;
  and no thread-context squash comes while a trap is in flight or pending, or while a squash after an
  instruction is pending, where the code does fail an assertion (\<open>tc_squash_pending_fails\<close>).\<close>

theorem commit_in_order:
  assumes "commit_cfg_ok cfg" and "init_commit cfg = Some s0" and "legal_commit_run cfg es s0"
  shows "\<exists>s. commit_run cfg es s0 = Some s \<and>
    (\<forall>t. let out = left_insts t (c_rob s); committed = filter ri_isCommitted out in
       distinct (map ri_seqNum out) \<and> sorted_wrt (<) (map ri_seqNum committed) \<and>
       (\<forall>i\<in>set committed. ri_isExecuted i \<and> \<not> ri_faulted i) \<and>
       (\<forall>i\<in>set (instList (c_rob s) t).
          ri_seqNum i \<notin> ri_seqNum ` set out \<and> (\<forall>j\<in>set committed. ri_seqNum j < ri_seqNum i)))"
proof -
  obtain s where s: "commit_run cfg es s0 = Some s" "commit_inv cfg s"
    using commit_run_inv [OF assms(1)] init_commit_inv [OF assms(1)] assms(2,3) by auto
  have inv: "out_ok (lastCommitedSeqNum s t) (left_insts t (c_rob s))"
    "pending_ok (lastCommitedSeqNum s t) (left_insts t (c_rob s)) (instList (c_rob s) t @ fixedbuffer s t)" for t
    using s(2) by (auto simp: commit_inv_def thread_inv_def)
  have "let committed = filter ri_isCommitted out in
       distinct (map ri_seqNum out) \<and> sorted_wrt (<) (map ri_seqNum committed) \<and>
       (\<forall>i\<in>set committed. ri_isExecuted i \<and> \<not> ri_faulted i) \<and>
       (\<forall>i\<in>set is. ri_seqNum i \<notin> ri_seqNum ` set out \<and> (\<forall>j\<in>set committed. ri_seqNum j < ri_seqNum i))"
    if "out_ok q out" "pending_ok q out (is @ bs)" for q out "is" bs
  proof -
    have "ri_seqNum i \<notin> ri_seqNum ` set out" if "i \<in> set is" for i
    proof -
      have "ri_seqNum i \<in> ri_seqNum ` set (is @ bs)"
        using that by simp
      then show ?thesis
        using \<open>pending_ok q out (is @ bs)\<close> unfolding pending_ok_def by blast
    qed
    moreover have "ri_seqNum j < ri_seqNum i" if "i \<in> set is" "j \<in> set out" "ri_isCommitted j" for i j
      using \<open>pending_ok q out (is @ bs)\<close> \<open>out_ok q out\<close> that le_less_trans unfolding pending_ok_def out_ok_def
      by (metis UnI1 set_append)
    ultimately show ?thesis
      using \<open>out_ok q out\<close> by (simp add: out_ok_def Let_def)
  qed
  then show ?thesis
    using s(1) inv unfolding Let_def by blast
qed

definition wit_commit_cfg :: commit_cfg where
  "wit_commit_cfg = \<lparr>c_robCfg = wit_rob_cfg, commitPolicy = RoundRobin, commitWidth = 2, activeThreads = [0]\<rparr>"

definition wit_inp :: "nat \<Rightarrow> rob_inst list \<Rightarrow> (seq_num \<times> bool) option \<Rightarrow> seq_num list \<Rightarrow> commit_in" where
  "wit_inp cycle renamed sq completed =
     \<lparr>in_cycle = cycle, in_rename = map (\<lambda>i. i\<lparr>ri_isInROB := False\<rparr>) renamed, in_squash = \<lambda>t. sq,
      in_completed = map (\<lambda>q. (0, q, False)) completed, in_flushed = \<lambda>t. True, in_exiting = \<lambda>t. False,
      in_storesToWB = \<lambda>t. False\<rparr>"

definition wit_in :: "nat \<Rightarrow> seq_num list \<Rightarrow> (seq_num \<times> bool) option \<Rightarrow> seq_num list \<Rightarrow> commit_event" where
  "wit_in cycle renamed sq completed = CTick (wit_inp cycle (map wit_rob_inst renamed) sq completed)"

text \<open>Three instructions; the first executes and commits, the second is mispredicted.\<close>

definition wit_events :: "commit_event list" where
  "wit_events = [wit_in 1 [1, 2, 3] None [], CExecute 0 1 False, wit_in 2 [] None [1], wit_in 3 [] None [],
     CExecute 0 2 False, wit_in 4 [] (Some (2, False)) [2], wit_in 5 [] None [], wit_in 6 [] None []]"

lemma wit_commit_ok: "commit_cfg_ok wit_commit_cfg \<and> (\<exists>s0. init_commit wit_commit_cfg = Some s0)"
proof -
  have "commit_cfg_ok wit_commit_cfg"
    using wit_rob_ok(1) by (auto simp: commit_cfg_ok_def wit_commit_cfg_def wit_rob_cfg_def init_maxEntries_def)
  then show ?thesis
    using init_commit_inv by blast
qed

theorem commit_in_order_witness:
  "\<exists>s0 s. init_commit wit_commit_cfg = Some s0 \<and> commit_cfg_ok wit_commit_cfg \<and>
     legal_commit_run wit_commit_cfg wit_events s0 \<and> commit_run wit_commit_cfg wit_events s0 = Some s \<and>
     map (\<lambda>i. (ri_seqNum i, ri_isCommitted i)) (left_insts 0 (c_rob s)) = [(3, False), (1, True), (2, True)] \<and>
     sorted_wrt (<) (map ri_seqNum (filter ri_isCommitted (left_insts 0 (c_rob s))))"
proof -
  obtain s0 where cfg: "commit_cfg_ok wit_commit_cfg" and s0: "init_commit wit_commit_cfg = Some s0"
    using wit_commit_ok by blast
  have "map_option (legal_commit_run wit_commit_cfg wit_events) (init_commit wit_commit_cfg) = Some True"
    by code_simp
  then have legal: "legal_commit_run wit_commit_cfg wit_events s0"
    by (simp add: s0)
  have "map_option (\<lambda>s. map (\<lambda>i. (ri_seqNum i, ri_isCommitted i)) (left_insts 0 (c_rob s)))
      (Option.bind (init_commit wit_commit_cfg) (commit_run wit_commit_cfg wit_events)) =
      Some [(3, False), (1, True), (2, True)]"
    by code_simp
  then have "map_option (\<lambda>s. map (\<lambda>i. (ri_seqNum i, ri_isCommitted i)) (left_insts 0 (c_rob s)))
      (commit_run wit_commit_cfg wit_events s0) = Some [(3, False), (1, True), (2, True)]"
    by (simp only: s0 Option.bind.simps)
  then show ?thesis
    using commit_in_order [OF cfg s0 legal] s0 cfg legal unfolding Let_def by auto
qed

text \<open>C8: Stores leave for the store buffer only when nothing before them can trap. At the end of any
  cycle of any run, if the stage reports no squash of the thread, every instruction of the reorder
  buffer up to \<open>doneMemSeqNum\<close> has executed, is ready to commit and has no fault. The number also
  covers instructions of the head group that have not been committed yet.\<close>

theorem store_release_safe:
  assumes "commit_cfg_ok cfg" and "init_commit cfg = Some s0" and "legal_commit_run cfg (es @ [CTick inp]) s0"
  shows "\<exists>s. commit_run cfg (es @ [CTick inp]) s0 = Some s \<and>
    (\<forall>t. \<not> out_squash (toIEW s) t \<and> \<not> robSquashing (toIEW s) t \<longrightarrow>
       (\<forall>i\<in>set (instList (c_rob s) t). ri_seqNum i \<le> doneMemSeqNum (toIEW s) t \<longrightarrow>
          ri_canCommit i \<and> ri_isExecuted i \<and> \<not> ri_faulted i))"
proof -
  have inv: "commit_inv cfg s0"
    using init_commit_inv [OF assms(1)] assms(2) by auto
  have "legal_commit_run cfg es s0"
    by (rule legal_commit_run_prefix [OF assms(3)])
  then obtain s1 where s1: "commit_run cfg es s0 = Some s1" "commit_inv cfg s1"
    using commit_run_inv [OF assms(1) inv] by blast
  then have "legal_in cfg inp s1"
    using legal_commit_run_append [OF s1(1)] assms(3) by simp
  then show ?thesis
    using commit_tick_inv [OF assms(1) s1(2)] commit_run_append [OF s1(1), of "[CTick inp]"]
    by (fastforce simp: released_ok_def inst_done_def)
qed

text \<open>The first instruction of a group of two is done, the second is not.\<close>

definition wit_partial :: "commit_event list" where
  "wit_partial = [wit_in 1 [1, 2, 3] None [], CExecute 0 1 False, wit_in 2 [] None [1]]"

theorem store_release_safe_witness:
  "\<exists>s0 s. init_commit wit_commit_cfg = Some s0 \<and> commit_cfg_ok wit_commit_cfg \<and>
     legal_commit_run wit_commit_cfg (wit_partial @ [CTick (wit_inp 3 [] None [])]) s0 \<and>
     commit_run wit_commit_cfg (wit_partial @ [CTick (wit_inp 3 [] None [])]) s0 = Some s \<and>
     doneMemSeqNum (toIEW s) 0 = 1 \<and> map ri_seqNum (instList (c_rob s) 0) = [1, 2, 3] \<and>
     (\<forall>i\<in>set (instList (c_rob s) 0). ri_seqNum i \<le> 1 \<longrightarrow> ri_isExecuted i)"
proof -
  let ?es = "wit_partial @ [CTick (wit_inp 3 [] None [])]"
  obtain s0 where cfg: "commit_cfg_ok wit_commit_cfg" and s0: "init_commit wit_commit_cfg = Some s0"
    using wit_commit_ok by blast
  have "map_option (legal_commit_run wit_commit_cfg ?es) (init_commit wit_commit_cfg) = Some True"
    by code_simp
  then have legal: "legal_commit_run wit_commit_cfg ?es s0"
    by (simp add: s0)
  have "map_option (\<lambda>s. (doneMemSeqNum (toIEW s) 0, out_squash (toIEW s) 0, robSquashing (toIEW s) 0,
      map ri_seqNum (instList (c_rob s) 0))) (Option.bind (init_commit wit_commit_cfg) (commit_run wit_commit_cfg ?es)) =
      Some (1, False, False, [1, 2, 3])"
    by code_simp
  then have "map_option (\<lambda>s. (doneMemSeqNum (toIEW s) 0, out_squash (toIEW s) 0, robSquashing (toIEW s) 0,
      map ri_seqNum (instList (c_rob s) 0))) (commit_run wit_commit_cfg ?es s0) = Some (1, False, False, [1, 2, 3])"
    by (simp only: s0 Option.bind.simps)
  then obtain s where s: "commit_run wit_commit_cfg ?es s0 = Some s" "doneMemSeqNum (toIEW s) 0 = 1"
    "\<not> out_squash (toIEW s) 0" "\<not> robSquashing (toIEW s) 0" "map ri_seqNum (instList (c_rob s) 0) = [1, 2, 3]"
    by auto
  then have "\<forall>i\<in>set (instList (c_rob s) 0). ri_seqNum i \<le> 1 \<longrightarrow> ri_isExecuted i"
    using store_release_safe [OF cfg s0 legal] by auto
  then show ?thesis
    using s s0 cfg legal by (intro exI [of _ s0] exI [of _ s]) simp
qed

text \<open>An instruction after which the stage squashes, and a store in the same group.\<close>

definition wit_after :: "commit_event list" where
  "wit_after = [CTick (wit_inp 1 [(wit_rob_inst 1)\<lparr>ri_isSquashAfter := True\<rparr>, (wit_rob_inst 2)\<lparr>ri_isStore := True\<rparr>] None []),
     CExecute 0 1 False, CExecute 0 2 False, wit_in 2 [] None [1, 2], wit_in 3 [] None []]"

text \<open>A store that has been released can still be squashed. When \<open>squashAfter\<close> is called for an
  instruction in the middle of a group (the drain and interrupt paths call it for any instruction),
  the report at the end of the same cycle covers a finished store of the rest of the group, with no
  squash signalled, and the pending squash then removes that store from the reorder buffer
  uncommitted.\<close>

theorem released_store_squashed:
  "\<exists>s0 s1 s2. init_commit wit_commit_cfg = Some s0 \<and>
     legal_commit_run wit_commit_cfg (wit_after @ [wit_in 4 [] None [], wit_in 5 [] None []]) s0 \<and>
     commit_run wit_commit_cfg wit_after s0 = Some s1 \<and> \<not> out_squash (toIEW s1) 0 \<and> \<not> robSquashing (toIEW s1) 0 \<and>
     map (\<lambda>i. (ri_isStore i, ri_seqNum i)) (instList (c_rob s1) 0) = [(True, 2)] \<and> doneMemSeqNum (toIEW s1) 0 = 2 \<and>
     commit_run wit_commit_cfg [wit_in 4 [] None [], wit_in 5 [] None []] s1 = Some s2 \<and>
     map (\<lambda>i. (ri_seqNum i, ri_isSquashed i, ri_isCommitted i)) (removedInsts (c_rob s2)) =
       [(1, False, True), (2, True, False)]"
proof -
  let ?fs = "[wit_in 4 [] None [], wit_in 5 [] None []]"
  obtain s0 where s0: "init_commit wit_commit_cfg = Some s0"
    using wit_commit_ok by blast
  have "map_option (legal_commit_run wit_commit_cfg (wit_after @ ?fs)) (init_commit wit_commit_cfg) = Some True"
    by code_simp
  moreover have "map_option (\<lambda>s. (out_squash (toIEW s) 0, robSquashing (toIEW s) 0,
      map (\<lambda>i. (ri_isStore i, ri_seqNum i)) (instList (c_rob s) 0), doneMemSeqNum (toIEW s) 0))
      (Option.bind (init_commit wit_commit_cfg) (commit_run wit_commit_cfg wit_after)) =
      Some (False, False, [(True, 2)], 2)"
    by code_simp
  moreover have "map_option (\<lambda>s. map (\<lambda>i. (ri_seqNum i, ri_isSquashed i, ri_isCommitted i)) (removedInsts (c_rob s)))
      (Option.bind (init_commit wit_commit_cfg) (commit_run wit_commit_cfg (wit_after @ ?fs))) =
      Some [(1, False, True), (2, True, False)]"
    by code_simp
  ultimately show ?thesis
    unfolding s0 Option.bind.simps option.map using commit_run_append [of wit_commit_cfg wit_after s0 _ ?fs]
    by (auto simp del: commit_run.simps dest!: sym [of "Some _"])
qed

end
