(* ===== verification/StoreSet.thy ===== *)
theory StoreSet
  imports Prelude
begin

unbundle bit_operations_syntax

text \<open>
  The store set predictor, \<open>cpu/o3/store_set.cc\<close> and \<open>store_set.hh\<close>: which recent stores a load
  is predicted to depend on, trained by ordering violations.

  The parallel vectors \<open>LFSTLarge\<close>, \<open>LFSTLargePC\<close> and \<open>validLFSTLarge\<close> are one table of entries with
  three fields. \<open>None\<close> is a failed assertion, a division by zero or a shift that is undefined.
\<close>

section \<open>Tables\<close>

record store_set_cfg =
  SSITSize :: nat
  LFSTSize :: nat
  LFSTEntrySize :: nat
  clearPeriodThreshold :: nat

record lfst_entry =
  lf_valid :: bool
  lf_seqNum :: seq_num
  lf_pc :: "64 word"

record store_set =
  SSIT :: "nat list"
  validSSIT :: "bool list"
  SSITStrict :: "bool list"
  LFST :: "lfst_entry list list"
  VictimEntryID :: "nat list"
  memOpsPred :: nat
  lastClearPeriodCycle :: nat

definition noStore :: lfst_entry where
  "noStore = \<lparr>lf_valid = False, lf_seqNum = 0, lf_pc = 0\<rparr>"

definition ss_init :: "store_set_cfg \<Rightarrow> store_set" where
  "ss_init c =
     \<lparr>SSIT = replicate (SSITSize c) 0, validSSIT = replicate (SSITSize c) False,
      SSITStrict = replicate (SSITSize c) False,
      LFST = replicate (LFSTSize c) (replicate (LFSTEntrySize c) noStore),
      VictimEntryID = replicate (LFSTSize c) 0, memOpsPred = 0, lastClearPeriodCycle = 0\<rparr>"

section \<open>Indices\<close>

fun xorFold_loop :: "nat \<Rightarrow> nat \<Rightarrow> 64 word \<Rightarrow> 64 word \<Rightarrow> 64 word" where
  "xorFold_loop w 0 pc xored = xored"
| "xorFold_loop w (Suc n) pc xored = xorFold_loop w n (drop_bit w pc) (xored XOR (pc AND mask w))"

definition XORFold :: "64 word \<Rightarrow> nat \<Rightarrow> 64 word option" where
  "XORFold pc resetWidth =
     (if resetWidth = 0 \<or> 31 \<le> resetWidth then None
      else Some (xorFold_loop resetWidth ((64 + resetWidth - 1) div resetWidth) pc 0))"

definition calcIndexSSIT :: "store_set_cfg \<Rightarrow> 64 word \<Rightarrow> nat option" where
  "calcIndexSSIT c pc = map_option unat (XORFold pc (floorLog2 (SSITSize c)))"

definition calcSSID :: "store_set_cfg \<Rightarrow> 64 word \<Rightarrow> nat option" where
  "calcSSID c pc =
     (case XORFold pc (floorLog2 (SSITSize c)) of
        None \<Rightarrow> None
      | Some x \<Rightarrow> map_option unat (XORFold x (floorLog2 (LFSTSize c))))"

section \<open>Training\<close>

definition assign_set :: "nat \<Rightarrow> nat \<Rightarrow> store_set \<Rightarrow> store_set" where
  "assign_set i ssid s = s\<lparr>validSSIT := (validSSIT s)[i := True], SSIT := (SSIT s)[i := ssid]\<rparr>"

definition ss_violation :: "store_set_cfg \<Rightarrow> 64 word \<Rightarrow> 64 word \<Rightarrow> store_set \<Rightarrow> store_set option" where
  "ss_violation c store_PC load_PC s =
     (case (calcIndexSSIT c load_PC, calcIndexSSIT c store_PC) of
        (Some li, Some si) \<Rightarrow>
          if \<not> (li < SSITSize c \<and> si < SSITSize c) then None
          else if \<not> validSSIT s ! li \<and> \<not> validSSIT s ! si then
            (case (calcSSID c load_PC, calcSSID c store_PC) of
               (Some ld_new_set, Some sd_new_set) \<Rightarrow>
                 if ld_new_set < LFSTSize c \<and> sd_new_set < LFSTSize c
                 then Some (assign_set si sd_new_set (assign_set li ld_new_set s)) else None
             | _ \<Rightarrow> None)
          else if validSSIT s ! li \<and> \<not> validSSIT s ! si then
            (case calcSSID c store_PC of
               None \<Rightarrow> None
             | Some sd_new_set \<Rightarrow> if sd_new_set < LFSTSize c then Some (assign_set si sd_new_set s) else None)
          else if \<not> validSSIT s ! li then
            map_option (\<lambda>ld_new_set. assign_set li ld_new_set s) (calcSSID c load_PC)
          else
            let load_SSID = SSIT s ! li; store_SSID = SSIT s ! si in
            if \<not> (load_SSID < LFSTSize c \<and> store_SSID < LFSTSize c) then None
            else if load_SSID < store_SSID then Some (s\<lparr>SSIT := (SSIT s)[si := load_SSID]\<rparr>)
            else Some (s\<lparr>SSIT := (SSIT s)[li := store_SSID],
              SSITStrict := (if store_SSID = load_SSID then (SSITStrict s)[li := True] else SSITStrict s)\<rparr>)
      | _ \<Rightarrow> None)"

definition ss_clear :: "store_set \<Rightarrow> store_set" where
  "ss_clear s =
     s\<lparr>validSSIT := map (\<lambda>b. False) (validSSIT s), LFST := map (map (\<lambda>e. e\<lparr>lf_valid := False\<rparr>)) (LFST s)\<rparr>"

text \<open>The difference of the cycles is taken on \<open>uint64_t\<close>.\<close>

definition checkClear :: "store_set_cfg \<Rightarrow> nat \<Rightarrow> store_set \<Rightarrow> store_set" where
  "checkClear c curCycle s =
     (let delta = (if lastClearPeriodCycle s \<le> curCycle then curCycle - lastClearPeriodCycle s
                   else curCycle + 2 ^ 64 - lastClearPeriodCycle s) in
      if clearPeriodThreshold c < delta
      then (ss_clear s)\<lparr>memOpsPred := 0, lastClearPeriodCycle := curCycle\<rparr>
      else s\<lparr>memOpsPred := memOpsPred s + 1\<rparr>)"

section \<open>Stores in flight\<close>

fun first_free :: "lfst_entry list \<Rightarrow> nat option" where
  "first_free [] = None"
| "first_free (e # es) = (if \<not> lf_valid e then Some 0 else map_option Suc (first_free es))"

definition findVictimInLFSTEntry :: "store_set_cfg \<Rightarrow> nat \<Rightarrow> store_set \<Rightarrow> (nat \<times> store_set) option" where
  "findVictimInLFSTEntry c ssid s =
     (case first_free (LFST s ! ssid) of
        Some j \<Rightarrow> Some (j, s)
      | None \<Rightarrow>
          if LFSTEntrySize c = 0 then None
          else let v = (VictimEntryID s ! ssid + 1) mod LFSTEntrySize c
            in Some (v, s\<lparr>VictimEntryID := (VictimEntryID s)[ssid := v]\<rparr>))"

definition insertStore :: "store_set_cfg \<Rightarrow> nat \<Rightarrow> 64 word \<Rightarrow> seq_num \<Rightarrow> store_set \<Rightarrow> store_set option" where
  "insertStore c curCycle store_PC q s0 =
     (let s = checkClear c curCycle s0 in
      case calcIndexSSIT c store_PC of
        None \<Rightarrow> None
      | Some i \<Rightarrow>
          if \<not> i < SSITSize c then None
          else if \<not> validSSIT s ! i then Some s
          else let ssid = SSIT s ! i in
            if \<not> ssid < LFSTSize c then None
            else case findVictimInLFSTEntry c ssid s of
              None \<Rightarrow> None
            | Some (v, s1) \<Rightarrow>
                Some (s1\<lparr>LFST := (LFST s1)[ssid := (LFST s1 ! ssid)
                  [v := \<lparr>lf_valid = True, lf_seqNum = q, lf_pc = store_PC\<rparr>]]\<rparr>))"

definition insertLoad :: "store_set_cfg \<Rightarrow> nat \<Rightarrow> store_set \<Rightarrow> store_set" where
  "insertLoad c curCycle s = checkClear c curCycle s"

definition checkInstStrict :: "store_set_cfg \<Rightarrow> 64 word \<Rightarrow> store_set \<Rightarrow> bool option" where
  "checkInstStrict c pc s =
     (case calcIndexSSIT c pc of
        None \<Rightarrow> None
      | Some i \<Rightarrow> if \<not> i < SSITSize c then None else Some (validSSIT s ! i \<and> SSITStrict s ! i))"

definition checkInst :: "store_set_cfg \<Rightarrow> 64 word \<Rightarrow> store_set \<Rightarrow> seq_num list option" where
  "checkInst c pc s =
     (case calcIndexSSIT c pc of
        None \<Rightarrow> None
      | Some i \<Rightarrow>
          if \<not> i < SSITSize c then None
          else if \<not> validSSIT s ! i then Some []
          else if \<not> SSIT s ! i < LFSTSize c then None
          else Some (map lf_seqNum (filter lf_valid (LFST s ! (SSIT s ! i)))))"

definition issued :: "store_set_cfg \<Rightarrow> 64 word \<Rightarrow> seq_num \<Rightarrow> bool \<Rightarrow> store_set \<Rightarrow> store_set option" where
  "issued c pc q is_store s =
     (if \<not> is_store then Some s
      else case calcIndexSSIT c pc of
        None \<Rightarrow> None
      | Some i \<Rightarrow>
          if \<not> i < SSITSize c then None
          else if \<not> validSSIT s ! i then Some s
          else let ssid = SSIT s ! i in
            if \<not> ssid < LFSTSize c then None
            else Some (s\<lparr>LFST := (LFST s)[ssid :=
              map (\<lambda>e. if lf_valid e \<and> lf_seqNum e = q then noStore else e) (LFST s ! ssid)]\<rparr>))"

definition ss_squash :: "seq_num \<Rightarrow> store_set \<Rightarrow> store_set" where
  "ss_squash squashed_num s =
     s\<lparr>LFST := map (map (\<lambda>e. if lf_valid e \<and> squashed_num < lf_seqNum e \<or> \<not> lf_valid e then noStore else e)) (LFST s)\<rparr>"

end
