(* ===== verification/MemDep.thy ===== *)
theory MemDep
  imports StoreSet
begin

text \<open>
  The memory dependence unit of a thread, \<open>cpu/o3/mem_dep_unit.cc\<close> and \<open>mem_dep_unit.hh\<close>: memory
  instructions wait for the barriers and for the stores the store set predictor names.

  The shared entries live in \<open>md_heap\<close>, a pointer is an index into it; \<open>memDepHash\<close> and the lists of
  dependents hold pointers, and an entry stays in the heap after it has left the hash. The outstanding
  barriers are kept in the order of their insertion; the order is not observable. \<open>memDepDone\<close>,
  \<open>retriedInsts\<close> and \<open>mdpCarried\<close> record the calls of \<open>markMemDepDone\<close> and \<open>retryMem\<close> and the
  prediction handed to loads for a replay. \<open>None\<close> is a failed assertion or a panic.
\<close>

section \<open>State\<close>

record md_inst =
  md_seqNum :: seq_num
  md_pc :: "64 word"
  md_isLoad :: bool
  md_isStore :: bool
  md_isAtomic :: bool
  md_isReadBarrier :: bool
  md_isWriteBarrier :: bool
  md_isHtmCmd :: bool

record md_entry =
  me_inst :: md_inst
  dependInsts :: "nat list"
  memDeps :: nat
  me_squashed :: bool

record md_cfg =
  md_storeSet :: store_set_cfg
  enableReplayBasedMDP :: bool
  enableMDPStrictWait :: bool

record mem_dep =
  md_heap :: "md_entry list"
  memDepHash :: "seq_num \<rightharpoonup> nat"
  md_instList :: "md_inst list"
  instsToReplay :: "md_inst list"
  depPred :: store_set
  loadBarrierSNs :: "seq_num list"
  storeBarrierSNs :: "seq_num list"
  memDepDone :: "seq_num list"
  retriedInsts :: "seq_num list"
  mdpCarried :: "(seq_num \<times> seq_num list \<times> bool) list"

definition md_init :: "md_cfg \<Rightarrow> mem_dep" where
  "md_init c =
     \<lparr>md_heap = [], memDepHash = \<lambda>q. None, md_instList = [], instsToReplay = [], depPred = ss_init (md_storeSet c),
      loadBarrierSNs = [], storeBarrierSNs = [], memDepDone = [], retriedInsts = [], mdpCarried = []\<rparr>"

section \<open>Insertion\<close>

definition insertBarrierSN :: "md_inst \<Rightarrow> mem_dep \<Rightarrow> mem_dep" where
  "insertBarrierSN i s =
     s\<lparr>loadBarrierSNs := (if md_isReadBarrier i \<or> md_isHtmCmd i
          then List.insert (md_seqNum i) (loadBarrierSNs s) else loadBarrierSNs s),
       storeBarrierSNs := (if md_isWriteBarrier i \<or> md_isHtmCmd i
          then List.insert (md_seqNum i) (storeBarrierSNs s) else storeBarrierSNs s)\<rparr>"

text \<open>A new entry enters the hash (which keeps an entry that is already there) and the list.\<close>

definition new_entry :: "md_inst \<Rightarrow> mem_dep \<Rightarrow> mem_dep" where
  "new_entry i s =
     s\<lparr>md_heap := md_heap s @ [\<lparr>me_inst = i, dependInsts = [], memDeps = 0, me_squashed = False\<rparr>],
       memDepHash := (case memDepHash s (md_seqNum i) of
          None \<Rightarrow> (memDepHash s)(md_seqNum i \<mapsto> length (md_heap s)) | Some p \<Rightarrow> memDepHash s),
       md_instList := md_instList s @ [i]\<rparr>"

text \<open>The sequence numbers an instruction has to wait for, whether they are a prediction of the
  store sets, and whether the load has to wait strictly.\<close>

definition md_producers :: "md_cfg \<Rightarrow> md_inst \<Rightarrow> mem_dep \<Rightarrow> (seq_num list \<times> bool \<times> bool) option" where
  "md_producers c i s =
     (if (md_isLoad i \<or> md_isAtomic i) \<and> loadBarrierSNs s \<noteq> [] then Some (loadBarrierSNs s, False, False)
      else if (md_isStore i \<or> md_isAtomic i) \<and> storeBarrierSNs s \<noteq> [] then Some (storeBarrierSNs s, False, False)
      else if md_isLoad i then
        (case checkInst (md_storeSet c) (md_pc i) (depPred s) of
           None \<Rightarrow> None
         | Some ps \<Rightarrow>
             if enableMDPStrictWait c
             then map_option (\<lambda>strict. (ps, True, strict)) (checkInstStrict (md_storeSet c) (md_pc i) (depPred s))
             else Some (ps, True, False))
      else Some ([], False, False))"

fun add_dependent :: "nat \<Rightarrow> nat list \<Rightarrow> md_entry list \<Rightarrow> md_entry list" where
  "add_dependent p [] h = h"
| "add_dependent p (e # es) h = add_dependent p es (h[e := (h ! e)\<lparr>dependInsts := dependInsts (h ! e) @ [p]\<rparr>])"

definition record_store :: "md_cfg \<Rightarrow> nat \<Rightarrow> md_inst \<Rightarrow> mem_dep \<Rightarrow> mem_dep option" where
  "record_store c cycle i s =
     (if md_isStore i \<or> md_isAtomic i
      then map_option (\<lambda>d. s\<lparr>depPred := d\<rparr>) (insertStore (md_storeSet c) cycle (md_pc i) (md_seqNum i) (depPred s))
      else if md_isLoad i then Some s else None)"

text \<open>The instruction waits for the entries \<open>es\<close>, or is released.\<close>

definition link_entry :: "md_inst \<Rightarrow> nat \<Rightarrow> bool \<Rightarrow> nat list \<Rightarrow> mem_dep \<Rightarrow> mem_dep" where
  "link_entry i p bypass es s =
     (if es = [] \<or> bypass then s\<lparr>memDepDone := memDepDone s @ [md_seqNum i]\<rparr>
      else let h = add_dependent p es (md_heap s)
        in s\<lparr>md_heap := h[p := (h ! p)\<lparr>memDeps := length es\<rparr>]\<rparr>)"

definition md_insert :: "md_cfg \<Rightarrow> nat \<Rightarrow> md_inst \<Rightarrow> mem_dep \<Rightarrow> mem_dep option" where
  "md_insert c cycle i s =
     (case md_producers c i s of
        None \<Rightarrow> None
      | Some (producing_stores, store_set_pred, strict_wait) \<Rightarrow>
          let s1 = new_entry i s;
              s2 = (if enableReplayBasedMDP c \<and> md_isLoad i
                    then s1\<lparr>mdpCarried := mdpCarried s1 @
                      [(md_seqNum i, if store_set_pred then producing_stores else [], store_set_pred \<and> strict_wait)]\<rparr>
                    else s1);
              store_entries = List.map_filter (memDepHash s2) producing_stores
          in record_store c cycle i (insertBarrierSN i
               (link_entry i (length (md_heap s)) (enableReplayBasedMDP c \<and> md_isLoad i \<and> store_set_pred)
                  store_entries s2)))"

definition md_insertBarrier :: "md_inst \<Rightarrow> mem_dep \<Rightarrow> mem_dep" where
  "md_insertBarrier i s = insertBarrierSN i (new_entry i s)"

definition md_insertNonSpec :: "md_cfg \<Rightarrow> nat \<Rightarrow> md_inst \<Rightarrow> mem_dep \<Rightarrow> mem_dep option" where
  "md_insertNonSpec c cycle i s = record_store c cycle i (md_insertBarrier i s)"

section \<open>Replay, completion, squash\<close>

definition md_reschedule :: "md_inst \<Rightarrow> mem_dep \<Rightarrow> mem_dep" where
  "md_reschedule i s = s\<lparr>instsToReplay := instsToReplay s @ [i]\<rparr>"

fun replay_loop :: "md_inst list \<Rightarrow> mem_dep \<Rightarrow> mem_dep option" where
  "replay_loop [] s = Some s"
| "replay_loop (i # is) s =
     (if memDepHash s (md_seqNum i) = None then None
      else replay_loop is (s\<lparr>instsToReplay := is, retriedInsts := retriedInsts s @ [md_seqNum i]\<rparr>))"

definition md_replay :: "mem_dep \<Rightarrow> mem_dep option" where
  "md_replay s = replay_loop (instsToReplay s) s"

fun wake_loop :: "nat list \<Rightarrow> mem_dep \<Rightarrow> mem_dep option" where
  "wake_loop [] s = Some s"
| "wake_loop (d # ds) s =
     (let e = md_heap s ! d in
      if memDeps e = 0 then None
      else wake_loop ds (s\<lparr>md_heap := (md_heap s)[d := e\<lparr>memDeps := memDeps e - 1\<rparr>],
        memDepDone := (if memDeps e = 1 \<and> \<not> me_squashed e
          then memDepDone s @ [md_seqNum (me_inst e)] else memDepDone s)\<rparr>))"

definition wakeDependents :: "md_inst \<Rightarrow> mem_dep \<Rightarrow> mem_dep option" where
  "wakeDependents i s =
     (if \<not> md_isStore i \<and> \<not> md_isAtomic i \<and> \<not> md_isReadBarrier i \<and> \<not> md_isWriteBarrier i \<and> \<not> md_isHtmCmd i
      then Some s
      else case memDepHash s (md_seqNum i) of
        None \<Rightarrow> None
      | Some p \<Rightarrow>
          map_option (\<lambda>s1. s1\<lparr>md_heap := (md_heap s1)[p := (md_heap s1 ! p)\<lparr>dependInsts := []\<rparr>]\<rparr>)
            (wake_loop (dependInsts (md_heap s ! p)) s))"

definition md_completed :: "md_inst \<Rightarrow> mem_dep \<Rightarrow> mem_dep option" where
  "md_completed i s =
     (case memDepHash s (md_seqNum i) of
        None \<Rightarrow> None
      | Some p \<Rightarrow> Some (s\<lparr>md_instList := remove1 (me_inst (md_heap s ! p)) (md_instList s),
          memDepHash := (memDepHash s)(md_seqNum i := None)\<rparr>))"

definition md_completeInst :: "md_inst \<Rightarrow> mem_dep \<Rightarrow> mem_dep option" where
  "md_completeInst i s =
     (case wakeDependents i s of
        None \<Rightarrow> None
      | Some s1 \<Rightarrow>
          (case md_completed i s1 of
             None \<Rightarrow> None
           | Some s2 \<Rightarrow>
               if (md_isWriteBarrier i \<or> md_isHtmCmd i) \<and> storeBarrierSNs s2 = [] then None
               else if (md_isReadBarrier i \<or> md_isHtmCmd i) \<and> loadBarrierSNs s2 = [] then None
               else Some (s2\<lparr>
                 storeBarrierSNs := (if md_isWriteBarrier i \<or> md_isHtmCmd i
                   then remove1 (md_seqNum i) (storeBarrierSNs s2) else storeBarrierSNs s2),
                 loadBarrierSNs := (if md_isReadBarrier i \<or> md_isHtmCmd i
                   then remove1 (md_seqNum i) (loadBarrierSNs s2) else loadBarrierSNs s2)\<rparr>)))"

text \<open>The walk of \<open>squash\<close> from the youngest instruction; the list is given youngest first.\<close>

fun md_squash_loop :: "seq_num \<Rightarrow> md_inst list \<Rightarrow> mem_dep \<Rightarrow> mem_dep option" where
  "md_squash_loop n [] s = Some s"
| "md_squash_loop n (i # is) s =
     (if \<not> n < md_seqNum i then Some s
      else case memDepHash s (md_seqNum i) of
        None \<Rightarrow> None
      | Some p \<Rightarrow>
          md_squash_loop n is (s\<lparr>loadBarrierSNs := remove1 (md_seqNum i) (loadBarrierSNs s),
            storeBarrierSNs := remove1 (md_seqNum i) (storeBarrierSNs s),
            md_heap := (md_heap s)[p := (md_heap s ! p)\<lparr>me_squashed := True\<rparr>],
            memDepHash := (memDepHash s)(md_seqNum i := None), md_instList := rev is\<rparr>))"

definition md_squash :: "seq_num \<Rightarrow> mem_dep \<Rightarrow> mem_dep option" where
  "md_squash n s =
     map_option (\<lambda>s1. s1\<lparr>depPred := ss_squash n (depPred s1)\<rparr>)
       (md_squash_loop n (rev (md_instList s))
          (s\<lparr>instsToReplay := filter (\<lambda>i. \<not> n < md_seqNum i) (instsToReplay s)\<rparr>))"

definition md_violation :: "md_cfg \<Rightarrow> md_inst \<Rightarrow> md_inst \<Rightarrow> mem_dep \<Rightarrow> mem_dep option" where
  "md_violation c store_inst violating_load s =
     map_option (\<lambda>d. s\<lparr>depPred := d\<rparr>)
       (ss_violation (md_storeSet c) (md_pc store_inst) (md_pc violating_load) (depPred s))"

definition md_issue :: "md_cfg \<Rightarrow> md_inst \<Rightarrow> mem_dep \<Rightarrow> mem_dep option" where
  "md_issue c i s =
     map_option (\<lambda>d. s\<lparr>depPred := d\<rparr>)
       (issued (md_storeSet c) (md_pc i) (md_seqNum i) (md_isStore i) (depPred s))"

definition md_takeOverFrom :: "mem_dep \<Rightarrow> mem_dep" where
  "md_takeOverFrom s = s\<lparr>loadBarrierSNs := [], storeBarrierSNs := [], depPred := ss_clear (depPred s)\<rparr>"

section \<open>Runs\<close>

datatype md_event =
  MInsert nat md_inst
| MInsertNonSpec nat md_inst
| MInsertBarrier md_inst
| MReschedule md_inst
| MReplay
| MComplete md_inst
| MSquash seq_num
| MViolation md_inst md_inst
| MIssue md_inst

fun md_step :: "md_cfg \<Rightarrow> md_event \<Rightarrow> mem_dep \<Rightarrow> mem_dep option" where
  "md_step c (MInsert cycle i) s = md_insert c cycle i s"
| "md_step c (MInsertNonSpec cycle i) s = md_insertNonSpec c cycle i s"
| "md_step c (MInsertBarrier i) s = Some (md_insertBarrier i s)"
| "md_step c (MReschedule i) s = Some (md_reschedule i s)"
| "md_step c MReplay s = md_replay s"
| "md_step c (MComplete i) s = md_completeInst i s"
| "md_step c (MSquash n) s = md_squash n s"
| "md_step c (MViolation st ld) s = md_violation c st ld s"
| "md_step c (MIssue i) s = md_issue c i s"

fun md_run :: "md_cfg \<Rightarrow> md_event list \<Rightarrow> mem_dep \<Rightarrow> mem_dep option" where
  "md_run c [] s = Some s"
| "md_run c (e # es) s = (case md_step c e s of None \<Rightarrow> None | Some s1 \<Rightarrow> md_run c es s1)"

end
