(* ===== verification/StoreSetProps.thy ===== *)
theory StoreSetProps
  imports StoreSet
begin

text \<open>
  The store set predictor keeps its indices in range, and orders a load after a store that it was
  reported to violate twice.
\<close>

section \<open>Indices\<close>

definition ss_cfg_ok :: "store_set_cfg \<Rightarrow> bool" where
  "ss_cfg_ok c \<longleftrightarrow>
     2 \<le> SSITSize c \<and> SSITSize c < 2 ^ 31 \<and> 2 \<le> LFSTSize c \<and> LFSTSize c < 2 ^ 31 \<and> 0 < LFSTEntrySize c"

lemma xorFold_loop_bound: "unat xored < 2 ^ w \<Longrightarrow> w \<le> 64 \<Longrightarrow> unat (xorFold_loop w n pc xored) < 2 ^ w"
proof (induction n arbitrary: pc xored)
  case (Suc n)
  have "unat (x AND mask w) < 2 ^ w" for x :: "64 word"
    by (simp add: unat_and_mask)
  moreover have "xored = xored AND mask w"
    using Suc.prems by (simp add: word_unat_eq_iff unat_and_mask)
  then have "xored XOR (pc AND mask w) = (xored XOR pc) AND mask w"
    by (metis bit.conj_xor_distrib2)
  ultimately show ?case
    using Suc by simp
qed simp

lemma floorLog2_range: "2 \<le> n \<Longrightarrow> n < 2 ^ 31 \<Longrightarrow> 0 < floorLog2 n \<and> floorLog2 n < 31"
proof
  assume n: "2 \<le> n" "n < 2 ^ 31"
  show "0 < floorLog2 n"
    using n(1) by (subst floorLog2.simps) simp
  have "(2::nat) ^ floorLog2 n < 2 ^ 31"
    using floorLog2_le [of n] n by linarith
  then show "floorLog2 n < 31"
    by (rule power_less_imp_less_exp [rotated]) simp
qed

lemma XORFold_ok:
  assumes "2 \<le> n" and "n < 2 ^ 31"
  shows "\<exists>x. XORFold pc (floorLog2 n) = Some x \<and> unat x < n"
proof -
  have "0 < floorLog2 n" "floorLog2 n < 31"
    using floorLog2_range [OF assms] by simp_all
  moreover have "unat (xorFold_loop (floorLog2 n) m pc 0) < 2 ^ floorLog2 n" for m
    using xorFold_loop_bound [of 0 "floorLog2 n"] \<open>floorLog2 n < 31\<close> by simp
  then have "unat (xorFold_loop (floorLog2 n) m pc 0) < n" for m
    using floorLog2_le [of n] assms(1) by (meson less_le_trans zero_less_numeral)
  ultimately show ?thesis
    by (simp add: XORFold_def)
qed

lemma calcIndexSSIT_ok: "ss_cfg_ok c \<Longrightarrow> \<exists>i. calcIndexSSIT c pc = Some i \<and> i < SSITSize c"
  using XORFold_ok [of "SSITSize c" pc] by (auto simp: ss_cfg_ok_def calcIndexSSIT_def)

lemma calcSSID_ok: "ss_cfg_ok c \<Longrightarrow> \<exists>i. calcSSID c pc = Some i \<and> i < LFSTSize c"
  using XORFold_ok [of "SSITSize c" pc] XORFold_ok [of "LFSTSize c"]
  by (fastforce simp: ss_cfg_ok_def calcSSID_def)

section \<open>Invariant\<close>

definition ss_ok :: "store_set_cfg \<Rightarrow> store_set \<Rightarrow> bool" where
  "ss_ok c s \<longleftrightarrow>
     length (SSIT s) = SSITSize c \<and> length (validSSIT s) = SSITSize c \<and> length (SSITStrict s) = SSITSize c \<and>
     length (LFST s) = LFSTSize c \<and> length (VictimEntryID s) = LFSTSize c \<and>
     (\<forall>row\<in>set (LFST s). length row = LFSTEntrySize c) \<and>
     (\<forall>i<SSITSize c. validSSIT s ! i \<longrightarrow> SSIT s ! i < LFSTSize c)"

text \<open>The stores the predictor holds.\<close>

definition lfst_stores :: "store_set \<Rightarrow> seq_num set" where
  "lfst_stores s = {lf_seqNum e | row e. row \<in> set (LFST s) \<and> e \<in> set row \<and> lf_valid e}"

lemma ss_init_ok: "ss_ok c (ss_init c)" "lfst_stores (ss_init c) = {}"
  by (auto simp: ss_ok_def ss_init_def lfst_stores_def noStore_def)

lemma ss_clear_ok: "ss_ok c s \<Longrightarrow> ss_ok c (ss_clear s)" "lfst_stores (ss_clear s) = {}"
  by (auto simp: ss_ok_def ss_clear_def lfst_stores_def)

lemma ss_squash_ok:
  "ss_ok c s \<Longrightarrow> ss_ok c (ss_squash n s)" "lfst_stores (ss_squash n s) \<subseteq> lfst_stores s"
proof -
  show "ss_ok c s \<Longrightarrow> ss_ok c (ss_squash n s)"
    by (auto simp: ss_ok_def ss_squash_def)
  show "lfst_stores (ss_squash n s) \<subseteq> lfst_stores s"
    by (auto simp: lfst_stores_def ss_squash_def noStore_def split: if_splits) blast
qed

lemma checkClear_ok:
  assumes "ss_ok c s"
  shows "ss_ok c (checkClear c k s)" "lfst_stores (checkClear c k s) \<subseteq> lfst_stores s"
  using assms ss_clear_ok(1) [OF assms] ss_clear_ok(2) [of s] by (auto simp: checkClear_def Let_def ss_ok_def lfst_stores_def)

lemma assign_set_ok: "ss_ok c s \<Longrightarrow> i < SSITSize c \<Longrightarrow> ssid < LFSTSize c \<Longrightarrow> ss_ok c (assign_set i ssid s)"
  by (auto simp: ss_ok_def assign_set_def nth_list_update)

lemma violation_ok:
  assumes "ss_cfg_ok c" and "ss_ok c s"
  shows "\<exists>s'. ss_violation c st ld s = Some s' \<and> ss_ok c s' \<and> LFST s' = LFST s \<and>
    lastClearPeriodCycle s' = lastClearPeriodCycle s"
proof -
  obtain li si x y where i: "calcIndexSSIT c ld = Some li" "li < SSITSize c" "calcIndexSSIT c st = Some si" "si < SSITSize c"
    "calcSSID c ld = Some x" "x < LFSTSize c" "calcSSID c st = Some y" "y < LFSTSize c"
    using calcIndexSSIT_ok [OF assms(1)] calcSSID_ok [OF assms(1)] by metis
  show ?thesis
  proof (cases "validSSIT s ! li \<and> validSSIT s ! si")
    case True
    then have "SSIT s ! li < LFSTSize c" "SSIT s ! si < LFSTSize c"
      using assms(2) i by (auto simp: ss_ok_def)
    then show ?thesis
      using True i assms(2) by (auto simp: ss_violation_def Let_def ss_ok_def nth_list_update)
  next
    case False
    then show ?thesis
      using i assign_set_ok [OF assms(2)] assign_set_ok [of c "assign_set li x s" si y]
      by (auto simp: ss_violation_def) (auto simp: assign_set_def)
  qed
qed

lemma first_free_less: "first_free es = Some j \<Longrightarrow> j < length es"
  by (induction es arbitrary: j) (auto split: if_splits)

lemma lfst_stores_update:
  "lfst_stores (s\<lparr>LFST := (LFST s)[r := (LFST s ! r)[v := e]]\<rparr>) \<subseteq> insert (lf_seqNum e) (lfst_stores s)"
proof (cases "r < length (LFST s)")
  case True
  then show ?thesis
    by (fastforce simp: lfst_stores_def dest: subsetD [OF set_update_subset_insert])
qed (auto simp: lfst_stores_def list_update_beyond)

lemma insertStore_ok:
  assumes "ss_cfg_ok c" and "ss_ok c s"
  shows "\<exists>s'. insertStore c k pc q s = Some s' \<and> ss_ok c s' \<and> lfst_stores s' \<subseteq> insert q (lfst_stores s)"
proof -
  let ?s = "checkClear c k s"
  have ok: "ss_ok c ?s" "lfst_stores ?s \<subseteq> lfst_stores s"
    using checkClear_ok [OF assms(2)] by blast+
  obtain i where i: "calcIndexSSIT c pc = Some i" "i < SSITSize c"
    using calcIndexSSIT_ok [OF assms(1)] by blast
  show ?thesis
  proof (cases "validSSIT ?s ! i")
    case False
    then show ?thesis
      using i ok by (auto simp: insertStore_def Let_def)
  next
    case True
    let ?r = "SSIT ?s ! i"
    have r: "?r < LFSTSize c"
      using ok(1) i True by (simp add: ss_ok_def)
    obtain v vid where v: "findVictimInLFSTEntry c ?r ?s = Some (v, ?s\<lparr>VictimEntryID := vid\<rparr>)" "length vid = LFSTSize c"
    proof (cases "first_free (LFST ?s ! ?r)")
      case (Some j)
      then show ?thesis
        using that [of j "VictimEntryID ?s"] ok(1) by (simp add: findVictimInLFSTEntry_def ss_ok_def)
    next
      case None
      then show ?thesis
        using that ok(1) assms(1) by (simp add: findVictimInLFSTEntry_def ss_ok_def ss_cfg_ok_def Let_def)
    qed
    let ?e = "\<lparr>lf_valid = True, lf_seqNum = q, lf_pc = pc\<rparr>"
    let ?s' = "?s\<lparr>VictimEntryID := vid, LFST := (LFST ?s)[?r := (LFST ?s ! ?r)[v := ?e]]\<rparr>"
    have "insertStore c k pc q s = Some ?s'"
      using i True r v(1) by (simp add: insertStore_def Let_def)
    moreover have "length (LFST ?s ! ?r) = LFSTEntrySize c"
      using ok(1) r by (simp add: ss_ok_def)
    then have "ss_ok c ?s'"
      using ok(1) v(2) by (auto simp: ss_ok_def dest: subsetD [OF set_update_subset_insert])
    moreover have "lfst_stores ?s' \<subseteq> insert q (lfst_stores ?s)"
      using lfst_stores_update [of ?s ?r v ?e] by (simp add: lfst_stores_def)
    ultimately show ?thesis
      using ok(2) by blast
  qed
qed

lemma issued_ok:
  assumes "ss_cfg_ok c" and "ss_ok c s"
  shows "\<exists>s'. issued c pc q is_store s = Some s' \<and> ss_ok c s' \<and> lfst_stores s' \<subseteq> lfst_stores s"
proof -
  obtain i where i: "calcIndexSSIT c pc = Some i" "i < SSITSize c"
    using calcIndexSSIT_ok [OF assms(1)] by blast
  show ?thesis
  proof (cases "is_store \<and> validSSIT s ! i")
    case True
    let ?r = "SSIT s ! i"
    let ?row = "map (\<lambda>e. if lf_valid e \<and> lf_seqNum e = q then noStore else e) (LFST s ! ?r)"
    have r: "?r < length (LFST s)" "?r < LFSTSize c" "length (LFST s ! ?r) = LFSTEntrySize c"
      using assms(2) i True by (auto simp: ss_ok_def)
    have "ss_ok c (s\<lparr>LFST := (LFST s)[?r := ?row]\<rparr>)"
      using assms(2) r by (auto simp: ss_ok_def dest: subsetD [OF set_update_subset_insert])
    moreover have "lfst_stores (s\<lparr>LFST := (LFST s)[?r := ?row]\<rparr>) \<subseteq> lfst_stores s"
      using r(1) by (fastforce simp: lfst_stores_def noStore_def dest: subsetD [OF set_update_subset_insert])
    ultimately show ?thesis
      using i True r(2) by (auto simp: issued_def Let_def)
  qed (use i assms(2) in \<open>auto simp: issued_def\<close>)
qed

lemma checkInst_ok:
  assumes "ss_cfg_ok c" and "ss_ok c s"
  shows "\<exists>ps. checkInst c pc s = Some ps \<and> set ps \<subseteq> lfst_stores s" "\<exists>b. checkInstStrict c pc s = Some b"
proof -
  obtain i where i: "calcIndexSSIT c pc = Some i" "i < SSITSize c"
    using calcIndexSSIT_ok [OF assms(1)] by blast
  have "validSSIT s ! i \<Longrightarrow> SSIT s ! i < LFSTSize c \<and> LFST s ! (SSIT s ! i) \<in> set (LFST s)"
    using assms(2) i by (auto simp: ss_ok_def)
  then show "\<exists>ps. checkInst c pc s = Some ps \<and> set ps \<subseteq> lfst_stores s"
    using i by (auto simp: checkInst_def lfst_stores_def)
  show "\<exists>b. checkInstStrict c pc s = Some b"
    using i by (simp add: checkInstStrict_def)
qed

section \<open>A violating pair\<close>

text \<open>The first report gives the load and the store a set each, the second one the same set.\<close>

lemma violation_joins:
  assumes "ss_cfg_ok c" and "ss_ok c s" and "ss_violation c st ld s = Some s1"
    and "calcIndexSSIT c ld = Some li" and "calcIndexSSIT c st = Some si"
  shows "validSSIT s1 ! li \<and> validSSIT s1 ! si" "validSSIT s ! li \<Longrightarrow> validSSIT s ! si \<Longrightarrow> SSIT s1 ! li = SSIT s1 ! si"
proof -
  have i: "li < SSITSize c" "si < SSITSize c"
    using calcIndexSSIT_ok [OF assms(1)] assms(4,5) by (metis option.inject)+
  have l: "length (SSIT s) = SSITSize c" "length (validSSIT s) = SSITSize c"
    using assms(2) by (auto simp: ss_ok_def)
  show "validSSIT s1 ! li \<and> validSSIT s1 ! si"
    using assms(3-5) l i
    by (auto simp: ss_violation_def assign_set_def nth_list_update Let_def split: if_splits option.splits)
  show "validSSIT s ! li \<Longrightarrow> validSSIT s ! si \<Longrightarrow> SSIT s1 ! li = SSIT s1 ! si"
    using assms(3-5) l i by (auto simp: ss_violation_def nth_list_update Let_def split: if_splits)
qed

text \<open>The other operations of the predictor, and when the periodic clearing of the tables is due.\<close>

datatype ss_event = SInsertStore nat "64 word" seq_num | SInsertLoad nat | SIssued "64 word" seq_num bool | SSquash seq_num

fun ss_step :: "store_set_cfg \<Rightarrow> ss_event \<Rightarrow> store_set \<Rightarrow> store_set option" where
  "ss_step c (SInsertStore k pc q) s = insertStore c k pc q s"
| "ss_step c (SInsertLoad k) s = Some (insertLoad c k s)"
| "ss_step c (SIssued pc q is_store) s = issued c pc q is_store s"
| "ss_step c (SSquash n) s = Some (ss_squash n s)"

fun ss_run :: "store_set_cfg \<Rightarrow> ss_event list \<Rightarrow> store_set \<Rightarrow> store_set option" where
  "ss_run c [] s = Some s"
| "ss_run c (ev # evs) s = (case ss_step c ev s of None \<Rightarrow> None | Some s1 \<Rightarrow> ss_run c evs s1)"

definition clear_due :: "store_set_cfg \<Rightarrow> nat \<Rightarrow> store_set \<Rightarrow> bool" where
  "clear_due c k s \<longleftrightarrow>
     clearPeriodThreshold c < (if lastClearPeriodCycle s \<le> k then k - lastClearPeriodCycle s else k + 2 ^ 64 - lastClearPeriodCycle s)"

definition not_cleared :: "store_set_cfg \<Rightarrow> ss_event list \<Rightarrow> store_set \<Rightarrow> bool" where
  "not_cleared c evs s \<longleftrightarrow>
     (\<forall>ev\<in>set evs. case ev of SInsertStore k pc q \<Rightarrow> \<not> clear_due c k s | SInsertLoad k \<Rightarrow> \<not> clear_due c k s | _ \<Rightarrow> True)"

definition same_sets :: "store_set \<Rightarrow> store_set \<Rightarrow> bool" where
  "same_sets s s' \<longleftrightarrow> SSIT s' = SSIT s \<and> validSSIT s' = validSSIT s \<and> lastClearPeriodCycle s' = lastClearPeriodCycle s"

lemma checkClear_cases:
  "checkClear c k s = (if clear_due c k s then (ss_clear s)\<lparr>memOpsPred := 0, lastClearPeriodCycle := k\<rparr> else s\<lparr>memOpsPred := memOpsPred s + 1\<rparr>)"
  by (simp add: checkClear_def clear_due_def Let_def)

lemma due_cong:
  assumes "lastClearPeriodCycle s' = lastClearPeriodCycle s"
  shows "clear_due c k s' = clear_due c k s" "not_cleared c evs s' = not_cleared c evs s"
proof -
  have "clear_due c k s' = clear_due c k s" for k
    by (simp add: clear_due_def assms)
  then show "clear_due c k s' = clear_due c k s" "not_cleared c evs s' = not_cleared c evs s"
    by (simp_all add: not_cleared_def cong: ss_event.case_cong)
qed

lemma ss_step_sets:
  assumes "ss_cfg_ok c" and "ss_ok c s" and "not_cleared c [ev] s"
  shows "\<exists>s'. ss_step c ev s = Some s' \<and> ss_ok c s' \<and> same_sets s s'"
proof (cases ev)
  case (SInsertStore k pc q)
  obtain s' where s': "insertStore c k pc q s = Some s'" "ss_ok c s'"
    using insertStore_ok [OF assms(1,2)] by blast
  have "\<not> clear_due c k s"
    using assms(3) by (simp add: not_cleared_def SInsertStore)
  then have "same_sets s s'"
    using s'(1) unfolding insertStore_def checkClear_cases
    by (auto simp: same_sets_def findVictimInLFSTEntry_def Let_def split: if_splits option.splits)
  then show ?thesis
    using s' by (simp add: SInsertStore)
next
  case (SInsertLoad k)
  then show ?thesis
    using assms checkClear_ok(1) [OF assms(2), of k] by (simp add: not_cleared_def insertLoad_def checkClear_cases same_sets_def)
next
  case (SIssued pc q b)
  obtain s' where s': "issued c pc q b s = Some s'" "ss_ok c s'"
    using issued_ok [OF assms(1,2)] by blast
  then have "same_sets s s'"
    by (auto simp: issued_def same_sets_def Let_def split: if_splits option.splits)
  then show ?thesis
    using s' by (simp add: SIssued)
next
  case (SSquash n)
  then show ?thesis
    using ss_squash_ok(1) [OF assms(2)] by (simp add: same_sets_def ss_squash_def)
qed

lemma ss_run_sets:
  assumes "ss_cfg_ok c"
  shows "ss_ok c s \<Longrightarrow> not_cleared c evs s \<Longrightarrow> \<exists>s'. ss_run c evs s = Some s' \<and> ss_ok c s' \<and> same_sets s s'"
proof (induction evs arbitrary: s)
  case (Cons ev evs)
  obtain s1 where s1: "ss_step c ev s = Some s1" "ss_ok c s1" "same_sets s s1"
    using ss_step_sets [OF assms Cons.prems(1)] Cons.prems(2) by (auto simp: not_cleared_def)
  have "not_cleared c evs s1"
    using Cons.prems(2) s1(3) due_cong(2) [of s1 s] by (simp add: same_sets_def) (simp add: not_cleared_def)
  then show ?case
    using Cons.IH [OF s1(2)] s1 by (auto simp: same_sets_def)
qed (simp add: same_sets_def)

text \<open>A store that is inserted while the load and the store have the same set.\<close>

lemma insert_orders_load:
  assumes "ss_cfg_ok c" and "ss_ok c s" and "\<not> clear_due c k s" and "calcIndexSSIT c ld = Some li" and "calcIndexSSIT c st = Some si"
    and v: "validSSIT s ! li" "validSSIT s ! si" "SSIT s ! li = SSIT s ! si"
  shows "\<exists>s1 s2 ps qs. insertStore c k st q s = Some s1 \<and> checkInst c ld s1 = Some ps \<and> q \<in> set ps \<and>
    issued c st q True s1 = Some s2 \<and> checkInst c ld s2 = Some qs \<and> q \<notin> set qs"
proof -
  have i: "li < SSITSize c" "si < SSITSize c"
    using calcIndexSSIT_ok [OF assms(1)] assms(4,5) by (metis option.inject)+
  let ?r = "SSIT s ! si" and ?e = "\<lparr>lf_valid = True, lf_seqNum = q, lf_pc = st\<rparr>" and ?s = "s\<lparr>memOpsPred := memOpsPred s + 1\<rparr>"
  have r: "?r < LFSTSize c" "?r < length (LFST s)" "length (LFST s ! ?r) = LFSTEntrySize c"
    using assms(2) i v by (auto simp: ss_ok_def)
  have "\<exists>j vid. findVictimInLFSTEntry c ?r ?s = Some (j, ?s\<lparr>VictimEntryID := vid\<rparr>) \<and> j < LFSTEntrySize c"
    using first_free_less [of "LFST s ! ?r"] assms(1) r(3)
    by (auto simp: findVictimInLFSTEntry_def ss_cfg_ok_def Let_def intro: exI [of _ "VictimEntryID s"] split: option.splits)
  then obtain j vid where j: "findVictimInLFSTEntry c ?r ?s = Some (j, ?s\<lparr>VictimEntryID := vid\<rparr>)" "j < LFSTEntrySize c"
    by blast
  let ?row = "(LFST s ! ?r)[j := ?e]"
  let ?s1 = "?s\<lparr>VictimEntryID := vid, LFST := (LFST s)[?r := ?row]\<rparr>"
  have "insertStore c k st q s = Some ?s1"
    using assms(3,5) i(2) v r(1) j(1) by (simp add: insertStore_def checkClear_cases Let_def)
  moreover have "checkInst c ld (?s1\<lparr>LFST := (LFST ?s1)[?r := row]\<rparr>) = Some (map lf_seqNum (filter lf_valid row))" for row
    using assms(4) i(1) v r by (simp add: checkInst_def)
  moreover have "checkInst c ld ?s1 = Some (map lf_seqNum (filter lf_valid ?row))"
    using assms(4) i(1) v r by (simp add: checkInst_def)
  moreover have "?e \<in> set ?row"
    using j(2) r(3) by (simp add: set_update_memI)
  then have "q \<in> set (map lf_seqNum (filter lf_valid ?row))"
    by force
  moreover have "issued c st q True ?s1 = Some (?s1\<lparr>LFST := (LFST ?s1)[?r :=
      map (\<lambda>e. if lf_valid e \<and> lf_seqNum e = q then noStore else e) ?row]\<rparr>)"
    using assms(5) i(2) v r by (simp add: issued_def Let_def)
  ultimately show ?thesis
    by (fastforce simp: noStore_def)
qed

text \<open>When the clearing is due, the store finds no set.\<close>

lemma insert_cleared:
  assumes "ss_cfg_ok c" and "ss_ok c s" and "clear_due c k s"
  shows "\<exists>s1. insertStore c k st q s = Some s1 \<and> checkInst c ld s1 = Some []"
proof -
  obtain li si where i: "calcIndexSSIT c ld = Some li" "li < SSITSize c" "calcIndexSSIT c st = Some si" "si < SSITSize c"
    using calcIndexSSIT_ok [OF assms(1)] by metis
  then show ?thesis
    using assms(2,3) by (auto simp: insertStore_def checkClear_cases checkInst_def ss_clear_def ss_ok_def Let_def)
qed

text \<open>C11: Store sets learn, until they are cleared. A load is reported to violate the order with a store, and
  later once more; stores and loads are inserted, issued and squashed in between and afterwards, in any order,
  but no clearing of the tables is due at any of these insertions and no other pair is reported. Then no
  assertion fails, and a new instance of the store is, when it is inserted before a clearing is due, at once
  among the producers of the load, and no longer once it has issued. When the clearing is due at its
  insertion, the load has no producers.\<close>

theorem violations_order_load:
  assumes "ss_cfg_ok c" and "ss_ok c s" and "not_cleared c evs s" and "not_cleared c evs' s"
  shows "\<exists>s1 s2 s3 s4 s5. ss_violation c st ld s = Some s1 \<and> ss_run c evs s1 = Some s2 \<and> ss_violation c st ld s2 = Some s3 \<and>
    ss_run c evs' s3 = Some s4 \<and> insertStore c k st q s4 = Some s5 \<and>
    (if clear_due c k s then checkInst c ld s5 = Some []
     else \<exists>ps qs s6. checkInst c ld s5 = Some ps \<and> q \<in> set ps \<and> issued c st q True s5 = Some s6 \<and>
       checkInst c ld s6 = Some qs \<and> q \<notin> set qs)"
proof -
  obtain li si where i: "calcIndexSSIT c ld = Some li" "calcIndexSSIT c st = Some si"
    using calcIndexSSIT_ok [OF assms(1)] by metis
  obtain s1 where s1: "ss_violation c st ld s = Some s1" "ss_ok c s1" "lastClearPeriodCycle s1 = lastClearPeriodCycle s"
    using violation_ok [OF assms(1,2)] by blast
  then have "not_cleared c evs s1"
    using assms(3) due_cong(2) [OF s1(3)] by simp
  then obtain s2 where s2: "ss_run c evs s1 = Some s2" "ss_ok c s2" "same_sets s1 s2"
    using ss_run_sets [OF assms(1) s1(2)] by blast
  obtain s3 where s3: "ss_violation c st ld s2 = Some s3" "ss_ok c s3" "lastClearPeriodCycle s3 = lastClearPeriodCycle s2"
    using violation_ok [OF assms(1) s2(2)] by blast
  then have "not_cleared c evs' s3"
    using assms(4) s1(3) s2(3) due_cong(2) [of s3 s] by (simp add: same_sets_def)
  then obtain s4 where s4: "ss_run c evs' s3 = Some s4" "ss_ok c s4" "same_sets s3 s4"
    using ss_run_sets [OF assms(1) s3(2)] by blast
  have due: "clear_due c k s4 = clear_due c k s"
    using s1(3) s2(3) s3(3) s4(3) by (intro due_cong) (simp add: same_sets_def)
  have "validSSIT s4 ! li" "validSSIT s4 ! si" "SSIT s4 ! li = SSIT s4 ! si"
    using violation_joins [OF assms(1,2) s1(1) i] violation_joins [OF assms(1) s2(2) s3(1) i] s2(3) s4(3)
    by (simp_all add: same_sets_def)
  note ins = insert_orders_load [OF assms(1) s4(2) _ i this, of k q] and clr = insert_cleared [OF assms(1) s4(2), of k st q ld]
  show ?thesis
    using s1(1) s2(1) s3(1) s4(1) ins clr unfolding due by (cases "clear_due c k s") fastforce+
qed

definition wit_ss_cfg :: store_set_cfg where
  "wit_ss_cfg = \<lparr>SSITSize = 16, LFSTSize = 8, LFSTEntrySize = 2, clearPeriodThreshold = 100\<rparr>"

theorem violations_order_load_witness:
  "(\<exists>s1 s2 s3 s4 s5 ps. ss_violation wit_ss_cfg 5 9 (ss_init wit_ss_cfg) = Some s1 \<and>
      ss_run wit_ss_cfg [SInsertStore 3 5 20, SInsertLoad 4, SSquash 20] s1 = Some s2 \<and> ss_violation wit_ss_cfg 5 9 s2 = Some s3 \<and>
      ss_run wit_ss_cfg [SIssued 5 20 True] s3 = Some s4 \<and>
      insertStore wit_ss_cfg 7 5 42 s4 = Some s5 \<and> checkInst wit_ss_cfg 9 s5 = Some ps \<and> 42 \<in> set ps) \<and>
   clear_due wit_ss_cfg 101 (ss_init wit_ss_cfg)"
proof -
  have cfg: "ss_cfg_ok wit_ss_cfg"
    by (simp add: ss_cfg_ok_def wit_ss_cfg_def)
  have n: "not_cleared wit_ss_cfg [SInsertStore 3 5 20, SInsertLoad 4, SSquash 20] (ss_init wit_ss_cfg)"
    "not_cleared wit_ss_cfg [SIssued 5 20 True] (ss_init wit_ss_cfg)" "\<not> clear_due wit_ss_cfg 7 (ss_init wit_ss_cfg)"
    "clear_due wit_ss_cfg 101 (ss_init wit_ss_cfg)"
    by (simp_all add: not_cleared_def clear_due_def ss_init_def wit_ss_cfg_def)
  show ?thesis
    using violations_order_load [OF cfg ss_init_ok(1) n(1,2), of 5 9 7 42] n(3,4) unfolding if_not_P [OF n(3)] by blast
qed

text \<open>One report need not be enough: the load and the store get the sets of their own addresses.\<close>

lemma one_violation_not_enough:
  "Option.bind (ss_violation wit_ss_cfg 5 9 (ss_init wit_ss_cfg)) (insertStore wit_ss_cfg 7 5 42) \<noteq> None"
  "Option.bind (Option.bind (ss_violation wit_ss_cfg 5 9 (ss_init wit_ss_cfg)) (insertStore wit_ss_cfg 7 5 42))
     (checkInst wit_ss_cfg 9) = Some []"
  by code_simp+

end
