(* ===== verification/MemDepInv.thy ===== *)
theory MemDepInv
  imports MemDep StoreSetProps
begin

text \<open>
  The invariant of the memory dependence unit: the hash, the list of instructions and the heap agree,
  and the counter of an instruction in flight is the number of times instructions in flight list it as
  a dependent. The invariant is kept when an instruction enters, completes or is squashed.
\<close>

section \<open>Invariant\<close>

definition md_seq :: "md_entry \<Rightarrow> seq_num" where
  "md_seq e = md_seqNum (me_inst e)"

definition is_producer :: "md_inst \<Rightarrow> bool" where
  "is_producer i \<longleftrightarrow>
     md_isStore i \<or> md_isAtomic i \<or> md_isReadBarrier i \<or> md_isWriteBarrier i \<or> md_isHtmCmd i"

definition ent :: "mem_dep \<Rightarrow> seq_num \<Rightarrow> md_entry" where
  "ent s q = md_heap s ! the (memDepHash s q)"

text \<open>How often instructions in flight have an entry among their dependents.\<close>

definition refs :: "mem_dep \<Rightarrow> nat \<Rightarrow> nat" where
  "refs s d = (\<Sum>i\<leftarrow>md_instList s. count_list (dependInsts (ent s (md_seqNum i))) d)"

definition hash_ok :: "mem_dep \<Rightarrow> bool" where
  "hash_ok s \<longleftrightarrow>
     sorted_wrt (<) (map md_seq (md_heap s)) \<and> sorted_wrt (<) (map md_seqNum (md_instList s)) \<and>
     (\<forall>q p. memDepHash s q = Some p \<longrightarrow> p < length (md_heap s) \<and> md_seq (md_heap s ! p) = q \<and>
        me_inst (md_heap s ! p) \<in> set (md_instList s) \<and> \<not> me_squashed (md_heap s ! p)) \<and>
     (\<forall>i\<in>set (md_instList s). \<exists>p. memDepHash s (md_seqNum i) = Some p \<and> me_inst (md_heap s ! p) = i)"

definition live :: "mem_dep \<Rightarrow> nat \<Rightarrow> bool" where
  "live s d \<longleftrightarrow> memDepHash s (md_seq (md_heap s ! d)) = Some d"

definition wait_ok :: "mem_dep \<Rightarrow> bool" where
  "wait_ok s \<longleftrightarrow>
     (\<forall>d<length (md_heap s). refs s d \<le> memDeps (md_heap s ! d) \<and>
        (live s d \<longrightarrow> refs s d = memDeps (md_heap s ! d))) \<and>
     (\<forall>i\<in>set (md_instList s). \<forall>d\<in>set (dependInsts (ent s (md_seqNum i))).
        d < length (md_heap s) \<and> md_seqNum i < md_seq (md_heap s ! d) \<and> is_producer i \<and>
        (live s d \<or> me_squashed (md_heap s ! d)))"

text \<open>The instructions in flight an instruction waits for, and whether it was released the right
  number of times.\<close>

definition waits :: "mem_dep \<Rightarrow> seq_num \<Rightarrow> seq_num set" where
  "waits s q = {r. \<exists>p p'. memDepHash s q = Some p \<and> memDepHash s r = Some p' \<and> p \<in> set (dependInsts (md_heap s ! p'))}"

definition released :: "mem_dep \<Rightarrow> seq_num \<Rightarrow> bool" where
  "released s q \<longleftrightarrow> count_list (memDepDone s) q = (if memDeps (ent s q) = 0 then 1 else 0)"

definition keeps :: "mem_dep \<Rightarrow> mem_dep \<Rightarrow> bool" where
  "keeps s s' \<longleftrightarrow>
     (\<forall>q\<in>dom (memDepHash s) \<inter> dom (memDepHash s').
        waits s' q = waits s q \<inter> dom (memDepHash s') \<and> (released s q \<longrightarrow> released s' q))"

lemma hash_ok_ptr:
  assumes "hash_ok s" and "memDepHash s q = Some p"
  shows "p < length (md_heap s)" "md_seq (md_heap s ! p) = q" "me_inst (md_heap s ! p) \<in> set (md_instList s)"
    "\<not> me_squashed (md_heap s ! p)" "live s p" "ent s q = md_heap s ! p"
  using assms by (auto simp: hash_ok_def live_def ent_def)

lemma hash_ok_inst:
  assumes "hash_ok s" and "i \<in> set (md_instList s)"
  shows "\<exists>p. memDepHash s (md_seqNum i) = Some p \<and> ent s (md_seqNum i) = md_heap s ! p \<and> me_inst (md_heap s ! p) = i"
  using assms by (auto simp: hash_ok_def ent_def)

lemma hash_ok_dom: "hash_ok s \<Longrightarrow> dom (memDepHash s) = md_seqNum ` set (md_instList s)"
proof (rule equalityI)
  assume ok: "hash_ok s"
  show "dom (memDepHash s) \<subseteq> md_seqNum ` set (md_instList s)"
    using hash_ok_ptr(2,3) [OF ok] by (force simp: md_seq_def dom_def)
  show "md_seqNum ` set (md_instList s) \<subseteq> dom (memDepHash s)"
    using hash_ok_inst [OF ok] by blast
qed

lemma sum_list_0_iff: "(\<Sum>x\<leftarrow>xs. f x) = 0 \<longleftrightarrow> (\<forall>x\<in>set xs. f x = 0)" for f :: "'a \<Rightarrow> nat"
  by (induction xs) auto

lemma refs_0_iff: "refs s d = 0 \<longleftrightarrow> (\<forall>i\<in>set (md_instList s). d \<notin> set (dependInsts (ent s (md_seqNum i))))"
  by (simp add: refs_def sum_list_0_iff count_list_0_iff)

text \<open>An instruction in flight waits for nothing exactly when its counter is zero.\<close>

lemma waits_empty_iff:
  assumes "hash_ok s" and "wait_ok s" and "memDepHash s q = Some p"
  shows "waits s q = {} \<longleftrightarrow> memDeps (ent s q) = 0"
proof -
  have "waits s q = {} \<longleftrightarrow> (\<forall>r\<in>dom (memDepHash s). p \<notin> set (dependInsts (ent s r)))"
    using assms(3) unfolding waits_def ent_def dom_def by auto
  also have "\<dots> \<longleftrightarrow> refs s p = 0"
    using hash_ok_dom [OF assms(1)] by (simp add: refs_0_iff)
  finally show ?thesis
    using assms(2) hash_ok_ptr [OF assms(1,3)] by (auto simp: wait_ok_def)
qed

section \<open>Insertion\<close>

lemma count_list_replicate: "count_list (replicate n x) y = (if x = y then n else 0)"
  by (induction n) auto

lemma add_dependent_nth:
  "\<forall>e\<in>set es. e < length h \<Longrightarrow>
   length (add_dependent p es h) = length h \<and>
   (\<forall>k<length h. add_dependent p es h ! k =
      (h ! k)\<lparr>dependInsts := dependInsts (h ! k) @ replicate (count_list es k) p\<rparr>)"
proof (induction es arbitrary: h)
  case (Cons e es)
  let ?h = "h[e := (h ! e)\<lparr>dependInsts := dependInsts (h ! e) @ [p]\<rparr>]"
  have "\<forall>k<length h. add_dependent p es ?h ! k =
      (?h ! k)\<lparr>dependInsts := dependInsts (?h ! k) @ replicate (count_list es k) p\<rparr>"
    and "length (add_dependent p es ?h) = length h"
    using Cons.IH [of ?h] Cons.prems by auto
  then show ?case
    using Cons.prems by (auto simp: nth_list_update replicate_app_Cons_same)
qed simp

lemma count_list_distinct: "distinct xs \<Longrightarrow> x \<in> set xs \<Longrightarrow> count_list xs x = 1"
  by (induction xs) (auto simp: count_list_0_iff)

lemma sum_count_list:
  assumes "distinct (map f xs)" and "set es \<subseteq> f ` set xs"
  shows "(\<Sum>x\<leftarrow>xs. count_list es (f x)) = length es"
  using assms(2)
proof (induction es)
  case Nil
  then show ?case
    by (simp add: sum_list_0_iff)
next
  case (Cons e es)
  have "(\<Sum>x\<leftarrow>xs. if e = f x then 1 else 0) = count_list (map f xs) e"
    by (induction xs) auto
  also have "\<dots> = 1"
    using Cons.prems assms(1) by (metis count_list_distinct list.set_intros(1) list.set_map subset_iff)
  finally have "(\<Sum>x\<leftarrow>xs. if e = f x then 1 else 0 :: nat) = 1" .
  moreover have "(\<Sum>x\<leftarrow>xs. count_list (e # es) (f x)) =
      (\<Sum>x\<leftarrow>xs. count_list es (f x)) + (\<Sum>x\<leftarrow>xs. if e = f x then 1 else 0)"
    by (simp flip: sum_list_addf) (rule arg_cong [where f = sum_list], auto)
  ultimately show ?case
    using Cons by simp
qed

text \<open>The state after an instruction has entered, waiting for the entries \<open>es\<close>.\<close>

definition entered :: "md_inst \<Rightarrow> nat list \<Rightarrow> mem_dep \<Rightarrow> mem_dep \<Rightarrow> bool" where
  "entered i es s s' \<longleftrightarrow>
     (let p = length (md_heap s) in
      length (md_heap s') = Suc p \<and>
      (\<forall>k<p. md_heap s' ! k =
         (md_heap s ! k)\<lparr>dependInsts := dependInsts (md_heap s ! k) @ replicate (count_list es k) p\<rparr>) \<and>
      md_heap s' ! p = \<lparr>me_inst = i, dependInsts = [], memDeps = length es, me_squashed = False\<rparr> \<and>
      memDepHash s' = (memDepHash s)(md_seqNum i \<mapsto> p) \<and> md_instList s' = md_instList s @ [i])"

definition waitable :: "mem_dep \<Rightarrow> nat list \<Rightarrow> bool" where
  "waitable s es \<longleftrightarrow> (\<forall>e\<in>set es. \<exists>j\<in>set (md_instList s). memDepHash s (md_seqNum j) = Some e \<and> is_producer j)"

definition fresh :: "md_inst \<Rightarrow> mem_dep \<Rightarrow> bool" where
  "fresh i s \<longleftrightarrow> (\<forall>e\<in>set (md_heap s). md_seq e < md_seqNum i)"

lemma fresh_hash: "hash_ok s \<Longrightarrow> fresh i s \<Longrightarrow> memDepHash s q = Some p \<Longrightarrow> q < md_seqNum i"
  using hash_ok_ptr(1,2) [of s q p] by (auto simp: fresh_def)

lemma entered_facts:
  assumes "hash_ok s" and "fresh i s" and "entered i es s s'"
  shows "memDepHash s (md_seqNum i) = None" "map md_seq (md_heap s') = map md_seq (md_heap s) @ [md_seqNum i]"
    "k < length (md_heap s) \<Longrightarrow> me_inst (md_heap s' ! k) = me_inst (md_heap s ! k) \<and>
       memDeps (md_heap s' ! k) = memDeps (md_heap s ! k) \<and> me_squashed (md_heap s' ! k) = me_squashed (md_heap s ! k) \<and>
       set (dependInsts (md_heap s' ! k)) =
         set (dependInsts (md_heap s ! k)) \<union> (if k \<in> set es then {length (md_heap s)} else {})"
    "k < length (md_heap s) \<Longrightarrow> live s' k \<longleftrightarrow> live s k"
proof -
  show n: "memDepHash s (md_seqNum i) = None"
    using fresh_hash [OF assms(1,2), of "md_seqNum i"] by (cases "memDepHash s (md_seqNum i)") auto
  show "map md_seq (md_heap s') = map md_seq (md_heap s) @ [md_seqNum i]"
    using assms(3) by (intro nth_equalityI) (auto simp: entered_def Let_def nth_append md_seq_def less_Suc_eq)
  show e: "k < length (md_heap s) \<Longrightarrow> me_inst (md_heap s' ! k) = me_inst (md_heap s ! k) \<and>
       memDeps (md_heap s' ! k) = memDeps (md_heap s ! k) \<and> me_squashed (md_heap s' ! k) = me_squashed (md_heap s ! k) \<and>
       set (dependInsts (md_heap s' ! k)) =
         set (dependInsts (md_heap s ! k)) \<union> (if k \<in> set es then {length (md_heap s)} else {})"
    using assms(3) by (auto simp: entered_def Let_def count_list_0_iff)
  show "k < length (md_heap s) \<Longrightarrow> live s' k \<longleftrightarrow> live s k"
    using e assms(2,3) n by (auto simp: entered_def Let_def live_def md_seq_def fresh_def)
qed

lemma entered_hash_ok:
  assumes "hash_ok s" and "fresh i s" and "entered i es s s'"
  shows "hash_ok s'"
proof -
  let ?p = "length (md_heap s)"
  note f = entered_facts [OF assms]
  have h: "memDepHash s' = (memDepHash s)(md_seqNum i \<mapsto> ?p)" "md_instList s' = md_instList s @ [i]"
    "length (md_heap s') = Suc ?p" "md_heap s' ! ?p = \<lparr>me_inst = i, dependInsts = [], memDeps = length es, me_squashed = False\<rparr>"
    using assms(3) by (simp_all add: entered_def Let_def)
  have "sorted_wrt (<) (map md_seq (md_heap s'))"
    unfolding f(2) using assms(1,2) by (auto simp: sorted_wrt_append hash_ok_def fresh_def)
  moreover have "\<forall>j\<in>set (md_instList s). md_seqNum j < md_seqNum i"
    using hash_ok_inst [OF assms(1)] fresh_hash [OF assms(1,2)] by blast
  then have "sorted_wrt (<) (map md_seqNum (md_instList s'))"
    using assms(1) by (auto simp: h sorted_wrt_append hash_ok_def)
  moreover have "p < length (md_heap s') \<and> md_seq (md_heap s' ! p) = q \<and> me_inst (md_heap s' ! p) \<in> set (md_instList s') \<and>
      \<not> me_squashed (md_heap s' ! p)" if "memDepHash s' q = Some p" for q p
    using that hash_ok_ptr [OF assms(1), of q p] f(3) [of p] by (auto simp: h md_seq_def split: if_splits)
  moreover have "\<exists>p. memDepHash s' (md_seqNum j) = Some p \<and> me_inst (md_heap s' ! p) = j" if "j \<in> set (md_instList s')" for j
  proof (cases "j = i")
    case False
    then have "j \<in> set (md_instList s)"
      using that by (simp add: h)
    then obtain p where "memDepHash s (md_seqNum j) = Some p" "me_inst (md_heap s ! p) = j"
      using hash_ok_inst [OF assms(1)] by blast
    then show ?thesis
      using hash_ok_ptr(1) [OF assms(1)] f(1,3) by (intro exI [of _ p]) (auto simp: h)
  qed (simp add: h)
  ultimately show ?thesis
    unfolding hash_ok_def by blast
qed

lemma entered_refs:
  assumes "hash_ok s" and "wait_ok s" and "fresh i s" and "waitable s es" and "entered i es s s'"
    and "d < length (md_heap s')"
  shows "refs s' d = (if d = length (md_heap s) then length es else refs s d)"
proof -
  let ?p = "length (md_heap s)" and ?ptr = "\<lambda>j. the (memDepHash s (md_seqNum j))"
  have h: "memDepHash s' = (memDepHash s)(md_seqNum i \<mapsto> ?p)" "md_instList s' = md_instList s @ [i]"
    "dependInsts (md_heap s' ! ?p) = []"
    "\<And>k. k < ?p \<Longrightarrow> dependInsts (md_heap s' ! k) = dependInsts (md_heap s ! k) @ replicate (count_list es k) ?p"
    using assms(5) by (simp_all add: entered_def Let_def)
  have ent: "dependInsts (ent s' (md_seqNum j)) =
      dependInsts (ent s (md_seqNum j)) @ replicate (count_list es (?ptr j)) ?p" if "j \<in> set (md_instList s)" for j
    using hash_ok_inst [OF assms(1) that] hash_ok_ptr(1) [OF assms(1)] entered_facts(1) [OF assms(1,3,5)]
    by (auto simp: ent_def h)
  have "refs s' d = (\<Sum>j\<leftarrow>md_instList s. count_list (dependInsts (ent s' (md_seqNum j))) d)"
    by (simp add: refs_def h ent_def)
  also have "\<dots> = (\<Sum>j\<leftarrow>md_instList s. count_list (dependInsts (ent s (md_seqNum j))) d +
      (if ?p = d then count_list es (?ptr j) else 0))"
    by (rule arg_cong [where f = sum_list]) (auto simp: ent count_list_replicate intro!: map_cong)
  also have "\<dots> = refs s d + (if ?p = d then \<Sum>j\<leftarrow>md_instList s. count_list es (?ptr j) else 0)"
    by (simp add: refs_def sum_list_addf)
  finally have r: "refs s' d = refs s d + (if ?p = d then \<Sum>j\<leftarrow>md_instList s. count_list es (?ptr j) else 0)" .
  show ?thesis
  proof (cases "d = ?p")
    case True
    have "refs s d = 0"
      using assms(2) True by (auto simp: refs_0_iff wait_ok_def)
    moreover have "distinct (md_instList s)"
      using assms(1) strict_sorted_iff distinct_map unfolding hash_ok_def by blast
    then have "distinct (map ?ptr (md_instList s))"
      using hash_ok_inst [OF assms(1)] by (auto simp: distinct_map inj_on_def) (metis option.sel)
    then have "(\<Sum>j\<leftarrow>md_instList s. count_list es (?ptr j)) = length es"
      by (rule sum_count_list) (use assms(4) in \<open>force simp: waitable_def\<close>)
    ultimately show ?thesis
      using r True by simp
  qed (use r in auto)
qed

lemma entered_wait_ok:
  assumes "hash_ok s" and "wait_ok s" and "fresh i s" and "waitable s es" and "entered i es s s'"
  shows "wait_ok s'"
proof -
  let ?p = "length (md_heap s)"
  note f = entered_facts [OF assms(1,3,5)]
  have h: "memDepHash s' = (memDepHash s)(md_seqNum i \<mapsto> ?p)" "md_instList s' = md_instList s @ [i]"
    "length (md_heap s') = Suc ?p" "md_heap s' ! ?p = \<lparr>me_inst = i, dependInsts = [], memDeps = length es, me_squashed = False\<rparr>"
    using assms(5) by (simp_all add: entered_def Let_def)
  have "refs s' d \<le> memDeps (md_heap s' ! d) \<and> (live s' d \<longrightarrow> refs s' d = memDeps (md_heap s' ! d))"
    if "d < length (md_heap s')" for d
    using entered_refs [OF assms that] that f(3,4) [of d] assms(2) h by (auto simp: wait_ok_def less_Suc_eq)
  moreover have "d < length (md_heap s') \<and> md_seqNum j < md_seq (md_heap s' ! d) \<and> is_producer j \<and>
      (live s' d \<or> me_squashed (md_heap s' ! d))"
    if "j \<in> set (md_instList s')" "d \<in> set (dependInsts (ent s' (md_seqNum j)))" for j d
  proof -
    have "j \<noteq> i"
      using that by (auto simp: ent_def h)
    then have j: "j \<in> set (md_instList s)"
      using that(1) h by simp
    then obtain k where k0: "memDepHash s (md_seqNum j) = Some k" "me_inst (md_heap s ! k) = j"
      using hash_ok_inst [OF assms(1)] by blast
    have k: "memDepHash s (md_seqNum j) = Some k" "me_inst (md_heap s ! k) = j" "k < ?p"
      "ent s' (md_seqNum j) = md_heap s' ! k" "ent s (md_seqNum j) = md_heap s ! k"
      using k0 hash_ok_ptr(1) [OF assms(1) k0(1)] f(1) by (auto simp: ent_def h)
    show ?thesis
    proof (cases "d \<in> set (dependInsts (md_heap s ! k))")
      case True
      then have "d < ?p" "md_seqNum j < md_seq (md_heap s ! d)" "is_producer j" "live s d \<or> me_squashed (md_heap s ! d)"
        using assms(2) j k(5) by (auto simp: wait_ok_def)
      then show ?thesis
        using f(3,4) [of d] h(3) by (simp add: md_seq_def)
    next
      case False
      then have d: "k \<in> set es" "d = ?p"
        using that(2) k(3,4) f(3) [of k] by (auto split: if_splits)
      obtain j' where "j' \<in> set (md_instList s)" "memDepHash s (md_seqNum j') = Some k" "is_producer j'"
        using assms(4) d(1) by (auto simp: waitable_def)
      then have "is_producer j"
        using hash_ok_inst [OF assms(1)] k(2) by fastforce
      moreover have "md_seqNum j < md_seqNum i"
        using fresh_hash [OF assms(1,3) k(1)] .
      ultimately show ?thesis
        using d(2) h by (simp add: live_def md_seq_def)
    qed
  qed
  ultimately show ?thesis
    unfolding wait_ok_def by blast
qed

lemma entered_keeps:
  assumes "hash_ok s" and "wait_ok s" and "fresh i s" and "waitable s es" and "entered i es s s'"
    and "memDepDone s' = memDepDone s @ ms" and "set ms \<subseteq> {md_seqNum i}"
  shows "keeps s s'" "waits s' (md_seqNum i) = {r. \<exists>e\<in>set es. memDepHash s r = Some e}"
proof -
  let ?p = "length (md_heap s)"
  note f = entered_facts [OF assms(1,3,5)]
  have h: "memDepHash s' = (memDepHash s)(md_seqNum i \<mapsto> ?p)" "dependInsts (md_heap s' ! ?p) = []"
    using assms(5) by (simp_all add: entered_def Let_def)
  have w: "waits s' q = waits s q \<and> (released s q \<longrightarrow> released s' q)" if "memDepHash s q = Some k" for q k
  proof -
    have k: "k < ?p" "q < md_seqNum i"
      using hash_ok_ptr(1) [OF assms(1) that] fresh_hash [OF assms(1,3) that] .
    have "count_list ms q = 0"
      using assms(7) k(2) by (auto simp: count_list_0_iff)
    moreover have "k \<in> set (dependInsts (md_heap s' ! l)) \<longleftrightarrow> k \<in> set (dependInsts (md_heap s ! l))" if "l < ?p" for l
      using f(3) [OF that] k(1) by auto
    ultimately show ?thesis
      using that f(1) f(3) [OF k(1)] hash_ok_ptr(1) [OF assms(1)] assms(6) k
      by (auto simp: waits_def h released_def ent_def split: if_splits)
  qed
  moreover have "waits s q \<subseteq> dom (memDepHash s)" for q
    by (auto simp: waits_def)
  ultimately show "keeps s s'"
    using h(1) f(1) unfolding keeps_def by fastforce
  show "waits s' (md_seqNum i) = {r. \<exists>e\<in>set es. memDepHash s r = Some e}"
  proof -
    have "?p \<in> set (dependInsts (md_heap s' ! l)) \<longleftrightarrow> l \<in> set es" if "memDepHash s r = Some l" for r l
    proof -
      have l: "l < ?p" "ent s r = md_heap s ! l" "me_inst (md_heap s ! l) \<in> set (md_instList s)" "md_seq (md_heap s ! l) = r"
        using hash_ok_ptr [OF assms(1) that] by blast+
      then have "?p \<notin> set (dependInsts (md_heap s ! l))"
        using assms(2) by (metis less_irrefl md_seq_def wait_ok_def)
      then show ?thesis
        using f(3) [OF l(1)] by auto
    qed
    then show ?thesis
      using f(1) h by (auto simp: waits_def split: if_splits)
  qed
qed

section \<open>Completion\<close>

lemma hash_ok_distinct:
  assumes "hash_ok s"
  shows "distinct (md_instList s)" "distinct (map md_seq (md_heap s))"
    "k < length (md_heap s) \<Longrightarrow> l < length (md_heap s) \<Longrightarrow> md_seq (md_heap s ! k) = md_seq (md_heap s ! l) \<longleftrightarrow> k = l"
proof -
  show "distinct (md_instList s)" and d: "distinct (map md_seq (md_heap s))"
    using assms strict_sorted_iff distinct_map unfolding hash_ok_def by blast+
  show "k < length (md_heap s) \<Longrightarrow> l < length (md_heap s) \<Longrightarrow> md_seq (md_heap s ! k) = md_seq (md_heap s ! l) \<longleftrightarrow> k = l"
    using d nth_eq_iff_index_eq [of "map md_seq (md_heap s)" k l] by simp
qed

lemma wake_loop_ok:
  assumes "distinct (map md_seq (md_heap s))" and "\<forall>d\<in>set ds. d < length (md_heap s)"
    and "\<And>d. d \<in> set ds \<Longrightarrow> count_list ds d \<le> memDeps (md_heap s ! d)"
  shows "\<exists>h dn. wake_loop ds s = Some (s\<lparr>md_heap := h, memDepDone := dn\<rparr>) \<and> length h = length (md_heap s) \<and>
    (\<forall>k<length h. h ! k = (md_heap s ! k)\<lparr>memDeps := memDeps (md_heap s ! k) - count_list ds k\<rparr>) \<and>
    (\<forall>k<length h. count_list dn (md_seq (md_heap s ! k)) = count_list (memDepDone s) (md_seq (md_heap s ! k)) +
       (if k \<in> set ds \<and> memDeps (md_heap s ! k) = count_list ds k \<and> \<not> me_squashed (md_heap s ! k) then 1 else 0)) \<and>
    set dn \<subseteq> set (memDepDone s) \<union> md_seq ` set (md_heap s)"
  using assms
proof (induction ds arbitrary: s)
  case Nil
  then show ?case
    by (intro exI [of _ "md_heap s"] exI [of _ "memDepDone s"]) auto
next
  case (Cons d ds)
  let ?e = "md_heap s ! d"
  let ?s1 = "s\<lparr>md_heap := (md_heap s)[d := ?e\<lparr>memDeps := memDeps ?e - 1\<rparr>],
        memDepDone := (if memDeps ?e = 1 \<and> \<not> me_squashed ?e
          then memDepDone s @ [md_seqNum (me_inst ?e)] else memDepDone s)\<rparr>"
  have d: "d < length (md_heap s)" "Suc (count_list ds d) \<le> memDeps ?e"
    using Cons.prems(2) Cons.prems(3) [of d] by auto
  have seqs: "map md_seq (md_heap ?s1) = map md_seq (md_heap s)"
    using d(1) by (simp add: map_update md_seq_def list_update_id [of "map md_seq (md_heap s)" d, simplified nth_map [OF d(1)] md_seq_def])
  have nth: "md_heap ?s1 ! k = (if k = d then ?e\<lparr>memDeps := memDeps ?e - 1\<rparr> else md_heap s ! k)" for k
    using d(1) by (simp add: nth_list_update)
  have inj: "k < length (md_heap s) \<Longrightarrow> md_seq (md_heap s ! k) = md_seq ?e \<longleftrightarrow> k = d" for k
    using Cons.prems(1) d(1) nth_eq_iff_index_eq [of "map md_seq (md_heap s)" k d] by simp
  have cnt: "count_list ds k \<le> memDeps (md_heap ?s1 ! k)" if "k \<in> set ds" for k
    using Cons.prems(3) [of k] d(2) that unfolding nth by auto
  obtain h dn where IH: "wake_loop ds ?s1 = Some (?s1\<lparr>md_heap := h, memDepDone := dn\<rparr>)" "length h = length (md_heap s)"
    "\<And>k. k < length h \<Longrightarrow> h ! k = (md_heap ?s1 ! k)\<lparr>memDeps := memDeps (md_heap ?s1 ! k) - count_list ds k\<rparr>"
    "\<And>k. k < length h \<Longrightarrow> count_list dn (md_seq (md_heap ?s1 ! k)) = count_list (memDepDone ?s1) (md_seq (md_heap ?s1 ! k)) +
       (if k \<in> set ds \<and> memDeps (md_heap ?s1 ! k) = count_list ds k \<and> \<not> me_squashed (md_heap ?s1 ! k) then 1 else 0)"
    "set dn \<subseteq> set (memDepDone ?s1) \<union> md_seq ` set (md_heap ?s1)"
    using Cons.IH [of ?s1] Cons.prems(1,2) cnt seqs by auto
  have "wake_loop (d # ds) s = Some (s\<lparr>md_heap := h, memDepDone := dn\<rparr>)"
    using IH(1) d(2) by (simp add: Let_def)
  moreover have "h ! k = (md_heap s ! k)\<lparr>memDeps := memDeps (md_heap s ! k) - count_list (d # ds) k\<rparr>" if "k < length h" for k
    using IH(3) [OF that, unfolded nth] by auto
  moreover have "count_list dn (md_seq (md_heap s ! k)) = count_list (memDepDone s) (md_seq (md_heap s ! k)) +
       (if k \<in> set (d # ds) \<and> memDeps (md_heap s ! k) = count_list (d # ds) k \<and> \<not> me_squashed (md_heap s ! k) then 1 else 0)"
    if "k < length h" for k
  proof (cases "k = d")
    case True
    then show ?thesis
      using IH(4) [OF that, unfolded nth] d(2) count_list_0_iff [of ds d] by (auto simp: md_seq_def)
  next
    case False
    then show ?thesis
      using IH(4) [OF that, unfolded nth] inj [of k] that IH(2) by (auto simp: md_seq_def)
  qed
  moreover have "set dn \<subseteq> set (memDepDone s) \<union> md_seq ` set (md_heap s)"
  proof -
    have "md_seq ` set (md_heap ?s1) = md_seq ` set (md_heap s)"
      using seqs by (metis list.set_map)
    moreover have "md_seqNum (me_inst ?e) \<in> md_seq ` set (md_heap s)"
      using d(1) by (auto simp: md_seq_def)
    ultimately show ?thesis
      using IH(5) by (auto split: if_splits)
  qed
  ultimately show ?case
    using IH(2) by blast
qed

text \<open>An instruction leaves the hash and the list.\<close>

definition left_unit :: "md_inst \<Rightarrow> nat \<Rightarrow> mem_dep \<Rightarrow> mem_dep \<Rightarrow> bool" where
  "left_unit i p s s' \<longleftrightarrow>
     memDepHash s (md_seqNum i) = Some p \<and> i \<in> set (md_instList s) \<and>
     map me_inst (md_heap s') = map me_inst (md_heap s) \<and>
     (\<forall>k<length (md_heap s). k \<noteq> p \<longrightarrow> me_squashed (md_heap s' ! k) = me_squashed (md_heap s ! k) \<and>
        dependInsts (md_heap s' ! k) = dependInsts (md_heap s ! k)) \<and>
     memDepHash s' = (memDepHash s)(md_seqNum i := None) \<and> md_instList s' = remove1 i (md_instList s)"

lemma left_unit_seq:
  assumes "left_unit i p s s'"
  shows "length (md_heap s') = length (md_heap s)" "k < length (md_heap s) \<Longrightarrow> me_inst (md_heap s' ! k) = me_inst (md_heap s ! k)"
    "k < length (md_heap s) \<Longrightarrow> md_seq (md_heap s' ! k) = md_seq (md_heap s ! k)" "map md_seq (md_heap s') = map md_seq (md_heap s)"
proof -
  have m: "map me_inst (md_heap s') = map me_inst (md_heap s)"
    using assms by (simp add: left_unit_def)
  then show l: "length (md_heap s') = length (md_heap s)"
    using map_eq_imp_length_eq by blast
  show i: "me_inst (md_heap s' ! k) = me_inst (md_heap s ! k)" if "k < length (md_heap s)" for k
    using arg_cong [OF m, of "\<lambda>xs. xs ! k"] l that by simp
  then show "md_seq (md_heap s' ! k) = md_seq (md_heap s ! k)" if "k < length (md_heap s)" for k
    using that by (simp add: md_seq_def)
  have "map md_seq xs = map md_seqNum (map me_inst xs)" for xs
    by (simp add: md_seq_def)
  then show "map md_seq (md_heap s') = map md_seq (md_heap s)"
    using m by metis
qed

lemma left_unit_facts:
  assumes "hash_ok s" and "left_unit i p s s'"
  shows "p < length (md_heap s)" "md_seq (md_heap s ! p) = md_seqNum i" "me_inst (md_heap s ! p) = i"
    "set (md_instList s') = set (md_instList s) - {i}"
    "k < length (md_heap s) \<Longrightarrow> live s' k \<longleftrightarrow> live s k \<and> k \<noteq> p"
    "j \<in> set (md_instList s') \<Longrightarrow> md_seqNum j \<noteq> md_seqNum i"
    "j \<in> set (md_instList s') \<Longrightarrow> dependInsts (ent s' (md_seqNum j)) = dependInsts (ent s (md_seqNum j))"
proof -
  have h: "memDepHash s (md_seqNum i) = Some p" "i \<in> set (md_instList s)"
    "memDepHash s' = (memDepHash s)(md_seqNum i := None)" "md_instList s' = remove1 i (md_instList s)"
    using assms(2) by (simp_all add: left_unit_def)
  note p = hash_ok_ptr [OF assms(1) h(1)]
  show "p < length (md_heap s)" "md_seq (md_heap s ! p) = md_seqNum i"
    using p by blast+
  show pi: "me_inst (md_heap s ! p) = i"
    using hash_ok_inst [OF assms(1) h(2)] h(1) by auto
  show il: "set (md_instList s') = set (md_instList s) - {i}"
    using hash_ok_distinct(1) [OF assms(1)] by (simp add: h set_remove1_eq)
  show "live s' k \<longleftrightarrow> live s k \<and> k \<noteq> p" if "k < length (md_heap s)"
    using hash_ok_distinct(3) [OF assms(1) that p(1)] left_unit_seq(3) [OF assms(2) that] p(2) h(3)
    by (auto simp: live_def)
  have ptr: "\<exists>k. memDepHash s (md_seqNum j) = Some k \<and> k \<noteq> p \<and> md_seqNum j \<noteq> md_seqNum i" if "j \<in> set (md_instList s')" for j
  proof -
    have j: "j \<in> set (md_instList s)" "j \<noteq> i"
      using that il by simp_all
    obtain k where k: "memDepHash s (md_seqNum j) = Some k" "me_inst (md_heap s ! k) = j"
      using hash_ok_inst [OF assms(1) j(1)] by blast
    have "k \<noteq> p"
      using k(2) pi j(2) by auto
    moreover have "md_seqNum j \<noteq> md_seqNum i"
      using k(1) h(1) \<open>k \<noteq> p\<close> by (metis option.inject)
    ultimately show ?thesis
      using k(1) by blast
  qed
  show "md_seqNum j \<noteq> md_seqNum i" if "j \<in> set (md_instList s')"
    using ptr [OF that] by blast
  show "dependInsts (ent s' (md_seqNum j)) = dependInsts (ent s (md_seqNum j))" if "j \<in> set (md_instList s')"
  proof -
    obtain k where k: "memDepHash s (md_seqNum j) = Some k" "k \<noteq> p" "md_seqNum j \<noteq> md_seqNum i"
      using ptr [OF \<open>j \<in> set (md_instList s')\<close>] by blast
    then show ?thesis
      using hash_ok_ptr(1) [OF assms(1) k(1)] assms(2) by (simp add: left_unit_def ent_def)
  qed
qed

lemma left_unit_hash_ok:
  assumes "hash_ok s" and "left_unit i p s s'"
  shows "hash_ok s'"
proof -
  note f = left_unit_facts [OF assms] and e = left_unit_seq [OF assms(2)]
  have h: "memDepHash s (md_seqNum i) = Some p" "memDepHash s' = (memDepHash s)(md_seqNum i := None)"
    "md_instList s' = remove1 i (md_instList s)"
    using assms(2) by (simp_all add: left_unit_def)
  have "sorted_wrt (<) (map md_seqNum (remove1 i (md_instList s)))"
    using assms(1) hash_ok_distinct(1) [OF assms(1)]
    by (simp add: hash_ok_def sorted_wrt_map distinct_remove1_removeAll removeAll_filter_not_eq sorted_wrt_filter)
  moreover have "k < length (md_heap s') \<and> md_seq (md_heap s' ! k) = q \<and> me_inst (md_heap s' ! k) \<in> set (md_instList s') \<and>
      \<not> me_squashed (md_heap s' ! k)" if "memDepHash s' q = Some k" for q k
  proof -
    have q: "memDepHash s q = Some k" "q \<noteq> md_seqNum i"
      using that h(2) by (auto split: if_splits)
    note k = hash_ok_ptr [OF assms(1) q(1)]
    have "k \<noteq> p"
      using k(2) f(2) q(2) by auto
    then show ?thesis
      using k e(1) e(2,3) [of k] f(3,4) q(2) assms(2) by (auto simp: left_unit_def md_seq_def)
  qed
  moreover have "\<exists>k. memDepHash s' (md_seqNum j) = Some k \<and> me_inst (md_heap s' ! k) = j" if "j \<in> set (md_instList s')" for j
  proof -
    have "j \<in> set (md_instList s)"
      using that f(4) by simp
    then obtain k where k: "memDepHash s (md_seqNum j) = Some k" "me_inst (md_heap s ! k) = j"
      using hash_ok_inst [OF assms(1)] by blast
    then show ?thesis
      using f(6) [OF that] e(2) hash_ok_ptr(1) [OF assms(1) k(1)] by (simp add: h(2))
  qed
  moreover have "sorted_wrt (<) (map md_seq (md_heap s'))"
    using assms(1) e(4) by (simp add: hash_ok_def)
  ultimately show ?thesis
    unfolding hash_ok_def h(3) by blast
qed

lemma left_unit_refs:
  assumes "hash_ok s" and "left_unit i p s s'"
  shows "refs s d = count_list (dependInsts (md_heap s ! p)) d + refs s' d"
proof -
  let ?f = "\<lambda>j. count_list (dependInsts (ent s (md_seqNum j))) d"
  have i: "i \<in> set (md_instList s)" "md_instList s' = remove1 i (md_instList s)" "ent s (md_seqNum i) = md_heap s ! p"
    using assms(2) by (simp_all add: left_unit_def ent_def)
  have "refs s' d = (\<Sum>j\<leftarrow>md_instList s'. ?f j)"
    unfolding refs_def using left_unit_facts(7) [OF assms] by (intro arg_cong [where f = sum_list] map_cong) auto
  then show ?thesis
    using sum_list_map_remove1 [OF i(1), of ?f] i(2,3) by (simp add: refs_def)
qed

lemma left_unit_waits:
  assumes "hash_ok s" and "left_unit i p s s'" and "q \<noteq> md_seqNum i"
  shows "waits s' q = waits s q \<inter> dom (memDepHash s')"
proof -
  have h: "memDepHash s' = (memDepHash s)(md_seqNum i := None)" "memDepHash s (md_seqNum i) = Some p"
    using assms(2) by (simp_all add: left_unit_def)
  have "dependInsts (md_heap s' ! k) = dependInsts (md_heap s ! k)" if "memDepHash s r = Some k" "r \<noteq> md_seqNum i" for r k
  proof -
    have "k < length (md_heap s)" "k \<noteq> p"
      using hash_ok_ptr(1,2) [OF assms(1) that(1)] left_unit_facts(2) [OF assms(1,2)] that(2) by auto
    then show ?thesis
      using assms(2) by (simp add: left_unit_def)
  qed
  then show ?thesis
    using assms(3) by (auto simp: waits_def h(1) split: if_splits)
qed

text \<open>Completion: the dependents are told, then the instruction leaves.\<close>

lemma completed_core:
  assumes "hash_ok s" and "wait_ok s" and "left_unit i p s s'" and "memDeps (md_heap s ! p) = 0"
    and md: "\<forall>k<length (md_heap s). memDeps (md_heap s' ! k) =
      memDeps (md_heap s ! k) - count_list (dependInsts (md_heap s ! p)) k"
    and sq: "me_squashed (md_heap s' ! p) = me_squashed (md_heap s ! p)"
  shows "wait_ok s'"
proof -
  let ?D = "dependInsts (md_heap s ! p)"
  note f = left_unit_facts [OF assms(1,3)] and e = left_unit_seq [OF assms(3)]
  have "refs s' d \<le> memDeps (md_heap s' ! d) \<and> (live s' d \<longrightarrow> refs s' d = memDeps (md_heap s' ! d))"
    if "d < length (md_heap s)" for d
    using assms(2) left_unit_refs [OF assms(1,3), of d] md f(5) [OF that] that by (auto simp: wait_ok_def)
  moreover have "d < length (md_heap s) \<and> md_seqNum j < md_seq (md_heap s' ! d) \<and> is_producer j \<and>
      (live s' d \<or> me_squashed (md_heap s' ! d))"
    if j: "j \<in> set (md_instList s')" and d: "d \<in> set (dependInsts (ent s' (md_seqNum j)))" for j d
  proof -
    have js: "j \<in> set (md_instList s)" "d \<in> set (dependInsts (ent s (md_seqNum j)))"
      using j d f(4) f(7) [OF j] by simp_all
    then have ok: "d < length (md_heap s)" "md_seqNum j < md_seq (md_heap s ! d)" "is_producer j"
      "live s d \<or> me_squashed (md_heap s ! d)"
      using assms(2) by (auto simp: wait_ok_def)
    have "refs s p = 0"
      using assms(2,4) f(1) by (auto simp: wait_ok_def)
    then have "d \<noteq> p"
      using js by (auto simp: refs_0_iff)
    then show ?thesis
      using ok f(5) [OF ok(1)] e(3) [OF ok(1)] assms(3) by (simp add: left_unit_def)
  qed
  ultimately show ?thesis
    using e(1) unfolding wait_ok_def by simp
qed

lemma completed_keeps:
  assumes "hash_ok s" and "wait_ok s" and "left_unit i p s s'"
    and md: "\<forall>k<length (md_heap s). memDeps (md_heap s' ! k) =
      memDeps (md_heap s ! k) - count_list (dependInsts (md_heap s ! p)) k"
    and dn: "\<forall>k<length (md_heap s). count_list (memDepDone s') (md_seq (md_heap s ! k)) =
      count_list (memDepDone s) (md_seq (md_heap s ! k)) + (if k \<in> set (dependInsts (md_heap s ! p)) \<and>
        memDeps (md_heap s ! k) = count_list (dependInsts (md_heap s ! p)) k \<and> \<not> me_squashed (md_heap s ! k) then 1 else 0)"
  shows "keeps s s'"
  unfolding keeps_def
proof
  let ?D = "dependInsts (md_heap s ! p)"
  fix q assume "q \<in> dom (memDepHash s) \<inter> dom (memDepHash s')"
  then obtain k where k: "memDepHash s q = Some k" and q: "q \<noteq> md_seqNum i" and k': "memDepHash s' q = Some k"
    using assms(3) by (auto simp: left_unit_def split: if_splits)
  note kp = hash_ok_ptr [OF assms(1) k]
  have "refs s k = memDeps (md_heap s ! k)"
    using assms(2) kp(1,5) by (auto simp: wait_ok_def)
  then have "count_list ?D k \<le> memDeps (md_heap s ! k)"
    using left_unit_refs [OF assms(1,3), of k] by simp
  then have "released s q \<longrightarrow> released s' q"
    using md dn kp k k' by (auto simp: released_def ent_def count_list_0_iff)
  then show "waits s' q = waits s q \<inter> dom (memDepHash s') \<and> (released s q \<longrightarrow> released s' q)"
    using left_unit_waits [OF assms(1,3) q] by blast
qed

text \<open>A squashed instruction is the youngest one in flight.\<close>

lemma squashed_core:
  assumes "hash_ok s" and "wait_ok s" and "left_unit i p s s'" and "\<forall>j\<in>set (md_instList s). md_seqNum j \<le> md_seqNum i"
    and md: "\<forall>k<length (md_heap s). memDeps (md_heap s' ! k) = memDeps (md_heap s ! k)"
    and sq: "me_squashed (md_heap s' ! p)" and dn: "memDepDone s' = memDepDone s"
  shows "wait_ok s' \<and> keeps s s'"
proof
  let ?D = "dependInsts (md_heap s ! p)"
  note f = left_unit_facts [OF assms(1,3)] and e = left_unit_seq [OF assms(3)]
  have h: "memDepHash s (md_seqNum i) = Some p" "i \<in> set (md_instList s)" "memDepHash s' = (memDepHash s)(md_seqNum i := None)"
    using assms(3) by (simp_all add: left_unit_def)
  have D: "\<not> live s d" if "d \<in> set ?D" for d
  proof
    assume "live s d"
    then have "md_seq (md_heap s ! d) \<le> md_seqNum i"
      using hash_ok_ptr(3) [OF assms(1)] assms(4) by (auto simp: live_def md_seq_def)
    moreover have "md_seqNum i < md_seq (md_heap s ! d)"
      using assms(2) h(1,2) that by (auto simp: wait_ok_def ent_def)
    ultimately show False
      by simp
  qed
  have "refs s' d \<le> memDeps (md_heap s' ! d) \<and> (live s' d \<longrightarrow> refs s' d = memDeps (md_heap s' ! d))"
    if "d < length (md_heap s)" for d
  proof -
    have "refs s d \<le> memDeps (md_heap s ! d)" "live s d \<longrightarrow> refs s d = memDeps (md_heap s ! d)"
      using assms(2) that by (auto simp: wait_ok_def)
    moreover have "live s d \<longrightarrow> count_list ?D d = 0"
      using D by (auto simp: count_list_0_iff)
    ultimately show ?thesis
      using left_unit_refs [OF assms(1,3), of d] md f(5) [OF that] that by auto
  qed
  moreover have "d < length (md_heap s) \<and> md_seqNum j < md_seq (md_heap s' ! d) \<and> is_producer j \<and>
      (live s' d \<or> me_squashed (md_heap s' ! d))"
    if j: "j \<in> set (md_instList s')" and d: "d \<in> set (dependInsts (ent s' (md_seqNum j)))" for j d
  proof -
    have "j \<in> set (md_instList s)" "d \<in> set (dependInsts (ent s (md_seqNum j)))"
      using j d f(4) f(7) [OF j] by simp_all
    then have ok: "d < length (md_heap s)" "md_seqNum j < md_seq (md_heap s ! d)" "is_producer j"
      "live s d \<or> me_squashed (md_heap s ! d)"
      using assms(2) by (auto simp: wait_ok_def)
    then show ?thesis
      using f(5) [OF ok(1)] e(3) [OF ok(1)] assms(3) sq by (cases "d = p") (simp_all add: left_unit_def)
  qed
  ultimately show "wait_ok s'"
    using e(1) unfolding wait_ok_def by simp
  show "keeps s s'"
    unfolding keeps_def
  proof
    fix q assume "q \<in> dom (memDepHash s) \<inter> dom (memDepHash s')"
    then obtain k where k: "memDepHash s q = Some k" and q: "q \<noteq> md_seqNum i" and k': "memDepHash s' q = Some k"
      using h(3) by (auto split: if_splits)
    then have "released s q \<longrightarrow> released s' q"
      using md dn hash_ok_ptr(1) [OF assms(1) k] by (simp add: released_def ent_def)
    then show "waits s' q = waits s q \<inter> dom (memDepHash s') \<and> (released s q \<longrightarrow> released s' q)"
      using left_unit_waits [OF assms(1,3) q] by blast
  qed
qed

end
