(* ===== verification/MemDepProps.thy ===== *)
theory MemDepProps
  imports MemDepInv
begin

text \<open>
  What the memory dependence unit guarantees: its assertions hold through every run in which
  instructions arrive in program order, and an instruction is released exactly once, exactly when
  the barriers and stores it was made to wait for have left the unit.
\<close>

section \<open>Steps\<close>

definition barrier_ok :: "mem_dep \<Rightarrow> bool" where
  "barrier_ok s \<longleftrightarrow>
     distinct (loadBarrierSNs s) \<and> distinct (storeBarrierSNs s) \<and>
     set (loadBarrierSNs s) = md_seqNum ` {i\<in>set (md_instList s). md_isReadBarrier i \<or> md_isHtmCmd i} \<and>
     set (storeBarrierSNs s) = md_seqNum ` {i\<in>set (md_instList s). md_isWriteBarrier i \<or> md_isHtmCmd i}"

text \<open>The stores the predictor knows, the calls of \<open>markMemDepDone\<close> and the instructions to replay.\<close>

definition history_ok :: "md_cfg \<Rightarrow> mem_dep \<Rightarrow> bool" where
  "history_ok c s \<longleftrightarrow>
     ss_ok (md_storeSet c) (depPred s) \<and>
     lfst_stores (depPred s) \<subseteq> md_seqNum ` {i\<in>me_inst ` set (md_heap s). md_isStore i \<or> md_isAtomic i} \<and>
     set (memDepDone s) \<subseteq> md_seqNum ` me_inst ` set (md_heap s) \<and>
     md_seqNum ` set (instsToReplay s) \<subseteq> dom (memDepHash s)"

definition md_inv :: "md_cfg \<Rightarrow> mem_dep \<Rightarrow> bool" where
  "md_inv c s \<longleftrightarrow> hash_ok s \<and> wait_ok s \<and> barrier_ok s \<and> history_ok c s"

lemma md_inv_pred: "md_inv c s \<Longrightarrow> ss_ok (md_storeSet c) (depPred s)"
  by (simp add: md_inv_def history_ok_def)

lemma keeps_refl: "keeps s s"
  by (auto simp: keeps_def waits_def)

lemma keeps_trans:
  assumes "keeps s s1" and "keeps s1 s2" and "dom (memDepHash s2) \<inter> dom (memDepHash s) \<subseteq> dom (memDepHash s1)"
  shows "keeps s s2"
  unfolding keeps_def
proof
  fix q assume q: "q \<in> dom (memDepHash s) \<inter> dom (memDepHash s2)"
  then have "q \<in> dom (memDepHash s1)"
    using assms(3) by blast
  then have w: "waits s1 q = waits s q \<inter> dom (memDepHash s1)" "waits s2 q = waits s1 q \<inter> dom (memDepHash s2)"
    and "released s q \<longrightarrow> released s2 q"
    using q assms(1,2) by (auto simp: keeps_def)
  moreover have "waits s q \<subseteq> dom (memDepHash s)"
    by (auto simp: waits_def)
  then have "waits s2 q = waits s q \<inter> dom (memDepHash s2)"
    using assms(3) unfolding w by blast
  ultimately show "waits s2 q = waits s q \<inter> dom (memDepHash s2) \<and> (released s q \<longrightarrow> released s2 q)"
    by blast
qed

text \<open>Only the predictor, the replays or the records of predictions change.\<close>

lemma core_cong:
  assumes "md_heap s' = md_heap s" "memDepHash s' = memDepHash s" "md_instList s' = md_instList s"
  shows "hash_ok s' = hash_ok s" "wait_ok s' = wait_ok s" "waits s' q = waits s q" "ent s' q = ent s q"
    "entered i es s0 s' = entered i es s0 s" "left_unit i p s0 s' = left_unit i p s0 s"
proof -
  show e: "ent s' q = ent s q" for q
    using assms by (simp add: ent_def)
  show "hash_ok s' = hash_ok s" "waits s' q = waits s q"
    using assms by (simp_all add: hash_ok_def waits_def)
  have "live s' d = live s d" "refs s' d = refs s d" for d
    using assms e by (simp_all add: live_def refs_def)
  then show "wait_ok s' = wait_ok s"
    using assms e by (simp add: wait_ok_def)
  show "entered i es s0 s' = entered i es s0 s" "left_unit i p s0 s' = left_unit i p s0 s"
    using assms by (simp_all add: entered_def left_unit_def)
qed

lemma keeps_cong:
  assumes "md_heap s' = md_heap s" "memDepHash s' = memDepHash s" "md_instList s' = md_instList s" "memDepDone s' = memDepDone s"
  shows "keeps s0 s' = keeps s0 s"
  using core_cong [OF assms(1-3)] assms(2,4) by (simp add: keeps_def released_def)

text \<open>A later state: what left the unit does not come back.\<close>

definition seen :: "mem_dep \<Rightarrow> seq_num set" where
  "seen s = md_seq ` set (md_heap s)"

definition later :: "mem_dep \<Rightarrow> mem_dep \<Rightarrow> bool" where
  "later s s' \<longleftrightarrow> keeps s s' \<and> seen s \<subseteq> seen s' \<and> dom (memDepHash s') \<inter> seen s \<subseteq> dom (memDepHash s)"

lemma later_refl: "later s s"
  by (simp add: later_def keeps_refl)

lemma later_trans:
  assumes "later s s1" and "later s1 s2" and "hash_ok s"
  shows "later s s2"
proof -
  have "dom (memDepHash s) \<subseteq> seen s"
    using hash_ok_ptr(1,2) [OF assms(3)] by (force simp: dom_def seen_def)
  then have "dom (memDepHash s2) \<inter> dom (memDepHash s) \<subseteq> dom (memDepHash s1)"
    using assms(1,2) unfolding later_def by blast
  then show ?thesis
    using assms(1,2) keeps_trans [of s s1 s2] unfolding later_def by blast
qed

lemma later_cong:
  assumes "md_heap s' = md_heap s" "memDepHash s' = memDepHash s" "md_instList s' = md_instList s" "memDepDone s' = memDepDone s"
  shows "later s0 s' = later s0 s"
  using keeps_cong [OF assms] assms by (simp add: later_def seen_def)

lemma entered_later:
  assumes "hash_ok s" and "wait_ok s" and "fresh i s" and "waitable s es" and "entered i es s s'"
    and "memDepDone s' = memDepDone s @ ms" and "set ms \<subseteq> {md_seqNum i}"
  shows "later s s'"
proof -
  have "seen s' = insert (md_seqNum i) (seen s)"
    using arg_cong [OF entered_facts(2) [OF assms(1,3,5)], of set] by (simp add: seen_def)
  moreover have "dom (memDepHash s') = insert (md_seqNum i) (dom (memDepHash s))"
    using assms(5) by (simp add: entered_def Let_def)
  moreover have "md_seqNum i \<notin> seen s"
    using assms(3) by (auto simp: fresh_def seen_def)
  ultimately show ?thesis
    using entered_keeps(1) [OF assms] by (simp add: later_def) blast
qed

lemma left_unit_later: "left_unit i p s s' \<Longrightarrow> keeps s s' \<Longrightarrow> later s s'"
  using arg_cong [OF left_unit_seq(4), of i p s s' set] by (auto simp: later_def left_unit_def seen_def)

lemma pred_step:
  assumes "md_inv c s" and "ss_ok (md_storeSet c) d" and "lfst_stores d \<subseteq> lfst_stores (depPred s)"
  shows "md_inv c (s\<lparr>depPred := d\<rparr>) \<and> later s (s\<lparr>depPred := d\<rparr>)"
proof -
  let ?s = "s\<lparr>depPred := d\<rparr>"
  have "later s ?s"
    using later_cong [of ?s s s] later_refl by simp
  moreover have "history_ok c ?s"
    using assms by (auto simp: md_inv_def history_ok_def)
  ultimately show ?thesis
    using assms(1) core_cong(1,2) [of ?s s] by (simp add: md_inv_def barrier_ok_def)
qed

lemma violation_step:
  assumes "ss_cfg_ok (md_storeSet c)" and "md_inv c s"
  shows "\<exists>s'. md_violation c st ld s = Some s' \<and> md_inv c s' \<and> later s s'"
proof -
  obtain d where "ss_violation (md_storeSet c) (md_pc st) (md_pc ld) (depPred s) = Some d"
    "ss_ok (md_storeSet c) d" "LFST d = LFST (depPred s)"
    using violation_ok [OF assms(1) md_inv_pred [OF assms(2)]] by blast
  then show ?thesis
    using pred_step [OF assms(2), of d] by (simp add: md_violation_def lfst_stores_def)
qed

lemma issue_step:
  assumes "ss_cfg_ok (md_storeSet c)" and "md_inv c s"
  shows "\<exists>s'. md_issue c i s = Some s' \<and> md_inv c s' \<and> later s s'"
proof -
  obtain d where "issued (md_storeSet c) (md_pc i) (md_seqNum i) (md_isStore i) (depPred s) = Some d"
    "ss_ok (md_storeSet c) d" "lfst_stores d \<subseteq> lfst_stores (depPred s)"
    using issued_ok [OF assms(1) md_inv_pred [OF assms(2)]] by blast
  then show ?thesis
    using pred_step [OF assms(2), of d] by (simp add: md_issue_def)
qed

lemma replay_loop_ok:
  "md_seqNum ` set is \<subseteq> dom (memDepHash s) \<Longrightarrow> instsToReplay s = is \<Longrightarrow>
   \<exists>rs. replay_loop is s = Some (s\<lparr>instsToReplay := [], retriedInsts := rs\<rparr>)"
proof (induction "is" arbitrary: s)
  case Nil
  then show ?case
    by (intro exI [of _ "retriedInsts s"]) simp
next
  case (Cons i "is")
  then show ?case
    using Cons.IH [of "s\<lparr>instsToReplay := is, retriedInsts := retriedInsts s @ [md_seqNum i]\<rparr>"] by auto
qed

lemma replay_step:
  assumes "md_inv c s"
  shows "\<exists>s'. md_replay s = Some s' \<and> md_inv c s' \<and> later s s'"
proof -
  obtain rs where rs: "md_replay s = Some (s\<lparr>instsToReplay := [], retriedInsts := rs\<rparr>)"
    using replay_loop_ok [of "instsToReplay s" s] assms by (auto simp: md_replay_def md_inv_def history_ok_def)
  let ?s = "s\<lparr>instsToReplay := [], retriedInsts := rs\<rparr>"
  have "later s ?s" "hash_ok ?s = hash_ok s" "wait_ok ?s = wait_ok s"
    using later_cong [of ?s s s] later_refl core_cong(1,2) [of ?s s] by simp_all
  then show ?thesis
    using rs assms by (simp add: md_inv_def barrier_ok_def history_ok_def)
qed

lemma reschedule_step:
  assumes "md_inv c s" and "memDepHash s (md_seqNum i) \<noteq> None"
  shows "md_inv c (md_reschedule i s) \<and> later s (md_reschedule i s)"
proof -
  let ?s = "md_reschedule i s"
  have "later s ?s" "hash_ok ?s = hash_ok s" "wait_ok ?s = wait_ok s"
    using later_cong [of ?s s s] later_refl core_cong(1,2) [of ?s s] by (simp_all add: md_reschedule_def)
  then show ?thesis
    using assms by (auto simp: md_inv_def barrier_ok_def history_ok_def md_reschedule_def)
qed

text \<open>Insertion.\<close>

lemma producers_ok:
  assumes "ss_cfg_ok (md_storeSet c)" and "md_inv c s" and "fresh i s"
  shows "\<exists>ps pred strict. md_producers c i s = Some (ps, pred, strict) \<and>
    (\<forall>q\<in>set ps. q \<noteq> md_seqNum i \<and> (\<forall>e. memDepHash s q = Some e \<longrightarrow> is_producer (me_inst (md_heap s ! e))))"
proof -
  have inv: "hash_ok s" "barrier_ok s" "history_ok c s"
    using assms(2) by (simp_all add: md_inv_def)
  have bar: "q \<noteq> md_seqNum i \<and> (\<forall>e. memDepHash s q = Some e \<longrightarrow> is_producer (me_inst (md_heap s ! e)))"
    if q: "q \<in> md_seqNum ` {j\<in>set (md_instList s). is_producer j}" for q
  proof -
    obtain j where j: "q = md_seqNum j" "j \<in> set (md_instList s)" "is_producer j"
      using q by blast
    obtain e where e: "memDepHash s q = Some e" "me_inst (md_heap s ! e) = j"
      using hash_ok_inst [OF inv(1) j(2)] j(1) by blast
    then show ?thesis
      using fresh_hash [OF inv(1) assms(3) e(1)] j(3) by simp
  qed
  have lfst: "q \<noteq> md_seqNum i \<and> (\<forall>e. memDepHash s q = Some e \<longrightarrow> is_producer (me_inst (md_heap s ! e)))"
    if q: "q \<in> lfst_stores (depPred s)" for q
  proof -
    obtain x where x: "x \<in> set (md_heap s)" "q = md_seq x" "is_producer (me_inst x)"
      using inv(3) q by (fastforce simp: history_ok_def md_seq_def is_producer_def)
    then obtain k where k: "k < length (md_heap s)" "md_heap s ! k = x"
      by (auto simp: in_set_conv_nth)
    have "is_producer (me_inst (md_heap s ! e))" if "memDepHash s q = Some e" for e
      using hash_ok_ptr(1,2) [OF inv(1) that] hash_ok_distinct(3) [OF inv(1), of e k] k x(2,3) by auto
    then show ?thesis
      using assms(3) x(1,2) by (auto simp: fresh_def)
  qed
  obtain ps strict where ps: "checkInst (md_storeSet c) (md_pc i) (depPred s) = Some ps" "set ps \<subseteq> lfst_stores (depPred s)"
    "checkInstStrict (md_storeSet c) (md_pc i) (depPred s) = Some strict"
    using checkInst_ok [OF assms(1) md_inv_pred [OF assms(2)], of "md_pc i"] by blast
  have lb: "set (loadBarrierSNs s) \<subseteq> md_seqNum ` {j\<in>set (md_instList s). is_producer j}"
    and sb: "set (storeBarrierSNs s) \<subseteq> md_seqNum ` {j\<in>set (md_instList s). is_producer j}"
    using inv(2) by (auto simp: barrier_ok_def is_producer_def)
  consider "(md_isLoad i \<or> md_isAtomic i) \<and> loadBarrierSNs s \<noteq> []"
    | "\<not> ((md_isLoad i \<or> md_isAtomic i) \<and> loadBarrierSNs s \<noteq> [])" "(md_isStore i \<or> md_isAtomic i) \<and> storeBarrierSNs s \<noteq> []"
    | "\<not> ((md_isLoad i \<or> md_isAtomic i) \<and> loadBarrierSNs s \<noteq> [])"
      "\<not> ((md_isStore i \<or> md_isAtomic i) \<and> storeBarrierSNs s \<noteq> [])"
    by blast
  then show ?thesis
  proof cases
    case 1
    then show ?thesis
      unfolding md_producers_def if_P [OF 1] using bar [OF subsetD [OF lb]] by auto
  next
    case 2
    then show ?thesis
      unfolding md_producers_def if_not_P [OF 2(1)] if_P [OF 2(2)] using bar [OF subsetD [OF sb]] by auto
  next
    case 3
    then show ?thesis
      unfolding md_producers_def if_not_P [OF 3(1)] if_not_P [OF 3(2)] using ps lfst by auto
  qed
qed

lemma link_entered:
  assumes "hash_ok s" and "fresh i s" and "waitable s es"
  shows "entered i (if bypass then [] else es) s (link_entry i (length (md_heap s)) bypass es (new_entry i s))"
proof -
  let ?p = "length (md_heap s)" and ?new = "\<lparr>me_inst = i, dependInsts = [], memDeps = 0, me_squashed = False\<rparr>"
  have n: "memDepHash s (md_seqNum i) = None"
    using fresh_hash [OF assms(1,2), of "md_seqNum i"] by (cases "memDepHash s (md_seqNum i)") auto
  have es: "\<forall>e\<in>set es. e < ?p"
    using assms(3) hash_ok_ptr(1) [OF assms(1)] by (auto simp: waitable_def)
  show ?thesis
  proof (cases "es = [] \<or> bypass")
    case True
    then show ?thesis
      using n by (auto simp: entered_def link_entry_def new_entry_def nth_append Let_def)
  next
    case False
    have c: "count_list es ?p = 0"
      using es by (auto simp: count_list_0_iff)
    have "\<forall>e\<in>set es. e < length (md_heap s @ [?new])"
      using es by auto
    from add_dependent_nth [OF this, of ?p]
    have a: "length (add_dependent ?p es (md_heap s @ [?new])) = Suc ?p"
      "\<And>k. k < ?p \<Longrightarrow> add_dependent ?p es (md_heap s @ [?new]) ! k =
        (md_heap s ! k)\<lparr>dependInsts := dependInsts (md_heap s ! k) @ replicate (count_list es k) ?p\<rparr>"
      "add_dependent ?p es (md_heap s @ [?new]) ! ?p = ?new"
      using c by (simp_all add: nth_append)
    then show ?thesis
      using False n by (simp add: entered_def link_entry_def new_entry_def Let_def)
  qed
qed

lemma entered_inv:
  assumes "md_inv c s" and "fresh i s" and "waitable s es" and "entered i es s s'"
    and "memDepDone s' = memDepDone s @ ms" and "set ms \<subseteq> {md_seqNum i}"
    and b: "loadBarrierSNs s' = loadBarrierSNs (insertBarrierSN i s)" "storeBarrierSNs s' = storeBarrierSNs (insertBarrierSN i s)"
    and d: "instsToReplay s' = instsToReplay s" "ss_ok (md_storeSet c) (depPred s')"
      "lfst_stores (depPred s') \<subseteq> (if md_isStore i \<or> md_isAtomic i then {md_seqNum i} else {}) \<union> lfst_stores (depPred s)"
  shows "md_inv c s'"
proof -
  have inv: "hash_ok s" "wait_ok s" "barrier_ok s" "history_ok c s"
    using assms(1) by (simp_all add: md_inv_def)
  have h: "memDepHash s' = (memDepHash s)(md_seqNum i \<mapsto> length (md_heap s))" "md_instList s' = md_instList s @ [i]"
    using assms(4) by (simp_all add: entered_def Let_def)
  have "map me_inst (md_heap s') = map me_inst (md_heap s) @ [i]"
    using assms(4) by (intro nth_equalityI) (auto simp: entered_def Let_def nth_append less_Suc_eq)
  then have m: "me_inst ` set (md_heap s') = insert i (me_inst ` set (md_heap s))"
    by (metis list.set_map set_append list.set(1,2) Un_insert_right sup_bot.right_neutral)
  have "barrier_ok s'"
    using inv(3) by (auto simp: barrier_ok_def b h insertBarrierSN_def)
  moreover have "lfst_stores (depPred s') \<subseteq> md_seqNum ` {j\<in>insert i (me_inst ` set (md_heap s)). md_isStore j \<or> md_isAtomic j}"
  proof (rule subset_trans [OF d(3) Un_least])
    show "lfst_stores (depPred s) \<subseteq> md_seqNum ` {j\<in>insert i (me_inst ` set (md_heap s)). md_isStore j \<or> md_isAtomic j}"
      using inv(4) unfolding history_ok_def by blast
  qed simp
  then have "history_ok c s'"
    using inv(4) d(1,2) assms(5,6) unfolding history_ok_def m h(1) by auto
  ultimately show ?thesis
    using entered_hash_ok [OF inv(1) assms(2,4)] entered_wait_ok [OF inv(1,2) assms(2-4)] by (simp add: md_inv_def)
qed

lemma record_store_ok:
  assumes "ss_cfg_ok (md_storeSet c)" and "ss_ok (md_storeSet c) (depPred s)" and "md_isLoad i \<or> md_isStore i \<or> md_isAtomic i"
  shows "\<exists>d. record_store c cycle i s = Some (s\<lparr>depPred := d\<rparr>) \<and> ss_ok (md_storeSet c) d \<and>
    lfst_stores d \<subseteq> (if md_isStore i \<or> md_isAtomic i then {md_seqNum i} else {}) \<union> lfst_stores (depPred s)"
proof (cases "md_isStore i \<or> md_isAtomic i")
  case True
  then show ?thesis
    using insertStore_ok [OF assms(1,2), of cycle "md_pc i" "md_seqNum i"] by (auto simp: record_store_def)
next
  case False
  then show ?thesis
    using assms(2,3) by (intro exI [of _ "depPred s"]) (auto simp: record_store_def)
qed

text \<open>An instruction that waits for the producers it finds, or that is told it has none, is released
  the right number of times from then on.\<close>

lemma entered_released:
  assumes "md_inv c s" and "fresh i s" and "entered i es s s'"
    and "memDepDone s' = memDepDone s @ (if es = [] then [md_seqNum i] else [])"
  shows "released s' (md_seqNum i)"
proof -
  have "md_seqNum i \<notin> set (memDepDone s)"
    using assms(1,2) by (force simp: md_inv_def history_ok_def fresh_def md_seq_def)
  then have "count_list (memDepDone s) (md_seqNum i) = 0"
    by (simp add: count_list_0_iff)
  moreover have "memDeps (ent s' (md_seqNum i)) = length es"
    using assms(3) by (simp add: entered_def Let_def ent_def)
  ultimately show ?thesis
    using assms(4) by (simp add: released_def)
qed

lemma found_producers:
  assumes "hash_ok s" and "fresh i s"
    and pr: "\<forall>q\<in>set ps. q \<noteq> md_seqNum i \<and> (\<forall>e. memDepHash s q = Some e \<longrightarrow> is_producer (me_inst (md_heap s ! e)))"
  defines "es \<equiv> List.map_filter (memDepHash s) ps"
  shows "waitable s es" "List.map_filter (memDepHash (new_entry i s)) ps = es"
    "{r. \<exists>e\<in>set es. memDepHash s r = Some e} = set ps \<inter> dom (memDepHash s)"
proof -
  have set_es: "e \<in> set es \<longleftrightarrow> (\<exists>q\<in>set ps. memDepHash s q = Some e)" for e
    by (auto simp: es_def List.map_filter_def image_iff)
  show "waitable s es"
    unfolding waitable_def
  proof
    fix e assume "e \<in> set es"
    then obtain q where q: "q \<in> set ps" "memDepHash s q = Some e"
      by (auto simp: set_es)
    then show "\<exists>j\<in>set (md_instList s). memDepHash s (md_seqNum j) = Some e \<and> is_producer j"
      using pr hash_ok_ptr(2,3) [OF assms(1) q(2)] by (intro bexI [of _ "me_inst (md_heap s ! e)"]) (auto simp: md_seq_def)
  qed
  have "memDepHash s (md_seqNum i) = None"
    using fresh_hash [OF assms(1,2), of "md_seqNum i"] by (cases "memDepHash s (md_seqNum i)") auto
  then have "memDepHash (new_entry i s) q = memDepHash s q" if "q \<in> set ps" for q
    using pr that by (simp add: new_entry_def)
  then show "List.map_filter (memDepHash (new_entry i s)) ps = es"
    unfolding es_def by (induction ps) (simp_all add: List.map_filter_simps split: option.split)
  have "memDepHash s r = Some e \<Longrightarrow> memDepHash s q = Some e \<Longrightarrow> r = q" for r q e
    using hash_ok_ptr(2) [OF assms(1)] by metis
  then show "{r. \<exists>e\<in>set es. memDepHash s r = Some e} = set ps \<inter> dom (memDepHash s)"
    by (auto simp: set_es Bex_def)
qed

lemma link_carried: "link_entry i p b es (s\<lparr>mdpCarried := m\<rparr>) = (link_entry i p b es s)\<lparr>mdpCarried := m\<rparr>"
  by (simp add: link_entry_def Let_def)

lemma insert_step:
  assumes "ss_cfg_ok (md_storeSet c)" and "md_inv c s" and "fresh i s" and "md_isLoad i \<or> md_isStore i \<or> md_isAtomic i"
  shows "\<exists>s' ps pred strict. md_producers c i s = Some (ps, pred, strict) \<and> md_insert c cycle i s = Some s' \<and>
    md_inv c s' \<and> later s s' \<and> memDepHash s' = (memDepHash s)(md_seqNum i \<mapsto> length (md_heap s)) \<and>
    waits s' (md_seqNum i) = (if enableReplayBasedMDP c \<and> md_isLoad i \<and> pred then {} else set ps \<inter> dom (memDepHash s)) \<and>
    released s' (md_seqNum i)"
proof -
  let ?p = "length (md_heap s)"
  have inv: "hash_ok s" "wait_ok s"
    using assms(2) by (simp_all add: md_inv_def)
  obtain ps pred strict where ps: "md_producers c i s = Some (ps, pred, strict)"
    and pr: "\<forall>q\<in>set ps. q \<noteq> md_seqNum i \<and> (\<forall>e. memDepHash s q = Some e \<longrightarrow> is_producer (me_inst (md_heap s ! e)))"
    using producers_ok [OF assms(1-3)] by blast
  note found = found_producers [OF inv(1) assms(3) pr]
  define bypass where "bypass \<longleftrightarrow> enableReplayBasedMDP c \<and> md_isLoad i \<and> pred"
  define es where "es = List.map_filter (memDepHash s) ps"
  define m where "m = (if enableReplayBasedMDP c \<and> md_isLoad i
    then mdpCarried s @ [(md_seqNum i, if pred then ps else [], pred \<and> strict)] else mdpCarried s)"
  define L where "L = link_entry i ?p bypass es (new_entry i s)"
  let ?L = "insertBarrierSN i (L\<lparr>mdpCarried := m\<rparr>)" and ?es = "if bypass then [] else es"
  have ins: "md_insert c cycle i s = record_store c cycle i ?L"
  proof -
    have "(if enableReplayBasedMDP c \<and> md_isLoad i then (new_entry i s)\<lparr>mdpCarried := mdpCarried (new_entry i s) @
        [(md_seqNum i, if pred then ps else [], pred \<and> strict)]\<rparr> else new_entry i s) = (new_entry i s)\<lparr>mdpCarried := m\<rparr>"
      by (simp add: m_def new_entry_def)
    then show ?thesis
      using found(2) by (simp add: md_insert_def ps Let_def L_def bypass_def es_def link_carried)
  qed
  have L: "depPred L = depPred s" "loadBarrierSNs L = loadBarrierSNs s" "storeBarrierSNs L = storeBarrierSNs s"
    "instsToReplay L = instsToReplay s" "memDepDone L = memDepDone s @ (if ?es = [] then [md_seqNum i] else [])"
    by (auto simp: L_def link_entry_def new_entry_def Let_def)
  have dp: "depPred ?L = depPred s"
    by (simp add: insertBarrierSN_def L)
  obtain d where d: "md_insert c cycle i s = Some (?L\<lparr>depPred := d\<rparr>)" "ss_ok (md_storeSet c) d"
    "lfst_stores d \<subseteq> (if md_isStore i \<or> md_isAtomic i then {md_seqNum i} else {}) \<union> lfst_stores (depPred s)"
    using record_store_ok [OF assms(1) _ assms(4), of ?L cycle] md_inv_pred [OF assms(2)] unfolding ins dp by blast
  define s' where "s' = ?L\<lparr>depPred := d\<rparr>"
  have s': "md_heap s' = md_heap L" "memDepHash s' = memDepHash L" "md_instList s' = md_instList L" "memDepDone s' = memDepDone L"
    "instsToReplay s' = instsToReplay L" "depPred s' = d" "loadBarrierSNs s' = loadBarrierSNs (insertBarrierSN i s)"
    "storeBarrierSNs s' = storeBarrierSNs (insertBarrierSN i s)"
    using L by (simp_all add: s'_def insertBarrierSN_def)
  have e: "entered i ?es s s'"
    using link_entered [OF inv(1) assms(3) found(1), of bypass, folded es_def, folded L_def] core_cong(5) [OF s'(1-3)] by simp
  have w: "waitable s ?es"
    using found(1) by (simp add: es_def waitable_def)
  have ms: "set (if ?es = [] then [md_seqNum i] else []) \<subseteq> {md_seqNum i}"
    by auto
  note dn = L(5) [folded s'(4)]
  have "md_inv c s'"
    using entered_inv [OF assms(2,3) w e dn ms s'(7,8)] s'(5,6) L(4) d(2,3) by simp
  moreover have "waits s' (md_seqNum i) = (if bypass then {} else set ps \<inter> dom (memDepHash s))"
    using entered_keeps(2) [OF inv assms(3) w e dn ms] found(3) by (simp add: es_def)
  moreover have "memDepHash s' = (memDepHash s)(md_seqNum i \<mapsto> ?p)"
    using e by (simp add: entered_def Let_def)
  ultimately show ?thesis
    using ps d(1) entered_later [OF inv assms(3) w e dn ms] entered_released [OF assms(2,3) e dn]
    unfolding bypass_def s'_def [symmetric] by blast
qed

lemma insertBarrier_enters:
  assumes "md_inv c s" and "fresh i s" and "ss_ok (md_storeSet c) d"
    and "lfst_stores d \<subseteq> (if md_isStore i \<or> md_isAtomic i then {md_seqNum i} else {}) \<union> lfst_stores (depPred s)"
  shows "md_inv c ((md_insertBarrier i s)\<lparr>depPred := d\<rparr>) \<and> later s ((md_insertBarrier i s)\<lparr>depPred := d\<rparr>)"
proof -
  let ?s = "(md_insertBarrier i s)\<lparr>depPred := d\<rparr>" and ?L = "link_entry i (length (md_heap s)) False [] (new_entry i s)"
  have inv: "hash_ok s" "wait_ok s"
    using assms(1) by (simp_all add: md_inv_def)
  have w: "waitable s []"
    by (simp add: waitable_def)
  have "entered i [] s ?L"
    using link_entered [OF inv(1) assms(2) w, of False] by simp
  then have e: "entered i [] s ?s"
    using core_cong(5) [of ?s ?L i "[]" s] by (simp add: md_insertBarrier_def insertBarrierSN_def link_entry_def)
  have "md_inv c ?s"
    by (rule entered_inv [OF assms(1,2) w e, where ms = "[]"])
      (use assms(3,4) in \<open>simp_all add: md_insertBarrier_def insertBarrierSN_def new_entry_def\<close>)
  moreover have "later s ?s"
    by (rule entered_later [OF inv assms(2) w e, where ms = "[]"])
      (simp_all add: md_insertBarrier_def insertBarrierSN_def new_entry_def)
  ultimately show ?thesis
    by blast
qed

lemma insertBarrier_step:
  assumes "md_inv c s" and "fresh i s"
  shows "md_inv c (md_insertBarrier i s) \<and> later s (md_insertBarrier i s)"
  using insertBarrier_enters [OF assms md_inv_pred [OF assms(1)]]
  by (simp add: md_insertBarrier_def insertBarrierSN_def new_entry_def)

lemma insertNonSpec_step:
  assumes "ss_cfg_ok (md_storeSet c)" and "md_inv c s" and "fresh i s" and "md_isLoad i \<or> md_isStore i \<or> md_isAtomic i"
  shows "\<exists>s'. md_insertNonSpec c cycle i s = Some s' \<and> md_inv c s' \<and> later s s'"
proof -
  have dp: "depPred (md_insertBarrier i s) = depPred s"
    by (simp add: md_insertBarrier_def insertBarrierSN_def new_entry_def)
  show ?thesis
    using record_store_ok [OF assms(1) _ assms(4), of "md_insertBarrier i s" cycle] md_inv_pred [OF assms(2)]
      insertBarrier_enters [OF assms(2,3)] unfolding dp md_insertNonSpec_def by blast
qed

text \<open>Completion.\<close>

lemma left_unit_inv:
  assumes "md_inv c s" and "left_unit i p s s'" and "wait_ok s'"
    and b: "set (loadBarrierSNs s') = set (loadBarrierSNs s) - {md_seqNum i}" "distinct (loadBarrierSNs s')"
      "set (storeBarrierSNs s') = set (storeBarrierSNs s) - {md_seqNum i}" "distinct (storeBarrierSNs s')"
    and d: "ss_ok (md_storeSet c) (depPred s')" "lfst_stores (depPred s') \<subseteq> lfst_stores (depPred s)"
    and r: "md_seqNum ` set (instsToReplay s') \<subseteq> dom (memDepHash s) - {md_seqNum i}"
    and m: "set (memDepDone s') \<subseteq> set (memDepDone s) \<union> md_seq ` set (md_heap s)"
  shows "md_inv c s'"
proof -
  have inv: "hash_ok s" "barrier_ok s" "history_ok c s"
    using assms(1) by (simp_all add: md_inv_def)
  note f = left_unit_facts [OF inv(1) assms(2)]
  have l: "md_seqNum ` {j\<in>set (md_instList s'). P j} = md_seqNum ` {j\<in>set (md_instList s). P j} - {md_seqNum i}" for P
    using f(4,6) by auto
  have h: "me_inst ` set (md_heap s') = me_inst ` set (md_heap s)"
    using assms(2) unfolding left_unit_def by (metis list.set_map)
  have "barrier_ok s'"
    using inv(2) b unfolding barrier_ok_def l by simp
  moreover have "history_ok c s'"
    unfolding history_ok_def h
  proof (intro conjI)
    show "lfst_stores (depPred s') \<subseteq> md_seqNum ` {j \<in> me_inst ` set (md_heap s). md_isStore j \<or> md_isAtomic j}"
      using inv(3) d(2) unfolding history_ok_def by blast
    show "set (memDepDone s') \<subseteq> md_seqNum ` me_inst ` set (md_heap s)"
      using inv(3) m by (auto simp: history_ok_def md_seq_def)
    show "md_seqNum ` set (instsToReplay s') \<subseteq> dom (memDepHash s')"
      using r assms(2) by (auto simp: left_unit_def)
  qed (rule d(1))
  ultimately show ?thesis
    using left_unit_hash_ok [OF inv(1) assms(2)] assms(3) by (simp add: md_inv_def)
qed

lemma wakeDependents_ok:
  assumes "hash_ok s" and "wait_ok s" and "i \<in> set (md_instList s)" and p: "memDepHash s (md_seqNum i) = Some p"
  defines "ds \<equiv> dependInsts (md_heap s ! p)"
  shows "\<exists>h dn. wakeDependents i s = Some (s\<lparr>md_heap := h, memDepDone := dn\<rparr>) \<and> map me_inst h = map me_inst (md_heap s) \<and>
    (\<forall>k<length (md_heap s). me_squashed (h ! k) = me_squashed (md_heap s ! k) \<and>
       memDeps (h ! k) = memDeps (md_heap s ! k) - count_list ds k \<and>
       (k \<noteq> p \<longrightarrow> dependInsts (h ! k) = dependInsts (md_heap s ! k))) \<and>
    (\<forall>k<length (md_heap s). count_list dn (md_seq (md_heap s ! k)) = count_list (memDepDone s) (md_seq (md_heap s ! k)) +
       (if k \<in> set ds \<and> memDeps (md_heap s ! k) = count_list ds k \<and> \<not> me_squashed (md_heap s ! k) then 1 else 0)) \<and>
    set dn \<subseteq> set (memDepDone s) \<union> md_seq ` set (md_heap s)"
proof -
  have e: "ent s (md_seqNum i) = md_heap s ! p" "p < length (md_heap s)"
    using hash_ok_ptr [OF assms(1) p] by simp_all
  have dep: "d < length (md_heap s) \<and> is_producer i" if "d \<in> set ds" for d
    using assms(2,3) that e(1) by (auto simp: wait_ok_def ds_def)
  show ?thesis
  proof (cases "is_producer i")
    case False
    then have "ds = []"
      using dep by (cases ds) auto
    then show ?thesis
      using False by (intro exI [of _ "md_heap s"] exI [of _ "memDepDone s"]) (auto simp: wakeDependents_def is_producer_def)
  next
    case True
    have cnt: "count_list ds d \<le> memDeps (md_heap s ! d)" if d: "d \<in> set ds" for d
    proof -
      have "count_list ds d \<in> set (map (\<lambda>j. count_list (dependInsts (ent s (md_seqNum j))) d) (md_instList s))"
        using assms(3) e(1) by (auto simp: ds_def intro!: image_eqI [of _ _ i])
      then have "count_list ds d \<le> refs s d"
        unfolding refs_def by (rule member_le_sum_list) simp
      also have "\<dots> \<le> memDeps (md_heap s ! d)"
        using assms(2) dep [OF d] by (auto simp: wait_ok_def)
      finally show ?thesis .
    qed
    obtain h dn where w: "wake_loop ds s = Some (s\<lparr>md_heap := h, memDepDone := dn\<rparr>)" "length h = length (md_heap s)"
      "\<forall>k<length h. h ! k = (md_heap s ! k)\<lparr>memDeps := memDeps (md_heap s ! k) - count_list ds k\<rparr>"
      "\<forall>k<length h. count_list dn (md_seq (md_heap s ! k)) = count_list (memDepDone s) (md_seq (md_heap s ! k)) +
        (if k \<in> set ds \<and> memDeps (md_heap s ! k) = count_list ds k \<and> \<not> me_squashed (md_heap s ! k) then 1 else 0)"
      "set dn \<subseteq> set (memDepDone s) \<union> md_seq ` set (md_heap s)"
      using wake_loop_ok [OF hash_ok_distinct(2) [OF assms(1)], of ds] dep cnt by blast
    let ?h = "h[p := (h ! p)\<lparr>dependInsts := []\<rparr>]"
    have "wakeDependents i s = Some (s\<lparr>md_heap := ?h, memDepDone := dn\<rparr>)"
      using True w(1) p by (auto simp: wakeDependents_def is_producer_def ds_def)
    moreover have "map me_inst ?h = map me_inst (md_heap s)"
      using w(2,3) e(2) by (intro nth_equalityI) (auto simp: nth_list_update)
    moreover have "\<forall>k<length (md_heap s). me_squashed (?h ! k) = me_squashed (md_heap s ! k) \<and>
        memDeps (?h ! k) = memDeps (md_heap s ! k) - count_list ds k \<and> (k \<noteq> p \<longrightarrow> dependInsts (?h ! k) = dependInsts (md_heap s ! k))"
      using w(2,3) e(2) by (auto simp: nth_list_update)
    ultimately show ?thesis
      using w(4,5) unfolding w(2) by blast
  qed
qed

lemma barrier_removed:
  assumes "md_inv c s" and "i \<in> set (md_instList s)"
  shows "set (if md_isReadBarrier i \<or> md_isHtmCmd i then remove1 (md_seqNum i) (loadBarrierSNs s) else loadBarrierSNs s) =
      set (loadBarrierSNs s) - {md_seqNum i}"
    "set (if md_isWriteBarrier i \<or> md_isHtmCmd i then remove1 (md_seqNum i) (storeBarrierSNs s) else storeBarrierSNs s) =
      set (storeBarrierSNs s) - {md_seqNum i}"
    "md_isReadBarrier i \<or> md_isHtmCmd i \<Longrightarrow> loadBarrierSNs s \<noteq> []"
    "md_isWriteBarrier i \<or> md_isHtmCmd i \<Longrightarrow> storeBarrierSNs s \<noteq> []"
    "distinct (loadBarrierSNs s)" "distinct (storeBarrierSNs s)"
proof -
  have inv: "hash_ok s" "barrier_ok s"
    using assms(1) by (simp_all add: md_inv_def)
  have "j = i" if "j \<in> set (md_instList s)" "md_seqNum j = md_seqNum i" for j
    using hash_ok_inst [OF inv(1) that(1)] hash_ok_inst [OF inv(1) assms(2)] that(2) by (metis option.inject)
  then have "md_seqNum i \<in> set (loadBarrierSNs s) \<longleftrightarrow> md_isReadBarrier i \<or> md_isHtmCmd i"
    "md_seqNum i \<in> set (storeBarrierSNs s) \<longleftrightarrow> md_isWriteBarrier i \<or> md_isHtmCmd i"
    using inv(2) assms(2) by (force simp: barrier_ok_def)+
  then show "set (if md_isReadBarrier i \<or> md_isHtmCmd i then remove1 (md_seqNum i) (loadBarrierSNs s) else loadBarrierSNs s) =
      set (loadBarrierSNs s) - {md_seqNum i}"
    "set (if md_isWriteBarrier i \<or> md_isHtmCmd i then remove1 (md_seqNum i) (storeBarrierSNs s) else storeBarrierSNs s) =
      set (storeBarrierSNs s) - {md_seqNum i}"
    "md_isReadBarrier i \<or> md_isHtmCmd i \<Longrightarrow> loadBarrierSNs s \<noteq> []"
    "md_isWriteBarrier i \<or> md_isHtmCmd i \<Longrightarrow> storeBarrierSNs s \<noteq> []"
    using inv(2) by (auto simp: barrier_ok_def)
  show "distinct (loadBarrierSNs s)" "distinct (storeBarrierSNs s)"
    using inv(2) by (simp_all add: barrier_ok_def)
qed

lemma complete_step:
  assumes "md_inv c s" and "i \<in> set (md_instList s)" and "memDeps (ent s (md_seqNum i)) = 0"
    and "md_seqNum i \<notin> md_seqNum ` set (instsToReplay s)"
  shows "\<exists>s'. md_completeInst i s = Some s' \<and> md_inv c s' \<and> later s s'"
proof -
  have inv: "hash_ok s" "wait_ok s" "history_ok c s"
    using assms(1) by (simp_all add: md_inv_def)
  obtain p where p: "memDepHash s (md_seqNum i) = Some p" "ent s (md_seqNum i) = md_heap s ! p" "me_inst (md_heap s ! p) = i"
    using hash_ok_inst [OF inv(1) assms(2)] by blast
  note bar = barrier_removed [OF assms(1,2)]
  let ?lb = "if md_isReadBarrier i \<or> md_isHtmCmd i then remove1 (md_seqNum i) (loadBarrierSNs s) else loadBarrierSNs s"
    and ?sb = "if md_isWriteBarrier i \<or> md_isHtmCmd i then remove1 (md_seqNum i) (storeBarrierSNs s) else storeBarrierSNs s"
  obtain h dn where w: "wakeDependents i s = Some (s\<lparr>md_heap := h, memDepDone := dn\<rparr>)" "map me_inst h = map me_inst (md_heap s)"
    "\<forall>k<length (md_heap s). me_squashed (h ! k) = me_squashed (md_heap s ! k) \<and>
       memDeps (h ! k) = memDeps (md_heap s ! k) - count_list (dependInsts (md_heap s ! p)) k \<and>
       (k \<noteq> p \<longrightarrow> dependInsts (h ! k) = dependInsts (md_heap s ! k))"
    "\<forall>k<length (md_heap s). count_list dn (md_seq (md_heap s ! k)) = count_list (memDepDone s) (md_seq (md_heap s ! k)) +
       (if k \<in> set (dependInsts (md_heap s ! p)) \<and> memDeps (md_heap s ! k) = count_list (dependInsts (md_heap s ! p)) k \<and>
          \<not> me_squashed (md_heap s ! k) then 1 else 0)"
    "set dn \<subseteq> set (memDepDone s) \<union> md_seq ` set (md_heap s)"
    using wakeDependents_ok [OF inv(1,2) assms(2) p(1)] by blast
  have pl: "p < length (md_heap s)"
    using hash_ok_ptr(1) [OF inv(1) p(1)] .
  then have hp: "me_inst (h ! p) = i"
    using arg_cong [OF w(2), of "\<lambda>xs. xs ! p"] map_eq_imp_length_eq [OF w(2)] p(3) by simp
  define s' where "s' = s\<lparr>md_heap := h, memDepDone := dn, md_instList := remove1 i (md_instList s),
    memDepHash := (memDepHash s)(md_seqNum i := None), storeBarrierSNs := ?sb, loadBarrierSNs := ?lb\<rparr>"
  have run: "md_completeInst i s = Some s'"
    using bar(3,4) by (auto simp: md_completeInst_def w(1) md_completed_def p(1) hp s'_def)
  have l: "left_unit i p s s'"
    using w(2,3) p(1) assms(2) by (simp add: left_unit_def s'_def)
  have md: "\<forall>k<length (md_heap s). memDeps (md_heap s' ! k) = memDeps (md_heap s ! k) - count_list (dependInsts (md_heap s ! p)) k"
    using w(3) by (simp add: s'_def)
  have "wait_ok s'"
    using completed_core [OF inv(1,2) l _ md] assms(3) p(2) w(3) pl by (simp add: s'_def)
  moreover have b: "loadBarrierSNs s' = ?lb" "storeBarrierSNs s' = ?sb" "distinct ?lb" "distinct ?sb"
    using bar(5,6) by (simp_all add: s'_def)
  moreover have "depPred s' = depPred s" "memDepDone s' = dn" "instsToReplay s' = instsToReplay s"
    by (simp_all add: s'_def)
  moreover have "md_seqNum ` set (instsToReplay s) \<subseteq> dom (memDepHash s) - {md_seqNum i}"
    using inv(3) assms(4) unfolding history_ok_def by blast
  ultimately have "md_inv c s'"
    using left_unit_inv [OF assms(1) l, unfolded b, OF _ bar(1) b(3) bar(2) b(4)] md_inv_pred [OF assms(1)] w(5) by simp
  moreover have "later s s'"
    using left_unit_later [OF l completed_keeps [OF inv(1,2) l md]] w(4) by (simp add: s'_def)
  ultimately show ?thesis
    using run by blast
qed

text \<open>Squash.\<close>

definition squashed_youngest :: "md_inst \<Rightarrow> md_inst list \<Rightarrow> nat \<Rightarrow> mem_dep \<Rightarrow> mem_dep" where
  "squashed_youngest i is p s = s\<lparr>loadBarrierSNs := remove1 (md_seqNum i) (loadBarrierSNs s),
     storeBarrierSNs := remove1 (md_seqNum i) (storeBarrierSNs s),
     md_heap := (md_heap s)[p := (md_heap s ! p)\<lparr>me_squashed := True\<rparr>],
     memDepHash := (memDepHash s)(md_seqNum i := None), md_instList := rev is\<rparr>"

lemma squash_youngest_step:
  assumes "md_inv c s" and il: "md_instList s = rev (i # is)" and p: "memDepHash s (md_seqNum i) = Some p"
    and "md_seqNum i \<notin> md_seqNum ` set (instsToReplay s)"
  shows "md_inv c (squashed_youngest i is p s) \<and> later s (squashed_youngest i is p s)"
proof -
  let ?s = "squashed_youngest i is p s"
  have inv: "hash_ok s" "wait_ok s" "barrier_ok s" "history_ok c s"
    using assms(1) by (simp_all add: md_inv_def)
  have pl: "p < length (md_heap s)"
    using hash_ok_ptr(1) [OF inv(1) p] .
  have young: "\<forall>j\<in>set (md_instList s). md_seqNum j \<le> md_seqNum i" and "i \<notin> set is"
    using inv(1) il by (auto simp: hash_ok_def sorted_wrt_append less_imp_le)
  then have l: "left_unit i p s ?s"
    using p il pl by (auto simp: left_unit_def squashed_youngest_def map_update remove1_append
        list_update_id [of "map me_inst (md_heap s)" p, simplified nth_map [OF pl]])
  have wk: "wait_ok ?s \<and> keeps s ?s"
    by (rule squashed_core [OF inv(1,2) l young]) (use pl in \<open>auto simp: squashed_youngest_def nth_list_update\<close>)
  have "md_inv c ?s"
  proof (rule left_unit_inv [OF assms(1) l conjunct1 [OF wk]])
    show "md_seqNum ` set (instsToReplay ?s) \<subseteq> dom (memDepHash s) - {md_seqNum i}"
      using inv(4) assms(4) by (simp add: history_ok_def squashed_youngest_def) blast
  qed (use inv(3) md_inv_pred [OF assms(1)] in \<open>auto simp: squashed_youngest_def barrier_ok_def\<close>)
  then show ?thesis
    using left_unit_later [OF l] wk by blast
qed

lemma squash_loop_ok:
  assumes "md_inv c s" and "md_instList s = rev is" and "\<forall>i\<in>set (instsToReplay s). \<not> n < md_seqNum i"
  shows "\<exists>s'. md_squash_loop n is s = Some s' \<and> md_inv c s' \<and> later s s' \<and>
    set (md_instList s') = {i\<in>set (md_instList s). md_seqNum i \<le> n}"
  using assms
proof (induction "is" arbitrary: s)
  case Nil
  then show ?case
    by (simp add: later_refl)
next
  case (Cons i "is")
  have ok: "hash_ok s"
    using Cons.prems(1) by (simp add: md_inv_def)
  obtain p where p: "memDepHash s (md_seqNum i) = Some p"
    using hash_ok_inst [OF ok, of i] Cons.prems(2) by auto
  let ?s = "squashed_youngest i is p s"
  show ?case
  proof (cases "n < md_seqNum i")
    case True
    have "md_seqNum i \<notin> md_seqNum ` set (instsToReplay s)"
      using Cons.prems(3) True by auto
    from squash_youngest_step [OF Cons.prems(1,2) p this]
    have s: "md_inv c ?s" "later s ?s"
      by blast+
    obtain s' where s': "md_squash_loop n is ?s = Some s'" "md_inv c s'" "later ?s s'"
      "set (md_instList s') = {i\<in>set (md_instList ?s). md_seqNum i \<le> n}"
      using Cons.IH [OF s(1)] Cons.prems(3) by (auto simp: squashed_youngest_def)
    have "md_squash_loop n (i # is) s = Some s'"
      using s'(1) True p by (simp add: squashed_youngest_def)
    moreover have "set (md_instList s') = {i\<in>set (md_instList s). md_seqNum i \<le> n}"
      unfolding s'(4) using True Cons.prems(2) by (auto simp: squashed_youngest_def)
    ultimately show ?thesis
      using s'(2) later_trans [OF s(2) s'(3) ok] by blast
  next
    case False
    have "\<forall>j\<in>set (md_instList s). md_seqNum j \<le> md_seqNum i"
      using ok Cons.prems(2) by (auto simp: hash_ok_def sorted_wrt_append less_imp_le)
    then show ?thesis
      using False Cons.prems(1) by (auto simp: later_refl)
  qed
qed

lemma squash_step:
  assumes "md_inv c s"
  shows "\<exists>s'. md_squash n s = Some s' \<and> md_inv c s' \<and> later s s' \<and>
    set (md_instList s') = {i\<in>set (md_instList s). md_seqNum i \<le> n}"
proof -
  let ?s = "s\<lparr>instsToReplay := filter (\<lambda>i. \<not> n < md_seqNum i) (instsToReplay s)\<rparr>"
  have ok: "hash_ok s"
    using assms by (simp add: md_inv_def)
  have l: "later s ?s" and core: "hash_ok ?s = hash_ok s" "wait_ok ?s = wait_ok s"
    using later_cong [of ?s s s] later_refl core_cong(1,2) [of ?s s] by simp_all
  have "md_seqNum ` set (instsToReplay ?s) \<subseteq> md_seqNum ` set (instsToReplay s)"
    by auto
  then have "history_ok c ?s"
    using assms subset_trans by (simp add: md_inv_def history_ok_def) blast
  then have inv: "md_inv c ?s"
    using assms core by (simp add: md_inv_def barrier_ok_def)
  have "md_instList ?s = rev (rev (md_instList s))" "\<forall>i\<in>set (instsToReplay ?s). \<not> n < md_seqNum i"
    by simp_all
  from squash_loop_ok [OF inv this]
  obtain s1 where s1: "md_squash_loop n (rev (md_instList s)) ?s = Some s1" "md_inv c s1" "later ?s s1"
    "set (md_instList s1) = {i\<in>set (md_instList ?s). md_seqNum i \<le> n}"
    by blast
  let ?t = "s1\<lparr>depPred := ss_squash n (depPred s1)\<rparr>"
  have t: "md_inv c ?t" "later s1 ?t"
    using pred_step [OF s1(2)] ss_squash_ok md_inv_pred [OF s1(2)] by blast+
  have "later s ?t"
    using later_trans [OF later_trans [OF l s1(3) ok] t(2) ok] .
  then show ?thesis
    using s1(1,4) t(1) by (simp add: md_squash_def)
qed

section \<open>Runs\<close>

text \<open>What the pipeline guarantees of its calls: instructions arrive with growing sequence numbers,
  only instructions in flight are replayed, and one completes only after it was released and when it
  is not waiting to be replayed.\<close>

fun md_legal :: "md_event \<Rightarrow> mem_dep \<Rightarrow> bool" where
  "md_legal (MInsert cycle i) s \<longleftrightarrow> fresh i s \<and> (md_isLoad i \<or> md_isStore i \<or> md_isAtomic i)"
| "md_legal (MInsertNonSpec cycle i) s \<longleftrightarrow> fresh i s \<and> (md_isLoad i \<or> md_isStore i \<or> md_isAtomic i)"
| "md_legal (MInsertBarrier i) s \<longleftrightarrow> fresh i s"
| "md_legal (MReschedule i) s \<longleftrightarrow> i \<in> set (md_instList s)"
| "md_legal (MComplete i) s \<longleftrightarrow> i \<in> set (md_instList s) \<and> memDeps (ent s (md_seqNum i)) = 0 \<and>
     md_seqNum i \<notin> md_seqNum ` set (instsToReplay s)"
| "md_legal e s \<longleftrightarrow> True"

fun md_legal_run :: "md_cfg \<Rightarrow> md_event list \<Rightarrow> mem_dep \<Rightarrow> bool" where
  "md_legal_run c [] s \<longleftrightarrow> True"
| "md_legal_run c (e # es) s \<longleftrightarrow>
     md_legal e s \<and> (case md_step c e s of None \<Rightarrow> True | Some s1 \<Rightarrow> md_legal_run c es s1)"

lemma md_step_ok:
  assumes "ss_cfg_ok (md_storeSet c)" and "md_inv c s" and "md_legal e s"
  shows "\<exists>s'. md_step c e s = Some s' \<and> md_inv c s' \<and> later s s'"
proof (cases e)
  case (MReschedule i)
  then show ?thesis
    using assms(2,3) reschedule_step [OF assms(2), of i] hash_ok_inst [of s i] by (auto simp: md_inv_def)
next
  case (MInsert cycle i)
  then show ?thesis
    using insert_step [OF assms(1,2), of i cycle] assms(3) by fastforce
next
  case (MSquash n)
  then show ?thesis
    using squash_step [OF assms(2), of n] by auto
qed (use assms insertNonSpec_step insertBarrier_step replay_step complete_step violation_step issue_step in auto)

lemma md_run_ok:
  assumes "ss_cfg_ok (md_storeSet c)" and "md_inv c s" and "md_legal_run c es s"
  shows "\<exists>s'. md_run c es s = Some s' \<and> md_inv c s' \<and> later s s'"
  using assms(2,3)
proof (induction es arbitrary: s)
  case Nil
  then show ?case
    by (simp add: later_refl)
next
  case (Cons e es)
  obtain s1 where s1: "md_step c e s = Some s1" "md_inv c s1" "later s s1"
    using md_step_ok [OF assms(1) Cons.prems(1), of e] Cons.prems(2) by auto
  obtain s' where "md_run c es s1 = Some s'" "md_inv c s'" "later s1 s'"
    using Cons.IH [OF s1(2)] Cons.prems(2) s1(1) by auto
  then show ?case
    using s1 later_trans [OF s1(3)] Cons.prems(1) by (auto simp: md_inv_def)
qed

lemma md_init_inv: "md_inv c (md_init c)"
  using ss_init_ok
  by (simp add: md_inv_def md_init_def hash_ok_def wait_ok_def barrier_ok_def history_ok_def)

lemma md_run_append: "md_run c (es @ es') s = Option.bind (md_run c es s) (md_run c es')"
  by (induction es arbitrary: s) (auto split: option.split)

lemma md_legal_run_append:
  "md_legal_run c (es @ es') s \<Longrightarrow> md_legal_run c es s \<and> (\<forall>s1. md_run c es s = Some s1 \<longrightarrow> md_legal_run c es' s1)"
  by (induction es arbitrary: s) (auto split: option.splits)

definition in_flight :: "mem_dep \<Rightarrow> seq_num set" where
  "in_flight s = md_seqNum ` set (md_instList s)"

text \<open>From an insertion on, as long as the instruction is in flight.\<close>

lemma run_after_insert:
  assumes "ss_cfg_ok (md_storeSet c)" and "md_legal_run c (es @ MInsert cycle i # es') (md_init c)"
  shows "\<exists>s ps pred strict s'. md_run c es (md_init c) = Some s \<and> md_inv c s \<and> md_producers c i s = Some (ps, pred, strict) \<and>
    md_run c (es @ MInsert cycle i # es') (md_init c) = Some s' \<and>
    (md_seqNum i \<in> in_flight s' \<longrightarrow> count_list (memDepDone s') (md_seqNum i) =
       (if enableReplayBasedMDP c \<and> md_isLoad i \<and> pred \<or> set ps \<inter> in_flight s \<inter> in_flight s' = {} then 1 else 0))"
proof -
  obtain s where s: "md_run c es (md_init c) = Some s" "md_inv c s"
    using md_run_ok [OF assms(1) md_init_inv] md_legal_run_append [OF assms(2)] by blast
  have leg: "md_legal (MInsert cycle i) s" "\<And>s1. md_insert c cycle i s = Some s1 \<Longrightarrow> md_legal_run c es' s1"
    using md_legal_run_append [OF assms(2)] s(1) by auto
  then obtain s1 ps pred strict where ins: "md_producers c i s = Some (ps, pred, strict)" "md_insert c cycle i s = Some s1"
    "md_inv c s1" "memDepHash s1 = (memDepHash s)(md_seqNum i \<mapsto> length (md_heap s))"
    "waits s1 (md_seqNum i) = (if enableReplayBasedMDP c \<and> md_isLoad i \<and> pred then {} else set ps \<inter> dom (memDepHash s))"
    "released s1 (md_seqNum i)"
    using insert_step [OF assms(1) s(2), of i cycle] by auto
  obtain s' where s': "md_run c es' s1 = Some s'" "md_inv c s'" "later s1 s'"
    using md_run_ok [OF assms(1) ins(3) leg(2) [OF ins(2)]] by blast
  have run: "md_run c (es @ MInsert cycle i # es') (md_init c) = Some s'"
    by (simp add: md_run_append s(1) ins(2) s'(1))
  have ok: "hash_ok s" "hash_ok s'" "wait_ok s'"
    using s(2) s'(2) by (simp_all add: md_inv_def)
  have fl: "in_flight s = dom (memDepHash s)" "in_flight s' = dom (memDepHash s')"
    using hash_ok_dom ok by (simp_all add: in_flight_def)
  have "count_list (memDepDone s') (md_seqNum i) =
      (if enableReplayBasedMDP c \<and> md_isLoad i \<and> pred \<or> set ps \<inter> in_flight s \<inter> in_flight s' = {} then 1 else 0)"
    if fi: "md_seqNum i \<in> in_flight s'"
  proof -
    obtain p where p: "memDepHash s' (md_seqNum i) = Some p"
      using fi fl by auto
    have "md_seqNum i \<in> dom (memDepHash s1) \<inter> dom (memDepHash s')"
      using p ins(4) by auto
    then have w: "waits s' (md_seqNum i) = waits s1 (md_seqNum i) \<inter> dom (memDepHash s')" "released s' (md_seqNum i)"
      using s'(3) ins(6) unfolding later_def keeps_def by blast+
    have "memDeps (ent s' (md_seqNum i)) = 0 \<longleftrightarrow>
        enableReplayBasedMDP c \<and> md_isLoad i \<and> pred \<or> set ps \<inter> in_flight s \<inter> in_flight s' = {}"
      using waits_empty_iff [OF ok(2,3) p, unfolded w(1) ins(5)] unfolding fl by (cases "enableReplayBasedMDP c \<and> md_isLoad i \<and> pred") (simp_all, blast)
    then show ?thesis
      using w(2) by (simp add: released_def)
  qed
  then show ?thesis
    using s ins(1) run by blast
qed

section \<open>Properties\<close>

text \<open>C9: in a run of the memory dependence unit in which instructions arrive with growing sequence
  numbers, none of the assertions of the unit fails, and an instruction it was handed is, as long as
  it is in flight, told exactly once that its memory dependences are met when the last of the barriers
  and stores it found at its insertion has left the unit (at once when a load carries its prediction
  for a replay), and not at all before.\<close>

theorem mem_dep_wait_exact:
  assumes "ss_cfg_ok (md_storeSet c)" and "md_legal_run c (es @ MInsert cycle i # es') (md_init c)"
  shows "\<exists>s ps pred strict s'. md_run c es (md_init c) = Some s \<and> md_producers c i s = Some (ps, pred, strict) \<and>
    md_run c (es @ MInsert cycle i # es') (md_init c) = Some s' \<and>
    (md_seqNum i \<in> in_flight s' \<longrightarrow> count_list (memDepDone s') (md_seqNum i) =
       (if enableReplayBasedMDP c \<and> md_isLoad i \<and> pred \<or> set ps \<inter> in_flight s \<inter> in_flight s' = {} then 1 else 0))"
  using run_after_insert [OF assms] by blast

definition wit_md_cfg :: md_cfg where
  "wit_md_cfg = \<lparr>md_storeSet = wit_ss_cfg, enableReplayBasedMDP = False, enableMDPStrictWait = False\<rparr>"

lemma wit_md_cfg_ok: "ss_cfg_ok (md_storeSet wit_md_cfg)"
  by (simp add: wit_md_cfg_def wit_ss_cfg_def ss_cfg_ok_def)

definition wit_md_inst :: "seq_num \<Rightarrow> md_inst" where
  "wit_md_inst q = \<lparr>md_seqNum = q, md_pc = 9, md_isLoad = True, md_isStore = False, md_isAtomic = False,
     md_isReadBarrier = False, md_isWriteBarrier = False, md_isHtmCmd = False\<rparr>"

definition wit_fence :: "seq_num \<Rightarrow> md_inst" where
  "wit_fence q = (wit_md_inst q)\<lparr>md_isLoad := False, md_isReadBarrier := True, md_isWriteBarrier := True\<rparr>"

text \<open>A fence, a load behind it, the fence completes: the load is told once.\<close>

theorem mem_dep_wait_exact_witness:
  "\<exists>s ps pred strict s'. md_run wit_md_cfg [MInsertBarrier (wit_fence 3)] (md_init wit_md_cfg) = Some s \<and>
    md_producers wit_md_cfg (wit_md_inst 5) s = Some (ps, pred, strict) \<and>
    md_run wit_md_cfg ([MInsertBarrier (wit_fence 3)] @ MInsert 0 (wit_md_inst 5) # [MComplete (wit_fence 3)]) (md_init wit_md_cfg) =
      Some s' \<and>
    (md_seqNum (wit_md_inst 5) \<in> in_flight s' \<longrightarrow> count_list (memDepDone s') (md_seqNum (wit_md_inst 5)) =
       (if enableReplayBasedMDP wit_md_cfg \<and> md_isLoad (wit_md_inst 5) \<and> pred \<or>
           set ps \<inter> in_flight s \<inter> in_flight s' = {} then 1 else 0))"
proof (rule mem_dep_wait_exact)
  show "ss_cfg_ok (md_storeSet wit_md_cfg)"
    by (rule wit_md_cfg_ok)
  show "md_legal_run wit_md_cfg ([MInsertBarrier (wit_fence 3)] @ MInsert 0 (wit_md_inst 5) # [MComplete (wit_fence 3)])
      (md_init wit_md_cfg)"
    by code_simp
qed

text \<open>C10: a load that arrives while a read barrier (or a transactional memory command) is in flight, and
  a store that arrives while a write barrier is, is not told that its memory dependences are met before
  that barrier has left the unit.\<close>

theorem barriers_hold_back:
  assumes "ss_cfg_ok (md_storeSet c)" and "md_legal_run c (es @ MInsert cycle i # es') (md_init c)"
    and "md_run c es (md_init c) = Some s" and "md_run c (es @ MInsert cycle i # es') (md_init c) = Some s'"
    and b: "b \<in> set (md_instList s)" "b \<in> set (md_instList s')" and i: "i \<in> set (md_instList s')"
    and "md_isLoad i \<and> (md_isReadBarrier b \<or> md_isHtmCmd b) \<or>
      md_isStore i \<and> \<not> md_isLoad i \<and> \<not> md_isAtomic i \<and> (md_isWriteBarrier b \<or> md_isHtmCmd b)"
  shows "md_seqNum i \<notin> set (memDepDone s')"
proof -
  obtain ps pred strict where r: "md_inv c s" "md_producers c i s = Some (ps, pred, strict)"
    "md_seqNum i \<in> in_flight s' \<longrightarrow> count_list (memDepDone s') (md_seqNum i) =
       (if enableReplayBasedMDP c \<and> md_isLoad i \<and> pred \<or> set ps \<inter> in_flight s \<inter> in_flight s' = {} then 1 else 0)"
    using run_after_insert [OF assms(1,2)] assms(3,4) by auto
  have "barrier_ok s"
    using r(1) by (simp add: md_inv_def)
  then have "md_isLoad i \<and> md_seqNum b \<in> set (loadBarrierSNs s) \<or>
      md_isStore i \<and> \<not> md_isLoad i \<and> \<not> md_isAtomic i \<and> md_seqNum b \<in> set (storeBarrierSNs s)"
    using b(1) assms(8) by (auto simp: barrier_ok_def)
  then have "md_seqNum b \<in> set ps" "\<not> pred"
    using r(2) by (auto simp: md_producers_def split: if_splits)
  moreover have "md_seqNum b \<in> in_flight s" "md_seqNum b \<in> in_flight s'" "md_seqNum i \<in> in_flight s'"
    using b i by (auto simp: in_flight_def)
  ultimately have "count_list (memDepDone s') (md_seqNum i) = 0"
    using r(3) by auto
  then show ?thesis
    by (simp add: count_list_0_iff)
qed

text \<open>A fence, a load and a store behind it.\<close>

theorem barriers_hold_back_witness:
  "\<exists>s s'. md_run wit_md_cfg [MInsertBarrier (wit_fence 3)] (md_init wit_md_cfg) = Some s \<and>
    md_run wit_md_cfg ([MInsertBarrier (wit_fence 3)] @ MInsert 0 (wit_md_inst 5) # [MInsertBarrier (wit_fence 6)])
      (md_init wit_md_cfg) = Some s' \<and> md_seqNum (wit_md_inst 5) \<notin> set (memDepDone s')"
proof -
  let ?c = wit_md_cfg and ?es = "[MInsertBarrier (wit_fence 3)]" and ?i = "wit_md_inst 5" and ?es' = "[MInsertBarrier (wit_fence 6)]"
  have "md_run ?c ?es (md_init ?c) \<noteq> None" "md_run ?c (?es @ MInsert 0 ?i # ?es') (md_init ?c) \<noteq> None"
    by code_simp+
  then obtain s s' where s: "md_run ?c ?es (md_init ?c) = Some s" "md_run ?c (?es @ MInsert 0 ?i # ?es') (md_init ?c) = Some s'"
    by blast
  have "map_option md_instList (md_run ?c ?es (md_init ?c)) = Some [wit_fence 3]"
    "map_option md_instList (md_run ?c (?es @ MInsert 0 ?i # ?es') (md_init ?c)) = Some [wit_fence 3, ?i, wit_fence 6]"
    by code_simp+
  then have l: "md_instList s = [wit_fence 3]" "md_instList s' = [wit_fence 3, ?i, wit_fence 6]"
    unfolding s by simp_all
  have "md_legal_run ?c (?es @ MInsert 0 ?i # ?es') (md_init ?c)"
    by code_simp
  from barriers_hold_back [OF wit_md_cfg_ok this s, of "wit_fence 3"] show ?thesis
    using s l by (simp add: wit_md_inst_def wit_fence_def)
qed

end
