(* ===== verification/StoreBuffer.thy ===== *)
theory StoreBuffer
  imports Prelude
begin

unbundle bit_operations_syntax

text \<open>
  The store buffer the threads share between their store queues and the data cache:
  \<open>LSQ::StoreBufferEntry\<close>, \<open>LSQ::StoreBuffer\<close> and the eviction path of \<open>cpu/o3/lsq.cc\<close> and \<open>lsq.hh\<close>,
  \<open>LSQUnit::insertStoreBuffer\<close> of \<open>lsq_unit.cc\<close>, and the reference memory the responses of the cache
  update, \<open>cpu/golden_global_mem.cc\<close>.

  Entries live in \<open>data_vec\<close> and a pointer to one is its index. An iterator of \<open>data_map\<close> is the key it
  points to. The circular buffers \<open>lru_index\<close> and \<open>free_list\<close> are lists, front first. A request keeps
  its byte mask and whether its packet is outstanding; its data is the data of the entry. Whether the
  cache accepts a packet is an input. \<open>None\<close> is a failed assertion, a panic or an access out of bounds.
\<close>

section \<open>Entries\<close>

type_synonym byte = "8 word"

record sb_cfg =
  lineBits :: nat
  sbufferEntries :: nat
  sbufferEvictThreshold :: nat
  storeBufferInactiveThreshold :: nat
  pmemBase :: addr
  pmemSize :: addr

definition cacheLineSize :: "sb_cfg \<Rightarrow> nat" where
  "cacheLineSize c = 2 ^ lineBits c"

definition cacheBlock :: "sb_cfg \<Rightarrow> addr \<Rightarrow> addr" where
  "cacheBlock c a = a AND NOT (mask (lineBits c))"

definition cacheOffset :: "sb_cfg \<Rightarrow> addr \<Rightarrow> nat" where
  "cacheOffset c a = unat (a AND mask (lineBits c))"

record sb_request =
  rq_paddr :: addr
  rq_byteEnable :: "bool list"
  rq_outstanding :: bool

record sb_entry =
  sb_tid :: thread_id
  blockVaddr :: addr
  blockPaddr :: addr
  blockDatas :: "byte list"
  validMask :: "bool list"
  sending :: bool
  vice :: "nat option"
  sb_request :: "sb_request option"

definition newStoreBufferEntry :: "sb_cfg \<Rightarrow> sb_entry" where
  "newStoreBufferEntry c =
     \<lparr>sb_tid = 0, blockVaddr = 0, blockPaddr = 0, blockDatas = replicate (cacheLineSize c) 0,
      validMask = replicate (cacheLineSize c) False, sending = False, vice = None, sb_request = None\<rparr>"

text \<open>\<open>datas\<close> and \<open>bmask\<close> have the bytes of the access only; \<open>overwrite\<close> is the copy of a range.\<close>

definition overwrite :: "nat \<Rightarrow> 'a list \<Rightarrow> 'a list \<Rightarrow> 'a list" where
  "overwrite off ys xs = take off xs @ ys @ drop (off + length ys) xs"

definition entry_reset ::
  "thread_id \<Rightarrow> addr \<Rightarrow> addr \<Rightarrow> nat \<Rightarrow> byte list \<Rightarrow> bool list \<Rightarrow> sb_entry \<Rightarrow> sb_entry option" where
  "entry_reset t bv bp off datas bmask e =
     (if length (validMask e) < off + length datas \<or> length bmask < length datas then None
      else Some (e\<lparr>validMask := overwrite off (take (length datas) bmask) (replicate (length (validMask e)) False),
        blockDatas := overwrite off datas (blockDatas e), sb_tid := t, blockVaddr := bv, blockPaddr := bp,
        sending := False, sb_request := None, vice := None\<rparr>))"

fun merge_loop :: "nat \<Rightarrow> byte list \<Rightarrow> bool list \<Rightarrow> sb_entry \<Rightarrow> sb_entry" where
  "merge_loop off (d # ds) (m # ms) e =
     merge_loop (Suc off) ds ms
       (if m then e\<lparr>blockDatas := (blockDatas e)[off := d], validMask := (validMask e)[off := True]\<rparr> else e)"
| "merge_loop off _ _ e = e"

definition entry_merge :: "nat \<Rightarrow> byte list \<Rightarrow> bool list \<Rightarrow> sb_entry \<Rightarrow> sb_entry option" where
  "entry_merge off datas bmask e =
     (if length (validMask e) < off + length datas \<or> length bmask < length datas then None
      else Some (merge_loop off datas bmask e))"

section \<open>The buffer\<close>

record store_buffer =
  sb_size :: nat
  data_map :: "addr \<rightharpoonup> nat"
  crossRef :: "addr list"
  lru_index :: "nat list"
  free_list :: "nat list"
  data_vec :: "sb_entry list"
  data_vld :: "bool list"

definition sb_setData :: "sb_cfg \<Rightarrow> store_buffer" where
  "sb_setData c =
     \<lparr>sb_size = 0, data_map = \<lambda>k. None, crossRef = replicate (sbufferEntries c) 0, lru_index = [],
      free_list = [0..<sbufferEntries c], data_vec = replicate (sbufferEntries c) (newStoreBufferEntry c),
      data_vld = replicate (sbufferEntries c) False\<rparr>"

definition hashKey :: "thread_id \<Rightarrow> addr \<Rightarrow> addr" where
  "hashKey t block_paddr = block_paddr OR of_nat t"

definition sb_full :: "store_buffer \<Rightarrow> bool" where
  "sb_full b \<longleftrightarrow> free_list b = []"

definition unsentSize :: "store_buffer \<Rightarrow> nat" where
  "unsentSize b = length (lru_index b)"

definition set_entry :: "nat \<Rightarrow> sb_entry \<Rightarrow> store_buffer \<Rightarrow> store_buffer" where
  "set_entry i e b = b\<lparr>data_vec := (data_vec b)[i := e]\<rparr>"

definition getEmpty :: "store_buffer \<Rightarrow> (nat \<times> store_buffer) option" where
  "getEmpty b =
     (if sb_full b then None else Some (last (free_list b), b\<lparr>free_list := butlast (free_list b)\<rparr>))"

text \<open>\<open>unordered_map::insert\<close> keeps an element that is already there; its iterator is returned either
  way. A full circular buffer drops the element at the other end.\<close>

definition map_insert :: "addr \<Rightarrow> nat \<Rightarrow> store_buffer \<Rightarrow> store_buffer" where
  "map_insert k i b =
     b\<lparr>data_map := (case data_map b k of None \<Rightarrow> (data_map b)(k \<mapsto> i) | Some j \<Rightarrow> data_map b),
       crossRef := (crossRef b)[i := k]\<rparr>"

definition lru_push_front :: "nat \<Rightarrow> store_buffer \<Rightarrow> store_buffer" where
  "lru_push_front i b = b\<lparr>lru_index := take (length (data_vec b)) (i # lru_index b)\<rparr>"

definition free_push_back :: "nat \<Rightarrow> store_buffer \<Rightarrow> store_buffer" where
  "free_push_back i b =
     b\<lparr>free_list := (if length (free_list b) = length (data_vec b) then tl (free_list b) else free_list b) @ [i]\<rparr>"

definition sb_insert :: "nat \<Rightarrow> store_buffer \<Rightarrow> store_buffer option" where
  "sb_insert i b =
     (let e = data_vec b ! i in
      if \<not> sb_size b < length (data_vec b) \<or> data_vld b ! i \<or> length (lru_index b) = length (data_vec b) then None
      else Some (lru_push_front i ((map_insert (hashKey (sb_tid e) (blockPaddr e)) i b)
        \<lparr>sb_size := sb_size b + 1, data_vld := (data_vld b)[i := True]\<rparr>)))"

definition sb_get :: "thread_id \<Rightarrow> addr \<Rightarrow> store_buffer \<Rightarrow> nat option option" where
  "sb_get t a b =
     (case data_map b (hashKey t a) of
        None \<Rightarrow> Some None
      | Some i \<Rightarrow>
          if sb_tid (data_vec b ! i) \<noteq> t then Some None
          else if \<not> data_vld b ! i then None else Some (Some i))"

definition sb_update :: "nat \<Rightarrow> store_buffer \<Rightarrow> store_buffer option" where
  "sb_update i b =
     (if i \<notin> set (lru_index b) then None else Some (lru_push_front i (b\<lparr>lru_index := remove1 i (lru_index b)\<rparr>)))"

definition getEvict :: "store_buffer \<Rightarrow> (nat \<times> store_buffer) option" where
  "getEvict b =
     (if lru_index b = [] then None
      else if \<not> data_vld b ! last (lru_index b) then None
      else Some (last (lru_index b), b\<lparr>lru_index := butlast (lru_index b)\<rparr>))"

definition createVice :: "nat \<Rightarrow> store_buffer \<Rightarrow> (nat \<times> store_buffer) option" where
  "createVice i b =
     (case getEmpty (b\<lparr>sb_size := sb_size b + 1\<rparr>) of
        None \<Rightarrow> None
      | Some (v, b1) \<Rightarrow>
          if vice (data_vec b1 ! i) \<noteq> None then None
          else Some (v, (set_entry i ((data_vec b1 ! i)\<lparr>vice := Some v\<rparr>) b1)\<lparr>data_vld := (data_vld b1)[v := True]\<rparr>))"

definition sb_release :: "nat \<Rightarrow> store_buffer \<Rightarrow> store_buffer option" where
  "sb_release i b =
     (if sb_size b = 0 \<or> data_map b (crossRef b ! i) = None \<or> i \<in> set (free_list b) then None
      else
        let b1 = free_push_back i (b\<lparr>sb_size := sb_size b - 1, data_vld := (data_vld b)[i := False],
              data_map := (data_map b)(crossRef b ! i := None)\<rparr>) in
        case vice (data_vec b ! i) of
          None \<Rightarrow> Some b1
        | Some v \<Rightarrow>
            if \<not> data_vld b1 ! v then None
            else Some (lru_push_front v
              (map_insert (hashKey (sb_tid (data_vec b ! v)) (blockPaddr (data_vec b ! v))) v b1)))"

section \<open>Insertion of a store\<close>

text \<open>The result says whether the store was accepted.\<close>

definition insertStoreBuffer ::
  "sb_cfg \<Rightarrow> thread_id \<Rightarrow> addr \<Rightarrow> addr \<Rightarrow> byte list \<Rightarrow> bool list \<Rightarrow> store_buffer \<Rightarrow> (bool \<times> store_buffer) option" where
  "insertStoreBuffer c t vaddr paddr datas bmask b =
     (if cacheBlock c vaddr \<noteq> cacheBlock c (vaddr + of_nat (length datas) - 1) then None
      else
        let bv = cacheBlock c vaddr; bp = cacheBlock c paddr; off = cacheOffset c paddr in
        case sb_get t bp b of
          None \<Rightarrow> None
        | Some (Some i) \<Rightarrow>
            if sending (data_vec b ! i) then
              (case vice (data_vec b ! i) of
                 Some v \<Rightarrow> map_option (\<lambda>e. (True, set_entry v e b)) (entry_merge off datas bmask (data_vec b ! v))
               | None \<Rightarrow>
                   if sb_full b then Some (False, b)
                   else case createVice i b of
                     None \<Rightarrow> None
                   | Some (v, b1) \<Rightarrow>
                       map_option (\<lambda>e. (True, set_entry v e b1)) (entry_reset t bv bp off datas bmask (data_vec b1 ! v)))
            else
              (case sb_update i b of
                 None \<Rightarrow> None
               | Some b1 \<Rightarrow> map_option (\<lambda>e. (True, set_entry i e b1)) (entry_merge off datas bmask (data_vec b1 ! i)))
        | Some None \<Rightarrow>
            if sb_full b then Some (False, b)
            else case getEmpty b of
              None \<Rightarrow> None
            | Some (i, b1) \<Rightarrow>
                (case entry_reset t bv bp off datas bmask (data_vec b1 ! i) of
                   None \<Rightarrow> None
                 | Some e \<Rightarrow> map_option (Pair True) (sb_insert i (set_entry i e b1))))"

section \<open>Forwarding to loads\<close>

text \<open>The pairs of an offset in the load and a byte; \<open>goffset\<close> is the offset of this part of a split load.\<close>

fun forward_loop ::
  "sb_entry \<Rightarrow> sb_entry option \<Rightarrow> nat \<Rightarrow> nat \<Rightarrow> nat \<Rightarrow> nat \<Rightarrow> ((nat \<times> byte) list \<times> bool) option" where
  "forward_loop e v off goffset lsz 0 = Some ([], True)"
| "forward_loop e v off goffset lsz (Suc n) =
     (if \<not> goffset < lsz then None
      else if length (validMask e) \<le> off then None
      else
        map_option (\<lambda>(ps, full).
            case v of
              Some w \<Rightarrow>
                if validMask w ! off then ((goffset, blockDatas w ! off) # ps, full)
                else if validMask e ! off then ((goffset, blockDatas e ! off) # ps, full)
                else (ps, False)
            | None \<Rightarrow> if validMask e ! off then ((goffset, blockDatas e ! off) # ps, full) else (ps, False))
          (case v of
             Some w \<Rightarrow> if validMask w ! off \<and> blockVaddr w \<noteq> blockVaddr e then None
               else forward_loop e v (Suc off) (Suc goffset) lsz n
           | None \<Rightarrow> forward_loop e v (Suc off) (Suc goffset) lsz n))"

definition recordForward ::
  "sb_cfg \<Rightarrow> nat \<Rightarrow> addr \<Rightarrow> nat \<Rightarrow> nat \<Rightarrow> nat \<Rightarrow> store_buffer \<Rightarrow> ((nat \<times> byte) list \<times> bool) option" where
  "recordForward c i paddr sz goffset lsz b =
     (let e = data_vec b ! i; off = cacheOffset c paddr in
      if 0 < goffset \<and> off \<noteq> 0 then None
      else forward_loop e (map_option ((!) (data_vec b)) (vice e)) off goffset lsz sz)"

text \<open>\<open>LSQRequest::forward\<close>: the recorded bytes replace what the cache returned.\<close>

fun forward_bytes :: "(nat \<times> byte) list \<Rightarrow> byte list \<Rightarrow> byte list" where
  "forward_bytes [] memData = memData"
| "forward_bytes ((k, x) # ps) memData = forward_bytes ps (memData[k := x])"

text \<open>The part of \<open>LSQUnit::read\<close> that asks the buffer, for a load that is not split: the data of the load,
  where \<open>memData\<close> is what the cache returns unless all the bytes are forwarded.\<close>

definition sb_read :: "sb_cfg \<Rightarrow> thread_id \<Rightarrow> addr \<Rightarrow> byte list \<Rightarrow> store_buffer \<Rightarrow> (byte list \<times> bool) option" where
  "sb_read c t paddr memData b =
     (case sb_get t (cacheBlock c paddr) b of
        None \<Rightarrow> None
      | Some None \<Rightarrow> Some (memData, False)
      | Some (Some i) \<Rightarrow>
          map_option (\<lambda>(ps, full). (forward_bytes ps memData, full))
            (recordForward c i paddr (length memData) 0 (length memData) b))"

section \<open>Eviction\<close>

record sb_state =
  storeBuffer :: store_buffer
  storeBufferFlushing :: bool
  storeBufferWritebackInactive :: nat
  blockedSbufferEntry :: "nat option"
  dcacheWriteStall :: bool
  numSBufferRequest :: "thread_id \<Rightarrow> nat"
  goldenMem :: "addr \<Rightarrow> byte"

definition sb_init :: "sb_cfg \<Rightarrow> (addr \<Rightarrow> byte) \<Rightarrow> sb_state" where
  "sb_init c m =
     \<lparr>storeBuffer = sb_setData c, storeBufferFlushing = False, storeBufferWritebackInactive = 0,
      blockedSbufferEntry = None, dcacheWriteStall = False, numSBufferRequest = \<lambda>t. 0, goldenMem = m\<rparr>"

definition upd_entry :: "nat \<Rightarrow> (sb_entry \<Rightarrow> sb_entry) \<Rightarrow> sb_state \<Rightarrow> sb_state" where
  "upd_entry i f s = s\<lparr>storeBuffer := set_entry i (f (data_vec (storeBuffer s) ! i)) (storeBuffer s)\<rparr>"

definition storeBufferEmpty :: "sb_state \<Rightarrow> bool" where
  "storeBufferEmpty s \<longleftrightarrow> sb_size (storeBuffer s) = 0"

definition storeBufferBlocked :: "sb_state \<Rightarrow> bool" where
  "storeBufferBlocked s \<longleftrightarrow> blockedSbufferEntry s \<noteq> None"

text \<open>\<open>SbufferRequest::sendPacketToCache\<close>: the packet must not be outstanding; \<open>accept\<close> is the answer of
  the cache port.\<close>

definition sendPacketToCache :: "bool \<Rightarrow> nat \<Rightarrow> sb_state \<Rightarrow> sb_state option" where
  "sendPacketToCache accept i s =
     (case sb_request (data_vec (storeBuffer s) ! i) of
        None \<Rightarrow> None
      | Some r \<Rightarrow>
          if rq_outstanding r then None
          else Some (if accept then upd_entry i (\<lambda>e. e\<lparr>sb_request := Some (r\<lparr>rq_outstanding := True\<rparr>)\<rparr>) s else s))"

text \<open>\<open>sbufferWriteBank\<close> and the reset of the counter after an accepted packet.\<close>

definition after_send :: "nat \<Rightarrow> sb_state \<Rightarrow> sb_state option" where
  "after_send i s =
     (if length (validMask (data_vec (storeBuffer s) ! i)) \<noteq> 64 then None
      else Some ((upd_entry i (\<lambda>e. e\<lparr>sending := True\<rparr>) s)\<lparr>dcacheWriteStall := True, storeBufferWritebackInactive := 0\<rparr>))"

definition retryBlockedStoreBuffer :: "bool \<Rightarrow> sb_state \<Rightarrow> (bool \<times> sb_state) option" where
  "retryBlockedStoreBuffer accept s =
     (case blockedSbufferEntry s of
        None \<Rightarrow> Some (False, s)
      | Some i \<Rightarrow>
          (case sendPacketToCache accept i s of
             None \<Rightarrow> None
           | Some s1 \<Rightarrow>
               if \<not> accept then Some (True, s1)
               else map_option (\<lambda>s2. (True, s2\<lparr>blockedSbufferEntry := None\<rparr>)) (after_send i s1)))"

datatype sb_evict_cause = EvFlush | EvFull | EvSQFull | EvTimeout

definition evict_cause :: "sb_cfg \<Rightarrow> bool \<Rightarrow> sb_state \<Rightarrow> sb_evict_cause option" where
  "evict_cause c any_sq_will_full s =
     (if storeBufferFlushing s then Some EvFlush
      else if sbufferEvictThreshold c < unsentSize (storeBuffer s) then Some EvFull
      else if any_sq_will_full then Some EvSQFull
      else if storeBufferInactiveThreshold c < storeBufferWritebackInactive s then Some EvTimeout
      else None)"

text \<open>The request of an entry that leaves: created, counted and sent.\<close>

definition evict_entry :: "sb_cfg \<Rightarrow> bool \<Rightarrow> sb_state \<Rightarrow> sb_state option" where
  "evict_entry c accept s =
     (case getEvict (storeBuffer s) of
        None \<Rightarrow> None
      | Some (i, b) \<Rightarrow>
          let e = data_vec b ! i; n = numSBufferRequest s (sb_tid e) + 1 in
          if sb_request e \<noteq> None \<or> sbufferEntries c < n then None
          else
            let s1 = upd_entry i (\<lambda>e. e\<lparr>sb_request :=
                    Some \<lparr>rq_paddr = blockPaddr e, rq_byteEnable = validMask e, rq_outstanding = False\<rparr>\<rparr>)
                  (s\<lparr>storeBuffer := b, numSBufferRequest := (numSBufferRequest s)(sb_tid e := n)\<rparr>) in
            case sendPacketToCache accept i s1 of
              None \<Rightarrow> None
            | Some s2 \<Rightarrow> if accept then after_send i s2 else Some (s2\<lparr>blockedSbufferEntry := Some i\<rparr>))"

definition storeBufferWriteback :: "sb_cfg \<Rightarrow> bool \<Rightarrow> bool \<Rightarrow> sb_state \<Rightarrow> sb_state option" where
  "storeBufferWriteback c accept any_sq_will_full s =
     (let flushed = storeBufferFlushing s \<and> sb_size (storeBuffer s) = 0 in
      if flushed \<and> unsentSize (storeBuffer s) \<noteq> 0 then None
      else
        let s1 = (if flushed then s\<lparr>storeBufferFlushing := False\<rparr> else s) in
        if dcacheWriteStall s1 then Some (s1\<lparr>dcacheWriteStall := False\<rparr>)
        else case retryBlockedStoreBuffer accept s1 of
          None \<Rightarrow> None
        | Some (True, s2) \<Rightarrow> Some s2
        | Some (False, s2) \<Rightarrow>
            if unsentSize (storeBuffer s2) = 0 then Some s2
            else case evict_cause c any_sq_will_full s2 of
              None \<Rightarrow> Some (s2\<lparr>storeBufferWritebackInactive := storeBufferWritebackInactive s2 + 1\<rparr>)
            | Some cause \<Rightarrow> evict_entry c accept s2)"

definition flushStores :: "sb_state \<Rightarrow> sb_state" where
  "flushStores s = s\<lparr>storeBufferFlushing := True\<rparr>"

section \<open>Completion\<close>

definition inPmem :: "sb_cfg \<Rightarrow> addr \<Rightarrow> bool" where
  "inPmem c a \<longleftrightarrow> pmemBase c \<le> a \<and> a \<le> pmemBase c + pmemSize c - 1"

fun updateGoldenMem :: "sb_cfg \<Rightarrow> addr \<Rightarrow> byte list \<Rightarrow> bool list \<Rightarrow> (addr \<Rightarrow> byte) \<Rightarrow> (addr \<Rightarrow> byte) option" where
  "updateGoldenMem c a (d # ds) (m # ms) g =
     (if \<not> m then updateGoldenMem c (a + 1) ds ms g
      else if inPmem c a then updateGoldenMem c (a + 1) ds ms (g(a := d)) else None)"
| "updateGoldenMem c a _ _ g = Some g"

text \<open>The response to the packet of an entry: \<open>SbufferRequest::recvTimingResp\<close> with
  \<open>completeSbufferEvict\<close>, then the request is deleted.\<close>

definition completeSbufferEvict :: "sb_cfg \<Rightarrow> nat \<Rightarrow> sb_state \<Rightarrow> sb_state option" where
  "completeSbufferEvict c i s =
     (let e = data_vec (storeBuffer s) ! i in
      case sb_request e of
        None \<Rightarrow> None
      | Some r \<Rightarrow>
          if \<not> rq_outstanding r \<or> numSBufferRequest s (sb_tid e) = 0 then None
          else case (if inPmem c (rq_paddr r)
                then updateGoldenMem c (rq_paddr r) (blockDatas e) (rq_byteEnable r) (goldenMem s)
                else Some (goldenMem s)) of
            None \<Rightarrow> None
          | Some g \<Rightarrow>
              map_option (\<lambda>b. s\<lparr>storeBuffer := b, goldenMem := g,
                  numSBufferRequest := (numSBufferRequest s)(sb_tid e := numSBufferRequest s (sb_tid e) - 1)\<rparr>)
                (sb_release i (storeBuffer s)))"

section \<open>Runs\<close>

datatype sb_event =
  SBStore thread_id addr addr "byte list" "bool list"
| SBWriteback bool bool
| SBRetry bool
| SBResponse nat
| SBFlush

fun sb_step :: "sb_cfg \<Rightarrow> sb_event \<Rightarrow> sb_state \<Rightarrow> (bool \<times> sb_state) option" where
  "sb_step c (SBStore t vaddr paddr datas bmask) s =
     map_option (\<lambda>(ok, b). (ok, s\<lparr>storeBuffer := b\<rparr>)) (insertStoreBuffer c t vaddr paddr datas bmask (storeBuffer s))"
| "sb_step c (SBWriteback accept will_full) s = map_option (Pair True) (storeBufferWriteback c accept will_full s)"
| "sb_step c (SBRetry accept) s = retryBlockedStoreBuffer accept s"
| "sb_step c (SBResponse i) s = map_option (Pair True) (completeSbufferEvict c i s)"
| "sb_step c SBFlush s = Some (True, flushStores s)"

text \<open>What reaches the buffer in a state: a store of one block of the memory, by a thread whose number fits
  the offset bits, while no packet is refused; and the response to a packet that is outstanding.\<close>

definition access_ok :: "sb_cfg \<Rightarrow> thread_id \<Rightarrow> addr \<Rightarrow> addr \<Rightarrow> byte list \<Rightarrow> bool list \<Rightarrow> bool" where
  "access_ok c t vaddr paddr datas bmask \<longleftrightarrow>
     t < cacheLineSize c \<and> datas \<noteq> [] \<and> length bmask = length datas \<and>
     cacheOffset c vaddr = cacheOffset c paddr \<and> cacheOffset c paddr + length datas \<le> cacheLineSize c"

definition block_in_pmem :: "sb_cfg \<Rightarrow> addr \<Rightarrow> bool" where
  "block_in_pmem c bp \<longleftrightarrow> inPmem c bp \<and> inPmem c (bp + of_nat (cacheLineSize c - 1))"

fun sb_env :: "sb_cfg \<Rightarrow> sb_event \<Rightarrow> sb_state \<Rightarrow> bool" where
  "sb_env c (SBStore t vaddr paddr datas bmask) s \<longleftrightarrow>
     access_ok c t vaddr paddr datas bmask \<and> block_in_pmem c (cacheBlock c paddr) \<and> \<not> storeBufferBlocked s"
| "sb_env c (SBResponse i) s \<longleftrightarrow>
     i < length (data_vec (storeBuffer s)) \<and> data_vld (storeBuffer s) ! i \<and>
     (case sb_request (data_vec (storeBuffer s) ! i) of None \<Rightarrow> False | Some r \<Rightarrow> rq_outstanding r)"
| "sb_env c _ s \<longleftrightarrow> True"

type_synonym sb_store = "thread_id \<times> addr \<times> byte list \<times> bool list"

fun accepted :: "sb_event \<Rightarrow> bool \<Rightarrow> sb_store list" where
  "accepted (SBStore t vaddr paddr datas bmask) True = [(t, paddr, datas, bmask)]"
| "accepted _ _ = []"

text \<open>A run skips the events that cannot reach the buffer and collects the accepted stores, oldest first.\<close>

fun sb_run :: "sb_cfg \<Rightarrow> sb_event list \<Rightarrow> sb_state \<Rightarrow> (sb_store list \<times> sb_state) option" where
  "sb_run c [] s = Some ([], s)"
| "sb_run c (ev # evs) s =
     (if \<not> sb_env c ev s then sb_run c evs s
      else case sb_step c ev s of
        None \<Rightarrow> None
      | Some (ok, s1) \<Rightarrow> map_option (\<lambda>(log, s2). (accepted ev ok @ log, s2)) (sb_run c evs s1))"

end
