(* ===== verification/StoreQueue.thy ===== *)
theory StoreQueue
  imports StoreBuffer
begin

text \<open>
  The store queue of a thread (\<open>LSQUnit\<close> of \<open>cpu/o3/lsq_unit.cc\<close> and \<open>lsq_unit.hh\<close>): insertion, execution
  and commit of stores, the search of a load for older stores, the hand-over of committed stores to the
  store buffer and the arbitration between threads in \<open>LSQ::processWriteback\<close> of \<open>cpu/o3/lsq.cc\<close>.

  An entry holds the fields of the instruction and of the request that are read here. The circular queue is
  the list of its valid entries, oldest first, with the index of the first; the slot of a new entry still
  has the data of the store that had it before, which is an input. Stores that must not go through the
  store buffer (atomic, conditional, release and strictly ordered ones) are sent to the cache directly;
  the model ends where that begins. \<open>None\<close> is a failed assertion or a panic.
\<close>

section \<open>Entries\<close>

record sq_part =
  pt_vaddr :: addr
  pt_paddr :: addr
  pt_size :: nat
  pt_mask :: "bool list"

record sq_entry =
  sq_seqNum :: nat
  isSplitStoreAddr :: bool
  isAtomic :: bool
  isStoreConditional :: bool
  isDataPrefetch :: bool
  sq_size :: nat
  sq_data :: "byte list"
  sq_vaddr :: addr
  physEffAddr :: addr
  sq_mask :: "bool list"
  sq_isSplit :: bool
  sq_reqs :: "sq_part list"
  numOutstandingPackets :: nat
  isDirect :: bool
  strictlyOrdered :: bool
  isCacheMaintenance :: bool
  canWB :: bool
  completed :: bool
  isAllZeros :: bool
  addrReady :: bool
  dataReady :: bool
  staFinish :: bool
  stdFinish :: bool

text \<open>\<open>SQEntry::set\<close> on a cleared slot whose data is \<open>old\<close>.\<close>

definition sq_new :: "nat \<Rightarrow> bool \<Rightarrow> bool \<Rightarrow> bool \<Rightarrow> byte list \<Rightarrow> sq_entry" where
  "sq_new seq split_addr atomic sc old =
     \<lparr>sq_seqNum = seq, isSplitStoreAddr = split_addr, isAtomic = atomic, isStoreConditional = sc, isDataPrefetch = False,
      sq_size = 0, sq_data = old, sq_vaddr = 0, physEffAddr = 0, sq_mask = [], sq_isSplit = False, sq_reqs = [],
      numOutstandingPackets = 0, isDirect = False, strictlyOrdered = False, isCacheMaintenance = False, canWB = False,
      completed = False, isAllZeros = False, addrReady = False, dataReady = False, staFinish = False, stdFinish = False\<rparr>"

definition canForwardToLoad :: "sq_entry \<Rightarrow> bool" where
  "canForwardToLoad e \<longleftrightarrow> addrReady e \<and> dataReady e"

definition splitStoreFinish :: "sq_entry \<Rightarrow> bool" where
  "splitStoreFinish e \<longleftrightarrow> staFinish e \<and> stdFinish e"

definition isMasked :: "bool list \<Rightarrow> bool" where
  "isMasked bmask \<longleftrightarrow> False \<in> set bmask"

section \<open>The queue\<close>

record store_queue =
  sq_head :: nat
  sq_entries :: "sq_entry list"
  storeWBIt :: nat
  storesToWB :: nat
  sq_capacity :: nat
  isStoreBlocked :: bool

definition sq_init :: "nat \<Rightarrow> store_queue" where
  "sq_init cap = \<lparr>sq_head = 0, sq_entries = [], storeWBIt = 0, storesToWB = 0, sq_capacity = cap, isStoreBlocked = False\<rparr>"

definition sq_end :: "store_queue \<Rightarrow> nat" where
  "sq_end q = sq_head q + length (sq_entries q)"

definition sq_upd :: "nat \<Rightarrow> (sq_entry \<Rightarrow> sq_entry) \<Rightarrow> store_queue \<Rightarrow> store_queue" where
  "sq_upd i f q = q\<lparr>sq_entries := (sq_entries q)[i := f (sq_entries q ! i)]\<rparr>"

definition sq_insertStore :: "sq_entry \<Rightarrow> store_queue \<Rightarrow> store_queue option" where
  "sq_insertStore e q =
     (if length (sq_entries q) = sq_capacity q then None else Some (q\<lparr>sq_entries := sq_entries q @ [e]\<rparr>))"

text \<open>The request of a store as translation left it.\<close>

record st_request =
  sr_vaddr :: addr
  sr_paddr :: addr
  sr_size :: nat
  sr_mask :: "bool list"
  sr_isSplit :: bool
  sr_reqs :: "sq_part list"
  sr_direct :: bool
  sr_strict :: bool
  sr_blockZero :: bool
  sr_maintenance :: bool

definition MaxDataBytes :: nat where
  "MaxDataBytes = 4096"

text \<open>\<open>LSQUnit::write\<close> on the entry of the store.\<close>

definition sq_write :: "st_request \<Rightarrow> byte list \<Rightarrow> sq_entry \<Rightarrow> sq_entry option" where
  "sq_write r data e =
     (let no_data = sr_blockZero r \<or> sr_maintenance r in
      if MaxDataBytes < sr_size r \<and> \<not> no_data then None
      else Some (e\<lparr>sq_size := sr_size r, sq_vaddr := sr_vaddr r, physEffAddr := sr_paddr r, sq_mask := sr_mask r,
        sq_isSplit := sr_isSplit r, sq_reqs := sr_reqs r, isDirect := (sr_direct r \<or> isAtomic e \<or> isStoreConditional e),
        strictlyOrdered := sr_strict r, isCacheMaintenance := sr_maintenance r, isAllZeros := no_data,
        sq_data := (if sr_blockZero r \<or> sr_maintenance r \<or> isAtomic e \<or> isSplitStoreAddr e then sq_data e
          else overwrite 0 (take (sr_size r) data) (sq_data e))\<rparr>))"

text \<open>\<open>LSQUnit::storeDoWriteSQ\<close> for the \<open>i\<close>-th entry, up to the check for ordering violations. The request is
  there if its translation is complete and memory has to be accessed; \<open>fault\<close> is the fault of the instruction.\<close>

definition storeDoWriteSQ :: "nat \<Rightarrow> bool \<Rightarrow> bool \<Rightarrow> st_request option \<Rightarrow> byte list \<Rightarrow> store_queue \<Rightarrow> store_queue option" where
  "storeDoWriteSQ i readPredicate fault request data q =
     (if \<not> i < length (sq_entries q) then None
      else case (case request of
          Some r \<Rightarrow> if fault then Some (sq_entries q ! i) else sq_write r data (sq_entries q ! i)
        | None \<Rightarrow> Some (sq_entries q ! i)) of
        None \<Rightarrow> None
      | Some e1 \<Rightarrow>
          let e2 = e1\<lparr>addrReady := True, dataReady := (dataReady e1 \<or> \<not> isSplitStoreAddr e1)\<rparr> in
          if \<not> readPredicate then Some (q\<lparr>sq_entries := (sq_entries q)[i := e1]\<rparr>)
          else if sq_size e2 = 0 then Some (q\<lparr>sq_entries := (sq_entries q)[i := e2]\<rparr>)
          else if fault then None
          else if isStoreConditional e2 then
            Some (q\<lparr>sq_entries := (sq_entries q)[i := e2\<lparr>canWB := True\<rparr>], storesToWB := storesToWB q + 1\<rparr>)
          else Some (q\<lparr>sq_entries := (sq_entries q)[i := e2]\<rparr>))"

text \<open>The store data part of a split store and the end of the store pipeline.\<close>

definition storeData :: "nat \<Rightarrow> byte list \<Rightarrow> store_queue \<Rightarrow> store_queue" where
  "storeData i data q =
     sq_upd i (\<lambda>e. e\<lparr>sq_data := overwrite 0 data (sq_data e), dataReady := True, stdFinish := True\<rparr>) q"

definition storePipeFinish :: "nat \<Rightarrow> store_queue \<Rightarrow> store_queue" where
  "storePipeFinish i q = sq_upd i (\<lambda>e. e\<lparr>staFinish := True, stdFinish := (stdFinish e \<or> \<not> isSplitStoreAddr e)\<rparr>) q"

fun commit_stores_loop :: "nat \<Rightarrow> sq_entry list \<Rightarrow> (sq_entry list \<times> nat) option" where
  "commit_stores_loop youngest [] = Some ([], 0)"
| "commit_stores_loop youngest (e # es) =
     (if canWB e then map_option (\<lambda>(es', n). (e # es', n)) (commit_stores_loop youngest es)
      else if youngest < sq_seqNum e then Some (e # es, 0)
      else if isSplitStoreAddr e \<and> \<not> splitStoreFinish e then None
      else map_option (\<lambda>(es', n). (e\<lparr>canWB := True\<rparr> # es', Suc n)) (commit_stores_loop youngest es))"

definition commitStores :: "nat \<Rightarrow> store_queue \<Rightarrow> store_queue option" where
  "commitStores youngest q =
     map_option (\<lambda>(es, n). q\<lparr>sq_entries := es, storesToWB := storesToWB q + n\<rparr>) (commit_stores_loop youngest (sq_entries q))"

definition sq_squash :: "nat \<Rightarrow> store_queue \<Rightarrow> store_queue" where
  "sq_squash sn q =
     q\<lparr>sq_entries := rev (dropWhile (\<lambda>e. sn < sq_seqNum e \<and> \<not> canWB e) (rev (sq_entries q)))\<rparr>"

text \<open>The entry at the head leaves with the completed ones behind it.\<close>

definition completeStore :: "nat \<Rightarrow> store_queue \<Rightarrow> store_queue" where
  "completeStore idx q =
     (let q1 = (sq_upd (idx - sq_head q) (\<lambda>e. e\<lparr>completed := True\<rparr>) q)\<lparr>storesToWB := storesToWB q - 1\<rparr> in
      if idx \<noteq> sq_head q then q1
      else
        let es = dropWhile completed (tl (sq_entries q1)) in
        q1\<lparr>sq_head := sq_head q + (length (sq_entries q) - length es), sq_entries := es\<rparr>)"

section \<open>Search of a load\<close>

datatype coverage = PartialAddrRangeCoverage | FullAddrRangeCoverage | NoAddrRangeCoverage

text \<open>The fields of a load and of its request that are read here. \<open>ld_isHead\<close>: the load is at the head of the load
  queue.\<close>

record sq_load =
  ld_seqNum :: nat
  ld_paddr :: addr
  ld_size :: nat
  ld_isLLSC :: bool
  ld_isSplit :: bool
  ld_reqs :: "(addr \<times> nat) list"
  ld_sqIt :: nat
  ld_hasFault :: bool
  ld_isStrictlyOrdered :: bool
  ld_isUncacheable :: bool
  ld_isLocalAccess :: bool
  ld_isDataPrefetch :: bool
  ld_isHead :: bool
  isAtCommit :: bool
  mdpPredStrictWait :: bool
  mdpProducingStores :: "nat list"

definition isNormalLd :: "sq_load \<Rightarrow> bool" where
  "isNormalLd ld \<longleftrightarrow> \<not> ld_isSplit ld \<and> \<not> ld_isLLSC ld \<and> \<not> ld_isStrictlyOrdered ld \<and> \<not> ld_isUncacheable ld"

text \<open>The result also says whether the load must be replayed because the data of the store is missing.\<close>

definition checkStoreLoadForwardingRange ::
  "sq_entry \<Rightarrow> bool \<Rightarrow> addr \<times> nat \<Rightarrow> addr \<times> nat \<Rightarrow> coverage \<times> bool" where
  "checkStoreLoadForwardingRange st llsc req srange =
     (let req_s = fst req; req_e = req_s + of_nat (snd req); st_s = fst srange; st_e = st_s + of_nat (snd srange);
          store_has_lower_limit = (st_s \<le> req_s); store_has_upper_limit = (req_e \<le> st_e);
          lower_load_has_store_part = (req_s < st_e); upper_load_has_store_part = (st_s < req_e);
          no_wrap = (\<not> (req_e < req_s \<or> st_e < st_s)) in
      if \<not> isAtomic st \<and> store_has_lower_limit \<and> store_has_upper_limit \<and> \<not> llsc \<and> no_wrap then
        if isSplitStoreAddr st \<and> \<not> canForwardToLoad st then (NoAddrRangeCoverage, True)
        else (if sq_isSplit st \<or> isMasked (sq_mask st) then PartialAddrRangeCoverage else FullAddrRangeCoverage, False)
      else if no_wrap \<and>
          (\<not> llsc \<and> (store_has_lower_limit \<and> lower_load_has_store_part \<or> store_has_upper_limit \<and> upper_load_has_store_part \<or>
             lower_load_has_store_part \<and> upper_load_has_store_part) \<or>
           (llsc \<or> isAtomic st) \<and> (store_has_lower_limit \<or> upper_load_has_store_part) \<and>
             (store_has_upper_limit \<or> lower_load_has_store_part))
      then (PartialAddrRangeCoverage, False)
      else (NoAddrRangeCoverage, False))"

fun scan_ranges :: "sq_entry \<Rightarrow> bool \<Rightarrow> ((addr \<times> nat) \<times> (addr \<times> nat)) list \<Rightarrow> coverage \<times> bool" where
  "scan_ranges st llsc [] = (NoAddrRangeCoverage, False)"
| "scan_ranges st llsc ((req, srange) # rs) =
     (case checkStoreLoadForwardingRange st llsc req srange of
        (NoAddrRangeCoverage, False) \<Rightarrow> scan_ranges st llsc rs
      | r \<Rightarrow> r)"

definition load_ranges :: "sq_load \<Rightarrow> (addr \<times> nat) list" where
  "load_ranges ld = (if ld_isSplit ld then ld_reqs ld else [(ld_paddr ld, ld_size ld)])"

definition store_ranges :: "sq_entry \<Rightarrow> (addr \<times> nat) list" where
  "store_ranges st =
     (if sq_isSplit st then map (\<lambda>p. (pt_paddr p, pt_size p)) (sq_reqs st) else [(physEffAddr st, sq_size st)])"

definition store_coverage :: "sq_load \<Rightarrow> sq_entry \<Rightarrow> coverage \<times> bool" where
  "store_coverage ld st =
     (let (cov, replay) = scan_ranges st (ld_isLLSC ld) (List.product (load_ranges ld) (store_ranges st)) in
      (if ld_isSplit ld \<and> cov \<noteq> NoAddrRangeCoverage then PartialAddrRangeCoverage else cov, replay))"

datatype sq_result = SQForward "byte list" | SQReplay | SQStall | SQNone

definition forward_data :: "sq_load \<Rightarrow> sq_entry \<Rightarrow> byte list" where
  "forward_data ld st =
     (if isAllZeros st then replicate (ld_size ld) 0
      else map (\<lambda>i. sq_data st ! (unat (ld_paddr ld - physEffAddr st) + i)) [0..<ld_size ld])"

text \<open>The loop of \<open>LSQUnit::read\<close> over the older stores, youngest first.\<close>

fun sq_search :: "sq_load \<Rightarrow> sq_entry list \<Rightarrow> sq_result option" where
  "sq_search ld [] = Some SQNone"
| "sq_search ld (st # sts) =
     (if \<not> sq_seqNum st < ld_seqNum ld then None
      else if sq_size st = 0 \<or> strictlyOrdered st \<or> isCacheMaintenance st then sq_search ld sts
      else case store_coverage ld st of
        (NoAddrRangeCoverage, True) \<Rightarrow> Some SQReplay
      | (NoAddrRangeCoverage, False) \<Rightarrow> sq_search ld sts
      | (FullAddrRangeCoverage, _) \<Rightarrow> Some (SQForward (forward_data ld st))
      | (PartialAddrRangeCoverage, _) \<Rightarrow> if completed st then None else Some SQStall)"

definition older_stores :: "sq_load \<Rightarrow> store_queue \<Rightarrow> sq_entry list" where
  "older_stores ld q = take (ld_sqIt ld - storeWBIt q) (drop (storeWBIt q - sq_head q) (sq_entries q))"

text \<open>What the data cache does when \<open>read\<close> gets to it: the packets are sent and the bytes come back, the bytes of
  an earlier request are on the bus, an earlier request is still pending, or a packet is not sent. The flag tells
  the failures that set a replay of their own (bank conflict, miss register, write buffer) from a blocked cache.\<close>

datatype cache_answer = CacheSent "byte list" | BusForward "byte list" | CachePending | CacheNotSent bool

text \<open>What \<open>read\<close> decides: the bytes of the load, or why it has none yet.\<close>

datatype read_result =
  ReadData "byte list"
| PendingFault
| StrictlyOrderedReplay
| MdpStrictWait nat
| MdpWait "nat list"
| LocalAccess
| STLFReplay
| RescheduleReplay
| WakeUpEarly
| CacheFlaggedReplay
| CacheBlockedReplay

text \<open>The wait for the stores the memory dependence predictor has named; \<open>completedNext\<close> is \<open>storeCompletedIdx + 1\<close>.\<close>

definition wait_stores :: "sq_load \<Rightarrow> store_queue \<Rightarrow> nat list" where
  "wait_stores ld q =
     map sq_seqNum (filter (\<lambda>e. \<not> addrReady e \<and> sq_seqNum e \<in> set (mdpProducingStores ld))
       (takeWhile (\<lambda>e. sq_seqNum e < ld_seqNum ld) (sq_entries q)))"

definition mdp_wait :: "bool \<Rightarrow> nat \<Rightarrow> sq_load \<Rightarrow> store_queue \<Rightarrow> read_result option" where
  "mdp_wait enableReplayBasedMDP completedNext ld q =
     (if enableReplayBasedMDP \<and> isNormalLd ld \<and> (mdpPredStrictWait ld \<or> mdpProducingStores ld \<noteq> []) \<and> \<not> ld_isLLSC ld then
        if mdpPredStrictWait ld then
          if completedNext < ld_sqIt ld then Some (MdpStrictWait (ld_sqIt ld - 1)) else None
        else if wait_stores ld q \<noteq> [] then Some (MdpWait (wait_stores ld q)) else None
      else None)"

text \<open>The bytes the store buffer adds when the packets of a load are sent (\<open>trySendPacket\<close>), one range after
  another; \<open>g\<close> is the offset of the range in the load.\<close>

fun send_forward :: "sb_cfg \<Rightarrow> thread_id \<Rightarrow> sq_load \<Rightarrow> nat \<Rightarrow> (addr \<times> nat) list \<Rightarrow> store_buffer \<Rightarrow> (nat \<times> byte) list option" where
  "send_forward c t ld g [] b = Some []"
| "send_forward c t ld g ((p, n) # rs) b =
     (case sb_get t (cacheBlock c p) b of
        None \<Rightarrow> None
      | Some None \<Rightarrow> send_forward c t ld (g + n) rs b
      | Some (Some i) \<Rightarrow>
          (case recordForward c i p n g (ld_size ld) b of
             None \<Rightarrow> None
           | Some (ps, full) \<Rightarrow>
               if full \<and> \<not> ld_isSplit ld then None
               else map_option ((@) ps) (send_forward c t ld (g + n) rs b)))"

text \<open>The bytes before forwarding; without an answer they do not matter.\<close>

definition answer_bytes :: "sq_load \<Rightarrow> cache_answer \<Rightarrow> byte list" where
  "answer_bytes ld ans = (case ans of CacheSent bs \<Rightarrow> bs | BusForward bs \<Rightarrow> bs | _ \<Rightarrow> replicate (ld_size ld) 0)"

text \<open>The end of \<open>read\<close>, when no store of the queue has decided: the store buffer, then the cache.\<close>

definition read_buffer :: "sb_cfg \<Rightarrow> thread_id \<Rightarrow> sq_load \<Rightarrow> cache_answer \<Rightarrow> store_buffer \<Rightarrow> read_result option" where
  "read_buffer c t ld ans b =
     (case (if ld_isDataPrefetch ld \<or> ld_isSplit ld then Some (answer_bytes ld ans, False)
            else sb_read c t (ld_paddr ld) (answer_bytes ld ans) b) of
        None \<Rightarrow> None
      | Some (bs, True) \<Rightarrow> Some (ReadData bs)
      | Some (bs, False) \<Rightarrow>
          (case ans of
             CachePending \<Rightarrow> Some WakeUpEarly
           | BusForward _ \<Rightarrow> Some (ReadData bs)
           | CacheSent _ \<Rightarrow> map_option (\<lambda>ps. ReadData (forward_bytes ps bs)) (send_forward c t ld 0 (load_ranges ld) b)
           | CacheNotSent flagged \<Rightarrow> Some (if flagged then CacheFlaggedReplay else CacheBlockedReplay)))"

definition lsq_read ::
  "bool \<Rightarrow> nat \<Rightarrow> sb_cfg \<Rightarrow> thread_id \<Rightarrow> sq_load \<Rightarrow> cache_answer \<Rightarrow> store_queue \<Rightarrow> store_buffer \<Rightarrow> read_result option" where
  "lsq_read enableReplayBasedMDP completedNext c t ld ans q b =
     (if ld_hasFault ld then Some PendingFault
      else if ld_isStrictlyOrdered ld \<and> (\<not> ld_isHead ld \<or> \<not> isAtCommit ld) then Some StrictlyOrderedReplay
      else case mdp_wait enableReplayBasedMDP completedNext ld q of
        Some r \<Rightarrow> Some r
      | None \<Rightarrow>
          if ld_isLocalAccess ld then Some LocalAccess
          else if ld_sqIt ld < storeWBIt q then None
          else case (if ld_isDataPrefetch ld then Some SQNone else sq_search ld (rev (older_stores ld q))) of
            None \<Rightarrow> None
          | Some (SQForward bs) \<Rightarrow> Some (ReadData bs)
          | Some SQReplay \<Rightarrow> Some STLFReplay
          | Some SQStall \<Rightarrow> Some RescheduleReplay
          | Some SQNone \<Rightarrow> read_buffer c t ld ans b)"

section \<open>Hand-over to the store buffer\<close>

definition wb_ready :: "store_queue \<Rightarrow> bool" where
  "wb_ready q \<longleftrightarrow> sq_head q \<le> storeWBIt q \<and> storeWBIt q < sq_end q \<and> canWB (sq_entries q ! (storeWBIt q - sq_head q))"

definition wb_entry :: "store_queue \<Rightarrow> sq_entry" where
  "wb_entry q = sq_entries q ! (storeWBIt q - sq_head q)"

definition countStoreBufferOffloadableEntries :: "nat \<Rightarrow> store_queue \<Rightarrow> nat" where
  "countStoreBufferOffloadableEntries max_entries q =
     (if max_entries = 0 \<or> isStoreBlocked q \<or> storesToWB q = 0 then 0
      else min max_entries (length (filter (\<lambda>e. \<not> (sq_size e = 0 \<or> isDataPrefetch e))
        (takeWhile canWB (drop (storeWBIt q - sq_head q) (sq_entries q))))))"

text \<open>The part of a split store, with the data at its offset.\<close>

definition part_data :: "sq_entry \<Rightarrow> sq_part \<Rightarrow> byte list" where
  "part_data e p = take (pt_size p) (drop (unat (pt_vaddr p - sq_vaddr e)) (sq_data e))"

text \<open>The loop over the parts that are still to be inserted; the number of parts inserted is returned.\<close>

fun offload_parts :: "sb_cfg \<Rightarrow> thread_id \<Rightarrow> sq_entry \<Rightarrow> sq_part list \<Rightarrow> store_buffer \<Rightarrow> (nat \<times> store_buffer) option" where
  "offload_parts c t e [] b = Some (0, b)"
| "offload_parts c t e (p # ps) b =
     (if sq_size e < unat (pt_vaddr p - sq_vaddr e) + pt_size p then None
      else case insertStoreBuffer c t (pt_vaddr p) (pt_paddr p) (part_data e p) (pt_mask p) b of
        None \<Rightarrow> None
      | Some (False, b1) \<Rightarrow> Some (0, b1)
      | Some (True, b1) \<Rightarrow> map_option (\<lambda>(n, b2). (Suc n, b2)) (offload_parts c t e ps b1))"

definition sq_advance :: "store_queue \<Rightarrow> store_queue" where
  "sq_advance q = q\<lparr>storeWBIt := storeWBIt q + 1\<rparr>"

lemma sq_end_simps [simp]:
  "sq_end (sq_advance q) = sq_end q" "storeWBIt (sq_advance q) = Suc (storeWBIt q)" "sq_end (completeStore i q) = sq_end q"
  "storeWBIt (completeStore i q) = storeWBIt q" "sq_end (sq_upd j f q) = sq_end q" "storeWBIt (sq_upd j f q) = storeWBIt q"
proof -
  have "length (dropWhile completed (tl (xs[k := x]))) \<le> length xs" for xs k and x :: sq_entry
    using length_dropWhile_le [of completed "tl (xs[k := x])"] by simp
  then show "sq_end (completeStore i q) = sq_end q"
    by (simp add: sq_end_def completeStore_def Let_def sq_upd_def trans_le_add2)
qed (simp_all add: sq_advance_def sq_end_def completeStore_def Let_def sq_upd_def)

text \<open>\<open>offloadToStoreBuffer\<close> with the number of stores still to be accepted; the flag says that a store has
  reached \<open>directStoreToCache\<close>.\<close>

function offload_loop :: "sb_cfg \<Rightarrow> thread_id \<Rightarrow> nat \<Rightarrow> store_queue \<Rightarrow> sb_state \<Rightarrow> (bool \<times> store_queue \<times> sb_state) option" where
  "offload_loop c t n q s =
     (if storesToWB q = 0 \<or> \<not> wb_ready q then Some (False, q, s)
      else
        let e = wb_entry q; i = storeWBIt q - sq_head q in
        if sq_size e = 0 then offload_loop c t n (sq_advance (completeStore (storeWBIt q) q)) s
        else if isDataPrefetch e then offload_loop c t n (sq_advance q) s
        else if n = 0 then Some (False, q, s)
        else if isDirect e then
          if storeWBIt q \<noteq> sq_head q then Some (False, q, s)
          else if \<not> storeBufferEmpty s then Some (False, q, flushStores s)
          else Some (True, q, s)
        else if sq_isSplit e then
          (case offload_parts c t e (drop (numOutstandingPackets e) (sq_reqs e)) (storeBuffer s) of
             None \<Rightarrow> None
           | Some (k, b) \<Rightarrow>
               if numOutstandingPackets e + k = length (sq_reqs e) then
                 offload_loop c t (n - 1) (sq_advance (completeStore (storeWBIt q)
                   (sq_upd i (\<lambda>e. e\<lparr>numOutstandingPackets := 0\<rparr>) q))) (s\<lparr>storeBuffer := b\<rparr>)
               else Some (False, sq_upd i (\<lambda>e. e\<lparr>numOutstandingPackets := numOutstandingPackets e + k\<rparr>) q, s\<lparr>storeBuffer := b\<rparr>))
        else if isSplitStoreAddr e \<and> \<not> splitStoreFinish e then None
        else
          (case insertStoreBuffer c t (sq_vaddr e) (physEffAddr e) (take (sq_size e) (sq_data e)) (sq_mask e) (storeBuffer s) of
             None \<Rightarrow> None
           | Some (False, b) \<Rightarrow> Some (False, q, s\<lparr>storeBuffer := b\<rparr>)
           | Some (True, b) \<Rightarrow>
               offload_loop c t (n - 1) (sq_advance (completeStore (storeWBIt q) q)) (s\<lparr>storeBuffer := b\<rparr>)))"
  by pat_completeness auto

termination
  by (relation "measure (\<lambda>(c, t, n, q, s). sq_end q - storeWBIt q)") (auto simp: wb_ready_def)

definition offloadToStoreBuffer ::
  "sb_cfg \<Rightarrow> thread_id \<Rightarrow> nat \<Rightarrow> store_queue \<Rightarrow> sb_state \<Rightarrow> (bool \<times> store_queue \<times> sb_state) option" where
  "offloadToStoreBuffer c t max_entries q s =
     (if storeBufferBlocked s then None
      else if isStoreBlocked q then Some (False, q, s)
      else offload_loop c t max_entries q s)"

section \<open>Arbitration between threads\<close>

text \<open>The inner loop: the first thread, from the cursor on, that has not got all it asks for.\<close>

definition next_granted :: "thread_id list \<Rightarrow> (thread_id \<Rightarrow> nat) \<Rightarrow> (thread_id \<Rightarrow> nat) \<Rightarrow> nat \<Rightarrow> nat option" where
  "next_granted tids demand quota cursor =
     find (\<lambda>idx. quota (tids ! idx) < demand (tids ! idx)) (map (\<lambda>k. (cursor + k) mod length tids) [0..<length tids])"

fun grant_loop ::
  "thread_id list \<Rightarrow> (thread_id \<Rightarrow> nat) \<Rightarrow> nat \<Rightarrow> nat \<Rightarrow> (thread_id \<Rightarrow> nat) \<Rightarrow> thread_id option \<Rightarrow>
     (thread_id \<Rightarrow> nat) \<times> thread_id option" where
  "grant_loop tids demand 0 cursor quota nxt = (quota, nxt)"
| "grant_loop tids demand (Suc budget) cursor quota nxt =
     (case next_granted tids demand quota cursor of
        None \<Rightarrow> (quota, nxt)
      | Some idx \<Rightarrow>
          let cursor' = (idx + 1) mod length tids in
          grant_loop tids demand budget cursor' (quota(tids ! idx := quota (tids ! idx) + 1)) (Some (tids ! cursor')))"

fun position :: "nat \<Rightarrow> nat list \<Rightarrow> nat option" where
  "position x [] = None"
| "position x (y # ys) = (if x = y then Some 0 else map_option Suc (position x ys))"

definition offload_quota ::
  "nat \<Rightarrow> thread_id list \<Rightarrow> (thread_id \<Rightarrow> nat) \<Rightarrow> thread_id option \<Rightarrow> (thread_id \<Rightarrow> nat) \<times> thread_id option" where
  "offload_quota budget active demand nxt =
     (let tids = filter (\<lambda>t. demand t \<noteq> 0) active in
      if tids = [] then (\<lambda>t. 0, nxt)
      else
        let start = (case nxt of None \<Rightarrow> 0 | Some t \<Rightarrow> (case position t tids of None \<Rightarrow> 0 | Some i \<Rightarrow> i)) in
        grant_loop tids demand budget start (\<lambda>t. 0) nxt)"

section \<open>A cycle of the write-back\<close>

record lsq_state =
  lsq_units :: "thread_id \<Rightarrow> store_queue"
  lsq_sb :: sb_state
  nextStoreBufferOffloadTid :: "thread_id option"

text \<open>A negative limit is compared as an unsigned number.\<close>

definition storeBufferSQWillFull :: "store_queue \<Rightarrow> bool" where
  "storeBufferSQWillFull q \<longleftrightarrow> 4 \<le> sq_capacity q \<and> sq_capacity q - 4 < length (sq_entries q)"

definition maxStoreBufferEntriesAcceptedFromSQPerCycle :: nat where
  "maxStoreBufferEntriesAcceptedFromSQPerCycle = 2"

fun offload_threads :: "sb_cfg \<Rightarrow> (thread_id \<Rightarrow> nat) \<Rightarrow> thread_id list \<Rightarrow> lsq_state \<Rightarrow> lsq_state option" where
  "offload_threads c quota [] l = Some l"
| "offload_threads c quota (t # ts) l =
     (case offloadToStoreBuffer c t (quota t) (lsq_units l t) (lsq_sb l) of
        None \<Rightarrow> None
      | Some (direct, q, s) \<Rightarrow> offload_threads c quota ts (l\<lparr>lsq_units := (lsq_units l)(t := q), lsq_sb := s\<rparr>))"

definition processWriteback :: "sb_cfg \<Rightarrow> thread_id list \<Rightarrow> bool \<Rightarrow> lsq_state \<Rightarrow> lsq_state option" where
  "processWriteback c active accept l =
     (case storeBufferWriteback c accept (\<exists>t\<in>set active. storeBufferSQWillFull (lsq_units l t)) (lsq_sb l) of
        None \<Rightarrow> None
      | Some s \<Rightarrow>
          if storeBufferBlocked s then Some (l\<lparr>lsq_sb := s\<rparr>)
          else
            let (quota, nxt) = offload_quota maxStoreBufferEntriesAcceptedFromSQPerCycle active
                  (\<lambda>t. countStoreBufferOffloadableEntries maxStoreBufferEntriesAcceptedFromSQPerCycle (lsq_units l t))
                  (nextStoreBufferOffloadTid l) in
            offload_threads c quota active (l\<lparr>lsq_sb := s, nextStoreBufferOffloadTid := nxt\<rparr>))"

end
