(* ===== verification/StoreBufferInv.thy ===== *)
theory StoreBufferInv
  imports StoreBuffer
begin

text \<open>
  The structural invariant of the store buffer (its map, free list, eviction order and vices), the
  bytes pending for a thread, and what the operations on entries do to both.
\<close>

section \<open>Addresses\<close>

definition line_ok :: "sb_cfg \<Rightarrow> bool" where
  "line_ok c \<longleftrightarrow> lineBits c < 64"

lemma cacheOffset_mod: "cacheOffset c a = unat a mod 2 ^ lineBits c"
  by (simp add: cacheOffset_def unat_and_mask)

lemma cacheOffset_less: "cacheOffset c a < cacheLineSize c"
  by (simp add: cacheOffset_mod cacheLineSize_def)

lemma block_offset: "cacheBlock c a + of_nat (cacheOffset c a) = a"
proof -
  have "cacheBlock c a + (a AND mask (lineBits c)) = cacheBlock c a OR (a AND mask (lineBits c))"
    by (rule disjunctive_add_eq_or) (auto simp: cacheBlock_def bit_eq_iff bit_simps)
  also have "\<dots> = a"
    by (auto simp: cacheBlock_def bit_eq_iff bit_simps)
  finally show ?thesis
    by (simp add: cacheOffset_def)
qed

lemma block_eq: "cacheBlock c a = a - of_nat (cacheOffset c a)"
  using block_offset [of c a] by (simp add: eq_diff_eq)

lemma block_idem: "cacheBlock c (cacheBlock c a) = cacheBlock c a"
  by (auto simp: cacheBlock_def bit_eq_iff bit_simps)

lemma block_no_wrap:
  assumes "line_ok c" and "cacheOffset c p + i < cacheLineSize c"
  shows "unat (p + of_nat i) = unat p + i"
proof -
  let ?l = "2 ^ lineBits c :: nat"
  have pow: "2 ^ 64 = ?l * 2 ^ (64 - lineBits c)"
    using assms(1) by (simp add: line_ok_def flip: power_add)
  have "unat p < 2 ^ 64"
    using unsigned_less [of p] by simp
  then have "unat p div ?l < 2 ^ (64 - lineBits c)"
    using pow by (simp add: less_mult_imp_div_less mult.commute)
  then have "(unat p div ?l + 1) * ?l \<le> 2 ^ 64"
    using pow by (metis Suc_eq_plus1 Suc_leI mult.commute mult_le_mono1)
  moreover have "unat p + i = unat p div ?l * ?l + (cacheOffset c p + i)"
    by (simp add: cacheOffset_mod div_mult_mod_eq flip: add.assoc)
  ultimately have "unat p + i < 2 ^ 64"
    using assms(2) by (simp add: cacheLineSize_def)
  then show ?thesis
    by (simp add: unat_word_ariths unat_of_nat)
qed

lemma in_block:
  assumes "line_ok c" and "cacheOffset c p + i < cacheLineSize c"
  shows "cacheOffset c (p + of_nat i) = cacheOffset c p + i" "cacheBlock c (p + of_nat i) = cacheBlock c p"
proof -
  show o: "cacheOffset c (p + of_nat i) = cacheOffset c p + i"
    using assms(2) mod_add_left_eq [of "unat p" "2 ^ lineBits c" i] unfolding cacheOffset_mod block_no_wrap [OF assms]
    by (simp add: cacheLineSize_def)
  show "cacheBlock c (p + of_nat i) = cacheBlock c p"
    unfolding block_eq o by simp
qed

lemma in_store:
  assumes "line_ok c" and "cacheOffset c p + n \<le> cacheLineSize c"
  shows "unat (a - p) < n \<longleftrightarrow>
    cacheBlock c a = cacheBlock c p \<and> cacheOffset c p \<le> cacheOffset c a \<and> cacheOffset c a < cacheOffset c p + n"
    and "unat (a - p) < n \<Longrightarrow> cacheOffset c a = cacheOffset c p + unat (a - p)"
proof -
  have fwd: "cacheBlock c a = cacheBlock c p \<and> cacheOffset c a = cacheOffset c p + unat (a - p)" if "unat (a - p) < n"
    using in_block [OF assms(1), of p "unat (a - p)"] assms(2) that by simp
  then show "unat (a - p) < n \<Longrightarrow> cacheOffset c a = cacheOffset c p + unat (a - p)"
    by blast
  have bwd: "unat (a - p) = cacheOffset c a - cacheOffset c p"
    if "cacheBlock c a = cacheBlock c p" "cacheOffset c p \<le> cacheOffset c a"
  proof -
    have "a - p = of_nat (cacheOffset c a) - of_nat (cacheOffset c p)"
      using block_offset [of c a] block_offset [of c p] that(1) by (metis add_diff_cancel_left)
    also have "\<dots> = of_nat (cacheOffset c a - cacheOffset c p)"
      using that(2) by simp
    finally have d: "a - p = of_nat (cacheOffset c a - cacheOffset c p)" .
    have "cacheOffset c a < 2 ^ 64"
      using cacheOffset_less [of c a] assms(1) power_strict_increasing [of "lineBits c" 64 "2 :: nat"]
      by (simp add: cacheLineSize_def line_ok_def)
    then show ?thesis
      unfolding d by (simp add: unat_of_nat)
  qed
  show "unat (a - p) < n \<longleftrightarrow>
      cacheBlock c a = cacheBlock c p \<and> cacheOffset c p \<le> cacheOffset c a \<and> cacheOffset c a < cacheOffset c p + n"
    using fwd bwd by (auto simp: less_diff_conv2)
qed

lemma hashKey_inj:
  assumes "cacheBlock c x = x" and "cacheBlock c y = y" and "t < cacheLineSize c" and "u < cacheLineSize c" and "line_ok c"
  shows "hashKey t x = hashKey u y \<longleftrightarrow> t = u \<and> x = y"
proof -
  have u: "unat (of_nat v :: addr) = v" if "v < cacheLineSize c" for v
    using that assms(5) power_strict_increasing [of "lineBits c" 64 "2 :: nat"]
    by (simp add: unat_of_nat cacheLineSize_def line_ok_def)
  have m: "of_nat v AND mask (lineBits c) = (of_nat v :: addr)" if "v < cacheLineSize c" for v
    using u [OF that] that by (intro iffD2 [OF word_unat_eq_iff]) (simp add: unat_and_mask cacheLineSize_def)
  have hi: "hashKey v z AND NOT (mask (lineBits c)) = z" and lo: "hashKey v z AND mask (lineBits c) = of_nat v"
    if "cacheBlock c z = z" "v < cacheLineSize c" for v z
  proof -
    have "z AND mask (lineBits c) = (z AND NOT (mask (lineBits c))) AND mask (lineBits c)"
      using that(1) by (simp add: cacheBlock_def)
    then have z: "z AND mask (lineBits c) = 0"
      by (simp add: and.assoc)
    show "hashKey v z AND mask (lineBits c) = of_nat v"
      using z m [OF that(2)] by (simp add: hashKey_def bit.conj_disj_distrib2)
    have "of_nat v AND NOT (mask (lineBits c)) = (of_nat v AND mask (lineBits c)) AND NOT (mask (lineBits c) :: addr)"
      using m [OF that(2)] by simp
    then have "of_nat v AND NOT (mask (lineBits c)) = (0 :: addr)"
      by (simp add: and.assoc)
    then show "hashKey v z AND NOT (mask (lineBits c)) = z"
      using that(1) by (simp add: hashKey_def bit.conj_disj_distrib2 cacheBlock_def)
  qed
  show ?thesis
  proof
    assume k: "hashKey t x = hashKey u y"
    have "x = y"
      using hi [OF assms(1,3)] hi [OF assms(2,4)] k by simp
    moreover have "of_nat t = (of_nat u :: addr)"
      using lo [OF assms(1,3)] lo [OF assms(2,4)] k by simp
    ultimately show "t = u \<and> x = y"
      using u [OF assms(3)] u [OF assms(4)] by metis
  qed simp
qed

section \<open>Entries\<close>

text \<open>What a store writes to a byte, and the byte an entry and its vice hold.\<close>

definition store_byte :: "addr \<Rightarrow> byte list \<Rightarrow> bool list \<Rightarrow> addr \<Rightarrow> byte option" where
  "store_byte paddr datas bmask a =
     (let i = unat (a - paddr) in if i < length datas \<and> bmask ! i then Some (datas ! i) else None)"

definition entry_byte :: "sb_entry \<Rightarrow> nat \<Rightarrow> byte option" where
  "entry_byte e k = (if validMask e ! k then Some (blockDatas e ! k) else None)"

definition over :: "'a option \<Rightarrow> 'a option \<Rightarrow> 'a option" where
  "over x y = (case x of None \<Rightarrow> y | Some z \<Rightarrow> Some z)"

lemma over_simps [simp]: "over None y = y" "over (Some v) y = Some v" "over x None = x" "over (over x y) z = over x (over y z)"
  by (cases x; simp add: over_def)+

definition entry_ok :: "sb_cfg \<Rightarrow> sb_entry \<Rightarrow> bool" where
  "entry_ok c e \<longleftrightarrow> length (blockDatas e) = cacheLineSize c \<and> length (validMask e) = cacheLineSize c"

text \<open>The bytes of an access that lies in one block, by offset.\<close>

definition access_byte :: "nat \<Rightarrow> byte list \<Rightarrow> bool list \<Rightarrow> nat \<Rightarrow> byte option" where
  "access_byte off datas bmask k =
     (if off \<le> k \<and> k < off + length datas \<and> bmask ! (k - off) then Some (datas ! (k - off)) else None)"

lemma store_byte_offset:
  assumes "line_ok c" and "cacheOffset c p + length datas \<le> cacheLineSize c"
  shows "store_byte p datas bmask a =
    (if cacheBlock c a = cacheBlock c p then access_byte (cacheOffset c p) datas bmask (cacheOffset c a) else None)"
proof (cases "unat (a - p) < length datas")
  case True
  then have "cacheBlock c a = cacheBlock c p" "cacheOffset c a = cacheOffset c p + unat (a - p)"
    using in_store [OF assms, of a] by blast+
  then show ?thesis
    using True by (simp add: store_byte_def access_byte_def)
next
  case False
  then have "cacheBlock c a = cacheBlock c p \<longrightarrow>
      \<not> (cacheOffset c p \<le> cacheOffset c a \<and> cacheOffset c a < cacheOffset c p + length datas)"
    using in_store(1) [OF assms, of a] by blast
  then show ?thesis
    using False by (auto simp: store_byte_def access_byte_def)
qed

lemma overwrite_nth:
  "off + length ys \<le> length xs \<Longrightarrow> k < length xs \<Longrightarrow>
   overwrite off ys xs ! k = (if off \<le> k \<and> k < off + length ys then ys ! (k - off) else xs ! k)"
  by (auto simp: overwrite_def nth_append)

lemma overwrite_length: "off + length ys \<le> length xs \<Longrightarrow> length (overwrite off ys xs) = length xs"
  by (simp add: overwrite_def)

lemma entry_reset_ok:
  assumes "entry_ok c e" and "off + length datas \<le> cacheLineSize c" and "length datas \<le> length bmask"
  shows "\<exists>e'. entry_reset t bv bp off datas bmask e = Some e' \<and> entry_ok c e' \<and> sb_tid e' = t \<and> blockVaddr e' = bv \<and>
    blockPaddr e' = bp \<and> \<not> sending e' \<and> sb_request e' = None \<and> vice e' = None \<and>
    (\<forall>k<cacheLineSize c. entry_byte e' k = access_byte off datas bmask k)"
  using assms by (auto simp: entry_reset_def entry_ok_def overwrite_length entry_byte_def overwrite_nth access_byte_def)

lemma entry_same:
  "\<exists>ds ms. e = e\<lparr>blockDatas := ds, validMask := ms\<rparr> \<and> length ds = length (blockDatas e) \<and> length ms = length (validMask e)"
  by (rule exI [of _ "blockDatas e"], rule exI [of _ "validMask e"]) simp

lemma merge_loop_frame:
  "\<exists>ds ms. merge_loop off datas bmask e = e\<lparr>blockDatas := ds, validMask := ms\<rparr> \<and> length ds = length (blockDatas e) \<and>
     length ms = length (validMask e)"
proof (induction off datas bmask e rule: merge_loop.induct)
  case (1 off d ds m ms e)
  then show ?case
    by (cases m) auto
qed (simp_all only: merge_loop.simps entry_same)

lemma merge_loop_byte:
  "off + length datas \<le> length (validMask e) \<Longrightarrow> length datas \<le> length bmask \<Longrightarrow> length (blockDatas e) = length (validMask e) \<Longrightarrow>
   k < length (validMask e) \<Longrightarrow> entry_byte (merge_loop off datas bmask e) k = over (access_byte off datas bmask k) (entry_byte e k)"
proof (induction off datas bmask e rule: merge_loop.induct)
  case (1 off d ds m ms e)
  let ?e = "if m then e\<lparr>blockDatas := (blockDatas e)[off := d], validMask := (validMask e)[off := True]\<rparr> else e"
  have "over (access_byte (Suc off) ds ms k) (entry_byte ?e k) = over (access_byte off (d # ds) (m # ms) k) (entry_byte e k)"
  proof (cases "k = off")
    case True
    then show ?thesis
      using "1.prems" by (simp add: access_byte_def entry_byte_def)
  next
    case False
    then have "access_byte (Suc off) ds ms k = access_byte off (d # ds) (m # ms) k"
      by (auto simp: access_byte_def nth_Cons' Suc_le_eq)
    then show ?thesis
      using False by (simp add: entry_byte_def)
  qed
  then show ?case
    using "1.IH" "1.prems" by simp
qed (auto simp: access_byte_def)

lemma entry_merge_ok:
  assumes "entry_ok c e" and "off + length datas \<le> cacheLineSize c" and "length datas \<le> length bmask"
  shows "\<exists>ds ms e'. entry_merge off datas bmask e = Some e' \<and> e' = e\<lparr>blockDatas := ds, validMask := ms\<rparr> \<and> entry_ok c e' \<and>
    (\<forall>k<cacheLineSize c. entry_byte e' k = over (access_byte off datas bmask k) (entry_byte e k))"
proof -
  have "entry_merge off datas bmask e = Some (merge_loop off datas bmask e)"
    using assms by (simp add: entry_merge_def entry_ok_def)
  moreover have "entry_ok c (merge_loop off datas bmask e)"
    using merge_loop_frame [of off datas bmask e] assms(1) by (auto simp: entry_ok_def)
  ultimately show ?thesis
    using merge_loop_frame [of off datas bmask e] merge_loop_byte [of off datas e bmask] assms by (auto simp: entry_ok_def)
qed

section \<open>Invariant of the buffer\<close>

definition key_of :: "sb_entry \<Rightarrow> addr" where
  "key_of e = hashKey (sb_tid e) (blockPaddr e)"

definition mapped :: "store_buffer \<Rightarrow> nat \<Rightarrow> bool" where
  "mapped b i \<longleftrightarrow> i < length (data_vec b) \<and> data_map b (key_of (data_vec b ! i)) = Some i"

definition vice_of :: "store_buffer \<Rightarrow> nat \<Rightarrow> nat \<Rightarrow> bool" where
  "vice_of b i v \<longleftrightarrow> mapped b i \<and> vice (data_vec b ! i) = Some v"

definition shape_ok :: "sb_cfg \<Rightarrow> store_buffer \<Rightarrow> bool" where
  "shape_ok c b \<longleftrightarrow>
     length (data_vec b) = sbufferEntries c \<and> length (crossRef b) = sbufferEntries c \<and>
     length (data_vld b) = sbufferEntries c \<and> (\<forall>e\<in>set (data_vec b). entry_ok c e) \<and> distinct (free_list b) \<and>
     set (free_list b) = {i. i < sbufferEntries c \<and> \<not> data_vld b ! i} \<and> sb_size b + length (free_list b) = sbufferEntries c"

definition map_ok :: "sb_cfg \<Rightarrow> store_buffer \<Rightarrow> bool" where
  "map_ok c b \<longleftrightarrow>
     (\<forall>k i. data_map b k = Some i \<longrightarrow> mapped b i \<and> key_of (data_vec b ! i) = k \<and> crossRef b ! i = k \<and> data_vld b ! i \<and>
        cacheBlock c (blockPaddr (data_vec b ! i)) = blockPaddr (data_vec b ! i) \<and> sb_tid (data_vec b ! i) < cacheLineSize c) \<and>
     (\<forall>v < sbufferEntries c. data_vld b ! v \<longrightarrow> mapped b v \<or> (\<exists>i. vice_of b i v))"

definition vice_ok :: "sb_cfg \<Rightarrow> store_buffer \<Rightarrow> bool" where
  "vice_ok c b \<longleftrightarrow>
     (\<forall>i v. vice_of b i v \<longrightarrow> v < sbufferEntries c \<and> data_vld b ! v \<and> \<not> mapped b v \<and> vice (data_vec b ! v) = None \<and>
        sb_tid (data_vec b ! v) = sb_tid (data_vec b ! i) \<and> blockPaddr (data_vec b ! v) = blockPaddr (data_vec b ! i))"

definition lru_ok :: "store_buffer \<Rightarrow> bool" where
  "lru_ok b \<longleftrightarrow> distinct (lru_index b) \<and> (\<forall>i\<in>set (lru_index b). mapped b i)"

definition sb_ok :: "sb_cfg \<Rightarrow> store_buffer \<Rightarrow> bool" where
  "sb_ok c b \<longleftrightarrow> shape_ok c b \<and> map_ok c b \<and> vice_ok c b \<and> lru_ok b"

lemma sb_okD:
  assumes "sb_ok c b"
  shows "shape_ok c b" "map_ok c b" "vice_ok c b" "lru_ok b"
  using assms by (simp_all add: sb_ok_def)

lemma mapped_facts:
  assumes "sb_ok c b" and "mapped b i"
  shows "i < sbufferEntries c" "i < length (data_vec b)" "data_vld b ! i" "crossRef b ! i = key_of (data_vec b ! i)" "entry_ok c (data_vec b ! i)"
    "cacheBlock c (blockPaddr (data_vec b ! i)) = blockPaddr (data_vec b ! i)" "sb_tid (data_vec b ! i) < cacheLineSize c"
    "data_map b (key_of (data_vec b ! i)) = Some i"
  using assms by (auto simp: sb_ok_def shape_ok_def map_ok_def mapped_def)

lemma vice_facts:
  assumes "sb_ok c b" and "vice_of b i v"
  shows "v < sbufferEntries c" "v < length (data_vec b)" "data_vld b ! v" "\<not> mapped b v" "vice (data_vec b ! v) = None"
    "sb_tid (data_vec b ! v) = sb_tid (data_vec b ! i)" "blockPaddr (data_vec b ! v) = blockPaddr (data_vec b ! i)" "v \<noteq> i" "mapped b i"
    "entry_ok c (data_vec b ! v)" "key_of (data_vec b ! v) = key_of (data_vec b ! i)"
proof -
  show v: "v < sbufferEntries c" "data_vld b ! v" "\<not> mapped b v" "vice (data_vec b ! v) = None"
    "sb_tid (data_vec b ! v) = sb_tid (data_vec b ! i)" "blockPaddr (data_vec b ! v) = blockPaddr (data_vec b ! i)"
    using sb_okD(3) [OF assms(1)] assms(2) unfolding vice_ok_def by blast+
  show "mapped b i"
    using assms(2) by (simp add: vice_of_def)
  with v(3) show "v \<noteq> i"
    by blast
  show "v < length (data_vec b)" "entry_ok c (data_vec b ! v)"
    using sb_okD(1) [OF assms(1)] v(1) by (auto simp: shape_ok_def)
  show "key_of (data_vec b ! v) = key_of (data_vec b ! i)"
    using v(5,6) by (simp add: key_of_def)
qed

lemma vice_inj:
  assumes "sb_ok c b" and "vice_of b i v" and "vice_of b j v"
  shows "i = j"
  using vice_facts(9,11) [OF assms(1,2)] vice_facts(9,11) [OF assms(1,3)] by (metis mapped_def option.inject)

lemma lookup_mapped:
  assumes "sb_ok c b" and "data_map b k = Some i"
  shows "mapped b i" "key_of (data_vec b ! i) = k"
  using assms by (auto simp: sb_ok_def map_ok_def)

lemma lookup_iff:
  assumes "sb_ok c b" and "line_ok c" and "mapped b i" and "u < cacheLineSize c" and "cacheBlock c x = x"
  shows "data_map b (hashKey u x) = Some i \<longleftrightarrow> u = sb_tid (data_vec b ! i) \<and> x = blockPaddr (data_vec b ! i)"
proof -
  note f = mapped_facts [OF assms(1,3)]
  show ?thesis
    using lookup_mapped(2) [OF assms(1), of "hashKey u x" i] f(8) hashKey_inj [OF f(6) assms(5) f(7) assms(4,2)]
    by (auto simp: key_of_def)
qed

lemma free_facts:
  assumes "sb_ok c b" and "i \<in> set (free_list b)"
  shows "i < sbufferEntries c" "i < length (data_vec b)" "\<not> data_vld b ! i" "\<not> mapped b i" "\<not> vice_of b j i" "i \<notin> set (lru_index b)"
    "entry_ok c (data_vec b ! i)"
proof -
  show i: "i < sbufferEntries c" "i < length (data_vec b)" "\<not> data_vld b ! i" "entry_ok c (data_vec b ! i)"
    using assms by (auto simp: sb_ok_def shape_ok_def)
  show m: "\<not> mapped b i"
    using i(3) mapped_facts(3) [OF assms(1)] by blast
  then show "i \<notin> set (lru_index b)"
    using sb_okD(4) [OF assms(1)] by (auto simp: lru_ok_def)
  show "\<not> vice_of b j i"
    using i(3) vice_facts(3) [OF assms(1)] by blast
qed

section \<open>Pending bytes\<close>

definition idx_byte :: "store_buffer \<Rightarrow> nat \<Rightarrow> nat \<Rightarrow> byte option" where
  "idx_byte b i k =
     over (case vice (data_vec b ! i) of None \<Rightarrow> None | Some v \<Rightarrow> entry_byte (data_vec b ! v) k) (entry_byte (data_vec b ! i) k)"

definition pending :: "sb_cfg \<Rightarrow> store_buffer \<Rightarrow> thread_id \<Rightarrow> addr \<Rightarrow> byte option" where
  "pending c b t a =
     (case data_map b (hashKey t (cacheBlock c a)) of None \<Rightarrow> None | Some i \<Rightarrow> idx_byte b i (cacheOffset c a))"

text \<open>The content of the block of one entry changes.\<close>

lemma pending_change:
  assumes "sb_ok c b" and "line_ok c" and "data_map b' = data_map b" and "mapped b i" and "u < cacheLineSize c"
    and "\<And>k. k < cacheLineSize c \<Longrightarrow> idx_byte b' i k = f k (idx_byte b i k)"
    and "\<And>j k. mapped b j \<Longrightarrow> j \<noteq> i \<Longrightarrow> idx_byte b' j k = idx_byte b j k"
  shows "pending c b' u a =
    (if u = sb_tid (data_vec b ! i) \<and> cacheBlock c a = blockPaddr (data_vec b ! i)
     then f (cacheOffset c a) (pending c b u a) else pending c b u a)"
proof (cases "data_map b (hashKey u (cacheBlock c a))")
  case None
  then have "\<not> (u = sb_tid (data_vec b ! i) \<and> cacheBlock c a = blockPaddr (data_vec b ! i))"
    using lookup_iff [OF assms(1,2,4,5) block_idem, of a] by auto
  then show ?thesis
    unfolding if_not_P [OF \<open>\<not> (u = _ \<and> _)\<close>] using None by (simp add: pending_def assms(3))
next
  case (Some j)
  then show ?thesis
    using lookup_iff [OF assms(1,2,4,5) block_idem, of a] assms(6) [OF cacheOffset_less, of a] assms(7) [of j]
      lookup_mapped(1) [OF assms(1) Some] by (auto simp: pending_def assms(3))
qed

section \<open>Operations of the buffer\<close>

lemma set_entry_simps [simp]:
  "data_map (set_entry i e b) = data_map b" "crossRef (set_entry i e b) = crossRef b" "lru_index (set_entry i e b) = lru_index b"
  "free_list (set_entry i e b) = free_list b" "data_vld (set_entry i e b) = data_vld b" "sb_size (set_entry i e b) = sb_size b"
  "data_vec (set_entry i e b) = (data_vec b)[i := e]"
  by (simp_all add: set_entry_def)

text \<open>The content, the flags or the request of an entry change.\<close>

lemma set_entry_same:
  assumes "sb_tid e = sb_tid (data_vec b ! i)" and "blockPaddr e = blockPaddr (data_vec b ! i)" and "vice e = vice (data_vec b ! i)"
  shows "mapped (set_entry i e b) j = mapped b j" "vice_of (set_entry i e b) j v = vice_of b j v"
    "vice ((data_vec b)[i := e] ! j) = vice (data_vec b ! j)" "sb_tid ((data_vec b)[i := e] ! j) = sb_tid (data_vec b ! j)"
    "blockPaddr ((data_vec b)[i := e] ! j) = blockPaddr (data_vec b ! j)" "key_of ((data_vec b)[i := e] ! j) = key_of (data_vec b ! j)"
proof -
  have e: "(data_vec b)[i := e] ! j = (if j = i \<and> i < length (data_vec b) then e else data_vec b ! j)" for j
    by (cases "i < length (data_vec b)") (auto simp: nth_list_update list_update_beyond)
  show s: "vice ((data_vec b)[i := e] ! j) = vice (data_vec b ! j)" "sb_tid ((data_vec b)[i := e] ! j) = sb_tid (data_vec b ! j)"
    "blockPaddr ((data_vec b)[i := e] ! j) = blockPaddr (data_vec b ! j)" for j
    unfolding e using assms by simp_all
  show k: "key_of ((data_vec b)[i := e] ! j) = key_of (data_vec b ! j)" for j
    using s by (simp add: key_of_def)
  show m: "mapped (set_entry i e b) j = mapped b j" for j
    using k by (simp add: mapped_def)
  show "vice_of (set_entry i e b) j v = vice_of b j v"
    using m s by (simp add: vice_of_def)
qed

lemma set_entry_ok:
  assumes "sb_ok c b" and "entry_ok c e"
    and "sb_tid e = sb_tid (data_vec b ! i)" and "blockPaddr e = blockPaddr (data_vec b ! i)" and "vice e = vice (data_vec b ! i)"
  shows "sb_ok c (set_entry i e b)"
proof -
  note s = set_entry_same [OF assms(3-5)]
  have "shape_ok c (set_entry i e b)"
    using sb_okD(1) [OF assms(1)] assms(2) by (auto simp: shape_ok_def dest!: set_mp [OF set_update_subset_insert])
  moreover have "map_ok c (set_entry i e b)" "vice_ok c (set_entry i e b)" "lru_ok (set_entry i e b)"
    using sb_okD(2-4) [OF assms(1)] s by (simp_all add: map_ok_def vice_ok_def lru_ok_def)
  ultimately show ?thesis
    by (simp add: sb_ok_def)
qed

lemma lru_length: "sb_ok c b \<Longrightarrow> length (lru_index b) \<le> sbufferEntries c"
proof -
  assume ok: "sb_ok c b"
  have "set (lru_index b) \<subseteq> {..<sbufferEntries c}"
    using sb_okD(4) [OF ok] mapped_facts(1) [OF ok] by (auto simp: lru_ok_def)
  then show ?thesis
    using sb_okD(4) [OF ok] card_mono [of "{..<sbufferEntries c}" "set (lru_index b)"] by (simp add: lru_ok_def distinct_card)
qed

lemma lru_ok_cong:
  assumes "sb_ok c b" and "distinct l" and "set l \<subseteq> set (lru_index b)"
  shows "sb_ok c (b\<lparr>lru_index := l\<rparr>)" "mapped (b\<lparr>lru_index := l\<rparr>) j = mapped b j" "vice_of (b\<lparr>lru_index := l\<rparr>) j v = vice_of b j v"
    "idx_byte (b\<lparr>lru_index := l\<rparr>) j k = idx_byte b j k" "pending c (b\<lparr>lru_index := l\<rparr>) u a = pending c b u a"
proof -
  let ?b = "b\<lparr>lru_index := l\<rparr>"
  show m: "mapped ?b j = mapped b j" "vice_of ?b j v = vice_of b j v" for j v
    by (simp_all add: mapped_def vice_of_def)
  show i: "idx_byte ?b j k = idx_byte b j k" for j k
    by (simp add: idx_byte_def split: option.split)
  show "pending c ?b u a = pending c b u a"
    by (simp add: pending_def i split: option.split)
  have "shape_ok c ?b" "map_ok c ?b" "vice_ok c ?b"
    using sb_okD(1-3) [OF assms(1)] by (simp_all add: shape_ok_def map_ok_def vice_ok_def m)
  moreover have "lru_ok ?b"
    using sb_okD(4) [OF assms(1)] assms(2,3) by (auto simp: lru_ok_def m)
  ultimately show "sb_ok c ?b"
    by (simp add: sb_ok_def)
qed

lemma sb_update_ok:
  assumes "sb_ok c b" and "i \<in> set (lru_index b)"
  shows "\<exists>l. sb_update i b = Some (b\<lparr>lru_index := l\<rparr>) \<and> distinct l \<and> set l = set (lru_index b)"
proof -
  have d: "distinct (lru_index b)" "length (data_vec b) = sbufferEntries c"
    using sb_okD(1,4) [OF assms(1)] by (simp_all add: lru_ok_def shape_ok_def)
  have "0 < length (lru_index b)"
    using assms(2) by (cases "lru_index b") auto
  then have "take (length (data_vec b)) (i # remove1 i (lru_index b)) = i # remove1 i (lru_index b)"
    using lru_length [OF assms(1)] assms(2) d(2) by (simp add: length_remove1)
  then show ?thesis
    using assms(2) d(1) by (auto simp: sb_update_def lru_push_front_def)
qed

lemma butlast_facts:
  "xs \<noteq> [] \<Longrightarrow> distinct xs \<Longrightarrow> distinct (butlast xs) \<and> set (butlast xs) = set xs - {last xs} \<and> length xs = Suc (length (butlast xs))"
  by (cases xs rule: rev_cases) auto

text \<open>A free entry becomes the entry of a block.\<close>

definition claim_new :: "nat \<Rightarrow> sb_entry \<Rightarrow> store_buffer \<Rightarrow> store_buffer" where
  "claim_new i e b = b\<lparr>free_list := butlast (free_list b), data_vec := (data_vec b)[i := e], sb_size := sb_size b + 1,
     data_map := (data_map b)(key_of e \<mapsto> i), crossRef := (crossRef b)[i := key_of e],
     data_vld := (data_vld b)[i := True], lru_index := i # lru_index b\<rparr>"

lemma claim_new_facts:
  assumes "sb_ok c b" and "i \<in> set (free_list b)" and "vice e = None" and "data_map b (key_of e) = None"
  shows "mapped (claim_new i e b) j \<longleftrightarrow> j = i \<or> mapped b j" "vice_of (claim_new i e b) j v \<longleftrightarrow> vice_of b j v"
    "mapped b j \<Longrightarrow> idx_byte (claim_new i e b) j k = idx_byte b j k" "idx_byte (claim_new i e b) i k = entry_byte e k"
proof -
  note f = free_facts [OF assms(1,2)]
  show m: "mapped (claim_new i e b) j \<longleftrightarrow> j = i \<or> mapped b j" for j
    using f(2) assms(4) by (auto simp: claim_new_def mapped_def nth_list_update)
  show "vice_of (claim_new i e b) j v \<longleftrightarrow> vice_of b j v"
    using f(2,4) assms(3) m by (auto simp: vice_of_def claim_new_def nth_list_update)
  show "idx_byte (claim_new i e b) i k = entry_byte e k"
    using f(2) assms(3) by (simp add: idx_byte_def claim_new_def)
  assume j: "mapped b j"
  then have "j \<noteq> i" "vice (data_vec b ! j) \<noteq> Some i"
    using f(4) f(5) [of j] by (auto simp: vice_of_def)
  then show "idx_byte (claim_new i e b) j k = idx_byte b j k"
    by (auto simp: idx_byte_def claim_new_def nth_list_update split: option.split)
qed

lemma claim_new_ok:
  assumes "sb_ok c b" and "free_list b \<noteq> []" and i: "i = last (free_list b)" and "vice e = None" and "data_map b (key_of e) = None"
    and "entry_ok c e" and "cacheBlock c (blockPaddr e) = blockPaddr e" and "sb_tid e < cacheLineSize c"
  shows "sb_ok c (claim_new i e b)"
proof -
  have mem: "i \<in> set (free_list b)"
    using assms(2) i by simp
  note f = free_facts [OF assms(1) mem] and m = claim_new_facts [OF assms(1) mem assms(4,5)]
  have "distinct (butlast (free_list b))" "set (butlast (free_list b)) = set (free_list b) - {i}"
    "length (free_list b) = Suc (length (butlast (free_list b)))"
    using butlast_facts [OF assms(2)] sb_okD(1) [OF assms(1)] unfolding i by (simp_all add: shape_ok_def)
  then have "shape_ok c (claim_new i e b)"
    using sb_okD(1) [OF assms(1)] f(1,3) assms(6)
    by (auto simp: shape_ok_def claim_new_def nth_list_update dest!: set_mp [OF set_update_subset_insert])
  moreover have "map_ok c (claim_new i e b)"
    unfolding map_ok_def m(1,2)
  proof (intro conjI allI impI)
    fix k j assume k: "data_map (claim_new i e b) k = Some j"
    show "j = i \<or> mapped b j" "key_of (data_vec (claim_new i e b) ! j) = k" "crossRef (claim_new i e b) ! j = k"
      "data_vld (claim_new i e b) ! j" "cacheBlock c (blockPaddr (data_vec (claim_new i e b) ! j)) = blockPaddr (data_vec (claim_new i e b) ! j)"
      "sb_tid (data_vec (claim_new i e b) ! j) < cacheLineSize c"
      using k f(1,2,4) assms(7,8) lookup_mapped [OF assms(1), of k j] mapped_facts [OF assms(1), of j] sb_okD(1) [OF assms(1)]
      by (auto simp: claim_new_def shape_ok_def nth_list_update split: if_splits)
  next
    fix v assume v: "v < sbufferEntries c" "data_vld (claim_new i e b) ! v"
    then have "v = i \<or> data_vld b ! v"
      by (cases "v = i") (auto simp: claim_new_def)
    then show "(v = i \<or> mapped b v) \<or> (\<exists>j. vice_of b j v)"
      using sb_okD(2) [OF assms(1)] v(1) unfolding map_ok_def by blast
  qed
  moreover have "vice_ok c (claim_new i e b)"
    unfolding vice_ok_def m(1,2)
  proof (intro allI impI)
    fix j v assume v: "vice_of b j v"
    have "j \<noteq> i" "v \<noteq> i"
      using vice_facts(9) [OF assms(1) v] f(4) f(5) [of j] v by auto
    then show "v < sbufferEntries c \<and> data_vld (claim_new i e b) ! v \<and> \<not> (v = i \<or> mapped b v) \<and>
        vice (data_vec (claim_new i e b) ! v) = None \<and>
        sb_tid (data_vec (claim_new i e b) ! v) = sb_tid (data_vec (claim_new i e b) ! j) \<and>
        blockPaddr (data_vec (claim_new i e b) ! v) = blockPaddr (data_vec (claim_new i e b) ! j)"
      using vice_facts [OF assms(1) v] by (simp add: claim_new_def)
  qed
  moreover have "lru_ok (claim_new i e b)"
    using sb_okD(4) [OF assms(1)] f(6) m(1) by (auto simp: lru_ok_def claim_new_def)
  ultimately show ?thesis
    by (simp add: sb_ok_def)
qed

text \<open>A free entry becomes the vice of an entry.\<close>

definition claim_vice :: "nat \<Rightarrow> nat \<Rightarrow> sb_entry \<Rightarrow> store_buffer \<Rightarrow> store_buffer" where
  "claim_vice i v e b = b\<lparr>free_list := butlast (free_list b), sb_size := sb_size b + 1, data_vld := (data_vld b)[v := True],
     data_vec := (data_vec b)[i := (data_vec b ! i)\<lparr>vice := Some v\<rparr>, v := e]\<rparr>"

lemma claim_vice_facts:
  assumes "sb_ok c b" and "v \<in> set (free_list b)" and "mapped b i" and "vice (data_vec b ! i) = None" and "vice e = None"
    and "sb_tid e = sb_tid (data_vec b ! i)" and "blockPaddr e = blockPaddr (data_vec b ! i)"
  shows "mapped (claim_vice i v e b) j \<longleftrightarrow> mapped b j" "vice_of (claim_vice i v e b) j w \<longleftrightarrow> vice_of b j w \<or> j = i \<and> w = v"
    "mapped b j \<Longrightarrow> j \<noteq> i \<Longrightarrow> idx_byte (claim_vice i v e b) j k = idx_byte b j k"
    "idx_byte (claim_vice i v e b) i k = over (entry_byte e k) (idx_byte b i k)"
    "data_vec (claim_vice i v e b) ! j =
      (if j = v then e else if j = i then (data_vec b ! i)\<lparr>vice := Some v\<rparr> else data_vec b ! j)"
proof -
  note f = free_facts [OF assms(1,2)] and g = mapped_facts [OF assms(1,3)]
  have iv: "i \<noteq> v"
    using f(4) assms(3) by blast
  show d: "data_vec (claim_vice i v e b) ! j =
      (if j = v then e else if j = i then (data_vec b ! i)\<lparr>vice := Some v\<rparr> else data_vec b ! j)" for j
    using f(2) g(2) by (auto simp: claim_vice_def nth_list_update)
  have len: "length (data_vec (claim_vice i v e b)) = length (data_vec b)" "data_map (claim_vice i v e b) = data_map b"
    by (simp_all add: claim_vice_def)
  have "key_of e = key_of (data_vec b ! i)"
    using assms(6,7) by (simp add: key_of_def)
  then show m: "mapped (claim_vice i v e b) j \<longleftrightarrow> mapped b j" for j
    using g(8) f(4) iv by (auto simp: mapped_def d len key_of_def)
  show "vice_of (claim_vice i v e b) j w \<longleftrightarrow> vice_of b j w \<or> j = i \<and> w = v"
    using m f(4) assms(3,4,5) iv by (auto simp: vice_of_def d)
  show "idx_byte (claim_vice i v e b) i k = over (entry_byte e k) (idx_byte b i k)"
    using iv assms(4) by (simp add: idx_byte_def d entry_byte_def)
  assume j: "mapped b j" "j \<noteq> i"
  then have "vice (data_vec b ! j) \<noteq> Some i" "vice (data_vec b ! j) \<noteq> Some v" "j \<noteq> v"
    using f(4) f(5) [of j] assms(3) vice_facts(4) [OF assms(1), of j i] by (auto simp: vice_of_def)
  then show "idx_byte (claim_vice i v e b) j k = idx_byte b j k"
    using j(2) by (auto simp: idx_byte_def d split: option.split)
qed

lemma claim_vice_ok:
  assumes "sb_ok c b" and "free_list b \<noteq> []" and v: "v = last (free_list b)" and "mapped b i" and "vice (data_vec b ! i) = None"
    and "vice e = None" and "sb_tid e = sb_tid (data_vec b ! i)" and "blockPaddr e = blockPaddr (data_vec b ! i)" and "entry_ok c e"
  shows "sb_ok c (claim_vice i v e b)"
proof -
  have mem: "v \<in> set (free_list b)"
    using assms(2) v by simp
  note f = free_facts [OF assms(1) mem] and m = claim_vice_facts [OF assms(1) mem assms(4-8)] and g = mapped_facts [OF assms(1,4)]
  have iv: "i \<noteq> v" and s: "crossRef (claim_vice i v e b) = crossRef b" "data_vld (claim_vice i v e b) = (data_vld b)[v := True]"
    using f(4) assms(4) by (auto simp: claim_vice_def)
  have "distinct (butlast (free_list b))" "set (butlast (free_list b)) = set (free_list b) - {v}"
    "length (free_list b) = Suc (length (butlast (free_list b)))"
    using butlast_facts [OF assms(2)] sb_okD(1) [OF assms(1)] unfolding v by (simp_all add: shape_ok_def)
  moreover have "\<forall>x\<in>set (data_vec (claim_vice i v e b)). entry_ok c x"
  proof
    fix x assume "x \<in> set (data_vec (claim_vice i v e b))"
    then obtain j where "j < length (data_vec b)" "x = data_vec (claim_vice i v e b) ! j"
      by (auto simp: in_set_conv_nth claim_vice_def)
    then show "entry_ok c x"
      using assms(9) g(5) sb_okD(1) [OF assms(1)] by (auto simp: m(5) shape_ok_def entry_ok_def)
  qed
  ultimately have "shape_ok c (claim_vice i v e b)"
    using sb_okD(1) [OF assms(1)] f(1,3) by (auto simp: shape_ok_def claim_vice_def nth_list_update)
  moreover have "map_ok c (claim_vice i v e b)"
    unfolding map_ok_def m(1,2)
  proof (intro conjI allI impI)
    fix k j assume "data_map (claim_vice i v e b) k = Some j"
    then have j: "mapped b j" "key_of (data_vec b ! j) = k" "j \<noteq> v"
      using lookup_mapped [OF assms(1), of k j] f(4) by (auto simp: claim_vice_def)
    then show "mapped b j" "key_of (data_vec (claim_vice i v e b) ! j) = k" "crossRef (claim_vice i v e b) ! j = k"
      "data_vld (claim_vice i v e b) ! j" "cacheBlock c (blockPaddr (data_vec (claim_vice i v e b) ! j)) = blockPaddr (data_vec (claim_vice i v e b) ! j)"
      "sb_tid (data_vec (claim_vice i v e b) ! j) < cacheLineSize c"
      using mapped_facts [OF assms(1), of j] by (auto simp: m(5) s key_of_def)
  next
    fix w assume w: "w < sbufferEntries c" "data_vld (claim_vice i v e b) ! w"
    then have "w = v \<or> data_vld b ! w"
      by (cases "w = v") (auto simp: claim_vice_def)
    then show "mapped b w \<or> (\<exists>j. vice_of b j w \<or> j = i \<and> w = v)"
      using sb_okD(2) [OF assms(1)] w(1) unfolding map_ok_def by blast
  qed
  moreover have "vice_ok c (claim_vice i v e b)"
    unfolding vice_ok_def m(1,2)
  proof (intro allI impI)
    fix j w assume "vice_of b j w \<or> j = i \<and> w = v"
    then show "w < sbufferEntries c \<and> data_vld (claim_vice i v e b) ! w \<and> \<not> mapped b w \<and>
        vice (data_vec (claim_vice i v e b) ! w) = None \<and>
        sb_tid (data_vec (claim_vice i v e b) ! w) = sb_tid (data_vec (claim_vice i v e b) ! j) \<and>
        blockPaddr (data_vec (claim_vice i v e b) ! w) = blockPaddr (data_vec (claim_vice i v e b) ! j)"
    proof
      assume w: "vice_of b j w"
      then have "w \<noteq> v" "w \<noteq> i" "j \<noteq> v"
        using f(4) f(5) [of j] vice_facts(4,9) [OF assms(1) w] assms(4) by auto
      then show ?thesis
        using vice_facts [OF assms(1) w] by (simp add: m(5)) (simp add: claim_vice_def)
    next
      assume "j = i \<and> w = v"
      then show ?thesis
        using f(1,4) iv assms(6-8) sb_okD(1) [OF assms(1)] by (simp add: m(5)) (simp add: claim_vice_def shape_ok_def)
    qed
  qed
  moreover have "lru_ok (claim_vice i v e b)"
    using sb_okD(4) [OF assms(1)] m(1) by (simp add: lru_ok_def) (simp add: claim_vice_def)
  ultimately show ?thesis
    by (simp add: sb_ok_def)
qed

text \<open>An entry is released; its vice, if it has one, takes its place.\<close>

lemma free_length: "sb_ok c b \<Longrightarrow> mapped b i \<Longrightarrow> length (free_list b) < sbufferEntries c \<and> i \<notin> set (free_list b)"
proof -
  assume ok: "sb_ok c b" and i: "mapped b i"
  then have "i < sbufferEntries c" "i \<notin> set (free_list b)"
    using mapped_facts(1) free_facts(4) by blast+
  moreover have "set (free_list b) \<subseteq> {..<sbufferEntries c}" "distinct (free_list b)"
    using sb_okD(1) [OF ok] by (auto simp: shape_ok_def)
  ultimately have "card (set (free_list b)) < card {..<sbufferEntries c}"
    by (intro psubset_card_mono) auto
  then show ?thesis
    using \<open>distinct (free_list b)\<close> \<open>i \<notin> _\<close> by (simp add: distinct_card)
qed

definition released_entry :: "nat \<Rightarrow> store_buffer \<Rightarrow> store_buffer" where
  "released_entry i b = b\<lparr>sb_size := sb_size b - 1, data_vld := (data_vld b)[i := False],
     data_map := (data_map b)(key_of (data_vec b ! i) := None), free_list := free_list b @ [i]\<rparr>"

definition promoted :: "nat \<Rightarrow> nat \<Rightarrow> store_buffer \<Rightarrow> store_buffer" where
  "promoted i v b = (released_entry i b)\<lparr>data_map := (data_map b)(key_of (data_vec b ! i) \<mapsto> v),
     crossRef := (crossRef b)[v := key_of (data_vec b ! i)], lru_index := v # lru_index b\<rparr>"

lemma promoted_vec: "data_vec (promoted i v b) = data_vec b" "data_vec (released_entry i b) = data_vec b"
  by (simp_all add: promoted_def released_entry_def)

lemma release_eq:
  assumes "sb_ok c b" and "mapped b i" and "i \<notin> set (lru_index b)"
  shows "vice (data_vec b ! i) = None \<Longrightarrow> sb_release i b = Some (released_entry i b)"
    "vice_of b i v \<Longrightarrow> sb_release i b = Some (promoted i v b)"
proof -
  note f = mapped_facts [OF assms(1,2)]
  have l: "length (data_vec b) = sbufferEntries c" "length (free_list b) < sbufferEntries c" "i \<notin> set (free_list b)"
    using sb_okD(1) [OF assms(1)] free_length [OF assms(1,2)] by (simp_all add: shape_ok_def)
  then have sz: "sb_size b \<noteq> 0"
    using sb_okD(1) [OF assms(1)] by (simp add: shape_ok_def)
  show "vice (data_vec b ! i) = None \<Longrightarrow> sb_release i b = Some (released_entry i b)"
    using l sz f(4,8) by (simp add: sb_release_def Let_def free_push_back_def released_entry_def)
  assume v: "vice_of b i v"
  note g = vice_facts [OF assms(1) v]
  have "set (lru_index b) \<subseteq> {..<sbufferEntries c} - {v}" "distinct (lru_index b)"
    using sb_okD(4) [OF assms(1)] mapped_facts(1) [OF assms(1)] g(4) by (auto simp: lru_ok_def)
  then have "length (lru_index b) < sbufferEntries c"
    using card_mono [of "{..<sbufferEntries c} - {v}" "set (lru_index b)"] g(1) by (auto simp: distinct_card card_Diff_singleton)
  then have "take (length (data_vec b)) (v # lru_index b) = v # lru_index b"
    using l(1) by simp
  then show "sb_release i b = Some (promoted i v b)"
    using v l sz f(4,8) g(3,8,11)
    by (simp add: sb_release_def Let_def free_push_back_def promoted_def released_entry_def vice_of_def lru_push_front_def map_insert_def key_of_def)
qed

lemma released_facts:
  assumes "sb_ok c b" and "mapped b i"
  shows "mapped (released_entry i b) j \<longleftrightarrow> mapped b j \<and> j \<noteq> i" "vice_of (released_entry i b) j v \<longleftrightarrow> vice_of b j v \<and> j \<noteq> i"
    "idx_byte (released_entry i b) j k = idx_byte b j k"
proof -
  show m: "mapped (released_entry i b) j \<longleftrightarrow> mapped b j \<and> j \<noteq> i"
    using mapped_facts(8) [OF assms] by (auto simp: mapped_def released_entry_def)
  show "vice_of (released_entry i b) j v \<longleftrightarrow> vice_of b j v \<and> j \<noteq> i"
    unfolding vice_of_def m promoted_vec by auto
  show "idx_byte (released_entry i b) j k = idx_byte b j k"
    by (simp add: idx_byte_def released_entry_def split: option.split)
qed

lemma promoted_facts:
  assumes "sb_ok c b" and "vice_of b i v"
  shows "mapped (promoted i v b) j \<longleftrightarrow> mapped b j \<and> j \<noteq> i \<or> j = v" "vice_of (promoted i v b) j w \<longleftrightarrow> vice_of b j w \<and> j \<noteq> i"
    "idx_byte (promoted i v b) j k = idx_byte b j k"
proof -
  note g = vice_facts [OF assms]
  show m: "mapped (promoted i v b) j \<longleftrightarrow> mapped b j \<and> j \<noteq> i \<or> j = v" for j
    using mapped_facts(8) [OF assms(1) g(9)] g(2,8,11) by (auto simp: mapped_def promoted_def released_entry_def)
  show "vice_of (promoted i v b) j w \<longleftrightarrow> vice_of b j w \<and> j \<noteq> i"
    unfolding vice_of_def m promoted_vec using g(4,5) by auto
  show "idx_byte (promoted i v b) j k = idx_byte b j k"
    by (simp add: idx_byte_def promoted_def released_entry_def split: option.split)
qed

lemma released_shape:
  assumes "sb_ok c b" and "mapped b i"
  shows "shape_ok c (released_entry i b)"
  using sb_okD(1) [OF assms(1)] mapped_facts(1,3) [OF assms] free_length [OF assms]
  by (auto simp: shape_ok_def released_entry_def nth_list_update)

lemma released_ok:
  assumes "sb_ok c b" and "mapped b i" and "vice (data_vec b ! i) = None" and "i \<notin> set (lru_index b)"
  shows "sb_ok c (released_entry i b)"
proof -
  note m = released_facts [OF assms(1,2)] and f = mapped_facts [OF assms(1,2)]
  have s: "crossRef (released_entry i b) = crossRef b" "data_vld (released_entry i b) = (data_vld b)[i := False]"
    "lru_index (released_entry i b) = lru_index b"
    by (simp_all add: released_entry_def)
  have "map_ok c (released_entry i b)"
    unfolding map_ok_def m(1,2) promoted_vec s
  proof (intro conjI allI impI)
    fix k j assume "data_map (released_entry i b) k = Some j"
    then have j: "data_map b k = Some j" "k \<noteq> key_of (data_vec b ! i)"
      by (auto simp: released_entry_def split: if_splits)
    note l = lookup_mapped [OF assms(1) j(1)]
    then have "j \<noteq> i"
      using j(2) by auto
    with l show "mapped b j" "j \<noteq> i" "key_of (data_vec b ! j) = k" "crossRef b ! j = k" "(data_vld b)[i := False] ! j"
      "cacheBlock c (blockPaddr (data_vec b ! j)) = blockPaddr (data_vec b ! j)" "sb_tid (data_vec b ! j) < cacheLineSize c"
      using mapped_facts [OF assms(1) l(1)] by auto
  next
    fix w assume w: "w < sbufferEntries c" "(data_vld b)[i := False] ! w"
    then have "w \<noteq> i" "data_vld b ! w"
      using f(1) sb_okD(1) [OF assms(1)] by (auto simp: shape_ok_def nth_list_update split: if_splits)
    then show "mapped b w \<and> w \<noteq> i \<or> (\<exists>j. vice_of b j w \<and> j \<noteq> i)"
      using sb_okD(2) [OF assms(1)] w(1) assms(3) unfolding map_ok_def vice_of_def by fastforce
  qed
  moreover have "vice_ok c (released_entry i b)"
    unfolding vice_ok_def m(1,2) promoted_vec s
  proof (intro allI impI)
    fix j w assume "vice_of b j w \<and> j \<noteq> i"
    then show "w < sbufferEntries c \<and> (data_vld b)[i := False] ! w \<and> \<not> (mapped b w \<and> w \<noteq> i) \<and> vice (data_vec b ! w) = None \<and>
        sb_tid (data_vec b ! w) = sb_tid (data_vec b ! j) \<and> blockPaddr (data_vec b ! w) = blockPaddr (data_vec b ! j)"
      using vice_facts [OF assms(1), of j w] assms(2) by (cases "w = i") auto
  qed
  moreover have "lru_ok (released_entry i b)"
    using sb_okD(4) [OF assms(1)] assms(4) unfolding lru_ok_def m(1) s by blast
  ultimately show ?thesis
    using released_shape [OF assms(1,2)] by (simp add: sb_ok_def)
qed

lemma promoted_ok:
  assumes "sb_ok c b" and v: "vice_of b i v" and "i \<notin> set (lru_index b)"
  shows "sb_ok c (promoted i v b)"
proof -
  note m = promoted_facts [OF assms(1,2)] and g = vice_facts [OF assms(1,2)]
  note f = mapped_facts [OF assms(1) g(9)]
  have s: "crossRef (promoted i v b) = (crossRef b)[v := key_of (data_vec b ! i)]" "data_vld (promoted i v b) = (data_vld b)[i := False]"
    "lru_index (promoted i v b) = v # lru_index b" "data_map (promoted i v b) = (data_map b)(key_of (data_vec b ! i) \<mapsto> v)"
    by (simp_all add: promoted_def released_entry_def)
  have len: "length (crossRef b) = sbufferEntries c" "length (data_vld b) = sbufferEntries c"
    using sb_okD(1) [OF assms(1)] by (simp_all add: shape_ok_def)
  have "map_ok c (promoted i v b)"
    unfolding map_ok_def m(1,2) promoted_vec s(1,2,4)
  proof (intro conjI allI impI)
    fix k j assume k: "((data_map b)(key_of (data_vec b ! i) \<mapsto> v)) k = Some j"
    have "mapped b j \<and> j \<noteq> i \<and> j \<noteq> v \<and> key_of (data_vec b ! j) = k \<or> j = v \<and> k = key_of (data_vec b ! i)"
      using k lookup_mapped [OF assms(1), of k j] g(4) by (auto split: if_splits)
    then show "mapped b j \<and> j \<noteq> i \<or> j = v" "key_of (data_vec b ! j) = k" "(crossRef b)[v := key_of (data_vec b ! i)] ! j = k"
      "(data_vld b)[i := False] ! j" "cacheBlock c (blockPaddr (data_vec b ! j)) = blockPaddr (data_vec b ! j)"
      "sb_tid (data_vec b ! j) < cacheLineSize c"
      using g f mapped_facts [OF assms(1), of j] len by (auto simp: nth_list_update)
  next
    fix w assume w: "w < sbufferEntries c" "(data_vld b)[i := False] ! w"
    then have "w \<noteq> i" "data_vld b ! w"
      using len f(1) by (auto simp: nth_list_update split: if_splits)
    then have "mapped b w \<or> (\<exists>j. vice_of b j w)"
      using sb_okD(2) [OF assms(1)] w(1) unfolding map_ok_def by blast
    then show "(mapped b w \<and> w \<noteq> i \<or> w = v) \<or> (\<exists>j. vice_of b j w \<and> j \<noteq> i)"
      using \<open>w \<noteq> i\<close> v by (auto simp: vice_of_def)
  qed
  moreover have "vice_ok c (promoted i v b)"
    unfolding vice_ok_def m(1,2) promoted_vec s(2)
  proof (intro allI impI)
    fix j w assume w: "vice_of b j w \<and> j \<noteq> i"
    then have "w \<noteq> v" "w \<noteq> i"
      using vice_inj [OF assms(1) _ v, of j] vice_facts(4) [OF assms(1), of j i] g(9) by auto
    then show "w < sbufferEntries c \<and> (data_vld b)[i := False] ! w \<and> \<not> (mapped b w \<and> w \<noteq> i \<or> w = v) \<and> vice (data_vec b ! w) = None \<and>
        sb_tid (data_vec b ! w) = sb_tid (data_vec b ! j) \<and> blockPaddr (data_vec b ! w) = blockPaddr (data_vec b ! j)"
      using w vice_facts [OF assms(1), of j w] by simp
  qed
  moreover have "lru_ok (promoted i v b)"
    using sb_okD(4) [OF assms(1)] assms(3) g(4) unfolding lru_ok_def m(1) s(3) by auto
  moreover have "shape_ok c (promoted i v b)"
    using released_shape [OF assms(1) g(9)] len(1) by (simp add: shape_ok_def promoted_def)
  ultimately show ?thesis
    by (simp add: sb_ok_def)
qed

end
