(* ===== verification/StoreBufferProps.thy ===== *)
theory StoreBufferProps
  imports StoreBufferInv
begin

text \<open>
  The store buffer keeps the memory a thread sees: what inserting a store, sending an entry and the
  response of the cache do to the pending bytes and to the reference memory.
\<close>

section \<open>Insertion of a store\<close>

text \<open>Requests: an entry with a vice is being sent, a vice is not; the entries that wait to be evicted are
  those without a request; \<open>blk\<close> is the entry whose packet the cache refused.\<close>

definition io_ok :: "store_buffer \<Rightarrow> nat option \<Rightarrow> bool" where
  "io_ok b blk \<longleftrightarrow>
     (\<forall>i v. vice_of b i v \<longrightarrow> sending (data_vec b ! i) \<and> \<not> sending (data_vec b ! v) \<and> sb_request (data_vec b ! v) = None) \<and>
     (\<forall>i. mapped b i \<longrightarrow> (i \<in> set (lru_index b) \<longleftrightarrow> sb_request (data_vec b ! i) = None) \<and>
        (sending (data_vec b ! i) \<longleftrightarrow> (\<exists>r. sb_request (data_vec b ! i) = Some r \<and> rq_outstanding r)) \<and>
        (\<forall>r. sb_request (data_vec b ! i) = Some r \<longrightarrow> rq_paddr r = blockPaddr (data_vec b ! i) \<and>
           rq_byteEnable r = validMask (data_vec b ! i) \<and> (rq_outstanding r \<or> blk = Some i))) \<and>
     (\<forall>i. blk = Some i \<longrightarrow> mapped b i \<and> (\<exists>r. sb_request (data_vec b ! i) = Some r \<and> \<not> rq_outstanding r))"

lemma io_okD:
  assumes "io_ok b blk" and "mapped b i"
  shows "i \<in> set (lru_index b) \<longleftrightarrow> sb_request (data_vec b ! i) = None"
    "sending (data_vec b ! i) \<longleftrightarrow> (\<exists>r. sb_request (data_vec b ! i) = Some r \<and> rq_outstanding r)"
    "sb_request (data_vec b ! i) = Some r \<Longrightarrow> rq_paddr r = blockPaddr (data_vec b ! i) \<and>
       rq_byteEnable r = validMask (data_vec b ! i) \<and> (rq_outstanding r \<or> blk = Some i)"
    "\<not> sending (data_vec b ! i) \<Longrightarrow> vice (data_vec b ! i) = None"
proof -
  show "i \<in> set (lru_index b) \<longleftrightarrow> sb_request (data_vec b ! i) = None"
    "sending (data_vec b ! i) \<longleftrightarrow> (\<exists>r. sb_request (data_vec b ! i) = Some r \<and> rq_outstanding r)"
    "sb_request (data_vec b ! i) = Some r \<Longrightarrow> rq_paddr r = blockPaddr (data_vec b ! i) \<and>
       rq_byteEnable r = validMask (data_vec b ! i) \<and> (rq_outstanding r \<or> blk = Some i)"
    using assms unfolding io_ok_def by blast+
  show "vice (data_vec b ! i) = None" if "\<not> sending (data_vec b ! i)"
    using assms that unfolding io_ok_def vice_of_def by (cases "vice (data_vec b ! i)") auto
qed

definition num_requests :: "store_buffer \<Rightarrow> thread_id \<Rightarrow> nat" where
  "num_requests b t = card {i. mapped b i \<and> sb_tid (data_vec b ! i) = t \<and> sb_request (data_vec b ! i) \<noteq> None}"

text \<open>The threads and blocks of the entries in use.\<close>

definition tags :: "store_buffer \<Rightarrow> (thread_id \<times> addr \<times> addr) set" where
  "tags b = (\<lambda>i. (sb_tid (data_vec b ! i), blockVaddr (data_vec b ! i), blockPaddr (data_vec b ! i))) `
     {i. i < length (data_vec b) \<and> data_vld b ! i}"

lemma access_in_block:
  assumes "line_ok c" and "access_ok c t va pa datas bmask"
  shows "cacheBlock c va = cacheBlock c (va + of_nat (length datas) - 1)"
proof -
  obtain n where n: "length datas = Suc n"
    using assms(2) by (cases datas) (auto simp: access_ok_def)
  then have "va + of_nat (length datas) - 1 = va + of_nat n"
    by simp
  then show ?thesis
    using in_block(2) [OF assms(1), of va n] assms(2) n by (simp add: access_ok_def)
qed

text \<open>The four ways a store is taken; \<open>grown\<close> says what changes of the bytes and of the requests.\<close>

definition grown :: "sb_cfg \<Rightarrow> thread_id \<Rightarrow> addr \<Rightarrow> addr \<Rightarrow> byte list \<Rightarrow> bool list \<Rightarrow> store_buffer \<Rightarrow> store_buffer \<Rightarrow> bool" where
  "grown c t va pa datas bmask b b' \<longleftrightarrow>
     (\<forall>u<cacheLineSize c. \<forall>a. pending c b' u a =
        (if u = t then over (store_byte pa datas bmask a) (pending c b u a) else pending c b u a)) \<and>
     (\<forall>u. num_requests b' u = num_requests b u) \<and> tags b' \<subseteq> insert (t, cacheBlock c va, cacheBlock c pa) (tags b)"

lemma grownI:
  assumes "sb_ok c b" and "line_ok c" and "access_ok c t va pa datas bmask" and "data_map b' = data_map b"
    and i: "mapped b i" "sb_tid (data_vec b ! i) = t" "blockPaddr (data_vec b ! i) = cacheBlock c pa"
    and "\<And>k. k < cacheLineSize c \<Longrightarrow> idx_byte b' i k = over (access_byte (cacheOffset c pa) datas bmask k) (idx_byte b i k)"
    and "\<And>j k. mapped b j \<Longrightarrow> j \<noteq> i \<Longrightarrow> idx_byte b' j k = idx_byte b j k"
    and "\<And>u. num_requests b' u = num_requests b u" and "tags b' \<subseteq> insert (t, cacheBlock c va, cacheBlock c pa) (tags b)"
  shows "grown c t va pa datas bmask b b'"
  unfolding grown_def
proof (intro conjI allI impI)
  fix u a assume "u < cacheLineSize c"
  from pending_change [OF assms(1,2,4) i(1) this, where f = "\<lambda>k. over (access_byte (cacheOffset c pa) datas bmask k)", OF assms(8,9)]
  show "pending c b' u a = (if u = t then over (store_byte pa datas bmask a) (pending c b u a) else pending c b u a)"
    using store_byte_offset [OF assms(2), of pa datas bmask a] assms(3) i(2,3) by (simp add: access_ok_def)
qed (rule assms(10), rule assms(11))

lemma data_change:
  assumes "sb_ok c b" and "io_ok b blk" and "sb_request (data_vec b ! i) = None"
    and e: "e = (data_vec b ! i)\<lparr>blockDatas := ds, validMask := ms\<rparr>" and "entry_ok c e"
  shows "sb_ok c (set_entry i e b)" "io_ok (set_entry i e b) blk" "num_requests (set_entry i e b) u = num_requests b u"
    "tags (set_entry i e b) = tags b"
proof -
  have same: "sb_tid e = sb_tid (data_vec b ! i)" "blockPaddr e = blockPaddr (data_vec b ! i)" "vice e = vice (data_vec b ! i)"
    by (simp_all add: e)
  note s = set_entry_same [OF same]
  show "sb_ok c (set_entry i e b)"
    using set_entry_ok [OF assms(1,5) same] .
  have r: "sb_request ((data_vec b)[i := e] ! j) = sb_request (data_vec b ! j)" "sending ((data_vec b)[i := e] ! j) = sending (data_vec b ! j)"
    "sb_request (data_vec b ! j) \<noteq> None \<Longrightarrow> validMask ((data_vec b)[i := e] ! j) = validMask (data_vec b ! j)" for j
    using assms(3) by (cases "j = i \<and> i < length (data_vec b)"; force simp: e list_update_beyond)+
  show "io_ok (set_entry i e b) blk"
    using assms(2) r(3) unfolding io_ok_def set_entry_simps s r by fastforce
  show "num_requests (set_entry i e b) u = num_requests b u"
    unfolding num_requests_def set_entry_simps s r ..
  have "blockVaddr ((data_vec b)[i := e] ! j) = blockVaddr (data_vec b ! j)" for j
    by (cases "j = i \<and> i < length (data_vec b)") (auto simp: e list_update_beyond nth_list_update)
  then show "tags (set_entry i e b) = tags b"
    by (simp add: tags_def s)
qed

lemma merge_unsent:
  assumes "sb_ok c b" and "line_ok c" and "io_ok b None" and "access_ok c t va pa datas bmask"
    and i: "mapped b i" "sb_tid (data_vec b ! i) = t" "blockPaddr (data_vec b ! i) = cacheBlock c pa" and "\<not> sending (data_vec b ! i)"
  shows "\<exists>b1 e. sb_update i b = Some b1 \<and> entry_merge (cacheOffset c pa) datas bmask (data_vec b1 ! i) = Some e \<and>
    sb_ok c (set_entry i e b1) \<and> io_ok (set_entry i e b1) None \<and> grown c t va pa datas bmask b (set_entry i e b1)"
proof -
  note io = io_okD [OF assms(3) i(1)] and f = mapped_facts [OF assms(1) i(1)]
  have rq: "sb_request (data_vec b ! i) = None"
    using io(2,3) assms(8) by (cases "sb_request (data_vec b ! i)") auto
  have vc: "vice (data_vec b ! i) = None"
    using io(4) assms(8) .
  obtain l where l: "sb_update i b = Some (b\<lparr>lru_index := l\<rparr>)" "distinct l" "set l = set (lru_index b)"
    using sb_update_ok [OF assms(1), of i] io(1) rq by blast
  let ?b = "b\<lparr>lru_index := l\<rparr>"
  note lr = lru_ok_cong [OF assms(1) l(2) eq_refl [OF l(3)]]
  have io1: "io_ok ?b None" and nr: "num_requests ?b u = num_requests b u" and tg: "tags ?b = tags b" for u
    using assms(3) l(3) by (simp_all add: io_ok_def num_requests_def tags_def lr(2,3))
  obtain ds ms e where e: "entry_merge (cacheOffset c pa) datas bmask (data_vec b ! i) = Some e"
    "e = (data_vec b ! i)\<lparr>blockDatas := ds, validMask := ms\<rparr>" "entry_ok c e"
    "\<forall>k<cacheLineSize c. entry_byte e k = over (access_byte (cacheOffset c pa) datas bmask k) (entry_byte (data_vec b ! i) k)"
    using entry_merge_ok [OF f(5), of "cacheOffset c pa" datas bmask] assms(4) by (auto simp: access_ok_def)
  have "sb_request (data_vec ?b ! i) = None" "e = (data_vec ?b ! i)\<lparr>blockDatas := ds, validMask := ms\<rparr>"
    using rq e(2) by simp_all
  note d = data_change [OF lr(1) io1 this e(3)]
  have "grown c t va pa datas bmask b (set_entry i e ?b)"
  proof (rule grownI [OF assms(1,2,4) _ i])
    show "idx_byte (set_entry i e ?b) i k = over (access_byte (cacheOffset c pa) datas bmask k) (idx_byte b i k)" if "k < cacheLineSize c" for k
      using e(2,4) that vc f(2) by (simp add: idx_byte_def)
    show "idx_byte (set_entry i e ?b) j k = idx_byte b j k" if "mapped b j" "j \<noteq> i" for j k
    proof -
      have "vice (data_vec b ! j) \<noteq> Some i"
        using that(1) vice_facts(4) [OF assms(1), of j i] i(1) by (auto simp: vice_of_def)
      then show ?thesis
        using that(2) by (auto simp: idx_byte_def split: option.split)
    qed
    show "num_requests (set_entry i e ?b) u = num_requests b u" for u
      using d(3) nr by simp
  qed (use d(4) tg in auto)
  then show ?thesis
    using l(1) e(1) d(1,2) by simp
qed

lemma merge_vice:
  assumes "sb_ok c b" and "line_ok c" and "io_ok b None" and "access_ok c t va pa datas bmask"
    and i: "mapped b i" "sb_tid (data_vec b ! i) = t" "blockPaddr (data_vec b ! i) = cacheBlock c pa" and v: "vice_of b i v"
  shows "\<exists>e. entry_merge (cacheOffset c pa) datas bmask (data_vec b ! v) = Some e \<and>
    sb_ok c (set_entry v e b) \<and> io_ok (set_entry v e b) None \<and> grown c t va pa datas bmask b (set_entry v e b)"
proof -
  note g = vice_facts [OF assms(1) v]
  have rq: "sb_request (data_vec b ! v) = None"
    using assms(3) v unfolding io_ok_def by blast
  obtain ds ms e where e: "entry_merge (cacheOffset c pa) datas bmask (data_vec b ! v) = Some e"
    "e = (data_vec b ! v)\<lparr>blockDatas := ds, validMask := ms\<rparr>" "entry_ok c e"
    "\<forall>k<cacheLineSize c. entry_byte e k = over (access_byte (cacheOffset c pa) datas bmask k) (entry_byte (data_vec b ! v) k)"
    using entry_merge_ok [OF g(10), of "cacheOffset c pa" datas bmask] assms(4) by (auto simp: access_ok_def)
  note d = data_change [OF assms(1,3) rq e(2,3)]
  have "grown c t va pa datas bmask b (set_entry v e b)"
  proof (rule grownI [OF assms(1,2,4) _ i])
    show "idx_byte (set_entry v e b) i k = over (access_byte (cacheOffset c pa) datas bmask k) (idx_byte b i k)" if "k < cacheLineSize c" for k
      using e(4) that v g(2,8) by (simp add: idx_byte_def vice_of_def)
    show "idx_byte (set_entry v e b) j k = idx_byte b j k" if "mapped b j" "j \<noteq> i" for j k
    proof -
      have "j \<noteq> v" "vice (data_vec b ! j) \<noteq> Some v"
        using that g(4) vice_inj [OF assms(1) v, of j] by (auto simp: vice_of_def)
      then show ?thesis
        by (auto simp: idx_byte_def nth_list_update split: option.split)
    qed
  qed (use d(3,4) in auto)
  then show ?thesis
    using e(1) d(1,2) by simp
qed

lemma make_vice:
  assumes "sb_ok c b" and "line_ok c" and "io_ok b None" and "access_ok c t va pa datas bmask"
    and i: "mapped b i" "sb_tid (data_vec b ! i) = t" "blockPaddr (data_vec b ! i) = cacheBlock c pa"
    and "sending (data_vec b ! i)" and vc: "vice (data_vec b ! i) = None" and "\<not> sb_full b"
  shows "\<exists>v b1 e. createVice i b = Some (v, b1) \<and>
    entry_reset t (cacheBlock c va) (cacheBlock c pa) (cacheOffset c pa) datas bmask (data_vec b1 ! v) = Some e \<and>
    sb_ok c (set_entry v e b1) \<and> io_ok (set_entry v e b1) None \<and> grown c t va pa datas bmask b (set_entry v e b1)"
proof -
  define v where "v = last (free_list b)"
  have ne: "free_list b \<noteq> []" and mem: "v \<in> set (free_list b)"
    using assms(10) by (simp_all add: sb_full_def v_def)
  note f = free_facts [OF assms(1) mem]
  let ?b1 = "(set_entry i ((data_vec b ! i)\<lparr>vice := Some v\<rparr>) (b\<lparr>sb_size := sb_size b + 1, free_list := butlast (free_list b)\<rparr>))
    \<lparr>data_vld := (data_vld b)[v := True]\<rparr>"
  have cv: "createVice i b = Some (v, ?b1)"
    using vc ne by (simp add: createVice_def getEmpty_def sb_full_def v_def)
  have iv: "i \<noteq> v"
    using f(4) i(1) by blast
  obtain e where e: "entry_reset t (cacheBlock c va) (cacheBlock c pa) (cacheOffset c pa) datas bmask (data_vec b ! v) = Some e" "entry_ok c e"
    "sb_tid e = t" "blockPaddr e = cacheBlock c pa" "\<not> sending e" "sb_request e = None" "vice e = None"
    "\<forall>k<cacheLineSize c. entry_byte e k = access_byte (cacheOffset c pa) datas bmask k" "blockVaddr e = cacheBlock c va"
    using entry_reset_ok [OF f(7), of "cacheOffset c pa" datas bmask t "cacheBlock c va" "cacheBlock c pa"] assms(4) by (auto simp: access_ok_def)
  have st: "set_entry v e ?b1 = claim_vice i v e b"
    by (simp add: claim_vice_def set_entry_def)
  have tb: "sb_tid e = sb_tid (data_vec b ! i)" "blockPaddr e = blockPaddr (data_vec b ! i)"
    using e(3,4) i(2,3) by simp_all
  note m = claim_vice_facts [OF assms(1) mem i(1) vc e(7) tb]
  have ok: "sb_ok c (claim_vice i v e b)"
    using claim_vice_ok [OF assms(1) ne v_def i(1) vc e(7) tb e(2)] .
  have lru: "lru_index (claim_vice i v e b) = lru_index b"
    by (simp add: claim_vice_def)
  have r: "sb_request (data_vec (claim_vice i v e b) ! j) = sb_request (data_vec b ! j)"
    "sending (data_vec (claim_vice i v e b) ! j) = sending (data_vec b ! j)" "sb_tid (data_vec (claim_vice i v e b) ! j) = sb_tid (data_vec b ! j)"
    "blockPaddr (data_vec (claim_vice i v e b) ! j) = blockPaddr (data_vec b ! j)"
    "validMask (data_vec (claim_vice i v e b) ! j) = validMask (data_vec b ! j)" if "j \<noteq> v" for j
    using that by (simp_all add: m(5))
  have mv: "j \<noteq> v" if "mapped b j" for j
    using that f(4) by blast
  have io: "io_ok (claim_vice i v e b) None"
    unfolding io_ok_def m(1,2) lru
  proof (intro conjI allI impI)
    fix j w assume w: "vice_of b j w \<or> j = i \<and> w = v"
    show "sending (data_vec (claim_vice i v e b) ! j)" "\<not> sending (data_vec (claim_vice i v e b) ! w)"
      "sb_request (data_vec (claim_vice i v e b) ! w) = None"
      using w assms(3,8) e(5,6) f(5) [of j] mv [of j] i(1) iv unfolding io_ok_def
      by (auto simp: m(5) vice_of_def split: if_splits)
  qed (use assms(3) mv in \<open>auto simp: io_ok_def r\<close>)
  have "num_requests (claim_vice i v e b) u = num_requests b u" for u
    unfolding num_requests_def m(1) by (rule arg_cong [where f = card]) (auto simp: r mv)
  moreover have "tags (claim_vice i v e b) \<subseteq> insert (t, cacheBlock c va, cacheBlock c pa) (tags b)"
    using e(3,4,9) iv f(2,3) sb_okD(1) [OF assms(1)]
    by (auto simp: tags_def m(5)) (auto simp: claim_vice_def shape_ok_def nth_list_update split: if_splits)
  ultimately have "grown c t va pa datas bmask b (claim_vice i v e b)"
    using m(3,4) e(8) by (intro grownI [OF assms(1,2,4) _ i]) (auto simp: claim_vice_def)
  then show ?thesis
    using cv e(1) iv ok io unfolding st [symmetric] by (intro exI [of _ v] exI [of _ ?b1] exI [of _ e]) simp
qed

lemma make_new:
  assumes "sb_ok c b" and "line_ok c" and "io_ok b None" and "access_ok c t va pa datas bmask"
    and none: "data_map b (hashKey t (cacheBlock c pa)) = None" and "\<not> sb_full b"
  shows "\<exists>i b1 e b2. getEmpty b = Some (i, b1) \<and>
    entry_reset t (cacheBlock c va) (cacheBlock c pa) (cacheOffset c pa) datas bmask (data_vec b1 ! i) = Some e \<and>
    sb_insert i (set_entry i e b1) = Some b2 \<and> sb_ok c b2 \<and> io_ok b2 None \<and> grown c t va pa datas bmask b b2"
proof -
  define i where "i = last (free_list b)"
  have ne: "free_list b \<noteq> []" and mem: "i \<in> set (free_list b)"
    using assms(6) by (simp_all add: sb_full_def i_def)
  note f = free_facts [OF assms(1) mem]
  let ?b1 = "b\<lparr>free_list := butlast (free_list b)\<rparr>"
  have ge: "getEmpty b = Some (i, ?b1)"
    using ne by (simp add: getEmpty_def sb_full_def i_def)
  obtain e where e: "entry_reset t (cacheBlock c va) (cacheBlock c pa) (cacheOffset c pa) datas bmask (data_vec b ! i) = Some e" "entry_ok c e"
    "sb_tid e = t" "blockPaddr e = cacheBlock c pa" "\<not> sending e" "sb_request e = None" "vice e = None"
    "\<forall>k<cacheLineSize c. entry_byte e k = access_byte (cacheOffset c pa) datas bmask k" "blockVaddr e = cacheBlock c va"
    using entry_reset_ok [OF f(7), of "cacheOffset c pa" datas bmask t "cacheBlock c va" "cacheBlock c pa"] assms(4) by (auto simp: access_ok_def)
  have key: "data_map b (key_of e) = None"
    using none e(3,4) by (simp add: key_of_def)
  note m = claim_new_facts [OF assms(1) mem e(7) key]
  have ok: "sb_ok c (claim_new i e b)"
    using claim_new_ok [OF assms(1) ne i_def e(7) key e(2)] e(3,4) block_idem assms(4) by (simp add: access_ok_def)
  have "sb_size b + length (free_list b) = sbufferEntries c" "0 < length (free_list b)"
    using sb_okD(1) [OF assms(1)] ne by (simp_all add: shape_ok_def)
  then have "sb_size b < sbufferEntries c"
    by linarith
  then have len: "length (lru_index b) < sbufferEntries c" "sb_size b < sbufferEntries c" "length (data_vec b) = sbufferEntries c"
    using lru_length [OF ok] sb_okD(1) [OF assms(1)] by (simp_all add: claim_new_def shape_ok_def)
  have ins: "sb_insert i (set_entry i e ?b1) = Some (claim_new i e b)"
    using f(2,3) len key
    by (simp add: sb_insert_def Let_def claim_new_def map_insert_def lru_push_front_def set_entry_def key_of_def)
  have d: "data_vec (claim_new i e b) ! j = (if j = i then e else data_vec b ! j)" "lru_index (claim_new i e b) = i # lru_index b" for j
    using f(2) by (simp_all add: claim_new_def)
  have mi: "j \<noteq> i" if "mapped b j \<or> vice_of b j w \<or> vice_of b w j" for j w
    using that f(4) f(5) [of w] by (auto simp: vice_of_def)
  have "io_ok (claim_new i e b) None"
    unfolding io_ok_def m(1,2) d(2)
  proof (intro conjI allI impI)
    fix j w assume w: "vice_of b j w"
    then show "sending (data_vec (claim_new i e b) ! j)" "\<not> sending (data_vec (claim_new i e b) ! w)"
      "sb_request (data_vec (claim_new i e b) ! w) = None"
      using assms(3) mi [of j w] mi [of w j] unfolding io_ok_def by (auto simp: d)
  qed (use assms(3) e(5,6) mi in \<open>auto simp: io_ok_def d\<close>)
  moreover have "num_requests (claim_new i e b) u = num_requests b u" for u
    unfolding num_requests_def m(1) d by (rule arg_cong [where f = card]) (use f(4) in \<open>auto simp: e(6)\<close>)
  moreover have "pending c (claim_new i e b) u a = (if u = t then over (store_byte pa datas bmask a) (pending c b u a) else pending c b u a)"
    if u: "u < cacheLineSize c" for u a
  proof -
    have k: "hashKey u (cacheBlock c a) = key_of e \<longleftrightarrow> u = t \<and> cacheBlock c a = cacheBlock c pa"
      using hashKey_inj [OF block_idem block_idem u _ assms(2), of t a pa] assms(4) e(3,4) by (simp add: key_of_def access_ok_def)
    have "pending c (claim_new i e b) u a =
        (if u = t \<and> cacheBlock c a = cacheBlock c pa then entry_byte e (cacheOffset c a) else pending c b u a)"
      using k m(3,4) lookup_mapped(1) [OF assms(1)] by (auto simp: pending_def claim_new_def split: option.split)
    moreover have "pending c b t a = None" if "cacheBlock c a = cacheBlock c pa"
      using none that by (simp add: pending_def)
    ultimately show ?thesis
      using store_byte_offset [OF assms(2), of pa datas bmask a] assms(4) e(8) cacheOffset_less [of c a] by (auto simp: access_ok_def)
  qed
  moreover have "tags (claim_new i e b) \<subseteq> insert (t, cacheBlock c va, cacheBlock c pa) (tags b)"
    using e(3,4,9) f(2) by (auto simp: tags_def d) (auto simp: claim_new_def)
  ultimately have "io_ok (claim_new i e b) None \<and> grown c t va pa datas bmask b (claim_new i e b)"
    by (simp add: grown_def)
  moreover have "entry_reset t (cacheBlock c va) (cacheBlock c pa) (cacheOffset c pa) datas bmask (data_vec ?b1 ! i) = Some e"
    using e(1) by simp
  ultimately show ?thesis
    using ge ins ok by blast
qed

text \<open>Insertion never fails an assertion; a store that is not taken finds the buffer full and changes nothing.\<close>

lemma insertStoreBuffer_ok:
  assumes "sb_ok c b" and "line_ok c" and "io_ok b None" and "access_ok c t va pa datas bmask"
  shows "\<exists>ok b'. insertStoreBuffer c t va pa datas bmask b = Some (ok, b') \<and> sb_ok c b' \<and> io_ok b' None \<and>
    (if ok then grown c t va pa datas bmask b b' else b' = b \<and> sb_full b)"
proof (cases "data_map b (hashKey t (cacheBlock c pa))")
  case None
  then have g: "sb_get t (cacheBlock c pa) b = Some None"
    by (simp add: sb_get_def)
  show ?thesis
  proof (cases "sb_full b")
    case True
    then show ?thesis
      using g access_in_block [OF assms(2,4)] assms(1,3) by (auto simp: insertStoreBuffer_def Let_def)
  next
    case False
    obtain i b1 e b2 where n: "getEmpty b = Some (i, b1)"
      "entry_reset t (cacheBlock c va) (cacheBlock c pa) (cacheOffset c pa) datas bmask (data_vec b1 ! i) = Some e"
      "sb_insert i (set_entry i e b1) = Some b2" "sb_ok c b2" "io_ok b2 None" "grown c t va pa datas bmask b b2"
      using make_new [OF assms None False] by blast
    then have "insertStoreBuffer c t va pa datas bmask b = Some (True, b2)"
      using False g access_in_block [OF assms(2,4)] by (simp add: insertStoreBuffer_def Let_def)
    then show ?thesis
      using n(4-6) by auto
  qed
next
  case (Some i)
  have i: "mapped b i" "sb_tid (data_vec b ! i) = t" "blockPaddr (data_vec b ! i) = cacheBlock c pa"
    using lookup_mapped(1) [OF assms(1) Some] lookup_iff [OF assms(1,2) _ _ block_idem, of i t pa] Some assms(4)
    by (auto simp: access_ok_def)
  have g: "sb_get t (cacheBlock c pa) b = Some (Some i)"
    using Some i(2) mapped_facts(3) [OF assms(1) i(1)] by (simp add: sb_get_def)
  note blk = access_in_block [OF assms(2,4)]
  consider "\<not> sending (data_vec b ! i)" | v where "sending (data_vec b ! i)" "vice_of b i v"
    | "sending (data_vec b ! i)" "vice (data_vec b ! i) = None" "sb_full b"
    | "sending (data_vec b ! i)" "vice (data_vec b ! i) = None" "\<not> sb_full b"
    using i(1) by (cases "vice (data_vec b ! i)") (auto simp: vice_of_def)
  then show ?thesis
  proof cases
    case 1
    obtain b1 e where n: "sb_update i b = Some b1" "entry_merge (cacheOffset c pa) datas bmask (data_vec b1 ! i) = Some e"
      "sb_ok c (set_entry i e b1)" "io_ok (set_entry i e b1) None" "grown c t va pa datas bmask b (set_entry i e b1)"
      using merge_unsent [OF assms i 1] by blast
    then have "insertStoreBuffer c t va pa datas bmask b = Some (True, set_entry i e b1)"
      using 1 g blk by (simp add: insertStoreBuffer_def Let_def)
    then show ?thesis
      using n(3-5) by auto
  next
    case 2
    obtain e where n: "entry_merge (cacheOffset c pa) datas bmask (data_vec b ! v) = Some e"
      "sb_ok c (set_entry v e b)" "io_ok (set_entry v e b) None" "grown c t va pa datas bmask b (set_entry v e b)"
      using merge_vice [OF assms i 2(2)] by blast
    then have "insertStoreBuffer c t va pa datas bmask b = Some (True, set_entry v e b)"
      using 2 g blk by (simp add: insertStoreBuffer_def Let_def vice_of_def)
    then show ?thesis
      using n(2-4) by auto
  next
    case 3
    then show ?thesis
      using assms(1,3) g blk by (auto simp: insertStoreBuffer_def Let_def)
  next
    case 4
    obtain v b1 e where n: "createVice i b = Some (v, b1)"
      "entry_reset t (cacheBlock c va) (cacheBlock c pa) (cacheOffset c pa) datas bmask (data_vec b1 ! v) = Some e"
      "sb_ok c (set_entry v e b1)" "io_ok (set_entry v e b1) None" "grown c t va pa datas bmask b (set_entry v e b1)"
      using make_vice [OF assms i 4] by blast
    then have "insertStoreBuffer c t va pa datas bmask b = Some (True, set_entry v e b1)"
      using 4 g blk by (simp add: insertStoreBuffer_def Let_def)
    then show ?thesis
      using n(3-5) by auto
  qed
qed

end
