(* ===== verification/StoreBufferRun.thy ===== *)
theory StoreBufferRun
  imports StoreBufferProps
begin

text \<open>
  Eviction and completion of the entries of the store buffer, the invariant of the whole state and what
  runs of the buffer do to the memory a thread sees.
\<close>

section \<open>Eviction\<close>

definition sb_inv :: "sb_cfg \<Rightarrow> sb_state \<Rightarrow> bool" where
  "sb_inv c s \<longleftrightarrow> sb_ok c (storeBuffer s) \<and> io_ok (storeBuffer s) (blockedSbufferEntry s) \<and>
     (\<forall>t. numSBufferRequest s t = num_requests (storeBuffer s) t)"

lemma sb_invD:
  assumes "sb_inv c s"
  shows "sb_ok c (storeBuffer s)" "io_ok (storeBuffer s) (blockedSbufferEntry s)"
    "numSBufferRequest s t = num_requests (storeBuffer s) t"
  using assms by (simp_all add: sb_inv_def)

text \<open>What sending does not change: the pending bytes, the entries in use and the memory.\<close>

definition same_view :: "sb_cfg \<Rightarrow> sb_state \<Rightarrow> sb_state \<Rightarrow> bool" where
  "same_view c s s' \<longleftrightarrow> (\<forall>u a. pending c (storeBuffer s') u a = pending c (storeBuffer s) u a) \<and>
     tags (storeBuffer s') = tags (storeBuffer s) \<and> goldenMem s' = goldenMem s"

lemma same_view_refl: "same_view c s s"
  by (simp add: same_view_def)

lemma flag_change:
  assumes "sb_ok c b" and "i < length (data_vec b)" and e: "e = (data_vec b ! i)\<lparr>sending := x, sb_request := r\<rparr>"
  shows "sb_ok c (set_entry i e b)" "pending c (set_entry i e b) u a = pending c b u a" "tags (set_entry i e b) = tags b"
proof -
  have same: "sb_tid e = sb_tid (data_vec b ! i)" "blockPaddr e = blockPaddr (data_vec b ! i)" "vice e = vice (data_vec b ! i)"
    by (simp_all add: e)
  note s = set_entry_same [OF same]
  have "entry_ok c e"
    using sb_okD(1) [OF assms(1)] assms(2) by (auto simp: e shape_ok_def entry_ok_def)
  then show "sb_ok c (set_entry i e b)"
    using set_entry_ok [OF assms(1) _ same] by blast
  have f: "blockVaddr ((data_vec b)[i := e] ! j) = blockVaddr (data_vec b ! j)"
    "entry_byte ((data_vec b)[i := e] ! j) k = entry_byte (data_vec b ! j) k" for j k
    using assms(2) by (cases "j = i"; simp add: e entry_byte_def)+
  then show "tags (set_entry i e b) = tags b"
    by (simp add: tags_def s)
  have "idx_byte (set_entry i e b) j k = idx_byte b j k" for j k
    by (simp add: idx_byte_def s(3) f split: option.split)
  then show "pending c (set_entry i e b) u a = pending c b u a"
    by (simp add: pending_def split: option.split)
qed

lemma requests_card:
  assumes "sb_ok c b"
  shows "finite {i. mapped b i \<and> P i}" "mapped b i \<Longrightarrow> \<not> P i \<Longrightarrow> card {i. mapped b i \<and> P i} < sbufferEntries c"
proof -
  have sub: "{i. mapped b i \<and> P i} \<subseteq> {..<sbufferEntries c}"
    using mapped_facts(1) [OF assms] by auto
  then show "finite {i. mapped b i \<and> P i}"
    by (rule finite_subset) simp
  assume i: "mapped b i" "\<not> P i"
  then have "i \<in> {..<sbufferEntries c}" "i \<notin> {i. mapped b i \<and> P i}"
    using mapped_facts(1) [OF assms i(1)] by auto
  with sub have "{i. mapped b i \<and> P i} \<subset> {..<sbufferEntries c}"
    by blast
  then show "card {i. mapped b i \<and> P i} < sbufferEntries c"
    using psubset_card_mono [of "{..<sbufferEntries c}"] by auto
qed

text \<open>The request of an entry is created, or its packet accepted.\<close>

definition with_request :: "nat \<Rightarrow> bool \<Rightarrow> store_buffer \<Rightarrow> store_buffer" where
  "with_request i x b = set_entry i ((data_vec b ! i)\<lparr>sending := x, sb_request :=
     Some \<lparr>rq_paddr = blockPaddr (data_vec b ! i), rq_byteEnable = validMask (data_vec b ! i), rq_outstanding = x\<rparr>\<rparr>) b"

lemma with_request_facts:
  assumes "sb_ok c b" and "mapped b i"
  shows "sb_ok c (with_request i x b)" "pending c (with_request i x b) u a = pending c b u a" "tags (with_request i x b) = tags b"
    "mapped (with_request i x b) j = mapped b j" "vice_of (with_request i x b) j v = vice_of b j v"
    "lru_index (with_request i x b) = lru_index b"
    "data_vec (with_request i x b) ! j = (if j = i then (data_vec b ! i)\<lparr>sending := x, sb_request :=
       Some \<lparr>rq_paddr = blockPaddr (data_vec b ! i), rq_byteEnable = validMask (data_vec b ! i), rq_outstanding = x\<rparr>\<rparr> else data_vec b ! j)"
    "with_request i x (with_request i y b) = with_request i x b"
proof -
  note l = mapped_facts(2) [OF assms]
  show "sb_ok c (with_request i x b)" "pending c (with_request i x b) u a = pending c b u a" "tags (with_request i x b) = tags b"
    unfolding with_request_def by (rule flag_change [OF assms(1) l refl])+
  show "mapped (with_request i x b) j = mapped b j" "vice_of (with_request i x b) j v = vice_of b j v"
    unfolding with_request_def by (rule set_entry_same; simp)+
  show "lru_index (with_request i x b) = lru_index b"
    by (simp add: with_request_def)
  show "data_vec (with_request i x b) ! j = (if j = i then (data_vec b ! i)\<lparr>sending := x, sb_request :=
       Some \<lparr>rq_paddr = blockPaddr (data_vec b ! i), rq_byteEnable = validMask (data_vec b ! i), rq_outstanding = x\<rparr>\<rparr> else data_vec b ! j)"
    using l by (simp add: with_request_def)
  show "with_request i x (with_request i y b) = with_request i x b"
    using l by (simp add: with_request_def set_entry_def)
qed

lemma requested_io:
  assumes "sb_ok c b" and "mapped b i" and "io_ok b blk" and "blk = None \<or> blk = Some i"
    and "\<not> (\<exists>v. vice_of b i v)" and "b' = (with_request i x b)\<lparr>lru_index := l\<rparr>" and "set l = set (lru_index b) - {i}"
  shows "io_ok b' (if x then None else Some i)"
    "num_requests b' u = num_requests b u + (if u = sb_tid (data_vec b ! i) \<and> sb_request (data_vec b ! i) = None then 1 else 0)"
proof -
  note w = with_request_facts [OF assms(1,2), of x]
  let ?r = "\<lparr>rq_paddr = blockPaddr (data_vec b ! i), rq_byteEnable = validMask (data_vec b ! i), rq_outstanding = x\<rparr>"
  have m: "mapped b' j = mapped b j" "vice_of b' j v = vice_of b j v" "lru_index b' = l" for j v
    using w(4,5) by (simp_all add: assms(6) mapped_def vice_of_def)
  have d: "sending (data_vec b' ! j) = (if j = i then x else sending (data_vec b ! j))"
    "sb_request (data_vec b' ! j) = (if j = i then Some ?r else sb_request (data_vec b ! j))"
    "blockPaddr (data_vec b' ! j) = blockPaddr (data_vec b ! j)" "validMask (data_vec b' ! j) = validMask (data_vec b ! j)"
    "sb_tid (data_vec b' ! j) = sb_tid (data_vec b ! j)" for j
    using w(7) by (simp_all add: assms(6))
  have nv: "\<not> vice_of b j i" for j
    using vice_facts(4) [OF assms(1), of j i] assms(2) by blast
  show "io_ok b' (if x then None else Some i)"
    unfolding io_ok_def m d
  proof (intro conjI allI impI)
    fix j v assume v: "vice_of b j v"
    then have "j \<noteq> i" "v \<noteq> i"
      using assms(5) nv by blast+
    then show "if j = i then x else sending (data_vec b ! j)" "\<not> (if v = i then x else sending (data_vec b ! v))"
      "(if v = i then Some ?r else sb_request (data_vec b ! v)) = None"
      using assms(3) v unfolding io_ok_def by simp_all
  next
    fix j assume j: "mapped b j"
    show "(j \<in> set l) = ((if j = i then Some ?r else sb_request (data_vec b ! j)) = None)"
      using io_okD(1) [OF assms(3) j] unfolding assms(7) by auto
    show "(if j = i then x else sending (data_vec b ! j)) =
        (\<exists>r. (if j = i then Some ?r else sb_request (data_vec b ! j)) = Some r \<and> rq_outstanding r)"
      using io_okD(2) [OF assms(3) j] by auto
  next
    fix j r assume j: "mapped b j" and "(if j = i then Some ?r else sb_request (data_vec b ! j)) = Some r"
    then show "rq_paddr r = blockPaddr (data_vec b ! j)" "rq_byteEnable r = validMask (data_vec b ! j)"
      "rq_outstanding r \<or> (if x then None else Some i) = Some j"
      using io_okD(3) [OF assms(3) j, of r] assms(4) by (auto split: if_splits)
  next
    fix j assume "(if x then None else Some i) = Some j"
    then show "mapped b j" "\<exists>r. (if j = i then Some ?r else sb_request (data_vec b ! j)) = Some r \<and> \<not> rq_outstanding r"
      using assms(2) by (auto split: if_splits)
  qed
  let ?S = "\<lambda>u. {j. mapped b j \<and> sb_tid (data_vec b ! j) = u \<and> sb_request (data_vec b ! j) \<noteq> None}"
  have "{j. mapped b' j \<and> sb_tid (data_vec b' ! j) = u \<and> sb_request (data_vec b' ! j) \<noteq> None} =
      (if u = sb_tid (data_vec b ! i) then insert i (?S u) else ?S u)"
    unfolding m d using assms(2) by (auto split: if_splits)
  then show "num_requests b' u = num_requests b u + (if u = sb_tid (data_vec b ! i) \<and> sb_request (data_vec b ! i) = None then 1 else 0)"
    using requests_card(1) [OF assms(1)] assms(2) by (simp add: num_requests_def card_insert_if)
qed

text \<open>An entry is sent or refused: the effect on the state, whether the entry waited in \<open>lru_index\<close> or
  was refused before.\<close>

definition requested :: "nat \<Rightarrow> bool \<Rightarrow> nat list \<Rightarrow> sb_state \<Rightarrow> sb_state" where
  "requested i accept l s =
     s\<lparr>storeBuffer := (with_request i accept (storeBuffer s))\<lparr>lru_index := l\<rparr>,
       blockedSbufferEntry := (if accept then None else Some i),
       dcacheWriteStall := (dcacheWriteStall s \<or> accept),
       storeBufferWritebackInactive := (if accept then 0 else storeBufferWritebackInactive s),
       numSBufferRequest := (numSBufferRequest s)(sb_tid (data_vec (storeBuffer s) ! i) :=
         numSBufferRequest s (sb_tid (data_vec (storeBuffer s) ! i)) +
         (if sb_request (data_vec (storeBuffer s) ! i) = None then 1 else 0))\<rparr>"

lemma requested_inv:
  assumes "sb_inv c s" and "mapped (storeBuffer s) i" and "blockedSbufferEntry s = None \<or> blockedSbufferEntry s = Some i"
    and "\<not> sending (data_vec (storeBuffer s) ! i)" and "distinct l" and "set l = set (lru_index (storeBuffer s)) - {i}"
  shows "sb_inv c (requested i accept l s)" "same_view c s (requested i accept l s)"
proof -
  let ?b = "storeBuffer s"
  let ?b' = "(with_request i accept ?b)\<lparr>lru_index := l\<rparr>"
  note ok = sb_invD [OF assms(1)]
  note w = with_request_facts [OF ok(1) assms(2), of accept]
  have l: "set l \<subseteq> set (lru_index (with_request i accept ?b))"
    using assms(6) by (simp add: w(6))
  note lr = lru_ok_cong [OF w(1) assms(5) l]
  have "\<not> (\<exists>v. vice_of ?b i v)"
    using io_okD(4) [OF ok(2) assms(2,4)] by (simp add: vice_of_def)
  from requested_io [OF ok(1) assms(2) ok(2) assms(3) this refl assms(6), of accept]
  show "sb_inv c (requested i accept l s)"
    using lr(1) ok(3) by (simp add: sb_inv_def requested_def)
  have "tags ?b' = tags (with_request i accept ?b)"
    by (simp add: tags_def)
  then show "same_view c s (requested i accept l s)"
    using lr(5) w(2,3) by (simp add: same_view_def requested_def)
qed

lemma not_sending_update: "\<not> sending e \<Longrightarrow> e\<lparr>sending := False, sb_request := r\<rparr> = e\<lparr>sb_request := r\<rparr>"
  by (cases e) simp

lemma update_order:
  "e\<lparr>sb_request := r, sending := x\<rparr> = e\<lparr>sending := x, sb_request := r\<rparr>"
  "b\<lparr>lru_index := l, data_vec := v\<rparr> = b\<lparr>data_vec := v, lru_index := l\<rparr>"
  by simp_all

lemma unrequested_facts:
  assumes "sb_inv c s" and "mapped (storeBuffer s) i" and "sb_request (data_vec (storeBuffer s) ! i) = None"
  shows "\<not> sending (data_vec (storeBuffer s) ! i)"
    "numSBufferRequest s (sb_tid (data_vec (storeBuffer s) ! i)) < sbufferEntries c"
proof -
  note ok = sb_invD [OF assms(1)]
  show "\<not> sending (data_vec (storeBuffer s) ! i)"
    using io_okD(2) [OF ok(2) assms(2)] assms(3) by simp
  show "numSBufferRequest s (sb_tid (data_vec (storeBuffer s) ! i)) < sbufferEntries c"
    using requests_card(2) [OF ok(1) assms(2), of "\<lambda>j. sb_tid (data_vec (storeBuffer s) ! j) = sb_tid (data_vec (storeBuffer s) ! i) \<and>
      sb_request (data_vec (storeBuffer s) ! j) \<noteq> None"] assms(3) by (simp add: ok(3) num_requests_def)
qed

lemma evict_entry_eq:
  assumes "sb_inv c s" and "lineBits c = 6" and "blockedSbufferEntry s = None" and "lru_index (storeBuffer s) \<noteq> []"
  shows "evict_entry c accept s = Some (requested (last (lru_index (storeBuffer s))) accept (butlast (lru_index (storeBuffer s))) s)"
    "mapped (storeBuffer s) (last (lru_index (storeBuffer s)))"
    "sb_request (data_vec (storeBuffer s) ! last (lru_index (storeBuffer s))) = None"
proof -
  let ?b = "storeBuffer s" and ?i = "last (lru_index (storeBuffer s))"
  note ok = sb_invD [OF assms(1)]
  have "?i \<in> set (lru_index ?b)"
    using assms(4) by simp
  then show i: "mapped ?b ?i" and r: "sb_request (data_vec ?b ! ?i) = None"
    using sb_okD(4) [OF ok(1)] io_okD(1) [OF ok(2)] by (auto simp: lru_ok_def)
  note f = mapped_facts [OF ok(1) i] and u = unrequested_facts [OF assms(1) i r]
  have "length (validMask (data_vec ?b ! ?i)) = 64"
    using f(5) assms(2) by (simp add: entry_ok_def cacheLineSize_def)
  then show "evict_entry c accept s = Some (requested ?i accept (butlast (lru_index ?b)) s)"
    using assms(3,4) f(2,3) r u
    by (simp add: evict_entry_def getEvict_def Let_def upd_entry_def sendPacketToCache_def after_send_def set_entry_def
      requested_def with_request_def not_sending_update update_order sb_state.equality)
qed

lemma evict_entry_ok:
  assumes "sb_inv c s" and "lineBits c = 6" and "blockedSbufferEntry s = None" and "lru_index (storeBuffer s) \<noteq> []"
  shows "\<exists>s'. evict_entry c accept s = Some s' \<and> sb_inv c s' \<and> same_view c s s'"
proof -
  note e = evict_entry_eq [OF assms]
  have "distinct (butlast (lru_index (storeBuffer s)))"
    "set (butlast (lru_index (storeBuffer s))) = set (lru_index (storeBuffer s)) - {last (lru_index (storeBuffer s))}"
    using butlast_facts [OF assms(4)] sb_okD(4) [OF sb_invD(1) [OF assms(1)]] by (auto simp: lru_ok_def)
  then show ?thesis
    using e(1) requested_inv [OF assms(1) e(2) disjI1 [OF assms(3)] unrequested_facts(1) [OF assms(1) e(2,3)]] by blast
qed

lemma retry_eq:
  assumes "sb_inv c s" and "lineBits c = 6" and "blockedSbufferEntry s = Some i"
  shows "retryBlockedStoreBuffer accept s = Some (True, if accept then requested i True (lru_index (storeBuffer s)) s else s)"
    "sb_inv c (requested i True (lru_index (storeBuffer s)) s)" "same_view c s (requested i True (lru_index (storeBuffer s)) s)"
proof -
  let ?b = "storeBuffer s"
  note ok = sb_invD [OF assms(1)]
  obtain r where i: "mapped ?b i" "sb_request (data_vec ?b ! i) = Some r" "\<not> rq_outstanding r"
    using ok(2) assms(3) unfolding io_ok_def by blast
  note f = mapped_facts [OF ok(1) i(1)] and io = io_okD [OF ok(2) i(1)]
  have r: "r\<lparr>rq_outstanding := True\<rparr> = \<lparr>rq_paddr = blockPaddr (data_vec ?b ! i), rq_byteEnable = validMask (data_vec ?b ! i), rq_outstanding = True\<rparr>"
    using io(3) [OF i(2)] by (cases r) simp
  have "length (validMask (data_vec ?b ! i)) = 64"
    using f(5) assms(2) by (simp add: entry_ok_def cacheLineSize_def)
  then show "retryBlockedStoreBuffer accept s = Some (True, if accept then requested i True (lru_index ?b) s else s)"
    using assms(3) i(2,3) f(2) r
    by (simp add: retryBlockedStoreBuffer_def sendPacketToCache_def after_send_def upd_entry_def set_entry_def requested_def with_request_def
      update_order sb_state.equality store_buffer.equality)
  have "\<not> sending (data_vec ?b ! i)" "set (lru_index ?b) = set (lru_index ?b) - {i}" "distinct (lru_index ?b)"
    using io(1,2) i(2,3) sb_okD(4) [OF ok(1)] by (auto simp: lru_ok_def)
  then show "sb_inv c (requested i True (lru_index ?b) s)" "same_view c s (requested i True (lru_index ?b) s)"
    using requested_inv [OF assms(1) i(1) disjI2 [OF assms(3)]] by blast+
qed

lemma retry_ok:
  assumes "sb_inv c s" and "lineBits c = 6"
  shows "\<exists>r s'. retryBlockedStoreBuffer accept s = Some (r, s') \<and> sb_inv c s' \<and> same_view c s s' \<and>
    (r \<longleftrightarrow> blockedSbufferEntry s \<noteq> None) \<and> (\<not> r \<longrightarrow> s' = s)"
proof (cases "blockedSbufferEntry s")
  case None
  then show ?thesis
    using assms(1) by (intro exI [of _ False] exI [of _ s]) (simp add: retryBlockedStoreBuffer_def same_view_refl)
next
  case (Some i)
  then show ?thesis
    using assms(1) retry_eq(1) [OF assms Some, of accept] retry_eq(2,3) [OF assms Some] by (intro exI [of _ True]) (simp add: same_view_refl)
qed

lemma storeBufferWriteback_ok:
  assumes "sb_inv c s" and "lineBits c = 6"
  shows "\<exists>s'. storeBufferWriteback c accept will_full s = Some s' \<and> sb_inv c s' \<and> same_view c s s'"
proof -
  note ok = sb_invD [OF assms(1)]
  have empty: "lru_index (storeBuffer s) = []" if "sb_size (storeBuffer s) = 0"
  proof -
    have "\<not> mapped (storeBuffer s) i" for i
      using that sb_okD(1) [OF ok(1)] free_length [OF ok(1), of i] by (auto simp: shape_ok_def)
    then show ?thesis
      using sb_okD(4) [OF ok(1)] unfolding lru_ok_def by (cases "lru_index (storeBuffer s)") auto
  qed
  define s1 where "s1 = (if storeBufferFlushing s \<and> sb_size (storeBuffer s) = 0 then s\<lparr>storeBufferFlushing := False\<rparr> else s)"
  have s1: "sb_inv c s1" "same_view c s s1" "\<And>x. same_view c s1 x = same_view c s x"
    using assms(1) by (simp_all add: s1_def sb_inv_def same_view_def)
  obtain r s2 where r: "retryBlockedStoreBuffer accept s1 = Some (r, s2)" "sb_inv c s2" "same_view c s1 s2"
    "r \<longleftrightarrow> blockedSbufferEntry s1 \<noteq> None" "\<not> r \<Longrightarrow> s2 = s1"
    using retry_ok [OF s1(1) assms(2), of accept] by blast
  have eq: "storeBufferWriteback c accept will_full s =
      (if dcacheWriteStall s1 then Some (s1\<lparr>dcacheWriteStall := False\<rparr>)
       else if r then Some s2
       else if lru_index (storeBuffer s1) = [] then Some s1
       else if evict_cause c will_full s1 = None
       then Some (s1\<lparr>storeBufferWritebackInactive := storeBufferWritebackInactive s1 + 1\<rparr>)
       else evict_entry c accept s1)"
    using empty r(1,5) unfolding storeBufferWriteback_def s1_def [symmetric] Let_def
    by (auto simp: unsentSize_def split: option.split bool.split)
  have "sb_inv c (s1\<lparr>dcacheWriteStall := False\<rparr>)" "same_view c s1 (s1\<lparr>dcacheWriteStall := False\<rparr>)"
    "sb_inv c (s1\<lparr>storeBufferWritebackInactive := storeBufferWritebackInactive s1 + 1\<rparr>)"
    "same_view c s1 (s1\<lparr>storeBufferWritebackInactive := storeBufferWritebackInactive s1 + 1\<rparr>)"
    using s1(1) by (simp_all add: sb_inv_def same_view_def)
  then show ?thesis
    unfolding eq using s1 r(2-4) evict_entry_ok [OF s1(1) assms(2), of accept] by auto
qed

section \<open>Completion\<close>

definition vice_byte :: "store_buffer \<Rightarrow> nat \<Rightarrow> nat \<Rightarrow> byte option" where
  "vice_byte b i k = (case vice (data_vec b ! i) of None \<Rightarrow> None | Some v \<Rightarrow> entry_byte (data_vec b ! v) k)"

lemma idx_byte_vice: "idx_byte b i k = over (vice_byte b i k) (entry_byte (data_vec b ! i) k)"
  by (simp add: idx_byte_def vice_byte_def)

lemma lookup_other:
  assumes "sb_ok c b" and "line_ok c" and "mapped b i" and "u < cacheLineSize c"
  shows "hashKey u (cacheBlock c a) = key_of (data_vec b ! i) \<longleftrightarrow> u = sb_tid (data_vec b ! i) \<and> cacheBlock c a = blockPaddr (data_vec b ! i)"
  using mapped_facts(6,7) [OF assms(1,3)] hashKey_inj [OF block_idem _ assms(4) _ assms(2), of _ _ a]
  by (simp add: key_of_def)

lemma released_requests:
  assumes "sb_ok c b" and "mapped b i" and "sb_request (data_vec b ! i) \<noteq> None" and "data_vec b' = data_vec b"
    and "\<And>j. mapped b' j \<and> sb_request (data_vec b ! j) \<noteq> None \<longleftrightarrow> mapped b j \<and> j \<noteq> i \<and> sb_request (data_vec b ! j) \<noteq> None"
  shows "num_requests b u = num_requests b' u + (if u = sb_tid (data_vec b ! i) then 1 else 0)"
proof -
  let ?S = "\<lambda>b u. {j. mapped b j \<and> sb_tid (data_vec b ! j) = u \<and> sb_request (data_vec b ! j) \<noteq> None}"
  have "?S b' u = ?S b u - {i}"
    using assms(5) unfolding assms(4) by auto
  moreover have "i \<in> ?S b u \<longleftrightarrow> u = sb_tid (data_vec b ! i)"
    using assms(2,3) by auto
  ultimately show ?thesis
    using requests_card(1) [OF assms(1), of "\<lambda>j. sb_tid (data_vec b ! j) = u \<and> sb_request (data_vec b ! j) \<noteq> None"]
      card.remove [of "?S b u" i] unfolding num_requests_def by (cases "u = sb_tid (data_vec b ! i)") simp_all
qed

lemma tags_mono:
  assumes "sb_ok c b" and "data_vec b' = data_vec b" and "data_vld b' = (data_vld b)[i := False]"
  shows "tags b' \<subseteq> tags b"
proof -
  have "data_vld b ! j" if "j < length (data_vec b)" "(data_vld b)[i := False] ! j" for j
    using that sb_okD(1) [OF assms(1)] by (cases "i = j") (simp_all add: shape_ok_def)
  then show ?thesis
    unfolding tags_def assms(2,3) by (intro image_mono) blast
qed

text \<open>The response releases the entry; what its vice holds stays pending.\<close>

definition shrunk :: "sb_cfg \<Rightarrow> nat \<Rightarrow> store_buffer \<Rightarrow> store_buffer \<Rightarrow> bool" where
  "shrunk c i b b' \<longleftrightarrow>
     (\<forall>u. num_requests b u = num_requests b' u + (if u = sb_tid (data_vec b ! i) then 1 else 0)) \<and> tags b' \<subseteq> tags b \<and>
     (\<forall>u<cacheLineSize c. \<forall>a. pending c b' u a =
        (if u = sb_tid (data_vec b ! i) \<and> cacheBlock c a = blockPaddr (data_vec b ! i)
         then vice_byte b i (cacheOffset c a) else pending c b u a))"

lemma release_alone:
  assumes "sb_ok c b" and "line_ok c" and "io_ok b blk" and i: "mapped b i" "sending (data_vec b ! i)" and v: "vice (data_vec b ! i) = None"
  shows "sb_release i b = Some (released_entry i b)" "sb_ok c (released_entry i b)" "io_ok (released_entry i b) blk"
    "shrunk c i b (released_entry i b)"
proof -
  note m = released_facts [OF assms(1) i(1)] and f = mapped_facts [OF assms(1) i(1)] and io = io_okD [OF assms(3) i(1)]
  have rq: "sb_request (data_vec b ! i) \<noteq> None" "blk \<noteq> Some i" "i \<notin> set (lru_index b)"
    using io(1,2) i(2) assms(3) unfolding io_ok_def by auto
  show "sb_release i b = Some (released_entry i b)" "sb_ok c (released_entry i b)"
    using release_eq(1) [OF assms(1) i(1) rq(3) v] released_ok [OF assms(1) i(1) v rq(3)] by blast+
  have "lru_index (released_entry i b) = lru_index b"
    by (simp add: released_entry_def)
  then show "io_ok (released_entry i b) blk"
    using assms(3) rq(2) unfolding io_ok_def m promoted_vec by auto
  have "num_requests b u = num_requests (released_entry i b) u + (if u = sb_tid (data_vec b ! i) then 1 else 0)" for u
    by (rule released_requests [OF assms(1) i(1) rq(1) promoted_vec(2)]) (auto simp: m)
  moreover have "tags (released_entry i b) \<subseteq> tags b"
    by (rule tags_mono [OF assms(1) promoted_vec(2)]) (simp add: released_entry_def)
  moreover have "pending c (released_entry i b) u a = (if u = sb_tid (data_vec b ! i) \<and> cacheBlock c a = blockPaddr (data_vec b ! i)
      then vice_byte b i (cacheOffset c a) else pending c b u a)" if "u < cacheLineSize c" for u a
    unfolding lookup_other [OF assms(1,2) i(1) that, symmetric] pending_def m(3)
    using v by (simp add: released_entry_def vice_byte_def)
  ultimately show "shrunk c i b (released_entry i b)"
    by (simp add: shrunk_def)
qed

lemma release_vice:
  assumes "sb_ok c b" and "line_ok c" and "io_ok b blk" and v: "vice_of b i v"
  shows "sb_release i b = Some (promoted i v b)" "sb_ok c (promoted i v b)" "io_ok (promoted i v b) blk"
    "shrunk c i b (promoted i v b)"
proof -
  note m = promoted_facts [OF assms(1,4)] and g = vice_facts [OF assms(1,4)]
  note f = mapped_facts [OF assms(1) g(9)] and io = io_okD [OF assms(3) g(9)]
  have snd: "sending (data_vec b ! i)" "\<not> sending (data_vec b ! v)" "sb_request (data_vec b ! v) = None"
    using assms(3) v by (simp_all add: io_ok_def)
  then have rq: "sb_request (data_vec b ! i) \<noteq> None" "blk \<noteq> Some i" "i \<notin> set (lru_index b)"
    using io(1,2) assms(3) unfolding io_ok_def by auto
  show "sb_release i b = Some (promoted i v b)" "sb_ok c (promoted i v b)"
    using release_eq(2) [OF assms(1) g(9) rq(3) v] promoted_ok [OF assms(1) v rq(3)] by blast+
  have l: "lru_index (promoted i v b) = v # lru_index b"
    by (simp add: promoted_def)
  show "io_ok (promoted i v b) blk"
    using assms(3) rq(2) snd(2,3) g(4) unfolding io_ok_def m promoted_vec l by auto
  have "num_requests b u = num_requests (promoted i v b) u + (if u = sb_tid (data_vec b ! i) then 1 else 0)" for u
    by (rule released_requests [OF assms(1) g(9) rq(1) promoted_vec(1)]) (use g(8) snd(3) in \<open>auto simp: m\<close>)
  moreover have "tags (promoted i v b) \<subseteq> tags b"
    by (rule tags_mono [OF assms(1) promoted_vec(1)]) (simp add: promoted_def released_entry_def)
  moreover have "pending c (promoted i v b) u a = (if u = sb_tid (data_vec b ! i) \<and> cacheBlock c a = blockPaddr (data_vec b ! i)
      then vice_byte b i (cacheOffset c a) else pending c b u a)" if "u < cacheLineSize c" for u a
    unfolding lookup_other [OF assms(1,2) g(9) that, symmetric] pending_def m(3)
    using v g(5) by (simp add: promoted_def released_entry_def vice_byte_def idx_byte_def vice_of_def)
  ultimately show "shrunk c i b (promoted i v b)"
    by (simp add: shrunk_def)
qed

lemma sb_release_ok:
  assumes "sb_ok c b" and "line_ok c" and "io_ok b blk" and "mapped b i" and "sending (data_vec b ! i)"
  shows "\<exists>b'. sb_release i b = Some b' \<and> sb_ok c b' \<and> io_ok b' blk \<and> shrunk c i b b'"
proof (cases "vice (data_vec b ! i)")
  case None
  then show ?thesis
    using release_alone [OF assms] by blast
next
  case (Some v)
  then have "vice_of b i v"
    using assms(4) by (simp add: vice_of_def)
  then show ?thesis
    using release_vice [OF assms(1-3)] by blast
qed

text \<open>The reference memory takes the valid bytes of the entry.\<close>

lemma store_byte_step:
  assumes "length ds < 2 ^ 64"
  shows "store_byte a (d # ds) (m # ms) x = (if x = a then if m then Some d else None else store_byte (a + 1) ds ms x)"
proof (cases "x = a")
  case False
  then have "x - a \<noteq> 0"
    by simp
  then have "unat (x - a) = Suc (unat (x - (a + 1)))"
    using unat_minus_one [of "x - a"] by (simp add: unat_gt_0 diff_diff_add)
  then show ?thesis
    using False by (simp add: store_byte_def Let_def)
qed (simp add: store_byte_def Let_def)

lemma updateGoldenMem_eq:
  "length ms = length ds \<Longrightarrow> length ds \<le> 2 ^ 64 \<Longrightarrow> (\<And>k. k < length ds \<Longrightarrow> inPmem c (a + of_nat k)) \<Longrightarrow>
   updateGoldenMem c a ds ms g = Some (\<lambda>x. the (over (store_byte a ds ms x) (Some (g x))))"
proof (induction c a ds ms g rule: updateGoldenMem.induct)
  case (1 c a d ds m ms g)
  have p: "inPmem c a"
    using "1.prems"(3) [of 0] by simp
  have q: "inPmem c (a + 1 + of_nat k)" if "k < length ds" for k
    using "1.prems"(3) [of "Suc k"] that by (simp add: ac_simps)
  have self: "store_byte (a + 1) ds ms a = None"
    using "1.prems"(2) by (simp add: store_byte_def Let_def unsigned_minus_1_eq_mask mask_eq_exp_minus_1)
  have st: "store_byte a (d # ds) (m # ms) x = (if x = a then if m then Some d else None else store_byte (a + 1) ds ms x)" for x
    by (rule store_byte_step) (use "1.prems"(2) in simp)
  define g' where "g' = (if m then g(a := d) else g)"
  have "updateGoldenMem c a (d # ds) (m # ms) g = updateGoldenMem c (a + 1) ds ms g'"
    using p by (simp add: g'_def)
  also have "\<dots> = Some (\<lambda>x. the (over (store_byte (a + 1) ds ms x) (Some (g' x))))"
    using "1.IH" "1.prems"(1,2) p q by (cases m) (simp_all add: g'_def fun_upd_def)
  also have "(\<lambda>x. the (over (store_byte (a + 1) ds ms x) (Some (g' x)))) =
      (\<lambda>x. the (over (store_byte a (d # ds) (m # ms) x) (Some (g x))))"
    by (rule ext) (simp add: st g'_def self)
  finally show ?case .
qed (auto simp: store_byte_def)

section \<open>The memory a thread sees\<close>

definition view :: "sb_cfg \<Rightarrow> sb_state \<Rightarrow> thread_id \<Rightarrow> addr \<Rightarrow> byte" where
  "view c s t a = (case pending c (storeBuffer s) t a of None \<Rightarrow> goldenMem s a | Some x \<Rightarrow> x)"

lemma view_over: "view c s t a = the (over (pending c (storeBuffer s) t a) (Some (goldenMem s a)))"
  by (simp add: view_def over_def split: option.split)

lemma block_aligned: "cacheOffset c (cacheBlock c a) = 0"
  by (simp add: cacheOffset_def cacheBlock_def and.assoc)

lemma block_in_pmem_all:
  assumes "line_ok c" and "cacheBlock c bp = bp" and "block_in_pmem c bp" and "k < cacheLineSize c"
  shows "inPmem c (bp + of_nat k)"
proof -
  have o: "cacheOffset c bp = 0"
    using assms(2) block_aligned [of c bp] by simp
  define n where "n = cacheLineSize c - 1"
  have n: "n < cacheLineSize c" "k \<le> n"
    using assms(4) by (auto simp: n_def)
  have "unat (bp + of_nat k) = unat bp + k" "unat (bp + of_nat n) = unat bp + n"
    using o n(1) assms(4) by (auto intro!: block_no_wrap [OF assms(1)])
  then show ?thesis
    using assms(3) n(2) unfolding block_in_pmem_def n_def [symmetric] by (auto simp: inPmem_def word_le_nat_alt)
qed

lemma entry_golden:
  assumes "line_ok c" and "entry_ok c e" and "cacheBlock c (blockPaddr e) = blockPaddr e" and "block_in_pmem c (blockPaddr e)"
  shows "updateGoldenMem c (blockPaddr e) (blockDatas e) (validMask e) g =
    Some (\<lambda>x. the (over (if cacheBlock c x = blockPaddr e then entry_byte e (cacheOffset c x) else None) (Some (g x))))"
proof -
  have len: "length (blockDatas e) = cacheLineSize c" "length (validMask e) = cacheLineSize c" "cacheLineSize c \<le> 2 ^ 64"
    using assms(1,2) power_increasing [of "lineBits c" 64 "2 :: nat"] by (simp_all add: entry_ok_def line_ok_def cacheLineSize_def)
  have off: "cacheOffset c (blockPaddr e) = 0"
    using assms(3) block_aligned [of c "blockPaddr e"] by simp
  have "store_byte (blockPaddr e) (blockDatas e) (validMask e) x =
      (if cacheBlock c x = blockPaddr e then entry_byte e (cacheOffset c x) else None)" for x
    using store_byte_offset [OF assms(1), of "blockPaddr e" "blockDatas e" "validMask e" x] assms(3) off len cacheOffset_less [of c x]
    by (simp add: access_byte_def entry_byte_def)
  then show ?thesis
    using updateGoldenMem_eq [of "validMask e" "blockDatas e" c "blockPaddr e" g] len block_in_pmem_all [OF assms(1,3,4)] by simp
qed

text \<open>A response moves the bytes of the entry to the memory; a thread with the byte pending, or a byte that
  the thread of the entry has not pending, is not affected.\<close>

lemma completeSbufferEvict_ok:
  assumes "sb_inv c s" and "line_ok c" and i: "mapped (storeBuffer s) i" "sending (data_vec (storeBuffer s) ! i)"
    and p: "block_in_pmem c (blockPaddr (data_vec (storeBuffer s) ! i))"
  shows "\<exists>s'. completeSbufferEvict c i s = Some s' \<and> sb_inv c s' \<and> tags (storeBuffer s') \<subseteq> tags (storeBuffer s) \<and>
    blockedSbufferEntry s' = blockedSbufferEntry s \<and>
    (\<forall>u<cacheLineSize c. \<forall>a. pending c (storeBuffer s) u a = None \<longrightarrow> pending c (storeBuffer s') u a = None) \<and>
    (\<forall>u<cacheLineSize c. \<forall>a. u = sb_tid (data_vec (storeBuffer s) ! i) \<or>
       pending c (storeBuffer s) (sb_tid (data_vec (storeBuffer s) ! i)) a = None \<longrightarrow> view c s' u a = view c s u a)"
proof -
  let ?b = "storeBuffer s" and ?e = "data_vec (storeBuffer s) ! i"
  note ok = sb_invD [OF assms(1)]
  note f = mapped_facts [OF ok(1) i(1)] and io = io_okD [OF ok(2) i(1)]
  obtain b' where b': "sb_release i ?b = Some b'" "sb_ok c b'" "io_ok b' (blockedSbufferEntry s)" "shrunk c i ?b b'"
    using sb_release_ok [OF ok(1) assms(2) ok(2) i] by blast
  obtain r where r: "sb_request ?e = Some r" "rq_outstanding r"
    using io(2) i(2) by blast
  have nz: "numSBufferRequest s (sb_tid ?e) = num_requests b' (sb_tid ?e) + 1"
    using b'(4) by (simp add: shrunk_def ok(3))
  have "inPmem c (blockPaddr ?e)"
    using p by (simp add: block_in_pmem_def)
  define g where "g = (\<lambda>x. the (over (if cacheBlock c x = blockPaddr ?e then entry_byte ?e (cacheOffset c x) else None) (Some (goldenMem s x))))"
  define s' where "s' = s\<lparr>storeBuffer := b', goldenMem := g,
    numSBufferRequest := (numSBufferRequest s)(sb_tid ?e := numSBufferRequest s (sb_tid ?e) - 1)\<rparr>"
  have "completeSbufferEvict c i s = Some s'"
    using r io(3) [OF r(1)] nz \<open>inPmem c _\<close> b'(1) entry_golden [OF assms(2) f(5,6) p]
    by (simp add: completeSbufferEvict_def Let_def s'_def g_def)
  moreover have "sb_inv c s'"
    using b'(2-4) ok(3) by (auto simp: sb_inv_def s'_def shrunk_def)
  moreover have pd: "pending c b' u a = (if u = sb_tid ?e \<and> cacheBlock c a = blockPaddr ?e
         then vice_byte ?b i (cacheOffset c a) else pending c ?b u a)" if "u < cacheLineSize c" for u a
    using b'(4) that by (simp add: shrunk_def)
  have own: "pending c ?b (sb_tid ?e) a = over (vice_byte ?b i (cacheOffset c a)) (entry_byte ?e (cacheOffset c a))"
    if "cacheBlock c a = blockPaddr ?e" for a
    using f(8) that by (simp add: pending_def key_of_def idx_byte_vice)
  have "pending c b' u a = None" if "u < cacheLineSize c" "pending c ?b u a = None" for u a
    using pd [OF that(1), of a] own [of a] that(2) by (auto simp: over_def split: option.splits if_splits)
  moreover have "view c s' u a = view c s u a"
    if "u < cacheLineSize c" "u = sb_tid ?e \<or> pending c ?b (sb_tid ?e) a = None" for u a
    using pd [OF that(1), of a] own [of a] that(2) unfolding view_over s'_def g_def
    by (auto simp: over_def split: option.splits if_splits)
  ultimately show ?thesis
    using b'(4) by (auto simp: s'_def shrunk_def)
qed

section \<open>Runs\<close>

definition cfg_ok :: "sb_cfg \<Rightarrow> bool" where
  "cfg_ok c \<longleftrightarrow> lineBits c = 6"

lemma cfg_okD: "cfg_ok c \<Longrightarrow> line_ok c \<and> lineBits c = 6"
  by (simp add: cfg_ok_def line_ok_def)

definition run_inv :: "sb_cfg \<Rightarrow> sb_state \<Rightarrow> bool" where
  "run_inv c s \<longleftrightarrow> sb_inv c s \<and> (\<forall>(t, bv, bp)\<in>tags (storeBuffer s). block_in_pmem c bp)"

lemma init_inv: "cfg_ok c \<Longrightarrow> run_inv c (sb_init c m) \<and> pending c (storeBuffer (sb_init c m)) t a = None \<and> view c (sb_init c m) t a = m a"
proof -
  have e: "entry_ok c (newStoreBufferEntry c)"
    by (simp add: entry_ok_def newStoreBufferEntry_def)
  have m: "\<not> mapped (sb_setData c) i" "\<not> vice_of (sb_setData c) i v" for i v
    by (simp_all add: mapped_def vice_of_def sb_setData_def)
  have "shape_ok c (sb_setData c)"
    using e by (auto simp: shape_ok_def sb_setData_def)
  moreover have "map_ok c (sb_setData c)" "vice_ok c (sb_setData c)" "lru_ok (sb_setData c)" "io_ok (sb_setData c) None"
    by (simp_all add: map_ok_def vice_ok_def lru_ok_def io_ok_def m) (simp_all add: sb_setData_def)
  moreover have "num_requests (sb_setData c) t = 0" for t
    by (simp add: num_requests_def m)
  moreover have "tags (sb_setData c) = {}"
    by (auto simp: tags_def sb_setData_def)
  moreover have p: "pending c (sb_setData c) t a = None"
    by (simp add: pending_def sb_setData_def)
  ultimately show ?thesis
    by (simp add: run_inv_def sb_inv_def sb_ok_def sb_init_def view_def)
qed

text \<open>The stores a thread had accepted, as the memory they leave.\<close>

definition apply_store :: "sb_store \<Rightarrow> (addr \<Rightarrow> byte) \<Rightarrow> addr \<Rightarrow> byte" where
  "apply_store st m a = (case st of (t, paddr, datas, bmask) \<Rightarrow> the (over (store_byte paddr datas bmask a) (Some (m a))))"

definition writes_byte :: "sb_store \<Rightarrow> addr \<Rightarrow> bool" where
  "writes_byte st a \<longleftrightarrow> (case st of (t, paddr, datas, bmask) \<Rightarrow> store_byte paddr datas bmask a \<noteq> None)"

text \<open>The byte \<open>a\<close> is one that only thread \<open>t\<close> stores to: no other thread has it pending.\<close>

definition owned :: "sb_cfg \<Rightarrow> sb_state \<Rightarrow> thread_id \<Rightarrow> addr \<Rightarrow> bool" where
  "owned c s t a \<longleftrightarrow> (\<forall>u<cacheLineSize c. u \<noteq> t \<longrightarrow> pending c (storeBuffer s) u a = None)"

definition step_ok :: "sb_cfg \<Rightarrow> sb_state \<Rightarrow> sb_store list \<Rightarrow> sb_state \<Rightarrow> bool" where
  "step_ok c s log s' \<longleftrightarrow> run_inv c s' \<and>
     (\<forall>t<cacheLineSize c. \<forall>a. (\<forall>st\<in>set log. writes_byte st a \<longrightarrow> fst st = t) \<longrightarrow> owned c s t a \<longrightarrow>
        owned c s' t a \<and> view c s' t a = fold apply_store log (view c s t) a)"

lemma same_view_step:
  assumes "run_inv c s" and "sb_inv c s'" and "same_view c s s'"
  shows "step_ok c s [] s'"
  using assms by (simp add: step_ok_def run_inv_def same_view_def owned_def view_over)

lemma store_step:
  assumes "run_inv c s" and "line_ok c" and "sb_env c (SBStore t va pa ds ms) s"
  shows "\<exists>ok s'. sb_step c (SBStore t va pa ds ms) s = Some (ok, s') \<and> step_ok c s (accepted (SBStore t va pa ds ms) ok) s'"
proof -
  let ?b = "storeBuffer s"
  have acc: "access_ok c t va pa ds ms" "block_in_pmem c (cacheBlock c pa)" "blockedSbufferEntry s = None"
    using assms(3) by (simp_all add: storeBufferBlocked_def)
  have inv: "sb_inv c s" and tg: "\<forall>(t, bv, bp)\<in>tags ?b. block_in_pmem c bp"
    using assms(1) by (simp_all add: run_inv_def)
  note ok = sb_invD [OF inv]
  have io: "io_ok ?b None"
    using ok(2) acc(3) by simp
  obtain r b' where r: "insertStoreBuffer c t va pa ds ms ?b = Some (r, b')" "sb_ok c b'" "io_ok b' None"
    "if r then grown c t va pa ds ms ?b b' else b' = ?b \<and> sb_full ?b"
    using insertStoreBuffer_ok [OF ok(1) assms(2) io acc(1)] by blast
  let ?s = "s\<lparr>storeBuffer := b'\<rparr>"
  have "step_ok c s (accepted (SBStore t va pa ds ms) r) ?s"
  proof (cases r)
    case False
    then show ?thesis
      using same_view_step [OF assms(1) inv same_view_refl] r(4) by simp
  next
    case True
    note g = r(4) [unfolded if_P [OF True] grown_def]
    have "run_inv c ?s"
      using r(2,3) g ok(3) tg acc(2,3) by (auto simp: run_inv_def sb_inv_def)
    moreover have "owned c ?s u a \<and> view c ?s u a = fold apply_store [(t, pa, ds, ms)] (view c s u) a"
      if "u < cacheLineSize c" "writes_byte (t, pa, ds, ms) a \<longrightarrow> t = u" "owned c s u a" for u a
    proof -
      have t: "store_byte pa ds ms a \<noteq> None \<Longrightarrow> t = u"
        using that(2) by (simp add: writes_byte_def)
      have p: "pending c b' v a = (if v = t then over (store_byte pa ds ms a) (pending c ?b v a) else pending c ?b v a)"
        if "v < cacheLineSize c" for v
        using g that by blast
      have "owned c ?s u a"
        using that(3) t p by (cases "store_byte pa ds ms a") (auto simp: owned_def)
      moreover have "view c ?s u a = fold apply_store [(t, pa, ds, ms)] (view c s u) a"
        using t p [OF that(1)] by (cases "store_byte pa ds ms a") (auto simp: view_over apply_store_def)
      ultimately show ?thesis ..
    qed
    ultimately show ?thesis
      using True by (auto simp: step_ok_def)
  qed
  then show ?thesis
    using r(1) by auto
qed

lemma response_step:
  assumes "run_inv c s" and "line_ok c" and "sb_env c (SBResponse i) s"
  shows "\<exists>s'. completeSbufferEvict c i s = Some s' \<and> step_ok c s [] s'"
proof -
  let ?b = "storeBuffer s"
  have inv: "sb_inv c s" and tg: "\<forall>(t, bv, bp)\<in>tags ?b. block_in_pmem c bp"
    using assms(1) by (simp_all add: run_inv_def)
  note ok = sb_invD [OF inv]
  obtain r where i: "i < length (data_vec ?b)" "data_vld ?b ! i" "sb_request (data_vec ?b ! i) = Some r" "rq_outstanding r"
    using assms(3) by (auto split: option.splits)
  have "i < sbufferEntries c"
    using i(1) sb_okD(1) [OF ok(1)] by (simp add: shape_ok_def)
  then have "mapped ?b i \<or> (\<exists>j. vice_of ?b j i)"
    using sb_okD(2) [OF ok(1)] i(2) by (simp add: map_ok_def)
  moreover have "\<not> vice_of ?b j i" for j
    using ok(2) i(3) by (auto simp: io_ok_def)
  ultimately have m: "mapped ?b i"
    by blast
  have snd: "sending (data_vec ?b ! i)"
    using io_okD(2) [OF ok(2) m] i(3,4) by simp
  have p: "block_in_pmem c (blockPaddr (data_vec ?b ! i))"
    using tg i(1,2) by (auto simp: tags_def)
  obtain s' where s': "completeSbufferEvict c i s = Some s'" "sb_inv c s'" "tags (storeBuffer s') \<subseteq> tags ?b"
    "\<forall>u<cacheLineSize c. \<forall>a. pending c ?b u a = None \<longrightarrow> pending c (storeBuffer s') u a = None"
    "\<forall>u<cacheLineSize c. \<forall>a. u = sb_tid (data_vec ?b ! i) \<or> pending c ?b (sb_tid (data_vec ?b ! i)) a = None \<longrightarrow>
       view c s' u a = view c s u a"
    using completeSbufferEvict_ok [OF inv assms(2) m snd p] by (elim exE conjE) (rule that)
  have "run_inv c s'"
    using s'(2,3) tg by (auto simp: run_inv_def)
  moreover have "owned c s' t a \<and> view c s' t a = view c s t a" if "t < cacheLineSize c" "owned c s t a" for t a
  proof
    show "owned c s' t a"
      using that(2) s'(4) by (simp add: owned_def)
    have "t = sb_tid (data_vec ?b ! i) \<or> pending c ?b (sb_tid (data_vec ?b ! i)) a = None"
      using that(2) mapped_facts(7) [OF ok(1) m] by (auto simp: owned_def)
    then show "view c s' t a = view c s t a"
      by (rule s'(5) [rule_format, OF that(1)])
  qed
  ultimately show ?thesis
    using s'(1) by (simp add: step_ok_def)
qed

lemma sb_step_ok:
  assumes "run_inv c s" and "cfg_ok c" and "sb_env c ev s"
  shows "\<exists>ok s'. sb_step c ev s = Some (ok, s') \<and> step_ok c s (accepted ev ok) s'"
proof -
  have c: "line_ok c" "lineBits c = 6" and inv: "sb_inv c s"
    using cfg_okD [OF assms(2)] assms(1) by (simp_all add: run_inv_def)
  show ?thesis
  proof (cases ev)
    case (SBStore t va pa ds ms)
    then show ?thesis
      using store_step [OF assms(1) c(1)] assms(3) by blast
  next
    case (SBWriteback accept will_full)
    then show ?thesis
      using storeBufferWriteback_ok [OF inv c(2), of accept will_full] same_view_step [OF assms(1)] by auto
  next
    case (SBRetry accept)
    obtain r s' where r: "retryBlockedStoreBuffer accept s = Some (r, s')" "sb_inv c s'" "same_view c s s'"
      using retry_ok [OF inv c(2), of accept] by blast
    then show ?thesis
      using SBRetry same_view_step [OF assms(1) r(2,3)] by simp
  next
    case (SBResponse i)
    obtain s' where "completeSbufferEvict c i s = Some s'" "step_ok c s [] s'"
      using response_step [OF assms(1) c(1) assms(3) [unfolded SBResponse]] by blast
    then show ?thesis
      using SBResponse by auto
  next
    case SBFlush
    have "sb_inv c (flushStores s)" "same_view c s (flushStores s)"
      using inv by (simp_all add: sb_inv_def same_view_def flushStores_def)
    then show ?thesis
      using SBFlush same_view_step [OF assms(1)] by auto
  qed
qed

lemma fold_local: "f a = g a \<Longrightarrow> fold apply_store l f a = fold apply_store l g a"
proof (induction l arbitrary: f g)
  case (Cons st l)
  have "apply_store st f a = apply_store st g a"
    using Cons.prems by (simp add: apply_store_def split: prod.split)
  then show ?case
    unfolding fold.simps comp_apply by (rule Cons.IH)
qed simp

lemma step_okD:
  assumes "step_ok c s log s'" and "t < cacheLineSize c" and "\<forall>st\<in>set log. writes_byte st a \<longrightarrow> fst st = t" and "owned c s t a"
  shows "owned c s' t a" "view c s' t a = fold apply_store log (view c s t) a"
  using assms unfolding step_ok_def by blast+

lemma step_ok_trans:
  assumes "step_ok c s l1 s1" and "step_ok c s1 l2 s2"
  shows "step_ok c s (l1 @ l2) s2"
proof -
  have "owned c s2 t a \<and> view c s2 t a = fold apply_store (l1 @ l2) (view c s t) a"
    if t: "t < cacheLineSize c" "\<forall>st\<in>set (l1 @ l2). writes_byte st a \<longrightarrow> fst st = t" "owned c s t a" for t a
  proof -
    note 1 = step_okD [OF assms(1) t(1) _ t(3)]
    have s1: "owned c s1 t a" "view c s1 t a = fold apply_store l1 (view c s t) a"
      using 1 t(2) by auto
    then show ?thesis
      using step_okD [OF assms(2) t(1) _ s1(1)] t(2) 
        fold_local [of "view c s1 t" a "fold apply_store l1 (view c s t)" l2] s1(2) by auto
  qed
  then show ?thesis
    using assms(2) by (simp add: step_ok_def)
qed

lemma sb_run_ok:
  assumes "run_inv c s" and "cfg_ok c"
  shows "\<exists>log s'. sb_run c evs s = Some (log, s') \<and> step_ok c s log s'"
  using assms(1)
proof (induction evs arbitrary: s)
  case Nil
  then show ?case
    by (simp add: step_ok_def)
next
  case (Cons ev evs)
  show ?case
  proof (cases "sb_env c ev s")
    case True
    obtain ok s1 where 1: "sb_step c ev s = Some (ok, s1)" "step_ok c s (accepted ev ok) s1"
      using sb_step_ok [OF Cons.prems assms(2) True] by blast
    obtain log s2 where 2: "sb_run c evs s1 = Some (log, s2)" "step_ok c s1 log s2"
      using Cons.IH [of s1] 1(2) by (auto simp: step_ok_def)
    then show ?thesis
      using True 1 step_ok_trans [OF 1(2) 2(2)] by simp
  qed (use Cons in simp)
qed

end
