(* ===== verification/StoreBufferLoad.thy ===== *)
theory StoreBufferLoad
  imports StoreBufferRun
begin

text \<open>
  Loads that read the store buffer, the main properties of its runs, and flushing.
\<close>

section \<open>Forwarding\<close>

text \<open>The byte an entry and its vice forward.\<close>

definition fwd_byte :: "sb_entry \<Rightarrow> sb_entry option \<Rightarrow> nat \<Rightarrow> byte option" where
  "fwd_byte e v k = over (case v of None \<Rightarrow> None | Some w \<Rightarrow> entry_byte w k) (entry_byte e k)"

text \<open>\<open>v\<close> holds the data of the same virtual block.\<close>

definition same_block :: "sb_entry \<Rightarrow> sb_entry option \<Rightarrow> bool" where
  "same_block e v \<longleftrightarrow> (case v of None \<Rightarrow> True | Some w \<Rightarrow> blockVaddr w = blockVaddr e)"

definition forwards :: "nat \<Rightarrow> nat \<Rightarrow> (nat \<Rightarrow> byte option) \<Rightarrow> byte list \<Rightarrow> byte list" where
  "forwards g n f mem = map (\<lambda>j. if g \<le> j \<and> j < g + n then the (over (f (j - g)) (Some (mem ! j))) else mem ! j) [0..<length mem]"

lemma forwards_length [simp]: "length (forwards g n f mem) = length mem"
  by (simp add: forwards_def)

lemma forwards_append:
  assumes "g + n + k \<le> length mem"
  shows "forwards (g + n) k f' (forwards g n f mem) = forwards g (n + k) (\<lambda>j. if j < n then f j else f' (j - n)) mem"
  using assms by (auto simp: forwards_def diff_diff_add intro!: nth_equalityI)

lemma forwards_cong:
  assumes "\<And>j. j < n \<Longrightarrow> f j = f' j"
  shows "forwards g n f mem = forwards g n f' mem"
  using assms by (auto simp: forwards_def intro!: nth_equalityI)

lemma forwards_none: "g + n \<le> length mem \<Longrightarrow> \<forall>j<n. f j = None \<Longrightarrow> forwards g n f mem = mem"
  by (auto simp: forwards_def intro!: nth_equalityI)

lemma forward_loop_ok:
  "off + n \<le> length (validMask e) \<Longrightarrow> g + n \<le> lsz \<Longrightarrow> same_block e v \<Longrightarrow>
   \<exists>ps. forward_loop e v off g lsz n = Some (ps, \<forall>k<n. fwd_byte e v (off + k) \<noteq> None) \<and>
     (\<forall>mem. g + n \<le> length mem \<longrightarrow> forward_bytes ps mem = forwards g n (\<lambda>k. fwd_byte e v (off + k)) mem)"
proof (induction n arbitrary: off g)
  case 0
  then show ?case
    by (auto simp: forwards_def intro!: nth_equalityI)
next
  case (Suc n)
  obtain ps where ps: "forward_loop e v (Suc off) (Suc g) lsz n = Some (ps, \<forall>k<n. fwd_byte e v (Suc off + k) \<noteq> None)"
    "\<And>mem. Suc g + n \<le> length mem \<Longrightarrow> forward_bytes ps mem = forwards (Suc g) n (\<lambda>k. fwd_byte e v (Suc off + k)) mem"
    using Suc.IH [of "Suc off" "Suc g"] Suc.prems by auto
  let ?f = "fwd_byte e v off"
  let ?ps = "case ?f of None \<Rightarrow> ps | Some x \<Rightarrow> (g, x) # ps"
  have all: "(\<forall>k<Suc n. fwd_byte e v (off + k) \<noteq> None) \<longleftrightarrow> ?f \<noteq> None \<and> (\<forall>k<n. fwd_byte e v (Suc off + k) \<noteq> None)"
    by (auto simp: less_Suc_eq_0_disj)
  have "forward_loop e v off g lsz (Suc n) = Some (?ps, \<forall>k<Suc n. fwd_byte e v (off + k) \<noteq> None)"
    unfolding all using Suc.prems ps(1)
    by (auto simp: fwd_byte_def entry_byte_def same_block_def split: option.split)
  moreover have "forward_bytes ?ps mem = forwards g (Suc n) (\<lambda>k. fwd_byte e v (off + k)) mem" if "g + Suc n \<le> length mem" for mem
  proof -
    define mem' where "mem' = (case ?f of None \<Rightarrow> mem | Some x \<Rightarrow> mem[g := x])"
    have "forward_bytes ?ps mem = forward_bytes ps mem'"
      by (simp add: mem'_def split: option.split)
    also have "\<dots> = forwards (Suc g) n (\<lambda>k. fwd_byte e v (Suc off + k)) mem'"
      using that by (intro ps(2)) (simp add: mem'_def split: option.split)
    also have "\<dots> = forwards g (Suc n) (\<lambda>k. fwd_byte e v (off + k)) mem"
    proof (rule nth_equalityI)
      fix j assume "j < length (forwards (Suc g) n (\<lambda>k. fwd_byte e v (Suc off + k)) mem')"
      then have j: "j < length mem"
        by (simp add: forwards_def mem'_def split: option.splits)
      consider "j = g" | "Suc g \<le> j" "Suc off + (j - Suc g) = off + (j - g)" | "j < g"
        by linarith
      then show "forwards (Suc g) n (\<lambda>k. fwd_byte e v (Suc off + k)) mem' ! j = forwards g (Suc n) (\<lambda>k. fwd_byte e v (off + k)) mem ! j"
        using j by cases (simp_all add: forwards_def mem'_def split: option.split)
    qed (simp add: forwards_def mem'_def split: option.split)
    finally show ?thesis .
  qed
  ultimately show ?case
    by blast
qed

text \<open>No vice has another virtual block than its entry: the stores in the buffer use no virtual aliases.\<close>

definition alias_free :: "store_buffer \<Rightarrow> bool" where
  "alias_free b \<longleftrightarrow> (\<forall>i<length (data_vec b). data_vld b ! i \<longrightarrow>
     (case vice (data_vec b ! i) of None \<Rightarrow> True | Some v \<Rightarrow> blockVaddr (data_vec b ! v) = blockVaddr (data_vec b ! i)))"

text \<open>What the buffer forwards to a range of a load: the range lies in one block and has offset \<open>g\<close> in the load.\<close>

lemma range_forward:
  assumes "sb_ok c b" and "line_ok c" and "alias_free b" and "t < cacheLineSize c" and "cacheOffset c p + n \<le> cacheLineSize c"
    and "g + n \<le> lsz" and "0 < g \<longrightarrow> cacheOffset c p = 0"
  shows "case data_map b (hashKey t (cacheBlock c p)) of
      None \<Rightarrow> sb_get t (cacheBlock c p) b = Some None \<and> (\<forall>k<n. pending c b t (p + of_nat k) = None)
    | Some i \<Rightarrow> sb_get t (cacheBlock c p) b = Some (Some i) \<and>
        (\<exists>ps. recordForward c i p n g lsz b = Some (ps, \<forall>k<n. pending c b t (p + of_nat k) \<noteq> None) \<and>
           (\<forall>mem. g + n \<le> length mem \<longrightarrow> forward_bytes ps mem = forwards g n (\<lambda>k. pending c b t (p + of_nat k)) mem))"
proof -
  have in_b: "cacheBlock c (p + of_nat k) = cacheBlock c p" "cacheOffset c (p + of_nat k) = cacheOffset c p + k" if "k < n" for k
    using in_block [OF assms(2), of p k] that assms(5) by simp_all
  show ?thesis
  proof (cases "data_map b (hashKey t (cacheBlock c p))")
    case None
    then show ?thesis
      using in_b by (simp add: pending_def sb_get_def)
  next
    case (Some i)
    note m = lookup_mapped(1) [OF assms(1) Some]
    note f = mapped_facts [OF assms(1) m]
    let ?e = "data_vec b ! i"
    let ?v = "map_option ((!) (data_vec b)) (vice ?e)"
    have t: "sb_tid ?e = t"
      using lookup_iff [OF assms(1,2) m assms(4) block_idem, of p] Some by simp
    have "same_block ?e ?v"
      using assms(3) f(2,3) by (auto simp: alias_free_def same_block_def split: option.splits)
    moreover have "cacheOffset c p + n \<le> length (validMask ?e)"
      using f(5) assms(5) by (simp add: entry_ok_def)
    ultimately obtain ps where
      ps: "forward_loop ?e ?v (cacheOffset c p) g lsz n = Some (ps, \<forall>k<n. fwd_byte ?e ?v (cacheOffset c p + k) \<noteq> None)"
      "\<And>mem. g + n \<le> length mem \<Longrightarrow> forward_bytes ps mem = forwards g n (\<lambda>k. fwd_byte ?e ?v (cacheOffset c p + k)) mem"
      using forward_loop_ok [of "cacheOffset c p" n ?e g lsz ?v] assms(6) by auto
    have byte: "pending c b t (p + of_nat k) = fwd_byte ?e ?v (cacheOffset c p + k)" if "k < n" for k
      using in_b [OF that] Some by (simp add: pending_def fwd_byte_def idx_byte_def split: option.split)
    then have "(\<forall>k<n. fwd_byte ?e ?v (cacheOffset c p + k) \<noteq> None) \<longleftrightarrow> (\<forall>k<n. pending c b t (p + of_nat k) \<noteq> None)"
      by simp
    moreover have "forward_bytes ps mem = forwards g n (\<lambda>k. pending c b t (p + of_nat k)) mem" if "g + n \<le> length mem" for mem
      unfolding ps(2) [OF that] by (rule forwards_cong) (simp add: byte)
    ultimately show ?thesis
      using Some f(3) t ps(1) assms(7) by (auto simp: sb_get_def recordForward_def Let_def)
  qed
qed

lemma sb_read_ok:
  assumes "sb_ok c b" and "line_ok c" and "alias_free b" and "t < cacheLineSize c" and "cacheOffset c p + length mem \<le> cacheLineSize c"
  shows "sb_read c t p mem b = Some (map (\<lambda>k. the (over (pending c b t (p + of_nat k)) (Some (mem ! k)))) [0..<length mem],
    data_map b (hashKey t (cacheBlock c p)) \<noteq> None \<and> (\<forall>k<length mem. pending c b t (p + of_nat k) \<noteq> None))"
proof -
  note r = range_forward [OF assms, of 0 "length mem"]
  show ?thesis
  proof (cases "data_map b (hashKey t (cacheBlock c p))")
    case None
    then have "map (\<lambda>k. the (over (pending c b t (p + of_nat k)) (Some (mem ! k)))) [0..<length mem] = mem"
      using r by (auto intro!: nth_equalityI)
    then show ?thesis
      using None r by (simp add: sb_read_def)
  next
    case (Some i)
    then obtain ps where "sb_get t (cacheBlock c p) b = Some (Some i)"
      "recordForward c i p (length mem) 0 (length mem) b = Some (ps, \<forall>k<length mem. pending c b t (p + of_nat k) \<noteq> None)"
      "forward_bytes ps mem = forwards 0 (length mem) (\<lambda>k. pending c b t (p + of_nat k)) mem"
      using r by auto
    then show ?thesis
      using Some by (simp add: sb_read_def forwards_def)
  qed
qed

section \<open>Flushing\<close>

text \<open>What is left to do before the buffer is empty.\<close>

definition drain_work :: "sb_state \<Rightarrow> nat" where
  "drain_work s = 4 * sb_size (storeBuffer s) +
     2 * (length (lru_index (storeBuffer s)) + (if storeBufferBlocked s then 1 else 0)) + (if dcacheWriteStall s then 1 else 0)"

definition drain_event :: "sb_event \<Rightarrow> bool" where
  "drain_event ev \<longleftrightarrow> (case ev of SBWriteback accept will_full \<Rightarrow> accept | SBResponse i \<Rightarrow> True | _ \<Rightarrow> False)"

lemma requested_work:
  "drain_work (requested i True l s) = 4 * sb_size (storeBuffer s) + 2 * length l + 1"
  "storeBufferFlushing (requested i True l s) = storeBufferFlushing s" "sb_size (storeBuffer (requested i True l s)) = sb_size (storeBuffer s)"
  by (simp_all add: drain_work_def requested_def with_request_def storeBufferBlocked_def)

lemma writeback_drains:
  assumes "sb_inv c s" and "lineBits c = 6" and "storeBufferFlushing s" and "sb_size (storeBuffer s) \<noteq> 0"
    and "dcacheWriteStall s \<or> storeBufferBlocked s \<or> lru_index (storeBuffer s) \<noteq> []"
  shows "\<exists>s'. storeBufferWriteback c True w s = Some s' \<and> drain_work s' < drain_work s \<and> storeBufferFlushing s'"
proof -
  consider "dcacheWriteStall s" | i where "\<not> dcacheWriteStall s" "blockedSbufferEntry s = Some i"
    | "\<not> dcacheWriteStall s" "blockedSbufferEntry s = None" "lru_index (storeBuffer s) \<noteq> []"
    using assms(5) by (auto simp: storeBufferBlocked_def)
  then show ?thesis
  proof cases
    case 1
    then show ?thesis
      using assms(3,4) by (simp add: storeBufferWriteback_def Let_def drain_work_def storeBufferBlocked_def)
  next
    case 2
    then have "storeBufferWriteback c True w s = Some (requested i True (lru_index (storeBuffer s)) s)"
      using assms(4) retry_eq(1) [OF assms(1,2) 2(2), of True] by (simp add: storeBufferWriteback_def Let_def)
    then show ?thesis
      using 2 assms(3) by (simp add: requested_work) (simp add: drain_work_def storeBufferBlocked_def)
  next
    case 3
    have "evict_cause c w s \<noteq> None"
      using assms(3) by (simp add: evict_cause_def)
    then have "storeBufferWriteback c True w s =
        Some (requested (last (lru_index (storeBuffer s))) True (butlast (lru_index (storeBuffer s))) s)"
      using 3 assms(4) evict_entry_eq(1) [OF assms(1,2) 3(2,3), of True]
      by (auto simp: storeBufferWriteback_def Let_def retryBlockedStoreBuffer_def unsentSize_def)
    moreover have "length (lru_index (storeBuffer s)) = Suc (length (butlast (lru_index (storeBuffer s))))"
      using 3(3) by (cases "lru_index (storeBuffer s)" rule: rev_cases) auto
    ultimately show ?thesis
      using assms(3) by (simp add: requested_work) (simp add: drain_work_def)
  qed
qed

lemma response_drains:
  assumes "completeSbufferEvict c i s = Some s'"
  shows "drain_work s' < drain_work s" "storeBufferFlushing s' = storeBufferFlushing s"
proof -
  obtain b n g where s': "sb_release i (storeBuffer s) = Some b" "s' = s\<lparr>storeBuffer := b, goldenMem := g, numSBufferRequest := n\<rparr>"
    using assms by (auto simp: completeSbufferEvict_def Let_def split: option.splits if_splits)
  have "sb_size b + 1 = sb_size (storeBuffer s)" "length (lru_index b) \<le> Suc (length (lru_index (storeBuffer s)))"
    using s'(1) by (auto simp: sb_release_def Let_def lru_push_front_def map_insert_def free_push_back_def split: option.splits if_splits)
  then show "drain_work s' < drain_work s" "storeBufferFlushing s' = storeBufferFlushing s"
    by (simp_all add: s'(2) drain_work_def storeBufferBlocked_def)
qed

text \<open>An entry that waits for the response, when nothing else is left to do.\<close>

lemma response_expected:
  assumes "sb_inv c s" and "sb_size (storeBuffer s) \<noteq> 0" and "blockedSbufferEntry s = None" and "lru_index (storeBuffer s) = []"
  shows "\<exists>i. sb_env c (SBResponse i) s"
proof -
  let ?b = "storeBuffer s"
  note ok = sb_invD [OF assms(1)]
  have "distinct (free_list ?b)" "length (free_list ?b) < sbufferEntries c"
    using sb_okD(1) [OF ok(1)] assms(2) by (auto simp: shape_ok_def)
  then have "card (set (free_list ?b)) \<noteq> sbufferEntries c"
    by (simp add: distinct_card)
  then have "set (free_list ?b) \<noteq> {..<sbufferEntries c}"
    by (metis card_lessThan)
  then obtain j where j: "j < sbufferEntries c" "data_vld ?b ! j"
    using sb_okD(1) [OF ok(1)] by (auto simp: shape_ok_def)
  then obtain i where i: "mapped ?b i"
    using sb_okD(2) [OF ok(1)] unfolding map_ok_def vice_of_def by blast
  note f = mapped_facts [OF ok(1) i] and io = io_okD [OF ok(2) i]
  obtain r where "sb_request (data_vec ?b ! i) = Some r"
    using io(1) assms(4) by auto
  then have "sb_env c (SBResponse i) s"
    using io(3) f(2,3) assms(3) by simp
  then show ?thesis ..
qed

lemma drain_step:
  assumes "run_inv c s" and "cfg_ok c" and "storeBufferFlushing s" and "sb_size (storeBuffer s) \<noteq> 0"
  shows "\<exists>ev s'. drain_event ev \<and> sb_env c ev s \<and> sb_step c ev s = Some (True, s') \<and> accepted ev True = [] \<and>
    step_ok c s [] s' \<and> drain_work s' < drain_work s \<and> storeBufferFlushing s'"
proof (cases "dcacheWriteStall s \<or> storeBufferBlocked s \<or> lru_index (storeBuffer s) \<noteq> []")
  case True
  have "sb_inv c s"
    using assms(1) by (simp add: run_inv_def)
  then obtain s' where s': "storeBufferWriteback c True False s = Some s'" "drain_work s' < drain_work s" "storeBufferFlushing s'"
    using writeback_drains [OF _ _ assms(3,4) True] cfg_okD [OF assms(2)] by blast
  moreover have "step_ok c s [] s'"
    using sb_step_ok [OF assms(1,2), of "SBWriteback True False"] s'(1) by simp
  ultimately show ?thesis
    by (intro exI [of _ "SBWriteback True False"] exI [of _ s']) (simp add: drain_event_def)
next
  case False
  then obtain i where i: "sb_env c (SBResponse i) s"
    using response_expected [of c s] assms(1,4) by (auto simp: run_inv_def storeBufferBlocked_def)
  obtain s' where s': "completeSbufferEvict c i s = Some s'" "step_ok c s [] s'"
    using response_step [OF assms(1) _ i] cfg_okD [OF assms(2)] by blast
  then show ?thesis
    using i response_drains [OF s'(1)] assms(3)
    by (intro exI [of _ "SBResponse i"] exI [of _ s']) (simp add: drain_event_def)
qed

lemma drain_ok:
  assumes "run_inv c s" and "cfg_ok c" and "storeBufferFlushing s"
  shows "\<exists>evs s'. (\<forall>ev\<in>set evs. drain_event ev) \<and> length evs \<le> drain_work s \<and> sb_run c evs s = Some ([], s') \<and>
    storeBufferEmpty s' \<and> step_ok c s [] s'"
  using assms(1,3)
proof (induction "drain_work s" arbitrary: s rule: less_induct)
  case less
  show ?case
  proof (cases "sb_size (storeBuffer s) = 0")
    case True
    then show ?thesis
      using less.prems(1) by (intro exI [of _ "[]"] exI [of _ s]) (simp add: storeBufferEmpty_def step_ok_def)
  next
    case False
    obtain ev s1 where 1: "drain_event ev" "sb_env c ev s" "sb_step c ev s = Some (True, s1)" "accepted ev True = []"
      "step_ok c s [] s1" "drain_work s1 < drain_work s" "storeBufferFlushing s1"
      using drain_step [OF less.prems(1) assms(2) less.prems(2) False] by blast
    then obtain evs s' where 2: "\<forall>ev\<in>set evs. drain_event ev" "length evs \<le> drain_work s1" "sb_run c evs s1 = Some ([], s')"
      "storeBufferEmpty s'" "step_ok c s1 [] s'"
      using less.hyps [of s1] by (auto simp: step_ok_def)
    show ?thesis
      using 1 2 step_ok_trans [OF 1(5) 2(5)] by (intro exI [of _ "ev # evs"] exI [of _ s']) simp
  qed
qed

lemma drain_work_bound: "sb_inv c s \<Longrightarrow> drain_work s \<le> 6 * sbufferEntries c + 3"
  using lru_length [of c "storeBuffer s"] by (auto simp: drain_work_def sb_inv_def sb_ok_def shape_ok_def)

lemma empty_view:
  assumes "sb_inv c s" and "storeBufferEmpty s"
  shows "view c s t a = goldenMem s a"
proof -
  have "\<not> mapped (storeBuffer s) i" for i
    using free_length [OF sb_invD(1) [OF assms(1)], of i] sb_okD(1) [OF sb_invD(1) [OF assms(1)]] assms(2)
    by (auto simp: shape_ok_def storeBufferEmpty_def)
  then have "data_map (storeBuffer s) k = None" for k
    using lookup_mapped(1) [OF sb_invD(1) [OF assms(1)], of k] by (cases "data_map (storeBuffer s) k") auto
  then show ?thesis
    by (simp add: view_def pending_def)
qed

section \<open>Properties\<close>

definition only_writer :: "thread_id \<Rightarrow> sb_store list \<Rightarrow> addr \<Rightarrow> bool" where
  "only_writer t log a \<longleftrightarrow> (\<forall>st\<in>set log. writes_byte st a \<longrightarrow> fst st = t)"

lemma run_from_init:
  assumes "cfg_ok c"
  shows "\<exists>log s. sb_run c evs (sb_init c m) = Some (log, s) \<and> run_inv c s \<and>
    (\<forall>t<cacheLineSize c. \<forall>a. only_writer t log a \<longrightarrow> owned c s t a \<and> view c s t a = fold apply_store log m a)"
proof -
  have i: "run_inv c (sb_init c m)" "owned c (sb_init c m) t a" "view c (sb_init c m) t = m" for t a
    using init_inv [OF assms] by (auto simp: owned_def)
  obtain log s where r: "sb_run c evs (sb_init c m) = Some (log, s)" "step_ok c (sb_init c m) log s"
    using sb_run_ok [OF i(1) assms] by blast
  then show ?thesis
    using i step_okD [OF r(2)] by (auto simp: step_ok_def only_writer_def)
qed

text \<open>C12: The store buffer never fails an assertion, and keeps the stores it accepts: a thread sees a byte
  that only it stores to as its accepted stores, in order, leave it, wherever the bytes are (in an entry,
  in an entry that is being sent, in its vice or in memory); when the buffer is empty, memory has it.\<close>

theorem buffer_keeps_stores:
  assumes "cfg_ok c"
  shows "\<exists>log s. sb_run c evs (sb_init c m) = Some (log, s) \<and>
    (\<forall>t<cacheLineSize c. \<forall>a. only_writer t log a \<longrightarrow> view c s t a = fold apply_store log m a) \<and>
    (storeBufferEmpty s \<longrightarrow> (\<forall>t a. view c s t a = goldenMem s a))"
proof -
  obtain log s where r: "sb_run c evs (sb_init c m) = Some (log, s)" "run_inv c s"
    "\<forall>t<cacheLineSize c. \<forall>a. only_writer t log a \<longrightarrow> owned c s t a \<and> view c s t a = fold apply_store log m a"
    using run_from_init [OF assms] by blast
  then show ?thesis
    using empty_view [of c s] by (simp add: run_inv_def)
qed

definition sb_cfg0 :: sb_cfg where
  "sb_cfg0 = \<lparr>lineBits = 6, sbufferEntries = 2, sbufferEvictThreshold = 0, storeBufferInactiveThreshold = 1,
     pmemBase = 2147483648, pmemSize = 4096\<rparr>"

definition sb_events0 :: "sb_event list" where
  "sb_events0 = [SBStore 0 4104 2147483656 [1, 2] [True, True], SBWriteback True False,
     SBStore 0 4104 2147483656 [3] [True]]"

definition sb_final0 :: "sb_store list \<times> sb_state" where
  "sb_final0 = the (sb_run sb_cfg0 sb_events0 (sb_init sb_cfg0 (\<lambda>a. 0)))"

lemma sb_final0_run: "sb_run sb_cfg0 sb_events0 (sb_init sb_cfg0 (\<lambda>a. 0)) = Some sb_final0"
proof -
  have "\<not> Option.is_none (sb_run sb_cfg0 sb_events0 (sb_init sb_cfg0 (\<lambda>a. 0)))"
    by code_simp
  then show ?thesis
    by (simp add: sb_final0_def Option.is_none_def)
qed

lemma sb_final0_values:
  "fst sb_final0 = [(0, 2147483656, [1, 2], [True, True]), (0, 2147483656, [3], [True])]"
  "alias_free (storeBuffer (snd sb_final0))"
  by code_simp+

lemma sb_cfg0_ok: "cfg_ok sb_cfg0" "cacheLineSize sb_cfg0 = 64"
  by code_simp+

theorem buffer_keeps_stores_witness:
  "cfg_ok sb_cfg0 \<and> only_writer 0 (fst sb_final0) 2147483656 \<and> view sb_cfg0 (snd sb_final0) 0 2147483656 = 3"
proof -
  have "only_writer 0 (fst sb_final0) 2147483656" "fold apply_store (fst sb_final0) (\<lambda>a. 0) 2147483656 = 3"
    by code_simp+
  moreover obtain log s where r: "sb_run sb_cfg0 sb_events0 (sb_init sb_cfg0 (\<lambda>a. 0)) = Some (log, s)"
    "\<forall>t<cacheLineSize sb_cfg0. \<forall>a. only_writer t log a \<longrightarrow> view sb_cfg0 s t a = fold apply_store log (\<lambda>a. 0) a"
    using buffer_keeps_stores [OF sb_cfg0_ok(1), of sb_events0 "\<lambda>a. 0"] by blast
  moreover have "fst sb_final0 = log" "snd sb_final0 = s"
    using r(1) unfolding sb_final0_def by simp_all
  ultimately show ?thesis
    using sb_cfg0_ok by simp
qed

text \<open>C13: A load that lies in one block and asks the buffer gets, for every byte, what the accepted stores of its
  thread left, whatever part of them is still in the buffer, and needs no data of the cache exactly when every
  byte is pending. The theorem is about bytes that only the thread of the load stores to, and about a buffer
  without virtual aliases (no vice entry has another virtual block than its entry): with one, \<open>recordForward\<close>
  fails an assertion, as \<open>alias_load_fails\<close> shows.\<close>

theorem load_sees_stores:
  assumes "cfg_ok c" and "sb_run c evs (sb_init c m) = Some (log, s)" and "alias_free (storeBuffer s)" and "t < cacheLineSize c"
    and "cacheOffset c p + n \<le> cacheLineSize c" and "0 < n" and "\<forall>k<n. only_writer t log (p + of_nat k)"
  shows "sb_read c t p (map (\<lambda>k. goldenMem s (p + of_nat k)) [0..<n]) (storeBuffer s) =
    Some (map (\<lambda>k. fold apply_store log m (p + of_nat k)) [0..<n], \<forall>k<n. pending c (storeBuffer s) t (p + of_nat k) \<noteq> None)"
proof -
  let ?mem = "map (\<lambda>k. goldenMem s (p + of_nat k)) [0..<n]"
  have inv: "sb_ok c (storeBuffer s)" and l: "line_ok c"
    and v: "\<And>k. k < n \<Longrightarrow> view c s t (p + of_nat k) = fold apply_store log m (p + of_nat k)"
    using run_from_init [OF assms(1), of evs m] assms(2,4,7) cfg_okD [OF assms(1)] by (auto simp: run_inv_def sb_inv_def)
  have "cacheOffset c p + length ?mem \<le> cacheLineSize c"
    using assms(5) by simp
  note r = sb_read_ok [OF inv l assms(3,4) this]
  have "map (\<lambda>k. the (over (pending c (storeBuffer s) t (p + of_nat k)) (Some (?mem ! k)))) [0..<n] =
      map (\<lambda>k. fold apply_store log m (p + of_nat k)) [0..<n]"
    using v by (intro map_cong refl) (simp add: view_over)
  moreover have "pending c (storeBuffer s) t p \<noteq> None \<longrightarrow> data_map (storeBuffer s) (hashKey t (cacheBlock c p)) \<noteq> None"
    by (simp add: pending_def split: option.split)
  ultimately show ?thesis
    using r assms(6) by auto
qed

theorem load_sees_stores_witness:
  "sb_read sb_cfg0 0 2147483656 (map (\<lambda>k. goldenMem (snd sb_final0) (2147483656 + of_nat k)) [0..<2]) (storeBuffer (snd sb_final0)) =
     Some (map (\<lambda>k. fold apply_store (fst sb_final0) (\<lambda>a. 0) (2147483656 + of_nat k)) [0..<2],
       \<forall>k<2. pending sb_cfg0 (storeBuffer (snd sb_final0)) 0 (2147483656 + of_nat k) \<noteq> None) \<and>
   map (\<lambda>k. fold apply_store (fst sb_final0) (\<lambda>a. 0) (2147483656 + of_nat k)) [0..<2] = [3, 2]"
proof -
  have "cacheOffset sb_cfg0 2147483656 + 2 \<le> cacheLineSize sb_cfg0"
    by code_simp
  moreover have "\<forall>k<2. only_writer 0 (fst sb_final0) (2147483656 + of_nat k)"
    by (simp add: only_writer_def sb_final0_values(1))
  moreover have "map (\<lambda>k. fold apply_store (fst sb_final0) (\<lambda>a. 0) (2147483656 + of_nat k)) [0..<2] = [3, 2]"
    by (simp add: sb_final0_values(1) upt_rec apply_store_def store_byte_def)
  ultimately show ?thesis
    using load_sees_stores [of sb_cfg0 sb_events0 "\<lambda>a. 0" "fst sb_final0" "snd sb_final0" 0 2147483656 2]
      sb_cfg0_ok sb_final0_run sb_final0_values(2) by simp
qed

text \<open>C14: A flush can always finish: once the flag is set, packets the cache accepts and its responses, at most
  six per entry and three more, empty the buffer without any assertion failing, and memory then has the
  accepted stores of every byte that one thread stores to.\<close>

theorem flush_reaches_memory:
  assumes "cfg_ok c" and "sb_run c evs (sb_init c m) = Some (log, s)"
  shows "\<exists>ds s'. (\<forall>ev\<in>set ds. drain_event ev) \<and> length ds \<le> 6 * sbufferEntries c + 3 \<and>
    sb_run c (SBFlush # ds) s = Some ([], s') \<and> storeBufferEmpty s' \<and>
    (\<forall>t<cacheLineSize c. \<forall>a. only_writer t log a \<longrightarrow> goldenMem s' a = fold apply_store log m a)"
proof -
  have r: "run_inv c s"
    and v: "\<And>t a. t < cacheLineSize c \<Longrightarrow> only_writer t log a \<Longrightarrow> owned c s t a \<and> view c s t a = fold apply_store log m a"
    using run_from_init [OF assms(1), of evs m] assms(2) by auto
  have f: "run_inv c (flushStores s)" "step_ok c s [] (flushStores s)" "storeBufferFlushing (flushStores s)"
    using sb_step_ok [OF r assms(1), of SBFlush] by (auto simp: step_ok_def flushStores_def)
  obtain ds s' where d: "\<forall>ev\<in>set ds. drain_event ev" "length ds \<le> drain_work (flushStores s)"
    "sb_run c ds (flushStores s) = Some ([], s')" "storeBufferEmpty s'" "step_ok c (flushStores s) [] s'"
    using drain_ok [OF f(1) assms(1) f(3)] by blast
  have "goldenMem s' a = fold apply_store log m a" if "t < cacheLineSize c" "only_writer t log a" for t a
    using step_okD(2) [OF step_ok_trans [OF f(2) d(5)] that(1), of a] v [OF that] empty_view [OF _ d(4), of c t a] d(5)
    by (simp add: step_ok_def run_inv_def)
  moreover have "length ds \<le> 6 * sbufferEntries c + 3"
    using d(2) drain_work_bound [of c "flushStores s"] f(1) by (simp add: run_inv_def)
  ultimately show ?thesis
    using d(1,3,4) by (intro exI [of _ ds] exI [of _ s']) simp
qed

theorem flush_reaches_memory_witness:
  "\<exists>ds s'. length ds \<le> 15 \<and> sb_run sb_cfg0 (SBFlush # ds) (snd sb_final0) = Some ([], s') \<and> storeBufferEmpty s' \<and>
     goldenMem s' 2147483656 = 3"
proof -
  have "only_writer 0 (fst sb_final0) 2147483656" "fold apply_store (fst sb_final0) (\<lambda>a. 0) 2147483656 = 3"
    "6 * sbufferEntries sb_cfg0 + 3 = 15"
    by code_simp+
  then show ?thesis
    using flush_reaches_memory [of sb_cfg0 sb_events0 "\<lambda>a. 0" "fst sb_final0" "snd sb_final0"] sb_cfg0_ok sb_final0_run
    by fastforce
qed

text \<open>Two stores of a thread to one physical block through two virtual blocks, the second while the block is
  being sent, are both accepted; a load of the block through the second address then fails the assertion
  that compares the virtual blocks.\<close>

theorem alias_load_fails:
  "let evs = [SBStore 0 4104 2147483656 [1, 2] [True, True], SBWriteback True False, SBStore 0 8200 2147483656 [3] [True]] in
   case sb_run sb_cfg0 evs (sb_init sb_cfg0 (\<lambda>a. 0)) of
     None \<Rightarrow> False
   | Some (log, s) \<Rightarrow> length log = 2 \<and> Option.is_none (sb_read sb_cfg0 0 2147483656 [0] (storeBuffer s))"
  by code_simp

end
