(* ===== verification/StoreQueueProps.thy ===== *)
theory StoreQueueProps
  imports StoreQueue StoreBufferLoad
begin

text \<open>
  The store queue in front of the store buffer: what a load finds in both, the order in which committed
  stores are handed over, and the arbitration between threads.
\<close>

declare offload_loop.simps [simp del]

section \<open>Ranges\<close>

definition range_ok :: "addr \<times> nat \<Rightarrow> bool" where
  "range_ok r \<longleftrightarrow> 0 < snd r \<and> unat (fst r) + snd r < 2 ^ 64"

definition byte_in_range :: "addr \<Rightarrow> addr \<times> nat \<Rightarrow> bool" where
  "byte_in_range a r \<longleftrightarrow> unat (fst r) \<le> unat a \<and> unat a < unat (fst r) + snd r"

lemma range_ok_code [code]: "range_ok r \<longleftrightarrow> 0 < snd r \<and> uint (fst r) + int (snd r) < 2 ^ 64"
proof -
  have "unat (fst r) + snd r < 2 ^ 64 \<longleftrightarrow> int (unat (fst r) + snd r) < int (2 ^ 64)"
    by (simp only: of_nat_less_iff)
  then show ?thesis
    by (simp only: range_ok_def uint_nat of_nat_add of_nat_power of_nat_numeral)
qed

lemma range_end: "range_ok r \<Longrightarrow> unat (fst r + of_nat (snd r)) = unat (fst r) + snd r"
  by (simp add: range_ok_def unat_word_ariths unat_of_nat)

lemma range_addr: "range_ok r \<Longrightarrow> k < snd r \<Longrightarrow> unat (fst r + of_nat k) = unat (fst r) + k"
  by (simp add: range_ok_def unat_word_ariths unat_of_nat)

lemma range_offset: "range_ok r \<Longrightarrow> unat (a - fst r) < snd r \<longleftrightarrow> byte_in_range a r"
  "range_ok r \<Longrightarrow> byte_in_range a r \<Longrightarrow> unat (a - fst r) = unat a - unat (fst r)"
proof -
  assume r: "range_ok r"
  have fwd: "byte_in_range a r" if "unat (a - fst r) < snd r"
    using range_addr [OF r that] that by (simp add: byte_in_range_def)
  have bwd: "unat (a - fst r) = unat a - unat (fst r)" if "byte_in_range a r"
    using that by (simp add: byte_in_range_def unat_sub word_le_nat_alt)
  have "unat (a - fst r) < snd r" if "byte_in_range a r"
    using bwd [OF that] that unfolding byte_in_range_def by linarith
  then show "unat (a - fst r) < snd r \<longleftrightarrow> byte_in_range a r"
    using fwd by blast
  show "byte_in_range a r \<Longrightarrow> unat (a - fst r) = unat a - unat (fst r)"
    by (rule bwd)
qed

text \<open>The comparison of two ranges is exact.\<close>

lemma check_none:
  assumes "range_ok r" and "range_ok w" and "checkStoreLoadForwardingRange st llsc r w = (NoAddrRangeCoverage, False)"
  shows "\<not> (byte_in_range a r \<and> byte_in_range a w)"
proof -
  note e = range_end [OF assms(1)] range_end [OF assms(2)]
  have "unat (fst r) + snd r \<le> unat (fst w) \<or> unat (fst w) + snd w \<le> unat (fst r)"
    using assms unfolding checkStoreLoadForwardingRange_def Let_def word_less_nat_alt word_le_nat_alt e range_ok_def
    by (auto split: if_splits)
  then show ?thesis
    by (auto simp: byte_in_range_def)
qed

lemma check_some:
  assumes "range_ok r" and "range_ok w" and "checkStoreLoadForwardingRange st llsc r w \<noteq> (NoAddrRangeCoverage, False)"
  shows "\<exists>a. byte_in_range a r \<and> byte_in_range a w"
proof -
  note e = range_end [OF assms(1)] range_end [OF assms(2)]
  have "unat (fst w) < unat (fst r) + snd r \<and> unat (fst r) < unat (fst w) + snd w"
    using assms unfolding checkStoreLoadForwardingRange_def Let_def word_less_nat_alt word_le_nat_alt e range_ok_def
    by (auto split: if_splits)
  then have "byte_in_range (if fst r \<le> fst w then fst w else fst r) r \<and> byte_in_range (if fst r \<le> fst w then fst w else fst r) w"
    using assms(1,2) by (auto simp: byte_in_range_def range_ok_def word_le_nat_alt)
  then show ?thesis ..
qed

lemma check_full:
  assumes "range_ok r" and "range_ok w" and "checkStoreLoadForwardingRange st llsc r w = (FullAddrRangeCoverage, x)"
  shows "\<not> sq_isSplit st" "\<not> isMasked (sq_mask st)" "unat (fst w) \<le> unat (fst r)" "unat (fst r) + snd r \<le> unat (fst w) + snd w"
    "isSplitStoreAddr st \<longrightarrow> dataReady st"
proof -
  note e = range_end [OF assms(1)] range_end [OF assms(2)]
  show "\<not> sq_isSplit st" "\<not> isMasked (sq_mask st)" "unat (fst w) \<le> unat (fst r)" "unat (fst r) + snd r \<le> unat (fst w) + snd w"
    "isSplitStoreAddr st \<longrightarrow> dataReady st"
    using assms(3) unfolding checkStoreLoadForwardingRange_def Let_def word_less_nat_alt word_le_nat_alt e
    by (auto simp: canForwardToLoad_def split: if_splits)
qed

lemma scan_Cons:
  "scan_ranges st llsc (p # rs) =
     (if checkStoreLoadForwardingRange st llsc (fst p) (snd p) = (NoAddrRangeCoverage, False) then scan_ranges st llsc rs
      else checkStoreLoadForwardingRange st llsc (fst p) (snd p))"
  by (cases p) (auto split: prod.splits coverage.splits bool.splits)

lemma scan_cases:
  "scan_ranges st llsc rs = (NoAddrRangeCoverage, False) \<and>
     (\<forall>p\<in>set rs. checkStoreLoadForwardingRange st llsc (fst p) (snd p) = (NoAddrRangeCoverage, False)) \<or>
   scan_ranges st llsc rs \<noteq> (NoAddrRangeCoverage, False) \<and>
     (\<exists>p\<in>set rs. checkStoreLoadForwardingRange st llsc (fst p) (snd p) = scan_ranges st llsc rs)"
proof (induction rs)
  case (Cons p rs)
  then show ?case
    unfolding scan_Cons by auto
qed simp

section \<open>The stores of the queue\<close>

text \<open>The accesses of an entry to the store buffer, as \<open>offloadToStoreBuffer\<close> makes them.\<close>

definition accesses :: "sq_entry \<Rightarrow> (addr \<times> addr \<times> byte list \<times> bool list) list" where
  "accesses e =
     (if sq_size e = 0 \<or> isDataPrefetch e then []
      else if sq_isSplit e then map (\<lambda>p. (pt_vaddr p, pt_paddr p, part_data e p, pt_mask p)) (sq_reqs e)
      else [(sq_vaddr e, physEffAddr e, take (sq_size e) (sq_data e), sq_mask e)])"

definition as_store :: "thread_id \<Rightarrow> addr \<times> addr \<times> byte list \<times> bool list \<Rightarrow> sb_store" where
  "as_store t x = (case x of (va, pa, ds, ms) \<Rightarrow> (t, pa, ds, ms))"

definition pieces :: "thread_id \<Rightarrow> sq_entry \<Rightarrow> sb_store list" where
  "pieces t e = map (as_store t) (accesses e)"

text \<open>An entry with an ordinary store: its data is in the entry and its accesses lie in one block each.\<close>

definition entry_plain :: "sb_cfg \<Rightarrow> thread_id \<Rightarrow> sq_entry \<Rightarrow> bool" where
  "entry_plain c t e \<longleftrightarrow> \<not> isDataPrefetch e \<and> \<not> isDirect e \<and> \<not> strictlyOrdered e \<and> \<not> isCacheMaintenance e \<and> \<not> isAllZeros e \<and>
     sq_size e \<le> length (sq_data e) \<and> (\<forall>r\<in>set (store_ranges e). sq_size e \<noteq> 0 \<longrightarrow> range_ok r) \<and>
     (\<forall>p\<in>set (sq_reqs e). sq_isSplit e \<longrightarrow> unat (pt_vaddr p - sq_vaddr e) + pt_size p \<le> sq_size e) \<and>
     (\<forall>(va, pa, ds, ms)\<in>set (accesses e). access_ok c t va pa ds ms \<and> block_in_pmem c (cacheBlock c pa))"

lemma accesses_ranges:
  assumes "entry_plain c t e" and "sq_size e \<noteq> 0"
  shows "map (\<lambda>(va, pa, ds, ms). (pa, length ds)) (accesses e) = store_ranges e"
  using assms by (auto simp: entry_plain_def accesses_def store_ranges_def part_data_def min_def)

lemma no_writes:
  assumes "entry_plain c t e" and "sq_size e \<noteq> 0 \<Longrightarrow> \<forall>w\<in>set (store_ranges e). \<not> byte_in_range a w"
  shows "\<forall>st\<in>set (pieces t e). \<not> writes_byte st a"
proof
  fix st assume "st \<in> set (pieces t e)"
  then obtain va pa ds ms where x: "(va, pa, ds, ms) \<in> set (accesses e)" "st = (t, pa, ds, ms)"
    by (auto simp: pieces_def as_store_def)
  then have n: "sq_size e \<noteq> 0"
    by (auto simp: accesses_def split: if_splits)
  have "(pa, length ds) \<in> set (store_ranges e)"
    using x(1) unfolding accesses_ranges [OF assms(1) n, symmetric] by force
  then have "range_ok (pa, length ds)" "\<not> byte_in_range a (pa, length ds)"
    using assms n by (auto simp: entry_plain_def)
  then show "\<not> writes_byte st a"
    using range_offset(1) [of "(pa, length ds)" a] by (simp add: x(2) writes_byte_def store_byte_def Let_def)
qed

lemma fold_no_writes: "\<forall>st\<in>set l. \<not> writes_byte st a \<Longrightarrow> fold apply_store l m a = m a"
proof (induction l arbitrary: m)
  case (Cons st l)
  have "apply_store st m a = m a"
    using Cons.prems by (simp add: apply_store_def writes_byte_def split: prod.splits)
  then show ?case
    using Cons by simp
qed simp

section \<open>Search of a load\<close>

text \<open>The physical address of the \<open>k\<close>-th byte of a load, which is in one of its ranges.\<close>

fun part_addr :: "(addr \<times> nat) list \<Rightarrow> nat \<Rightarrow> addr" where
  "part_addr [] k = 0"
| "part_addr ((p, n) # rs) k = (if k < n then p + of_nat k else part_addr rs (k - n))"

definition ld_addr :: "sq_load \<Rightarrow> nat \<Rightarrow> addr" where
  "ld_addr ld k = part_addr (load_ranges ld) k"

definition load_ok :: "sq_load \<Rightarrow> bool" where
  "load_ok ld \<longleftrightarrow> \<not> ld_isDataPrefetch ld \<and> (\<forall>r\<in>set (load_ranges ld). range_ok r) \<and>
     sum_list (map snd (load_ranges ld)) = ld_size ld"

lemma part_addr_in:
  "k < sum_list (map snd rs) \<Longrightarrow> \<exists>p n j. (p, n) \<in> set rs \<and> j < n \<and> part_addr rs k = p + of_nat j"
proof (induction rs k rule: part_addr.induct)
  case (2 p n rs k)
  show ?case
  proof (cases "k < n")
    case False
    then have "k - n < sum_list (map snd rs)"
      using "2.prems" by simp
    then show ?thesis
      using "2.IH" [OF False] False by fastforce
  qed (use 2 in fastforce)
qed simp

lemma ld_addr_in:
  assumes "load_ok ld" and "k < ld_size ld"
  shows "\<exists>r\<in>set (load_ranges ld). byte_in_range (ld_addr ld k) r"
proof -
  have "k < sum_list (map snd (load_ranges ld))"
    using assms by (simp add: load_ok_def)
  then obtain p n j where j: "(p, n) \<in> set (load_ranges ld)" "j < n" "ld_addr ld k = p + of_nat j"
    using part_addr_in unfolding ld_addr_def by blast
  then have "byte_in_range (ld_addr ld k) (p, n)"
    using assms(1) range_addr [of "(p, n)" j] by (auto simp: load_ok_def byte_in_range_def)
  then show ?thesis
    using j(1) by blast
qed

lemma ld_addr_single: "\<not> ld_isSplit ld \<Longrightarrow> k < ld_size ld \<Longrightarrow> ld_addr ld k = ld_paddr ld + of_nat k"
  by (simp add: ld_addr_def load_ranges_def)

lemma coverage_scan:
  assumes "scan_ranges st (ld_isLLSC ld) (List.product (load_ranges ld) (store_ranges st)) = (cov, rp)"
  shows "store_coverage ld st = (if ld_isSplit ld \<and> cov \<noteq> NoAddrRangeCoverage then PartialAddrRangeCoverage else cov, rp)"
  using assms by (simp add: store_coverage_def)

lemma coverage_none:
  assumes "load_ok ld" and "entry_plain c t st" and "sq_size st \<noteq> 0" and "store_coverage ld st = (NoAddrRangeCoverage, False)"
    and "r \<in> set (load_ranges ld)" and "byte_in_range a r" and "w \<in> set (store_ranges st)"
  shows "\<not> byte_in_range a w"
proof -
  have "scan_ranges st (ld_isLLSC ld) (List.product (load_ranges ld) (store_ranges st)) = (NoAddrRangeCoverage, False)"
    using assms(4) by (auto simp: store_coverage_def split: prod.splits if_splits)
  moreover have "(r, w) \<in> set (List.product (load_ranges ld) (store_ranges st))"
    using assms(5,7) by simp
  ultimately have "checkStoreLoadForwardingRange st (ld_isLLSC ld) r w = (NoAddrRangeCoverage, False)"
    using scan_cases [of st "ld_isLLSC ld" "List.product (load_ranges ld) (store_ranges st)"] by fastforce
  then show ?thesis
    using check_none [of r w st "ld_isLLSC ld" a] assms by (auto simp: load_ok_def entry_plain_def)
qed

lemma coverage_some:
  assumes "load_ok ld" and "entry_plain c t st" and "sq_size st \<noteq> 0" and "store_coverage ld st \<noteq> (NoAddrRangeCoverage, False)"
  shows "\<exists>r\<in>set (load_ranges ld). \<exists>w\<in>set (store_ranges st).
    (\<not> ld_isSplit ld \<longrightarrow> checkStoreLoadForwardingRange st (ld_isLLSC ld) r w = store_coverage ld st) \<and>
    (\<exists>a. byte_in_range a r \<and> byte_in_range a w)"
proof -
  obtain cov rp where s: "scan_ranges st (ld_isLLSC ld) (List.product (load_ranges ld) (store_ranges st)) = (cov, rp)"
    by (metis surj_pair)
  have "(cov, rp) \<noteq> (NoAddrRangeCoverage, False)"
    using assms(4) coverage_scan [OF s] by auto
  then obtain r w where w: "r \<in> set (load_ranges ld)" "w \<in> set (store_ranges st)"
    "checkStoreLoadForwardingRange st (ld_isLLSC ld) r w = (cov, rp)"
    using scan_cases [of st "ld_isLLSC ld" "List.product (load_ranges ld) (store_ranges st)"] s by auto
  then have "\<exists>a. byte_in_range a r \<and> byte_in_range a w"
    using check_some [of r w st "ld_isLLSC ld"] assms(1-3) \<open>(cov, rp) \<noteq> _\<close> by (auto simp: load_ok_def entry_plain_def)
  then show ?thesis
    using w coverage_scan [OF s] by (intro bexI [of _ r] bexI [of _ w]) auto
qed

lemma coverage_full:
  assumes "load_ok ld" and "entry_plain c t st" and "sq_size st \<noteq> 0" and "store_coverage ld st = (FullAddrRangeCoverage, x)"
    and "k < ld_size ld"
  shows "fold apply_store (pieces t st) m (ld_addr ld k) = forward_data ld st ! k"
proof -
  let ?r = "(ld_paddr ld, ld_size ld)" and ?w = "(physEffAddr st, sq_size st)"
  have single: "\<not> ld_isSplit ld"
    using assms(4) by (auto simp: store_coverage_def split: prod.splits if_splits)
  then have lr: "load_ranges ld = [?r]"
    by (simp add: load_ranges_def)
  obtain w where w: "w \<in> set (store_ranges st)" "checkStoreLoadForwardingRange st (ld_isLLSC ld) ?r w = (FullAddrRangeCoverage, x)"
    using coverage_some [OF assms(1-3)] assms(4) single lr by auto
  have ok: "range_ok ?r" "range_ok w"
    using assms(1-3) w(1) lr by (auto simp: load_ok_def entry_plain_def)
  note f = check_full [OF ok w(2)]
  have wr: "w = ?w" "range_ok ?w"
    using w(1) f(1) ok(2) by (auto simp: store_ranges_def)
  have acc: "accesses st = [(sq_vaddr st, physEffAddr st, take (sq_size st) (sq_data st), sq_mask st)]"
    "length (sq_mask st) = sq_size st" "sq_size st \<le> length (sq_data st)" "\<not> isAllZeros st"
    using assms(2,3) f(1) by (auto simp: entry_plain_def accesses_def access_ok_def)
  have lo: "unat (physEffAddr st) \<le> unat (ld_paddr ld)" "unat (ld_paddr ld) + ld_size ld \<le> unat (physEffAddr st) + sq_size st"
    using f(3,4) by (simp_all add: wr(1))
  have a: "unat (ld_paddr ld + of_nat k) = unat (ld_paddr ld) + k"
    using range_addr [OF ok(1)] assms(5) by simp
  then have ir: "byte_in_range (ld_paddr ld + of_nat k) ?w"
    using lo assms(5) by (simp add: byte_in_range_def)
  have d: "unat (ld_paddr ld + of_nat k - physEffAddr st) = unat (ld_paddr ld - physEffAddr st) + k"
    using range_offset(2) [OF wr(2) ir] a lo by (simp add: unat_sub word_le_nat_alt)
  have lt: "unat (ld_paddr ld - physEffAddr st) + k < sq_size st"
    using range_offset(1) [OF wr(2), of "ld_paddr ld + of_nat k"] ir by (simp add: d)
  have "sq_mask st ! (unat (ld_paddr ld - physEffAddr st) + k)"
    using f(2) acc(2) lt unfolding isMasked_def by (metis (full_types) nth_mem)
  then show ?thesis
    using lt acc(3,4) assms(5) by (simp add: pieces_def acc(1) as_store_def apply_store_def store_byte_def Let_def d forward_data_def ld_addr_single [OF single assms(5)])
qed

lemma search_ok:
  assumes "load_ok ld" and "\<forall>st\<in>set sts. entry_plain c t st \<and> sq_seqNum st < ld_seqNum ld \<and> \<not> completed st"
  shows "case sq_search ld sts of
      None \<Rightarrow> False
    | Some (SQForward bs) \<Rightarrow> length bs = ld_size ld \<and>
        (\<forall>k<ld_size ld. \<forall>m. fold apply_store (concat (map (pieces t) (rev sts))) m (ld_addr ld k) = bs ! k)
    | Some SQNone \<Rightarrow> \<forall>k<ld_size ld. \<forall>m. fold apply_store (concat (map (pieces t) (rev sts))) m (ld_addr ld k) = m (ld_addr ld k)
    | Some _ \<Rightarrow> \<exists>st\<in>set sts. sq_size st \<noteq> 0 \<and> (\<exists>r\<in>set (load_ranges ld). \<exists>w\<in>set (store_ranges st). \<exists>a. byte_in_range a r \<and> byte_in_range a w)"
  using assms(2)
proof (induction sts)
  case (Cons st sts)
  have st: "entry_plain c t st" "sq_seqNum st < ld_seqNum ld" "\<not> completed st"
    using Cons.prems by simp_all
  have skip: ?case if eq: "sq_search ld (st # sts) = sq_search ld sts"
    and no: "\<And>k m. k < ld_size ld \<Longrightarrow> fold apply_store (pieces t st) m (ld_addr ld k) = m (ld_addr ld k)"
    using Cons.IH Cons.prems no unfolding eq by (auto split: option.splits sq_result.splits)
  show ?case
  proof (cases "sq_size st = 0")
    case True
    then have "pieces t st = []"
      by (simp add: pieces_def accesses_def)
    then show ?thesis
      using True st(2) by (intro skip) simp_all
  next
    case False
    have plain: "\<not> strictlyOrdered st" "\<not> isCacheMaintenance st"
      using st(1) by (simp_all add: entry_plain_def)
    show ?thesis
    proof (cases "store_coverage ld st = (NoAddrRangeCoverage, False)")
      case True
      then have "fold apply_store (pieces t st) m (ld_addr ld k) = m (ld_addr ld k)" if "k < ld_size ld" for k m
        using coverage_none [OF assms(1) st(1) False True] ld_addr_in [OF assms(1) that] no_writes [OF st(1)] by (intro fold_no_writes) blast
      then show ?thesis
        using True False plain st(2) by (intro skip) simp_all
    next
      case nz: False
      obtain r w where w: "r \<in> set (load_ranges ld)" "w \<in> set (store_ranges st)" "\<exists>a. byte_in_range a r \<and> byte_in_range a w"
        using coverage_some [OF assms(1) st(1) False nz] by blast
      show ?thesis
        using nz False plain st(2,3) w coverage_full [OF assms(1) st(1) False]
        by (cases "store_coverage ld st"; cases "fst (store_coverage ld st)"; cases "snd (store_coverage ld st)")
          (auto simp: forward_data_def)
    qed
  qed
qed simp

section \<open>Store buffer and cache\<close>

text \<open>The ranges of a load lie in one block each, and those after the first start a block.\<close>

definition ranges_in_blocks :: "sb_cfg \<Rightarrow> (addr \<times> nat) list \<Rightarrow> bool" where
  "ranges_in_blocks c rs \<longleftrightarrow> (\<forall>(p, n)\<in>set rs. cacheOffset c p + n \<le> cacheLineSize c) \<and> (\<forall>(p, n)\<in>set (tl rs). cacheOffset c p = 0)"

lemma forward_bytes_append: "forward_bytes (ps @ qs) mem = forward_bytes qs (forward_bytes ps mem)"
  by (induction ps mem rule: forward_bytes.induct) auto

lemma send_forward_ok:
  assumes "sb_ok c b" and "line_ok c" and "alias_free b" and "t < cacheLineSize c"
  shows "ranges_in_blocks c rs \<Longrightarrow> (0 < g \<longrightarrow> (\<forall>(p, n)\<in>set rs. cacheOffset c p = 0)) \<Longrightarrow> g + sum_list (map snd rs) \<le> ld_size ld \<Longrightarrow>
    ld_isSplit ld \<or> (\<forall>(p, n)\<in>set rs. data_map b (hashKey t (cacheBlock c p)) \<noteq> None \<longrightarrow> (\<exists>k<n. pending c b t (p + of_nat k) = None)) \<Longrightarrow>
    \<exists>ps. send_forward c t ld g rs b = Some ps \<and> (\<forall>mem. length mem = ld_size ld \<longrightarrow>
      forward_bytes ps mem = forwards g (sum_list (map snd rs)) (\<lambda>k. pending c b t (part_addr rs k)) mem)"
proof (induction rs arbitrary: g)
  case Nil
  then show ?case
    by (simp add: forwards_none)
next
  case (Cons r rs)
  obtain p n where r: "r = (p, n)"
    by (cases r)
  let ?k = "sum_list (map snd rs)"
  have "\<exists>ps. send_forward c t ld (g + n) rs b = Some ps \<and> (\<forall>mem. length mem = ld_size ld \<longrightarrow>
      forward_bytes ps mem = forwards (g + n) ?k (\<lambda>k. pending c b t (part_addr rs k)) mem)"
    using Cons.prems by (intro Cons.IH) (cases rs; auto simp: ranges_in_blocks_def r)+
  then obtain ps where ps: "send_forward c t ld (g + n) rs b = Some ps"
    "\<And>mem. length mem = ld_size ld \<Longrightarrow> forward_bytes ps mem = forwards (g + n) ?k (\<lambda>k. pending c b t (part_addr rs k)) mem"
    by blast
  have "cacheOffset c p + n \<le> cacheLineSize c" "0 < g \<longrightarrow> cacheOffset c p = 0"
    using Cons.prems(1,2) by (simp_all add: ranges_in_blocks_def r)
  note f = range_forward [OF assms this(1), of g "ld_size ld", OF _ this(2)]
  have len: "g + n + ?k \<le> ld_size ld"
    using Cons.prems(3) by (simp add: r)
  have all: "forwards (g + n) ?k (\<lambda>k. pending c b t (part_addr rs k)) (forwards g n (\<lambda>k. pending c b t (p + of_nat k)) mem) =
      forwards g (n + ?k) (\<lambda>k. pending c b t (part_addr ((p, n) # rs) k)) mem" if "length mem = ld_size ld" for mem
    using len that by (subst forwards_append) (auto intro!: forwards_cong)
  show ?case
  proof (cases "data_map b (hashKey t (cacheBlock c p))")
    case None
    then have "forwards g n (\<lambda>k. pending c b t (p + of_nat k)) mem = mem" if "length mem = ld_size ld" for mem
      using f len that by (intro forwards_none) auto
    then show ?thesis
      using None f len ps all by (simp add: r)
  next
    case (Some i)
    obtain qs where qs: "sb_get t (cacheBlock c p) b = Some (Some i)"
      "recordForward c i p n g (ld_size ld) b = Some (qs, \<forall>k<n. pending c b t (p + of_nat k) \<noteq> None)"
      "\<And>mem. g + n \<le> length mem \<Longrightarrow> forward_bytes qs mem = forwards g n (\<lambda>k. pending c b t (p + of_nat k)) mem"
      using f Some len by auto
    have "ld_isSplit ld \<or> \<not> (\<forall>k<n. pending c b t (p + of_nat k) \<noteq> None)"
      using Cons.prems(4) Some by (auto simp: r)
    then have "send_forward c t ld g (r # rs) b = Some (qs @ ps)"
      using qs(1,2) ps(1) by (auto simp: r)
    then show ?thesis
      using qs(3) ps(2) all len by (simp add: r forward_bytes_append)
  qed
qed

text \<open>The cache answers with the bytes of memory, and the bus has answers only for loads that are not split.\<close>

definition answer_ok :: "sq_load \<Rightarrow> byte list \<Rightarrow> cache_answer \<Rightarrow> bool" where
  "answer_ok ld mem ans \<longleftrightarrow> (case ans of CacheSent bs \<Rightarrow> bs = mem | BusForward bs \<Rightarrow> bs = mem \<and> \<not> ld_isSplit ld | _ \<Rightarrow> True)"

lemma forwards_all: "n = length mem \<Longrightarrow> forwards 0 n f mem = map (\<lambda>k. the (over (f k) (Some (mem ! k)))) [0..<n]"
  by (auto simp: forwards_def)

lemma forwards_same: "\<forall>k<n. f k \<noteq> None \<Longrightarrow> length mem = n \<Longrightarrow> length mem' = n \<Longrightarrow> forwards 0 n f mem = forwards 0 n f mem'"
  by (auto simp: forwards_all)

lemma forwards_twice: "forwards g n f (forwards g n f mem) = forwards g n f mem"
  by (auto simp: forwards_def over_def split: option.splits intro!: nth_equalityI)

text \<open>What the store buffer and the cache give a load when no store of the queue has decided.\<close>

lemma read_buffer_ok:
  assumes "sb_ok c b" and "line_ok c" and "alias_free b" and "t < cacheLineSize c" and "load_ok ld" and "ranges_in_blocks c (load_ranges ld)"
    and "answer_ok ld mem ans" and "length mem = ld_size ld"
  shows "case read_buffer c t ld ans b of
      Some (ReadData bs) \<Rightarrow> bs = forwards 0 (ld_size ld) (\<lambda>k. pending c b t (ld_addr ld k)) mem
    | Some WakeUpEarly \<Rightarrow> ans = CachePending
    | Some CacheFlaggedReplay \<Rightarrow> ans = CacheNotSent True
    | Some CacheBlockedReplay \<Rightarrow> ans = CacheNotSent False
    | _ \<Rightarrow> False"
proof -
  let ?f = "\<lambda>k. pending c b t (ld_addr ld k)" and ?m = "answer_bytes ld ans"
  have size: "sum_list (map snd (load_ranges ld)) = ld_size ld" and pf: "\<not> ld_isDataPrefetch ld"
    using assms(5) by (simp_all add: load_ok_def)
  have len: "length ?m = ld_size ld"
    using assms(7,8) by (cases ans) (auto simp: answer_bytes_def answer_ok_def)
  note send = send_forward_ok [OF assms(1-4,6), of 0 ld, unfolded size, folded ld_addr_def, simplified]
  show ?thesis
  proof (cases "ld_isSplit ld")
    case True
    then obtain ps where "send_forward c t ld 0 (load_ranges ld) b = Some ps" "forward_bytes ps mem = forwards 0 (ld_size ld) ?f mem"
      using send assms(8) by auto
    then show ?thesis
      using True assms(7) by (cases ans) (auto simp: read_buffer_def answer_ok_def answer_bytes_def)
  next
    case False
    define full where "full \<longleftrightarrow> data_map b (hashKey t (cacheBlock c (ld_paddr ld))) \<noteq> None \<and> (\<forall>k<ld_size ld. ?f k \<noteq> None)"
    have "cacheOffset c (ld_paddr ld) + length ?m \<le> cacheLineSize c"
      using assms(6) False len by (simp add: ranges_in_blocks_def load_ranges_def)
    note sb = sb_read_ok [OF assms(1-4) this, unfolded len]
    have "sb_read c t (ld_paddr ld) ?m b = Some (forwards 0 (ld_size ld) ?f ?m, full)"
      unfolding sb full_def forwards_all [OF len [symmetric]] by (auto simp: ld_addr_single [OF False])
    then have rd: "read_buffer c t ld ans b =
        (if full then Some (ReadData (forwards 0 (ld_size ld) ?f ?m)) else case ans of
             CachePending \<Rightarrow> Some WakeUpEarly
           | BusForward _ \<Rightarrow> Some (ReadData (forwards 0 (ld_size ld) ?f ?m))
           | CacheSent _ \<Rightarrow> map_option (\<lambda>ps. ReadData (forward_bytes ps (forwards 0 (ld_size ld) ?f ?m))) (send_forward c t ld 0 (load_ranges ld) b)
           | CacheNotSent flagged \<Rightarrow> Some (if flagged then CacheFlaggedReplay else CacheBlockedReplay))"
      using False pf by (simp add: read_buffer_def split: bool.split)
    show ?thesis
    proof (cases full)
      case True
      then show ?thesis
        using forwards_same [OF _ len assms(8), of ?f] by (simp add: rd full_def)
    next
      case nfull: False
      then have "\<forall>(p, n)\<in>set (load_ranges ld). data_map b (hashKey t (cacheBlock c p)) \<noteq> None \<longrightarrow> (\<exists>k<n. pending c b t (p + of_nat k) = None)"
        using False by (auto simp: full_def load_ranges_def ld_addr_single [OF False])
      then obtain ps where "send_forward c t ld 0 (load_ranges ld) b = Some ps"
        "\<And>mem. length mem = ld_size ld \<Longrightarrow> forward_bytes ps mem = forwards 0 (ld_size ld) ?f mem"
        using send by auto
      then show ?thesis
        unfolding rd using nfull len assms(7) by (cases ans) (auto simp: forwards_twice answer_ok_def answer_bytes_def)
    qed
  qed
qed

end
