(* ===== verification/StoreQueueRun.thy ===== *)
theory StoreQueueRun
  imports StoreQueueProps
begin

text \<open>
  Committed stores leave the store queues for the store buffer in order, without losing or repeating one;
  loads that search queue and buffer; the arbitration between threads.
\<close>

section \<open>Hand-over\<close>

lemma sb_run_append:
  "sb_run c (e1 @ e2) s =
     (case sb_run c e1 s of None \<Rightarrow> None | Some (l1, s1) \<Rightarrow> map_option (\<lambda>(l2, s2). (l1 @ l2, s2)) (sb_run c e2 s1))"
proof (induction e1 arbitrary: s)
  case Nil
  then show ?case
    by (simp add: case_prod_unfold map_option.id [unfolded id_def] option.map_ident)
next
  case (Cons e e1)
  then show ?case
    by (auto split: option.splits prod.splits simp: option.map_comp case_prod_unfold comp_def)
qed

text \<open>A store is refused only by a full buffer, which does not change.\<close>

lemma insert_refused:
  "insertStoreBuffer c t va pa ds ms b = Some (False, b') \<Longrightarrow> sb_full b \<and> b' = b"
  by (auto simp: insertStoreBuffer_def Let_def split: option.splits if_splits prod.splits)

lemma insert_run:
  assumes "run_inv c s" and "cfg_ok c" and "\<not> storeBufferBlocked s" and "access_ok c t va pa ds ms" and "block_in_pmem c (cacheBlock c pa)"
  shows "\<exists>ok b evs. insertStoreBuffer c t va pa ds ms (storeBuffer s) = Some (ok, b) \<and>
    sb_run c evs s = Some (if ok then [(t, pa, ds, ms)] else [], s\<lparr>storeBuffer := b\<rparr>) \<and>
    run_inv c (s\<lparr>storeBuffer := b\<rparr>) \<and> \<not> storeBufferBlocked (s\<lparr>storeBuffer := b\<rparr>) \<and> (\<not> ok \<longrightarrow> sb_full (storeBuffer s) \<and> b = storeBuffer s)"
proof -
  have env: "sb_env c (SBStore t va pa ds ms) s"
    using assms(3-5) by simp
  obtain ok s' where st: "sb_step c (SBStore t va pa ds ms) s = Some (ok, s')" "step_ok c s (accepted (SBStore t va pa ds ms) ok) s'"
    using store_step [OF assms(1) _ env] cfg_okD [OF assms(2)] by blast
  then obtain b where b: "insertStoreBuffer c t va pa ds ms (storeBuffer s) = Some (ok, b)" "s' = s\<lparr>storeBuffer := b\<rparr>"
    by auto
  have "sb_run c [SBStore t va pa ds ms] s = Some (if ok then [(t, pa, ds, ms)] else [], s\<lparr>storeBuffer := b\<rparr>)"
    using env b(1) by (cases ok) simp_all
  moreover have "run_inv c (s\<lparr>storeBuffer := b\<rparr>)" "\<not> storeBufferBlocked (s\<lparr>storeBuffer := b\<rparr>)"
    using st(2) b(2) assms(3) by (simp_all add: step_ok_def storeBufferBlocked_def)
  moreover have "\<not> ok \<longrightarrow> sb_full (storeBuffer s) \<and> b = storeBuffer s"
    using b(1) insert_refused [of c t va pa ds ms "storeBuffer s" b] by (cases ok) simp_all
  ultimately show ?thesis
    using b(1) by blast
qed

text \<open>The committed stores that wait in the queue, in order, without the parts of a split store that the
  buffer has.\<close>

definition waiting :: "thread_id \<Rightarrow> store_queue \<Rightarrow> sb_store list" where
  "waiting t q = (case takeWhile canWB (sq_entries q) of [] \<Rightarrow> [] | e # es \<Rightarrow> drop (numOutstandingPackets e) (pieces t e) @ concat (map (pieces t) es))"

text \<open>The parts of the oldest store that the buffer has already.\<close>

definition sent :: "thread_id \<Rightarrow> store_queue \<Rightarrow> sb_store list" where
  "sent t q = (case takeWhile canWB (sq_entries q) of [] \<Rightarrow> [] | e # es \<Rightarrow> take (numOutstandingPackets e) (pieces t e))"

lemma sent_waiting: "sent t q @ waiting t q = concat (map (pieces t) (takeWhile canWB (sq_entries q)))"
  by (simp add: sent_def waiting_def split: list.split)

definition sq_ok :: "sb_cfg \<Rightarrow> thread_id \<Rightarrow> store_queue \<Rightarrow> bool" where
  "sq_ok c t q \<longleftrightarrow> storeWBIt q = sq_head q \<and>
     (\<forall>e\<in>set (sq_entries q). entry_plain c t e \<and> \<not> completed e \<and> (canWB e \<and> isSplitStoreAddr e \<longrightarrow> splitStoreFinish e) \<and>
        (numOutstandingPackets e = 0 \<or> canWB e \<and> sq_isSplit e \<and> sq_size e \<noteq> 0 \<and> numOutstandingPackets e < length (sq_reqs e))) \<and>
     (\<forall>e\<in>set (tl (sq_entries q)). numOutstandingPackets e = 0) \<and> (\<forall>e\<in>set (dropWhile canWB (sq_entries q)). \<not> canWB e) \<and>
     storesToWB q = length (takeWhile canWB (sq_entries q)) \<and> \<not> isStoreBlocked q"

text \<open>What is left to hand over.\<close>

definition backlog :: "thread_id \<Rightarrow> store_queue \<Rightarrow> nat" where
  "backlog t q = length (takeWhile canWB (sq_entries q)) + length (waiting t q)"

text \<open>The queue after the store at its head has left.\<close>

definition advanced :: "store_queue \<Rightarrow> store_queue" where
  "advanced q = sq_advance (completeStore (storeWBIt q) q)"

lemma complete_head:
  assumes "sq_ok c t q" and "sq_entries q = e # es"
  shows "advanced q = q\<lparr>sq_head := Suc (sq_head q), sq_entries := es, storeWBIt := Suc (storeWBIt q), storesToWB := storesToWB q - 1\<rparr>"
    "sq_advance (completeStore (storeWBIt q) (sq_upd (storeWBIt q - sq_head q) f q)) = advanced q"
proof -
  have w: "storeWBIt q = sq_head q"
    using assms(1) by (simp add: sq_ok_def)
  have "dropWhile completed es = es"
    using assms by (cases es) (auto simp: sq_ok_def)
  then show "advanced q = q\<lparr>sq_head := Suc (sq_head q), sq_entries := es, storeWBIt := Suc (storeWBIt q), storesToWB := storesToWB q - 1\<rparr>"
    "sq_advance (completeStore (storeWBIt q) (sq_upd (storeWBIt q - sq_head q) f q)) = advanced q"
    by (simp_all add: advanced_def completeStore_def sq_upd_def sq_advance_def Let_def w assms(2) Suc_diff_le)
qed

lemma advanced_ok:
  assumes "sq_ok c t q" and "sq_entries q = e # es" and "canWB e"
  shows "sq_ok c t (advanced q)"
proof -
  have "\<forall>x\<in>set (dropWhile canWB es). \<not> canWB x" "\<forall>x\<in>set es. numOutstandingPackets x = 0"
    using assms by (simp_all add: sq_ok_def)
  moreover from this(2) have "\<forall>x\<in>set (tl es). numOutstandingPackets x = 0"
    by (cases es) simp_all
  moreover have "\<forall>x\<in>set es. entry_plain c t x \<and> \<not> completed x \<and> (canWB x \<and> isSplitStoreAddr x \<longrightarrow> splitStoreFinish x) \<and>
      (numOutstandingPackets x = 0 \<or> canWB x \<and> sq_isSplit x \<and> sq_size x \<noteq> 0 \<and> numOutstandingPackets x < length (sq_reqs x))"
    using assms(1) unfolding sq_ok_def assms(2) by (metis list.set_intros(2))
  moreover have "storeWBIt q = sq_head q" "storesToWB q = Suc (length (takeWhile canWB es))" "\<not> isStoreBlocked q"
    using assms by (simp_all add: sq_ok_def)
  ultimately show ?thesis
    unfolding complete_head(1) [OF assms(1,2)] sq_ok_def by simp
qed

lemma advanced_stores:
  assumes "sq_ok c t q" and "sq_entries q = e # es" and "canWB e"
  shows "waiting t q = drop (numOutstandingPackets e) (pieces t e) @ waiting t (advanced q)"
    "sent t q @ drop (numOutstandingPackets e) (pieces t e) = pieces t e @ sent t (advanced q)"
    "backlog t (advanced q) < backlog t q"
proof -
  have "waiting t (advanced q) = concat (map (pieces t) (takeWhile canWB es)) \<and> sent t (advanced q) = []"
    unfolding complete_head(1) [OF assms(1,2)]
  proof (cases "takeWhile canWB es")
    case (Cons x xs)
    then have "x \<in> set es"
      by (metis list.set_intros(1) set_takeWhileD)
    then have "numOutstandingPackets x = 0"
      using assms by (simp add: sq_ok_def)
    then show "waiting t (q\<lparr>sq_head := Suc (sq_head q), sq_entries := es, storeWBIt := Suc (storeWBIt q), storesToWB := storesToWB q - 1\<rparr>) =
        concat (map (pieces t) (takeWhile canWB es)) \<and>
      sent t (q\<lparr>sq_head := Suc (sq_head q), sq_entries := es, storeWBIt := Suc (storeWBIt q), storesToWB := storesToWB q - 1\<rparr>) = []"
      using Cons by (simp add: waiting_def sent_def)
  qed (simp add: waiting_def sent_def)
  then show w: "waiting t q = drop (numOutstandingPackets e) (pieces t e) @ waiting t (advanced q)"
    and "sent t q @ drop (numOutstandingPackets e) (pieces t e) = pieces t e @ sent t (advanced q)"
    using assms(2,3) by (simp_all add: waiting_def sent_def)
  show "backlog t (advanced q) < backlog t q"
    unfolding backlog_def w by (simp add: complete_head(1) [OF assms(1,2)] assms(2,3))
qed

definition part_store :: "thread_id \<Rightarrow> sq_entry \<Rightarrow> sq_part \<Rightarrow> sb_store" where
  "part_store t e p = (t, pt_paddr p, part_data e p, pt_mask p)"

lemma parts_run:
  assumes "run_inv c s" and "cfg_ok c" and "\<not> storeBufferBlocked s"
    and "\<forall>p\<in>set ps. unat (pt_vaddr p - sq_vaddr e) + pt_size p \<le> sq_size e \<and>
      access_ok c t (pt_vaddr p) (pt_paddr p) (part_data e p) (pt_mask p) \<and> block_in_pmem c (cacheBlock c (pt_paddr p))"
  shows "\<exists>k b evs. offload_parts c t e ps (storeBuffer s) = Some (k, b) \<and> k \<le> length ps \<and>
    sb_run c evs s = Some (map (part_store t e) (take k ps), s\<lparr>storeBuffer := b\<rparr>) \<and>
    run_inv c (s\<lparr>storeBuffer := b\<rparr>) \<and> \<not> storeBufferBlocked (s\<lparr>storeBuffer := b\<rparr>) \<and>
    (k = 0 \<longrightarrow> b = storeBuffer s \<and> (ps = [] \<or> sb_full (storeBuffer s)))"
  using assms(1,3,4)
proof (induction ps arbitrary: s)
  case Nil
  then show ?case
    by (intro exI [of _ 0] exI [of _ "storeBuffer s"] exI [of _ "[]"]) simp
next
  case (Cons p ps)
  obtain ok b ev where b: "insertStoreBuffer c t (pt_vaddr p) (pt_paddr p) (part_data e p) (pt_mask p) (storeBuffer s) = Some (ok, b)"
    "sb_run c ev s = Some (if ok then [(t, pt_paddr p, part_data e p, pt_mask p)] else [], s\<lparr>storeBuffer := b\<rparr>)"
    "run_inv c (s\<lparr>storeBuffer := b\<rparr>)" "\<not> storeBufferBlocked (s\<lparr>storeBuffer := b\<rparr>)" "\<not> ok \<longrightarrow> sb_full (storeBuffer s) \<and> b = storeBuffer s"
    using insert_run [OF Cons.prems(1) assms(2) Cons.prems(2)] Cons.prems(3) by (metis list.set_intros(1))
  show ?case
  proof (cases ok)
    case False
    then show ?thesis
      using b Cons.prems(3) by (intro exI [of _ 0] exI [of _ b] exI [of _ ev]) auto
  next
    case True
    obtain k b' evs where k: "offload_parts c t e ps b = Some (k, b')" "k \<le> length ps"
      "sb_run c evs (s\<lparr>storeBuffer := b\<rparr>) = Some (map (part_store t e) (take k ps), s\<lparr>storeBuffer := b'\<rparr>)"
      "run_inv c (s\<lparr>storeBuffer := b'\<rparr>)" "\<not> storeBufferBlocked (s\<lparr>storeBuffer := b'\<rparr>)"
      using Cons.IH [OF b(3,4)] Cons.prems(3) by auto
    have "sb_run c (ev @ evs) s =
        Some (map (part_store t e) (take (Suc k) (p # ps)), s\<lparr>storeBuffer := b'\<rparr>)"
      using True b(2) k(3) unfolding sb_run_append by (simp add: part_store_def)
    then show ?thesis
      using True b(1) k(1,2,4,5) Cons.prems(3) by (intro exI [of _ "Suc k"] exI [of _ b'] exI [of _ "ev @ evs"]) auto
  qed
qed

text \<open>The effect of handing over: a run of the buffer that accepts a prefix of what waited.\<close>

definition handed ::
  "sb_cfg \<Rightarrow> thread_id \<Rightarrow> store_queue \<Rightarrow> sb_state \<Rightarrow> (bool \<times> store_queue \<times> sb_state) option \<Rightarrow> bool" where
  "handed c t q s r \<longleftrightarrow> (\<exists>q' b log evs. r = Some (False, q', s\<lparr>storeBuffer := b\<rparr>) \<and> sb_run c evs s = Some (log, s\<lparr>storeBuffer := b\<rparr>) \<and>
     waiting t q = log @ waiting t q' \<and> (\<exists>done_stores. sent t q @ log = done_stores @ sent t q') \<and> sq_ok c t q' \<and>
     run_inv c (s\<lparr>storeBuffer := b\<rparr>) \<and> (q' = q \<and> b = storeBuffer s \<or> backlog t q' < backlog t q))"

lemma handedI:
  assumes "sb_run c evs s = Some (log, s\<lparr>storeBuffer := b\<rparr>)" and "waiting t q = log @ waiting t q'"
    and "sent t q @ log = done_stores @ sent t q'" and "sq_ok c t q'" and "run_inv c (s\<lparr>storeBuffer := b\<rparr>)"
    and "q' = q \<and> b = storeBuffer s \<or> backlog t q' < backlog t q"
  shows "handed c t q s (Some (False, q', s\<lparr>storeBuffer := b\<rparr>))"
  using assms unfolding handed_def by blast

lemma handed_refl: "sq_ok c t q \<Longrightarrow> run_inv c s \<Longrightarrow> handed c t q s (Some (False, q, s))"
  using handedI [of c "[]" s "[]" "storeBuffer s" t q q "[]"] by simp

lemma handed_step:
  assumes "sb_run c evs s = Some (l1, s\<lparr>storeBuffer := b\<rparr>)" and "waiting t q = l1 @ waiting t q1"
    and "sent t q @ l1 = dn @ sent t q1" and "handed c t q1 (s\<lparr>storeBuffer := b\<rparr>) r"
    and "backlog t q1 < backlog t q"
  shows "handed c t q s r"
proof -
  obtain q' b' log evs' d2 where r: "r = Some (False, q', s\<lparr>storeBuffer := b'\<rparr>)"
    "sb_run c evs' (s\<lparr>storeBuffer := b\<rparr>) = Some (log, s\<lparr>storeBuffer := b'\<rparr>)" "waiting t q1 = log @ waiting t q'"
    "sent t q1 @ log = d2 @ sent t q'" "sq_ok c t q'" "run_inv c (s\<lparr>storeBuffer := b'\<rparr>)" "backlog t q' \<le> backlog t q1"
    using assms(4) by (auto simp: handed_def)
  have "sb_run c (evs @ evs') s = Some (l1 @ log, s\<lparr>storeBuffer := b'\<rparr>)"
    using assms(1) r(2) by (simp add: sb_run_append)
  moreover have "sent t q @ l1 @ log = (dn @ d2) @ sent t q'"
    using assms(3) r(4) by (metis append.assoc)
  ultimately show ?thesis
    unfolding r(1) using assms(2,5) r(3,5-7) by (intro handedI [where done_stores = "dn @ d2"]) simp_all
qed

lemma split_pieces: "sq_isSplit e \<Longrightarrow> sq_size e \<noteq> 0 \<Longrightarrow> \<not> isDataPrefetch e \<Longrightarrow> pieces t e = map (part_store t e) (sq_reqs e)"
  by (simp add: pieces_def accesses_def as_store_def part_store_def)

lemma partial_head:
  assumes "sq_ok c t q" and "sq_entries q = e # es" and "sq_isSplit e" and "sq_size e \<noteq> 0" and "\<not> isDataPrefetch e"
    and "numOutstandingPackets e + k < length (sq_reqs e)" and "canWB e"
  shows "waiting t q = map (part_store t e) (take k (drop (numOutstandingPackets e) (sq_reqs e))) @
      waiting t (sq_upd (storeWBIt q - sq_head q) (\<lambda>e. e\<lparr>numOutstandingPackets := numOutstandingPackets e + k\<rparr>) q)"
    "sent t q @ map (part_store t e) (take k (drop (numOutstandingPackets e) (sq_reqs e))) =
      [] @ sent t (sq_upd (storeWBIt q - sq_head q) (\<lambda>e. e\<lparr>numOutstandingPackets := numOutstandingPackets e + k\<rparr>) q)"
    "sq_ok c t (sq_upd (storeWBIt q - sq_head q) (\<lambda>e. e\<lparr>numOutstandingPackets := numOutstandingPackets e + k\<rparr>) q)"
    "k \<noteq> 0 \<Longrightarrow> backlog t (sq_upd (storeWBIt q - sq_head q) (\<lambda>e. e\<lparr>numOutstandingPackets := numOutstandingPackets e + k\<rparr>) q) < backlog t q"
proof -
  let ?e = "e\<lparr>numOutstandingPackets := numOutstandingPackets e + k\<rparr>"
  have w: "storeWBIt q = sq_head q"
    using assms(1) by (simp add: sq_ok_def)
  have same: "pieces t ?e = pieces t e" "entry_plain c t ?e = entry_plain c t e" "splitStoreFinish ?e = splitStoreFinish e"
    by (simp_all add: pieces_def accesses_def entry_plain_def store_ranges_def splitStoreFinish_def part_data_def)
  have "take k (drop (numOutstandingPackets e) (sq_reqs e)) @ drop (numOutstandingPackets e + k) (sq_reqs e) =
      drop (numOutstandingPackets e) (sq_reqs e)"
    by (metis add.commute append_take_drop_id drop_drop)
  then have "map (part_store t e) (take k (drop (numOutstandingPackets e) (sq_reqs e))) @ drop (numOutstandingPackets e + k) (pieces t e) =
      drop (numOutstandingPackets e) (pieces t e)"
    unfolding split_pieces [OF assms(3-5)] by (metis drop_map map_append)
  then show wq: "waiting t q = map (part_store t e) (take k (drop (numOutstandingPackets e) (sq_reqs e))) @
      waiting t (sq_upd (storeWBIt q - sq_head q) (\<lambda>e. e\<lparr>numOutstandingPackets := numOutstandingPackets e + k\<rparr>) q)"
    by (simp add: waiting_def assms(2,7) sq_upd_def w same flip: append_assoc)
  show "sent t q @ map (part_store t e) (take k (drop (numOutstandingPackets e) (sq_reqs e))) =
      [] @ sent t (sq_upd (storeWBIt q - sq_head q) (\<lambda>e. e\<lparr>numOutstandingPackets := numOutstandingPackets e + k\<rparr>) q)"
    by (simp add: sent_def assms(2,7) sq_upd_def w same) (simp add: split_pieces [OF assms(3-5)] take_add take_map drop_map)
  show "sq_ok c t (sq_upd (storeWBIt q - sq_head q) (\<lambda>e. e\<lparr>numOutstandingPackets := numOutstandingPackets e + k\<rparr>) q)"
    using assms by (simp add: sq_ok_def sq_upd_def w same)
  show "backlog t (sq_upd (storeWBIt q - sq_head q) (\<lambda>e. e\<lparr>numOutstandingPackets := numOutstandingPackets e + k\<rparr>) q) < backlog t q" if "k \<noteq> 0"
    unfolding backlog_def wq using that assms(6) by (simp add: sq_upd_def w assms(2,7))
qed

lemma head_entry:
  assumes "sq_ok c t q" and "sq_entries q = e # es" and "canWB e"
  shows "wb_entry q = e" "entry_plain c t e" "\<not> isDataPrefetch e" "\<not> isDirect e" "(isSplitStoreAddr e \<and> \<not> splitStoreFinish e) = False"
    "numOutstandingPackets e = 0 \<or> sq_isSplit e \<and> sq_size e \<noteq> 0 \<and> numOutstandingPackets e < length (sq_reqs e)"
    "\<not> (storesToWB q = 0 \<or> \<not> wb_ready q)"
proof -
  have w: "storeWBIt q = sq_head q" "storesToWB q \<noteq> 0"
    using assms by (simp_all add: sq_ok_def)
  then show "wb_entry q = e" "\<not> (storesToWB q = 0 \<or> \<not> wb_ready q)"
    using assms(2,3) by (simp_all add: wb_entry_def wb_ready_def sq_end_def)
  have mem: "e \<in> set (sq_entries q)"
    by (simp add: assms(2))
  show pl: "entry_plain c t e"
    and "numOutstandingPackets e = 0 \<or> sq_isSplit e \<and> sq_size e \<noteq> 0 \<and> numOutstandingPackets e < length (sq_reqs e)"
    and "(isSplitStoreAddr e \<and> \<not> splitStoreFinish e) = False"
    using assms(1,3) mem unfolding sq_ok_def by blast+
  show "\<not> isDataPrefetch e" "\<not> isDirect e"
    using pl by (simp_all add: entry_plain_def)
qed

text \<open>One turn of the loop: the head leaves, some of its parts do, or nothing happens.\<close>

lemma offload_split:
  assumes "cfg_ok c" and "run_inv c s" and "\<not> storeBufferBlocked s" and "sq_ok c t q" and "sq_entries q = e # es" and "canWB e"
    and "sq_size e \<noteq> 0" and "n \<noteq> 0" and "sq_isSplit e"
  shows "\<exists>k b evs. let ps = drop (numOutstandingPackets e) (sq_reqs e) in k \<le> length ps \<and>
    sb_run c evs s = Some (map (part_store t e) (take k ps), s\<lparr>storeBuffer := b\<rparr>) \<and>
    run_inv c (s\<lparr>storeBuffer := b\<rparr>) \<and> \<not> storeBufferBlocked (s\<lparr>storeBuffer := b\<rparr>) \<and>
    (k = 0 \<longrightarrow> b = storeBuffer s \<and> (ps = [] \<or> sb_full (storeBuffer s))) \<and>
    offload_loop c t n q s =
      (if numOutstandingPackets e + k = length (sq_reqs e) then offload_loop c t (n - 1) (advanced q) (s\<lparr>storeBuffer := b\<rparr>)
       else Some (False, sq_upd (storeWBIt q - sq_head q) (\<lambda>e. e\<lparr>numOutstandingPackets := numOutstandingPackets e + k\<rparr>) q, s\<lparr>storeBuffer := b\<rparr>))"
proof -
  note h = head_entry [OF assms(4-6)]
  let ?ps = "drop (numOutstandingPackets e) (sq_reqs e)"
  have "\<forall>p\<in>set ?ps. unat (pt_vaddr p - sq_vaddr e) + pt_size p \<le> sq_size e \<and>
      access_ok c t (pt_vaddr p) (pt_paddr p) (part_data e p) (pt_mask p) \<and> block_in_pmem c (cacheBlock c (pt_paddr p))"
    using h(2,3) assms(7,9) by (auto simp: entry_plain_def accesses_def dest!: in_set_dropD)
  from parts_run [OF assms(2,1,3) this]
  obtain k b evs where k: "offload_parts c t e ?ps (storeBuffer s) = Some (k, b)" "k \<le> length ?ps"
    "sb_run c evs s = Some (map (part_store t e) (take k ?ps), s\<lparr>storeBuffer := b\<rparr>)"
    "run_inv c (s\<lparr>storeBuffer := b\<rparr>)" "\<not> storeBufferBlocked (s\<lparr>storeBuffer := b\<rparr>)" "k = 0 \<longrightarrow> b = storeBuffer s \<and> (?ps = [] \<or> sb_full (storeBuffer s))"
    by blast
  then show ?thesis
    unfolding Let_def offload_loop.simps [of c t n q s, unfolded Let_def h(1)] using assms(7-9) h(3,4,7)
    by (intro exI [of _ k] exI [of _ b] exI [of _ evs]) (simp add: complete_head(2) [OF assms(4,5)])
qed

lemma offload_plain:
  assumes "cfg_ok c" and "run_inv c s" and "\<not> storeBufferBlocked s" and "sq_ok c t q" and "sq_entries q = e # es" and "canWB e"
    and "sq_size e \<noteq> 0" and "n \<noteq> 0" and "\<not> sq_isSplit e"
  shows "\<exists>ok b evs. sb_run c evs s = Some (if ok then pieces t e else [], s\<lparr>storeBuffer := b\<rparr>) \<and>
    run_inv c (s\<lparr>storeBuffer := b\<rparr>) \<and> \<not> storeBufferBlocked (s\<lparr>storeBuffer := b\<rparr>) \<and> (\<not> ok \<longrightarrow> sb_full (storeBuffer s)) \<and>
    offload_loop c t n q s = (if ok then offload_loop c t (n - 1) (advanced q) (s\<lparr>storeBuffer := b\<rparr>) else Some (False, q, s))"
proof -
  note h = head_entry [OF assms(4-6)]
  have acc: "access_ok c t (sq_vaddr e) (physEffAddr e) (take (sq_size e) (sq_data e)) (sq_mask e)"
    "block_in_pmem c (cacheBlock c (physEffAddr e))"
    "pieces t e = [(t, physEffAddr e, take (sq_size e) (sq_data e), sq_mask e)]"
    using h(2,3) assms(7,9) by (auto simp: entry_plain_def accesses_def pieces_def as_store_def)
  obtain ok b evs where b: "insertStoreBuffer c t (sq_vaddr e) (physEffAddr e) (take (sq_size e) (sq_data e)) (sq_mask e) (storeBuffer s) = Some (ok, b)"
    "sb_run c evs s = Some (if ok then pieces t e else [], s\<lparr>storeBuffer := b\<rparr>)"
    "run_inv c (s\<lparr>storeBuffer := b\<rparr>)" "\<not> storeBufferBlocked (s\<lparr>storeBuffer := b\<rparr>)" "\<not> ok \<longrightarrow> sb_full (storeBuffer s) \<and> b = storeBuffer s"
    using insert_run [OF assms(2,1,3) acc(1,2)] unfolding acc(3) by blast
  then show ?thesis
    unfolding offload_loop.simps [of c t n q s, unfolded Let_def h(1)] using assms(7-9) h(3-5,7)
    by (intro exI [of _ ok] exI [of _ b] exI [of _ evs]) (cases ok; auto simp: advanced_def)
qed

lemma offload_turn:
  assumes "cfg_ok c" and "run_inv c s" and "\<not> storeBufferBlocked s" and "sq_ok c t q" and "sq_entries q = e # es" and "canWB e"
  obtains (leaves) n' b evs where "offload_loop c t n q s = offload_loop c t n' (advanced q) (s\<lparr>storeBuffer := b\<rparr>)"
      "sb_run c evs s = Some (drop (numOutstandingPackets e) (pieces t e), s\<lparr>storeBuffer := b\<rparr>)" "run_inv c (s\<lparr>storeBuffer := b\<rparr>)"
      "\<not> storeBufferBlocked (s\<lparr>storeBuffer := b\<rparr>)"
  | (parts) k b evs where "k \<noteq> 0" "numOutstandingPackets e + k < length (sq_reqs e)" "sq_size e \<noteq> 0" "sq_isSplit e"
      "offload_loop c t n q s =
        Some (False, sq_upd (storeWBIt q - sq_head q) (\<lambda>e. e\<lparr>numOutstandingPackets := numOutstandingPackets e + k\<rparr>) q, s\<lparr>storeBuffer := b\<rparr>)"
      "sb_run c evs s = Some (map (part_store t e) (take k (drop (numOutstandingPackets e) (sq_reqs e))), s\<lparr>storeBuffer := b\<rparr>)"
      "run_inv c (s\<lparr>storeBuffer := b\<rparr>)"
  | (stays) "offload_loop c t n q s = Some (False, q, s)" "sq_size e \<noteq> 0" "n = 0 \<or> sb_full (storeBuffer s)"
proof -
  note h = head_entry [OF assms(4-6)] and eq = offload_loop.simps [of c t n q s, unfolded Let_def head_entry(1) [OF assms(4-6)]]
  consider "sq_size e = 0" | "sq_size e \<noteq> 0" "n = 0" | "sq_size e \<noteq> 0" "n \<noteq> 0" "sq_isSplit e" | "sq_size e \<noteq> 0" "n \<noteq> 0" "\<not> sq_isSplit e"
    by blast
  then show thesis
  proof cases
    case 1
    then have "pieces t e = []"
      by (simp add: pieces_def accesses_def)
    then show thesis
      using leaves [of n "storeBuffer s" "[]"] 1 h(7) assms(2,3) by (simp add: eq advanced_def)
  next
    case 2
    then have "offload_loop c t n q s = Some (False, q, s)"
      unfolding eq using h(3,7) by simp
    then show thesis
      using stays 2 by blast
  next
    case 3
    let ?ps = "drop (numOutstandingPackets e) (sq_reqs e)"
    obtain k b evs where k: "k \<le> length ?ps" "sb_run c evs s = Some (map (part_store t e) (take k ?ps), s\<lparr>storeBuffer := b\<rparr>)"
      "run_inv c (s\<lparr>storeBuffer := b\<rparr>)" "\<not> storeBufferBlocked (s\<lparr>storeBuffer := b\<rparr>)"
      "k = 0 \<longrightarrow> b = storeBuffer s \<and> (?ps = [] \<or> sb_full (storeBuffer s))"
      and l: "offload_loop c t n q s =
        (if numOutstandingPackets e + k = length (sq_reqs e) then offload_loop c t (n - 1) (advanced q) (s\<lparr>storeBuffer := b\<rparr>)
         else Some (False, sq_upd (storeWBIt q - sq_head q) (\<lambda>e. e\<lparr>numOutstandingPackets := numOutstandingPackets e + k\<rparr>) q, s\<lparr>storeBuffer := b\<rparr>))"
      using offload_split [OF assms 3] unfolding Let_def by blast
    have lt: "numOutstandingPackets e + k \<noteq> length (sq_reqs e) \<Longrightarrow> numOutstandingPackets e + k < length (sq_reqs e)"
      using k(1) h(6) by auto
    show thesis
    proof (cases "numOutstandingPackets e + k = length (sq_reqs e)")
      case True
      then show thesis
        using leaves [OF _ _ k(3,4)] k(2) l 3 h(3) by (simp add: split_pieces drop_map)
    next
      case False
      show thesis
      proof (cases "k = 0")
        case True
        then have "sq_upd (storeWBIt q - sq_head q) (\<lambda>e. e\<lparr>numOutstandingPackets := numOutstandingPackets e + k\<rparr>) q = q"
          by (simp add: sq_upd_def)
        then show thesis
          using stays 3 False True k(5) l lt [OF False] by simp
      next
        case k0: False
        show thesis
          using parts [OF k0 lt [OF False] 3(1,3) _ k(2,3)] l False by simp
      qed
    qed
  next
    case 4
    have z: "drop (numOutstandingPackets e) (pieces t e) = pieces t e"
      using h(6) 4(3) by simp
    obtain ok b evs where b: "sb_run c evs s = Some (if ok then pieces t e else [], s\<lparr>storeBuffer := b\<rparr>)" "run_inv c (s\<lparr>storeBuffer := b\<rparr>)"
      "\<not> storeBufferBlocked (s\<lparr>storeBuffer := b\<rparr>)" "\<not> ok \<longrightarrow> sb_full (storeBuffer s)"
      "offload_loop c t n q s = (if ok then offload_loop c t (n - 1) (advanced q) (s\<lparr>storeBuffer := b\<rparr>) else Some (False, q, s))"
      using offload_plain [OF assms 4] by blast
    show thesis
    proof (cases ok)
      case True
      then show thesis
        using leaves [OF _ _ b(2,3)] b(1,5) z by simp
    next
      case False
      then show thesis
        using stays 4(1) b(4,5) by simp
    qed
  qed
qed

lemma offload_nothing: "sq_ok c t q \<Longrightarrow> takeWhile canWB (sq_entries q) = [] \<Longrightarrow> offload_loop c t n q s = Some (False, q, s)"
  by (simp add: offload_loop.simps [of c t n q s] sq_ok_def)

lemma offload_ok:
  assumes "cfg_ok c"
  shows "run_inv c s \<Longrightarrow> \<not> storeBufferBlocked s \<Longrightarrow> sq_ok c t q \<Longrightarrow> handed c t q s (offload_loop c t n q s)"
proof (induction "length (sq_entries q)" arbitrary: n q s rule: less_induct)
  case less
  show ?case
  proof (cases "takeWhile canWB (sq_entries q)")
    case Nil
    then show ?thesis
      using handed_refl [OF less.prems(3,1)] offload_nothing [OF less.prems(3)] by simp
  next
    case (Cons e xs)
    then obtain es where es: "sq_entries q = e # es" "canWB e"
      by (cases "sq_entries q") (auto split: if_splits)
    note a = advanced_stores [OF less.prems(3) es]
    show ?thesis
    proof (cases rule: offload_turn [OF assms less.prems es, of n, case_names leaves parts stays])
      case (leaves n' b evs)
      have "handed c t (advanced q) (s\<lparr>storeBuffer := b\<rparr>) (offload_loop c t n' (advanced q) (s\<lparr>storeBuffer := b\<rparr>))"
        using less.hyps [OF _ leaves(3,4) advanced_ok [OF less.prems(3) es]] by (simp add: complete_head(1) [OF less.prems(3) es(1)] es(1))
      then show ?thesis
        unfolding leaves(1) using handed_step [OF leaves(2) a(1,2) _ a(3)] by blast
    next
      case (parts k b evs)
      show ?thesis
        unfolding parts(5)
        using handedI [OF parts(6) partial_head(1-3) [OF less.prems(3) es(1) parts(4,3) head_entry(3) [OF less.prems(3) es] parts(2) es(2)] parts(7)]
          partial_head(4) [OF less.prems(3) es(1) parts(4,3) head_entry(3) [OF less.prems(3) es] parts(2) es(2) parts(1)] by blast
    next
      case stays
      then show ?thesis
        using handed_refl [OF less.prems(3,1)] by simp
    qed
  qed
qed

text \<open>A thread with committed stores makes progress when it has a quota and the buffer has room.\<close>

lemma offload_moves:
  assumes "cfg_ok c" and "run_inv c s" and "\<not> storeBufferBlocked s" and "sq_ok c t q" and "sq_entries q = e # es" and "canWB e"
    and "sq_size e = 0 \<or> n \<noteq> 0 \<and> \<not> sb_full (storeBuffer s)"
  shows "offload_loop c t n q s \<noteq> Some (False, q, s)"
proof (cases rule: offload_turn [OF assms(1-6), of n, case_names leaves parts stays])
  case (leaves n' b evs)
  have "handed c t (advanced q) (s\<lparr>storeBuffer := b\<rparr>) (offload_loop c t n' (advanced q) (s\<lparr>storeBuffer := b\<rparr>))"
    using offload_ok [OF assms(1) leaves(3,4) advanced_ok [OF assms(4-6)]] .
  then show ?thesis
    using advanced_stores(3) [OF assms(4-6)] leaves(1) by (auto simp: handed_def)
next
  case (parts k b evs)
  then show ?thesis
    using partial_head(4) [OF assms(4,5) parts(4,3) head_entry(3) [OF assms(4-6)] parts(2) assms(6) parts(1)] by auto
next
  case stays
  then show ?thesis
    using assms(7) by (elim disjE conjE) simp_all
qed

end
