(* ===== verification/LsqRun.thy ===== *)
theory LsqRun
  imports StoreQueueRun
begin

text \<open>
  Runs of the store queues of all threads with the store buffer: stores are inserted, executed, committed,
  squashed and handed over in any interleaving, and an invariant of all of them.
\<close>

section \<open>Runs\<close>

datatype lsq_event =
  LInsert thread_id nat bool "byte list"
| LExecute thread_id nat st_request "byte list"
| LNoWrite thread_id nat bool bool
| LData thread_id nat "byte list"
| LFinish thread_id nat
| LCommit thread_id nat
| LSquash thread_id nat
| LCycle bool
| LRetry bool
| LResponse nat
| LFlush

definition set_unit :: "thread_id \<Rightarrow> store_queue \<Rightarrow> lsq_state \<Rightarrow> lsq_state" where
  "set_unit t q l = l\<lparr>lsq_units := (lsq_units l)(t := q)\<rparr>"

definition lsq_init :: "sb_cfg \<Rightarrow> nat \<Rightarrow> (addr \<Rightarrow> byte) \<Rightarrow> lsq_state" where
  "lsq_init c cap m = \<lparr>lsq_units = \<lambda>t. sq_init cap, lsq_sb = sb_init c m, nextStoreBufferOffloadTid = None\<rparr>"

text \<open>The entries that \<open>commitStores\<close> marks.\<close>

definition newly_committed :: "nat \<Rightarrow> sq_entry list \<Rightarrow> sq_entry list" where
  "newly_committed youngest es = takeWhile (\<lambda>e. sq_seqNum e \<le> youngest) (dropWhile canWB es)"

definition data_entry :: "byte list \<Rightarrow> sq_entry \<Rightarrow> sq_entry" where
  "data_entry data e = e\<lparr>sq_data := overwrite 0 data (sq_data e), dataReady := True, stdFinish := True\<rparr>"

text \<open>What reaches a queue: a store with room for it, the execution of a store that is not committed yet, with
  a request for memory that goes through the store buffer or without one (a fault, or a predicate that is false),
  and the commit of stores that are finished.\<close>

fun lsq_env :: "sb_cfg \<Rightarrow> lsq_event \<Rightarrow> lsq_state \<Rightarrow> bool" where
  "lsq_env c (LInsert t seq sa old) l \<longleftrightarrow>
     length (sq_entries (lsq_units l t)) < sq_capacity (lsq_units l t)"
| "lsq_env c (LExecute t i r data) l \<longleftrightarrow>
     (let es = sq_entries (lsq_units l t) in
      i < length es \<and> \<not> canWB (es ! i) \<and> (case sq_write r data (es ! i) of None \<Rightarrow> False | Some e \<Rightarrow> entry_plain c t e))"
| "lsq_env c (LNoWrite t i pred fault) l \<longleftrightarrow>
     (let es = sq_entries (lsq_units l t) in i < length es \<and> \<not> canWB (es ! i) \<and> sq_size (es ! i) = 0)"
| "lsq_env c (LData t i data) l \<longleftrightarrow>
     (let es = sq_entries (lsq_units l t) in i < length es \<and> \<not> canWB (es ! i) \<and> entry_plain c t (data_entry data (es ! i)))"
| "lsq_env c (LFinish t i) l \<longleftrightarrow>
     (let es = sq_entries (lsq_units l t) in i < length es \<and> \<not> canWB (es ! i))"
| "lsq_env c (LCommit t youngest) l \<longleftrightarrow>
     (\<forall>e\<in>set (sq_entries (lsq_units l t)). sq_seqNum e \<le> youngest \<and> isSplitStoreAddr e \<longrightarrow> splitStoreFinish e)"
| "lsq_env c (LResponse i) l \<longleftrightarrow> sb_env c (SBResponse i) (lsq_sb l)"
| "lsq_env c _ l \<longleftrightarrow> True"

text \<open>A step also returns the stores it commits.\<close>

fun lsq_step :: "sb_cfg \<Rightarrow> thread_id list \<Rightarrow> lsq_event \<Rightarrow> lsq_state \<Rightarrow> (sb_store list \<times> lsq_state) option" where
  "lsq_step c active (LInsert t seq sa old) l =
     map_option (\<lambda>q. ([], set_unit t q l)) (sq_insertStore (sq_new seq sa False False old) (lsq_units l t))"
| "lsq_step c active (LExecute t i r data) l =
     map_option (\<lambda>q. ([], set_unit t q l)) (storeDoWriteSQ i True False (Some r) data (lsq_units l t))"
| "lsq_step c active (LNoWrite t i pred fault) l =
     map_option (\<lambda>q. ([], set_unit t q l)) (storeDoWriteSQ i pred fault None [] (lsq_units l t))"
| "lsq_step c active (LData t i data) l = Some ([], set_unit t (storeData i data (lsq_units l t)) l)"
| "lsq_step c active (LFinish t i) l = Some ([], set_unit t (storePipeFinish i (lsq_units l t)) l)"
| "lsq_step c active (LCommit t youngest) l =
     map_option (\<lambda>q. (concat (map (pieces t) (newly_committed youngest (sq_entries (lsq_units l t)))), set_unit t q l))
       (commitStores youngest (lsq_units l t))"
| "lsq_step c active (LSquash t sn) l = Some ([], set_unit t (sq_squash sn (lsq_units l t)) l)"
| "lsq_step c active (LCycle accept) l = map_option (Pair []) (processWriteback c active accept l)"
| "lsq_step c active (LRetry accept) l =
     map_option (\<lambda>(r, s). ([], l\<lparr>lsq_sb := s\<rparr>)) (retryBlockedStoreBuffer accept (lsq_sb l))"
| "lsq_step c active (LResponse i) l = map_option (\<lambda>s. ([], l\<lparr>lsq_sb := s\<rparr>)) (completeSbufferEvict c i (lsq_sb l))"
| "lsq_step c active LFlush l = Some ([], l\<lparr>lsq_sb := flushStores (lsq_sb l)\<rparr>)"

fun lsq_run :: "sb_cfg \<Rightarrow> thread_id list \<Rightarrow> lsq_event list \<Rightarrow> lsq_state \<Rightarrow> (sb_store list \<times> lsq_state) option" where
  "lsq_run c active [] l = Some ([], l)"
| "lsq_run c active (ev # evs) l =
     (if \<not> lsq_env c ev l then lsq_run c active evs l
      else case lsq_step c active ev l of
        None \<Rightarrow> None
      | Some (st, l1) \<Rightarrow> map_option (\<lambda>(sts, l2). (st @ sts, l2)) (lsq_run c active evs l1))"

section \<open>Invariant\<close>

definition of_thread :: "thread_id \<Rightarrow> sb_store list \<Rightarrow> sb_store list" where
  "of_thread t l = filter (\<lambda>st. fst st = t) l"

lemma of_thread_simps [simp]:
  "of_thread t [] = []" "of_thread t (xs @ ys) = of_thread t xs @ of_thread t ys"
  by (simp_all add: of_thread_def)

text \<open>The stores of the thread that are committed and in the queue.\<close>

definition in_queue :: "thread_id \<Rightarrow> store_queue \<Rightarrow> sb_store list" where
  "in_queue t q = concat (map (pieces t) (takeWhile canWB (sq_entries q)))"

text \<open>The committed stores of a thread are those that have left the queue followed by those in it; the buffer
  has accepted the former and a part of the oldest of the latter.\<close>

definition lsq_inv :: "sb_cfg \<Rightarrow> (addr \<Rightarrow> byte) \<Rightarrow> sb_store list \<Rightarrow> lsq_state \<Rightarrow> bool" where
  "lsq_inv c m commits l \<longleftrightarrow>
     (\<exists>evs log. sb_run c evs (sb_init c m) = Some (log, lsq_sb l) \<and> run_inv c (lsq_sb l) \<and>
        (\<forall>t. sq_ok c t (lsq_units l t) \<and>
           (\<exists>left. of_thread t log = left @ sent t (lsq_units l t) \<and> of_thread t commits = left @ in_queue t (lsq_units l t))))"

lemma piece_thread: "st \<in> set (pieces t e) \<Longrightarrow> fst st = t"
  by (auto simp: pieces_def as_store_def)

lemma of_thread_own: "\<forall>st\<in>set l. fst st = t \<Longrightarrow> of_thread u l = (if u = t then l else [])"
  by (auto simp: of_thread_def filter_id_conv filter_empty_conv)

lemma unit_change:
  assumes "lsq_inv c m commits l" and "sq_ok c t q" and "in_queue t q = in_queue t (lsq_units l t) @ new"
    and "sent t q = sent t (lsq_units l t)" and "\<forall>st\<in>set new. fst st = t"
  shows "lsq_inv c m (commits @ new) (set_unit t q l)"
proof -
  obtain evs log where run: "sb_run c evs (sb_init c m) = Some (log, lsq_sb l)" "run_inv c (lsq_sb l)"
    and th: "\<forall>t. sq_ok c t (lsq_units l t) \<and>
      (\<exists>left. of_thread t log = left @ sent t (lsq_units l t) \<and> of_thread t commits = left @ in_queue t (lsq_units l t))"
    using assms(1) unfolding lsq_inv_def by blast
  have "sq_ok c u (lsq_units (set_unit t q l) u) \<and>
      (\<exists>left. of_thread u log = left @ sent u (lsq_units (set_unit t q l) u) \<and>
        of_thread u (commits @ new) = left @ in_queue u (lsq_units (set_unit t q l) u))" for u
    using th [rule_format, of u] assms(2-4) of_thread_own [OF assms(5), of u] by (cases "u = t") (auto simp: set_unit_def)
  then show ?thesis
    using run unfolding lsq_inv_def by (intro exI [of _ evs] exI [of _ log]) (simp add: set_unit_def)
qed

lemma sb_change:
  assumes "lsq_inv c m commits l" and "sb_run c evs (lsq_sb l) = Some ([], s)" and "run_inv c s"
  shows "lsq_inv c m commits (l\<lparr>lsq_sb := s\<rparr>)" "lsq_inv c m commits (l\<lparr>lsq_sb := s, nextStoreBufferOffloadTid := x\<rparr>)"
proof -
  obtain evs' log where r: "sb_run c evs' (sb_init c m) = Some (log, lsq_sb l)"
    and th: "\<forall>t. sq_ok c t (lsq_units l t) \<and>
      (\<exists>left. of_thread t log = left @ sent t (lsq_units l t) \<and> of_thread t commits = left @ in_queue t (lsq_units l t))"
    using assms(1) unfolding lsq_inv_def by blast
  have "sb_run c (evs' @ evs) (sb_init c m) = Some (log, s)"
    using r assms(2) by (simp add: sb_run_append)
  then show "lsq_inv c m commits (l\<lparr>lsq_sb := s\<rparr>)" "lsq_inv c m commits (l\<lparr>lsq_sb := s, nextStoreBufferOffloadTid := x\<rparr>)"
    using th assms(3) unfolding lsq_inv_def by auto
qed

lemma offload_step:
  assumes "lsq_inv c m commits l" and "cfg_ok c" and "\<not> storeBufferBlocked (lsq_sb l)"
  shows "\<exists>q b. offloadToStoreBuffer c t n (lsq_units l t) (lsq_sb l) = Some (False, q, (lsq_sb l)\<lparr>storeBuffer := b\<rparr>) \<and>
    lsq_inv c m commits (l\<lparr>lsq_units := (lsq_units l)(t := q), lsq_sb := (lsq_sb l)\<lparr>storeBuffer := b\<rparr>\<rparr>) \<and>
    (q = lsq_units l t \<and> b = storeBuffer (lsq_sb l) \<or> backlog t q < backlog t (lsq_units l t))"
proof -
  let ?q = "lsq_units l t"
  obtain evs log where r: "sb_run c evs (sb_init c m) = Some (log, lsq_sb l)" "run_inv c (lsq_sb l)"
    and th: "\<And>t. sq_ok c t (lsq_units l t) \<and>
      (\<exists>left. of_thread t log = left @ sent t (lsq_units l t) \<and> of_thread t commits = left @ in_queue t (lsq_units l t))"
    using assms(1) unfolding lsq_inv_def by blast
  have "\<not> isStoreBlocked ?q"
    using th [of t] by (simp add: sq_ok_def)
  then have "handed c t ?q (lsq_sb l) (offloadToStoreBuffer c t n ?q (lsq_sb l))"
    using offload_ok [OF assms(2) r(2) assms(3), of t ?q n] th [of t] assms(3) by (simp add: offloadToStoreBuffer_def)
  then obtain q' b log' evs' dn where h: "offloadToStoreBuffer c t n ?q (lsq_sb l) = Some (False, q', (lsq_sb l)\<lparr>storeBuffer := b\<rparr>)"
    "sb_run c evs' (lsq_sb l) = Some (log', (lsq_sb l)\<lparr>storeBuffer := b\<rparr>)" "waiting t ?q = log' @ waiting t q'"
    "sent t ?q @ log' = dn @ sent t q'" "sq_ok c t q'" "run_inv c ((lsq_sb l)\<lparr>storeBuffer := b\<rparr>)"
    "q' = ?q \<and> b = storeBuffer (lsq_sb l) \<or> backlog t q' < backlog t ?q"
    unfolding handed_def by blast
  have run: "sb_run c (evs @ evs') (sb_init c m) = Some (log @ log', (lsq_sb l)\<lparr>storeBuffer := b\<rparr>)"
    using r(1) h(2) by (simp add: sb_run_append)
  have "\<forall>st\<in>set (waiting t ?q). fst st = t"
    using piece_thread by (auto simp: waiting_def split: list.splits dest!: in_set_dropD)
  then have own: "\<forall>st\<in>set log'. fst st = t"
    by (simp add: h(3))
  have full: "in_queue t ?q = dn @ in_queue t q'"
    using h(3,4) unfolding in_queue_def sent_waiting [symmetric] by (metis append.assoc)
  have "sq_ok c u (((lsq_units l)(t := q')) u) \<and>
      (\<exists>left. of_thread u (log @ log') = left @ sent u (((lsq_units l)(t := q')) u) \<and>
        of_thread u commits = left @ in_queue u (((lsq_units l)(t := q')) u))" for u
  proof (cases "u = t")
    case True
    obtain left where "of_thread t log = left @ sent t ?q" "of_thread t commits = left @ in_queue t ?q"
      using th by blast
    then show ?thesis
      using True h(4,5) full of_thread_own [OF own, of t] by (intro conjI exI [of _ "left @ dn"]) simp_all
  next
    case False
    then show ?thesis
      using th [of u] of_thread_own [OF own, of u] by simp
  qed
  then have "lsq_inv c m commits (l\<lparr>lsq_units := (lsq_units l)(t := q'), lsq_sb := (lsq_sb l)\<lparr>storeBuffer := b\<rparr>\<rparr>)"
    using h(6) run unfolding lsq_inv_def by (intro exI [of _ "evs @ evs'"] exI [of _ "log @ log'"]) (simp del: fun_upd_apply)
  then show ?thesis
    using h(1,7) by blast
qed

text \<open>The committed stores of all threads that are left to hand over.\<close>

definition total_backlog :: "thread_id list \<Rightarrow> lsq_state \<Rightarrow> nat" where
  "total_backlog active l = (\<Sum>t\<in>set active. backlog t (lsq_units l t))"

lemma total_backlog_less:
  assumes "t \<in> set active" and "backlog t q < backlog t (lsq_units l t)"
  shows "total_backlog active (l\<lparr>lsq_units := (lsq_units l)(t := q), lsq_sb := s\<rparr>) < total_backlog active l"
  unfolding total_backlog_def using assms by (intro sum_strict_mono_ex1) auto

text \<open>The threads together make progress, or none of them changes anything.\<close>

lemma offload_threads_ok:
  assumes "cfg_ok c"
  shows "lsq_inv c m commits l \<Longrightarrow> \<not> storeBufferBlocked (lsq_sb l) \<Longrightarrow> set ts \<subseteq> set active \<Longrightarrow>
    \<exists>l'. offload_threads c quota ts l = Some l' \<and> lsq_inv c m commits l' \<and>
      storeBufferFlushing (lsq_sb l') = storeBufferFlushing (lsq_sb l) \<and>
      (total_backlog active l' < total_backlog active l \<or> l' = l \<and>
        (\<forall>t\<in>set ts. offloadToStoreBuffer c t (quota t) (lsq_units l t) (lsq_sb l) = Some (False, lsq_units l t, lsq_sb l)))"
proof (induction ts arbitrary: l)
  case (Cons t ts)
  obtain q b where o: "offloadToStoreBuffer c t (quota t) (lsq_units l t) (lsq_sb l) = Some (False, q, (lsq_sb l)\<lparr>storeBuffer := b\<rparr>)"
    "lsq_inv c m commits (l\<lparr>lsq_units := (lsq_units l)(t := q), lsq_sb := (lsq_sb l)\<lparr>storeBuffer := b\<rparr>\<rparr>)"
    "q = lsq_units l t \<and> b = storeBuffer (lsq_sb l) \<or> backlog t q < backlog t (lsq_units l t)"
    using offload_step [OF Cons.prems(1) assms Cons.prems(2)] by blast
  define l1 where "l1 = l\<lparr>lsq_units := (lsq_units l)(t := q), lsq_sb := (lsq_sb l)\<lparr>storeBuffer := b\<rparr>\<rparr>"
  have l1: "\<not> storeBufferBlocked (lsq_sb l1)" "storeBufferFlushing (lsq_sb l1) = storeBufferFlushing (lsq_sb l)"
    using Cons.prems(2) by (simp_all add: l1_def storeBufferBlocked_def)
  have less: "l1 = l \<and> b = storeBuffer (lsq_sb l) \<and> q = lsq_units l t \<or> total_backlog active l1 < total_backlog active l"
    using o(3) total_backlog_less [of t active q l] Cons.prems(3) by (auto simp: l1_def)
  obtain l' where l': "offload_threads c quota ts l1 = Some l'" "lsq_inv c m commits l'"
    "storeBufferFlushing (lsq_sb l') = storeBufferFlushing (lsq_sb l1)"
    "total_backlog active l' < total_backlog active l1 \<or> l' = l1 \<and>
        (\<forall>t\<in>set ts. offloadToStoreBuffer c t (quota t) (lsq_units l1 t) (lsq_sb l1) = Some (False, lsq_units l1 t, lsq_sb l1))"
    using Cons.IH [OF o(2) [folded l1_def] l1(1)] Cons.prems(3) by auto
  have "offload_threads c quota (t # ts) l = Some l'"
    using o(1) l'(1) by (simp add: l1_def)
  then show ?case
    using l'(2-4) l1(2) less o(1) by auto
qed simp

section \<open>Every step keeps the invariant\<close>

lemma takeWhile_update:
  assumes "i < length xs" and "\<not> P (xs ! i)" and "\<not> P y"
  shows "takeWhile P (xs[i := y]) = takeWhile P xs" "dropWhile P (xs[i := y]) = (dropWhile P xs)[i - length (takeWhile P xs) := y]"
proof -
  have "takeWhile P (xs[i := y]) = takeWhile P xs \<and> dropWhile P (xs[i := y]) = (dropWhile P xs)[i - length (takeWhile P xs) := y]"
    using assms
  proof (induction xs arbitrary: i)
    case (Cons x xs)
    then show ?case
      by (cases i) auto
  qed simp
  then show "takeWhile P (xs[i := y]) = takeWhile P xs" "dropWhile P (xs[i := y]) = (dropWhile P xs)[i - length (takeWhile P xs) := y]"
    by simp_all
qed

lemma queue_view:
  assumes "takeWhile canWB (sq_entries q') = takeWhile canWB (sq_entries q)"
  shows "in_queue t q' = in_queue t q" "sent t q' = sent t q"
  by (simp_all add: in_queue_def sent_def assms)

text \<open>The entries of a queue are those of another one and one that is not committed.\<close>

lemma sq_ok_insert:
  assumes "sq_ok c t q" and "storeWBIt q' = sq_head q'" and "entry_plain c t e" and "\<not> canWB e" and "\<not> completed e" and "numOutstandingPackets e = 0"
    and "set (sq_entries q') \<subseteq> insert e (set (sq_entries q))" and "set (tl (sq_entries q')) \<subseteq> insert e (set (tl (sq_entries q)))"
    and "set (dropWhile canWB (sq_entries q')) \<subseteq> insert e (set (dropWhile canWB (sq_entries q)))"
    and "takeWhile canWB (sq_entries q') = takeWhile canWB (sq_entries q)" and "storesToWB q' = storesToWB q \<and> isStoreBlocked q' = isStoreBlocked q"
  shows "sq_ok c t q'"
proof -
  define P where "P = (\<lambda>e. entry_plain c t e \<and> \<not> completed e \<and> (canWB e \<and> isSplitStoreAddr e \<longrightarrow> splitStoreFinish e) \<and>
        (numOutstandingPackets e = 0 \<or> canWB e \<and> sq_isSplit e \<and> sq_size e \<noteq> 0 \<and> numOutstandingPackets e < length (sq_reqs e)))"
  have eq: "sq_ok c t q \<longleftrightarrow> storeWBIt q = sq_head q \<and> (\<forall>e\<in>set (sq_entries q). P e) \<and>
     (\<forall>e\<in>set (tl (sq_entries q)). numOutstandingPackets e = 0) \<and> (\<forall>e\<in>set (dropWhile canWB (sq_entries q)). \<not> canWB e) \<and>
     storesToWB q = length (takeWhile canWB (sq_entries q)) \<and> \<not> isStoreBlocked q" for q
    by (simp only: sq_ok_def P_def)
  have "P e"
    using assms(3-6) by (simp add: P_def)
  then show ?thesis
    using assms(1,2,4,6-9) unfolding eq assms(10,11) by (simp add: assms(11)) blast
qed

text \<open>An entry that is not committed changes.\<close>

lemma entry_change:
  assumes "lsq_inv c m commits l" and "i < length (sq_entries (lsq_units l t))" and "\<not> canWB (sq_entries (lsq_units l t) ! i)"
    and "entry_plain c t e" and "\<not> canWB e" and "\<not> completed e" and "numOutstandingPackets e = 0"
    and "sq_entries q = (sq_entries (lsq_units l t))[i := e]" and "storeWBIt q = storeWBIt (lsq_units l t)" and "sq_head q = sq_head (lsq_units l t)"
    and "storesToWB q = storesToWB (lsq_units l t) \<and> isStoreBlocked q = isStoreBlocked (lsq_units l t)"
  shows "lsq_inv c m commits (set_unit t q l)"
proof -
  let ?q = "lsq_units l t"
  have ok: "sq_ok c t ?q"
    using assms(1) by (auto simp: lsq_inv_def)
  note w = takeWhile_update [OF assms(2), of canWB e, OF assms(3,5)]
  have "tl (xs[i := e]) = (if i = 0 then tl xs else (tl xs)[i - 1 := e])" for xs
    by (cases xs; cases i) auto
  then have sub: "set (sq_entries q) \<subseteq> insert e (set (sq_entries ?q))" "set (tl (sq_entries q)) \<subseteq> insert e (set (tl (sq_entries ?q)))"
    "set (dropWhile canWB (sq_entries q)) \<subseteq> insert e (set (dropWhile canWB (sq_entries ?q)))"
    unfolding assms(8) w(2) by (auto dest: set_update_subset_insert [THEN subsetD] split: if_splits)
  have "storeWBIt q = sq_head q"
    using ok assms(9,10) by (simp add: sq_ok_def)
  then have "sq_ok c t q"
    using sq_ok_insert [OF ok _ assms(4-7) sub _ assms(11)] w(1) assms(8) by simp
  then show ?thesis
    using unit_change [OF assms(1), of t q "[]"] queue_view [of q ?q] w(1) assms(8) by simp
qed

lemma inv_entry:
  assumes "lsq_inv c m commits l" and "i < length (sq_entries (lsq_units l t))" and "\<not> canWB (sq_entries (lsq_units l t) ! i)"
  shows "entry_plain c t (sq_entries (lsq_units l t) ! i)" "\<not> completed (sq_entries (lsq_units l t) ! i)"
    "numOutstandingPackets (sq_entries (lsq_units l t) ! i) = 0"
  using assms nth_mem [OF assms(2)] unfolding lsq_inv_def sq_ok_def by blast+

lemma plain_finish: "entry_plain c t (e\<lparr>staFinish := a, stdFinish := b\<rparr>) = entry_plain c t e"
  "entry_plain c t (e\<lparr>addrReady := x, dataReady := y\<rparr>) = entry_plain c t e"
  "entry_plain c t (e\<lparr>canWB := z\<rparr>) = entry_plain c t e" "pieces t (e\<lparr>canWB := z\<rparr>) = pieces t e"
  by (simp_all add: entry_plain_def accesses_def store_ranges_def part_data_def pieces_def)

lemma plain_new: "entry_plain c t (sq_new seq sa False False old)"
  by (simp add: entry_plain_def accesses_def store_ranges_def sq_new_def)

lemma insert_inv:
  assumes "lsq_inv c m commits l" and "lsq_env c (LInsert t seq sa old) l"
  shows "\<exists>l'. lsq_step c active (LInsert t seq sa old) l = Some ([], l') \<and> lsq_inv c m commits l'"
proof -
  let ?q = "lsq_units l t" and ?e = "sq_new seq sa False False old"
  define q where "q = ?q\<lparr>sq_entries := sq_entries ?q @ [?e]\<rparr>"
  have ok: "sq_ok c t ?q"
    using assms(1) by (auto simp: lsq_inv_def)
  have e: "\<not> canWB ?e" "\<not> completed ?e" "numOutstandingPackets ?e = 0"
    by (simp_all add: sq_new_def)
  have w: "takeWhile canWB (sq_entries q) = takeWhile canWB (sq_entries ?q)"
    using e(1) by (simp add: q_def takeWhile_tail)
  have sub: "set (sq_entries q) \<subseteq> insert ?e (set (sq_entries ?q))" "set (tl (sq_entries q)) \<subseteq> insert ?e (set (tl (sq_entries ?q)))"
    "set (dropWhile canWB (sq_entries q)) \<subseteq> insert ?e (set (dropWhile canWB (sq_entries ?q)))"
    using e(1) by (auto simp: q_def tl_append dropWhile_append split: list.splits if_splits)
  have "storeWBIt q = sq_head q"
    using ok by (simp add: sq_ok_def q_def)
  then have "sq_ok c t q"
    using sq_ok_insert [OF ok _ plain_new e sub w] by (simp add: q_def)
  then have "lsq_inv c m commits (set_unit t q l)"
    using unit_change [OF assms(1), of t q "[]"] queue_view [OF w] by simp
  then show ?thesis
    using assms(2) by (simp add: sq_insertStore_def q_def)
qed

lemma write_keeps:
  assumes "sq_write r data x = Some e"
  shows "canWB e = canWB x" "completed e = completed x" "numOutstandingPackets e = numOutstandingPackets x" "\<not> isDirect e \<Longrightarrow> \<not> isStoreConditional e"
proof -
  obtain s v p k b rs d o' ms z w where "e = x\<lparr>sq_size := s, sq_vaddr := v, physEffAddr := p, sq_mask := k, sq_isSplit := b, sq_reqs := rs,
      isDirect := (d \<or> isAtomic x \<or> isStoreConditional x), strictlyOrdered := o', isCacheMaintenance := ms, isAllZeros := z, sq_data := w\<rparr>"
    using assms unfolding sq_write_def Let_def by (metis option.discI option.inject)
  then show "canWB e = canWB x" "completed e = completed x" "numOutstandingPackets e = numOutstandingPackets x" "\<not> isDirect e \<Longrightarrow> \<not> isStoreConditional e"
    by simp_all
qed

lemma execute_inv:
  assumes "lsq_inv c m commits l" and "lsq_env c (LExecute t i r data) l"
  shows "\<exists>l'. lsq_step c active (LExecute t i r data) l = Some ([], l') \<and> lsq_inv c m commits l'"
proof -
  let ?q = "lsq_units l t"
  let ?o = "sq_entries ?q ! i"
  obtain e where i: "i < length (sq_entries ?q)" "\<not> canWB ?o" and e: "sq_write r data ?o = Some e" "entry_plain c t e"
    using assms(2) by (auto simp: Let_def split: option.splits)
  have keep: "\<not> canWB e" "\<not> completed e" "numOutstandingPackets e = 0" "\<not> isStoreConditional e"
    using e(2) i(2) inv_entry(2,3) [OF assms(1) i] write_keeps [OF e(1)] by (simp_all add: entry_plain_def)
  let ?e = "e\<lparr>addrReady := True, dataReady := (dataReady e \<or> \<not> isSplitStoreAddr e)\<rparr>"
  have "storeDoWriteSQ i True False (Some r) data ?q = Some (?q\<lparr>sq_entries := (sq_entries ?q)[i := ?e], storesToWB := storesToWB ?q\<rparr>)"
    using i(1) e(1) keep(4) by (simp add: storeDoWriteSQ_def Let_def)
  moreover have "lsq_inv c m commits (set_unit t (?q\<lparr>sq_entries := (sq_entries ?q)[i := ?e], storesToWB := storesToWB ?q\<rparr>) l)"
    using entry_change [OF assms(1) i, of ?e] e(2) keep by (simp add: plain_finish)
  ultimately show ?thesis
    by simp
qed

lemma no_write_inv:
  assumes "lsq_inv c m commits l" and "lsq_env c (LNoWrite t i pred fault) l"
  shows "\<exists>l'. lsq_step c active (LNoWrite t i pred fault) l = Some ([], l') \<and> lsq_inv c m commits l'"
proof -
  let ?q = "lsq_units l t"
  let ?o = "sq_entries ?q ! i"
  let ?e = "if pred then ?o\<lparr>addrReady := True, dataReady := (dataReady ?o \<or> \<not> isSplitStoreAddr ?o)\<rparr> else ?o"
  have i: "i < length (sq_entries ?q)" "\<not> canWB ?o" "sq_size ?o = 0"
    using assms(2) by (simp_all add: Let_def)
  note o = inv_entry [OF assms(1) i(1,2)]
  have "storeDoWriteSQ i pred fault None [] ?q = Some (?q\<lparr>sq_entries := (sq_entries ?q)[i := ?e]\<rparr>)"
    using i(1,3) by (simp add: storeDoWriteSQ_def Let_def)
  moreover have "lsq_inv c m commits (set_unit t (?q\<lparr>sq_entries := (sq_entries ?q)[i := ?e]\<rparr>) l)"
    using i(2) o by (intro entry_change [OF assms(1) i(1,2), of ?e]) (simp_all add: plain_finish)
  ultimately show ?thesis
    by simp
qed

lemma data_inv:
  assumes "lsq_inv c m commits l" and "lsq_env c (LData t i data) l"
  shows "\<exists>l'. lsq_step c active (LData t i data) l = Some ([], l') \<and> lsq_inv c m commits l'"
proof -
  let ?q = "lsq_units l t"
  let ?o = "sq_entries ?q ! i"
  have i: "i < length (sq_entries ?q)" "\<not> canWB ?o" "entry_plain c t (data_entry data ?o)"
    using assms(2) by (simp_all add: Let_def)
  have "lsq_inv c m commits (set_unit t (storeData i data ?q) l)"
    using i(2) inv_entry(2,3) [OF assms(1) i(1,2)]
    by (intro entry_change [OF assms(1) i]) (simp_all add: storeData_def sq_upd_def data_entry_def)
  then show ?thesis
    by simp
qed

lemma finish_inv:
  assumes "lsq_inv c m commits l" and "lsq_env c (LFinish t i) l"
  shows "\<exists>l'. lsq_step c active (LFinish t i) l = Some ([], l') \<and> lsq_inv c m commits l'"
proof -
  let ?q = "lsq_units l t"
  let ?o = "sq_entries ?q ! i"
  have i: "i < length (sq_entries ?q)" "\<not> canWB ?o"
    using assms(2) by (simp_all add: Let_def)
  note o = inv_entry [OF assms(1) i]
  let ?e = "?o\<lparr>staFinish := True, stdFinish := (stdFinish ?o \<or> \<not> isSplitStoreAddr ?o)\<rparr>"
  have "lsq_inv c m commits (set_unit t (storePipeFinish i ?q) l)"
    using i(2) o by (intro entry_change [OF assms(1) i, of ?e]) (simp_all add: storePipeFinish_def sq_upd_def plain_finish)
  then show ?thesis
    by simp
qed

lemma squash_inv:
  assumes "lsq_inv c m commits l"
  shows "lsq_inv c m commits (set_unit t (sq_squash sn (lsq_units l t)) l)"
proof -
  let ?q = "lsq_units l t"
  define ys where "ys = rev (takeWhile (\<lambda>e. sn < sq_seqNum e \<and> \<not> canWB e) (rev (sq_entries ?q)))"
  have ok: "sq_ok c t ?q"
    using assms by (auto simp: lsq_inv_def)
  have split: "sq_entries ?q = sq_entries (sq_squash sn ?q) @ ys"
    unfolding sq_squash_def ys_def by (simp flip: rev_append)
  have ys: "\<forall>e\<in>set ys. \<not> canWB e"
    by (auto simp: ys_def dest: set_takeWhileD)
  define xs where "xs = sq_entries (sq_squash sn ?q)"
  have tw: "takeWhile canWB xs = takeWhile canWB (sq_entries ?q)"
    unfolding split xs_def [symmetric] using ys by (cases ys) (auto simp: takeWhile_tail)
  have "set xs \<subseteq> set (sq_entries ?q)" "set (tl xs) \<subseteq> set (tl (sq_entries ?q))" "set (dropWhile canWB xs) \<subseteq> set (dropWhile canWB (sq_entries ?q))"
    unfolding split xs_def [symmetric] by (auto simp: tl_append dropWhile_append split: list.splits dest: set_dropWhileD dest!: dropWhile_eq_Nil_conv [THEN iffD2])
  moreover have "storeWBIt (sq_squash sn ?q) = sq_head (sq_squash sn ?q)"
    using ok by (simp add: sq_squash_def sq_ok_def)
  ultimately have "sq_ok c t (sq_squash sn ?q)"
    using ok unfolding sq_ok_def xs_def [symmetric] tw by (simp add: sq_squash_def) blast
  then show ?thesis
    using unit_change [OF assms, of t "sq_squash sn ?q" "[]"] queue_view [of "sq_squash sn ?q" ?q] tw by (simp add: xs_def)
qed

text \<open>Commit marks the entries up to the youngest instruction.\<close>

lemma commit_unmarked:
  assumes "\<forall>e\<in>set es. \<not> canWB e" and "\<forall>e\<in>set es. sq_seqNum e \<le> y \<and> isSplitStoreAddr e \<longrightarrow> splitStoreFinish e"
  shows "commit_stores_loop y es =
    Some (map (\<lambda>e. e\<lparr>canWB := True\<rparr>) (takeWhile (\<lambda>e. sq_seqNum e \<le> y) es) @ dropWhile (\<lambda>e. sq_seqNum e \<le> y) es,
      length (takeWhile (\<lambda>e. sq_seqNum e \<le> y) es))"
  using assms by (induction es) auto

lemma commit_loop_ok:
  assumes "\<forall>e\<in>set (dropWhile canWB es). \<not> canWB e" and "\<forall>e\<in>set es. sq_seqNum e \<le> y \<and> isSplitStoreAddr e \<longrightarrow> splitStoreFinish e"
  shows "commit_stores_loop y es = Some (takeWhile canWB es @ map (\<lambda>e. e\<lparr>canWB := True\<rparr>) (newly_committed y es) @
    dropWhile (\<lambda>e. sq_seqNum e \<le> y) (dropWhile canWB es), length (newly_committed y es))"
  using assms
proof (induction es)
  case (Cons e es)
  show ?case
  proof (cases "canWB e")
    case True
    have "commit_stores_loop y es = Some (takeWhile canWB es @ map (\<lambda>e. e\<lparr>canWB := True\<rparr>) (newly_committed y es) @
        dropWhile (\<lambda>e. sq_seqNum e \<le> y) (dropWhile canWB es), length (newly_committed y es))"
      using Cons.prems True by (intro Cons.IH) simp_all
    then show ?thesis
      using True by (simp add: newly_committed_def)
  next
    case False
    then have "dropWhile canWB (e # es) = e # es" "takeWhile canWB (e # es) = []"
      by simp_all
    then show ?thesis
      using commit_unmarked [of "e # es" y] Cons.prems unfolding newly_committed_def by (simp only: append_Nil)
  qed
qed (simp add: newly_committed_def)

lemma sq_ok_late:
  assumes "sq_ok c t q" and "storeWBIt q' = storeWBIt q \<and> sq_head q' = sq_head q" and "sq_entries q' = takeWhile canWB (sq_entries q) @ new"
    and "\<And>e. e \<in> set new \<Longrightarrow>
      (entry_plain c t e \<and> \<not> completed e \<and> (canWB e \<and> isSplitStoreAddr e \<longrightarrow> splitStoreFinish e)) \<and> numOutstandingPackets e = 0"
    and "\<forall>e\<in>set (dropWhile canWB (sq_entries q')). \<not> canWB e"
    and "storesToWB q' = length (takeWhile canWB (sq_entries q')) \<and> \<not> isStoreBlocked q'"
  shows "sq_ok c t q'"
proof -
  have "set (tl (takeWhile canWB (sq_entries q))) \<subseteq> set (tl (sq_entries q))"
    by (cases "sq_entries q") (auto dest: set_takeWhileD)
  then have "e \<in> set (tl (sq_entries q)) \<or> e \<in> set new" if "e \<in> set (tl (sq_entries q'))" for e
    using that list.set_sel(2) [of new] unfolding assms(3) by (cases "takeWhile canWB (sq_entries q)"; cases "new = []") auto
  then have "\<forall>e\<in>set (tl (sq_entries q')). numOutstandingPackets e = 0"
    using assms(1,4) unfolding sq_ok_def by blast
  moreover have "e \<in> set (sq_entries q) \<or> e \<in> set new" if "e \<in> set (sq_entries q')" for e
    using that by (auto simp: assms(3) dest: set_takeWhileD)
  ultimately show ?thesis
    using assms(1,2,4-6) unfolding sq_ok_def by (metis (no_types, lifting))
qed

lemma lsq_commit_inv:
  assumes "lsq_inv c m commits l" and "lsq_env c (LCommit t y) l"
  shows "\<exists>new l'. lsq_step c active (LCommit t y) l = Some (new, l') \<and> lsq_inv c m (commits @ new) l'"
proof -
  let ?q = "lsq_units l t"
  let ?es = "sq_entries ?q" and ?new = "newly_committed y (sq_entries ?q)"
  define rest where "rest = dropWhile (\<lambda>e. sq_seqNum e \<le> y) (dropWhile canWB ?es)"
  define marked where "marked = map (\<lambda>e. e\<lparr>canWB := True\<rparr>) ?new"
  have ok: "sq_ok c t ?q"
    using assms(1) by (auto simp: lsq_inv_def)
  have unmarked: "\<forall>e\<in>set (dropWhile canWB ?es). \<not> canWB e" and fin: "\<forall>e\<in>set ?es. sq_seqNum e \<le> y \<and> isSplitStoreAddr e \<longrightarrow> splitStoreFinish e"
    using ok assms(2) by (simp_all add: sq_ok_def)
  let ?n = "length ?new"
  have n: "commit_stores_loop y ?es = Some (takeWhile canWB ?es @ marked @ rest, ?n)"
    using commit_loop_ok [OF unmarked fin] unfolding rest_def marked_def .
  define q where "q = ?q\<lparr>sq_entries := takeWhile canWB ?es @ marked @ rest, storesToWB := storesToWB ?q + ?n\<rparr>"
  have rest: "set rest \<subseteq> set (dropWhile canWB ?es)" and new: "set ?new \<subseteq> set (dropWhile canWB ?es)" and all: "set (dropWhile canWB ?es) \<subseteq> set ?es"
    by (auto simp: rest_def newly_committed_def dest: set_dropWhileD set_takeWhileD)
  have low: "\<forall>e\<in>set ?new. sq_seqNum e \<le> y"
    by (auto simp: newly_committed_def dest: set_takeWhileD)
  have mk: "\<forall>e\<in>set marked. canWB e" and rk: "\<forall>e\<in>set rest. \<not> canWB e"
    using rest unmarked by (auto simp: marked_def)
  have tw: "takeWhile canWB (takeWhile canWB ?es @ marked @ rest) = takeWhile canWB ?es @ marked"
    "dropWhile canWB (takeWhile canWB ?es @ marked @ rest) = rest"
    using mk rk by (cases rest; auto simp: takeWhile_append dropWhile_append takeWhile_eq_all_conv dest: set_takeWhileD)+
  have late: "(entry_plain c t e \<and> \<not> completed e \<and> (canWB e \<and> isSplitStoreAddr e \<longrightarrow> splitStoreFinish e)) \<and> numOutstandingPackets e = 0"
    if e: "e \<in> set (marked @ rest)" for e
  proof -
    obtain x where x: "x \<in> set (dropWhile canWB ?es)" "e = x \<or> x \<in> set ?new \<and> e = x\<lparr>canWB := True\<rparr>"
      using e rest new unfolding marked_def by auto
    then have "x \<in> set ?es" "\<not> canWB x"
      using all unmarked by blast+
    then have "entry_plain c t x" "\<not> completed x" "numOutstandingPackets x = 0"
      using ok unfolding sq_ok_def by blast+
    then show ?thesis
      using x(2) \<open>\<not> canWB x\<close> fin low \<open>x \<in> set ?es\<close> by (elim disjE) (simp_all add: plain_finish splitStoreFinish_def)
  qed
  have "sq_ok c t q"
  proof (rule sq_ok_late [OF ok, of q "marked @ rest", OF _ _ late])
    show "\<forall>e\<in>set (dropWhile canWB (sq_entries q)). \<not> canWB e"
      using rk by (simp add: q_def tw(2))
    show "storesToWB q = length (takeWhile canWB (sq_entries q)) \<and> \<not> isStoreBlocked q"
      using ok by (simp add: q_def tw(1) sq_ok_def) (simp add: marked_def)
  qed (simp_all only: q_def store_queue.simps store_queue.ext_inject simp_thms, simp_all)
  moreover have "in_queue t q = in_queue t ?q @ concat (map (pieces t) ?new)"
    by (simp add: in_queue_def q_def tw(1)) (simp add: marked_def comp_def plain_finish)
  moreover have "sent t q = sent t ?q"
    using late by (simp add: sent_def q_def tw(1) split: list.split)
  ultimately have "lsq_inv c m (commits @ concat (map (pieces t) ?new)) (set_unit t q l)"
    using unit_change [OF assms(1), of t q "concat (map (pieces t) ?new)"] piece_thread by fastforce
  then show ?thesis
    by (simp add: commitStores_def n q_def)
qed

lemma sb_event_inv:
  assumes "lsq_inv c m commits l" and "cfg_ok c" and "sb_env c ev (lsq_sb l)" and "\<And>ok. accepted ev ok = []"
  shows "\<exists>ok s. sb_step c ev (lsq_sb l) = Some (ok, s) \<and> lsq_inv c m commits (l\<lparr>lsq_sb := s\<rparr>) \<and>
    lsq_inv c m commits (l\<lparr>lsq_sb := s, nextStoreBufferOffloadTid := x\<rparr>)"
proof -
  have "run_inv c (lsq_sb l)"
    using assms(1) by (auto simp: lsq_inv_def)
  then obtain ok s where s: "sb_step c ev (lsq_sb l) = Some (ok, s)" "run_inv c s"
    using sb_step_ok [OF _ assms(2,3)] by (auto simp: step_ok_def)
  have "sb_run c [ev] (lsq_sb l) = Some ([], s)"
    using assms(3,4) s(1) by simp
  then show ?thesis
    using s sb_change [OF assms(1)] by blast
qed

lemma cycle_inv:
  assumes "lsq_inv c m commits l" and "cfg_ok c"
  shows "\<exists>s l'. storeBufferWriteback c accept (\<exists>t\<in>set active. storeBufferSQWillFull (lsq_units l t)) (lsq_sb l) = Some s \<and>
    processWriteback c active accept l = Some l' \<and> lsq_inv c m commits l' \<and> storeBufferFlushing (lsq_sb l') = storeBufferFlushing s \<and>
    (total_backlog active l' < total_backlog active l \<or> lsq_units l' = lsq_units l \<and> lsq_sb l' = s \<and>
      (\<not> storeBufferBlocked s \<longrightarrow> (\<forall>t\<in>set active. offloadToStoreBuffer c t
        (fst (offload_quota maxStoreBufferEntriesAcceptedFromSQPerCycle active
          (\<lambda>t. countStoreBufferOffloadableEntries maxStoreBufferEntriesAcceptedFromSQPerCycle (lsq_units l t)) (nextStoreBufferOffloadTid l)) t)
        (lsq_units l t) s = Some (False, lsq_units l t, s))))"
proof -
  define full where "full \<longleftrightarrow> (\<exists>t\<in>set active. storeBufferSQWillFull (lsq_units l t))"
  obtain quota nxt where qn: "offload_quota maxStoreBufferEntriesAcceptedFromSQPerCycle active
      (\<lambda>t. countStoreBufferOffloadableEntries maxStoreBufferEntriesAcceptedFromSQPerCycle (lsq_units l t)) (nextStoreBufferOffloadTid l) = (quota, nxt)"
    by fastforce
  obtain ok s where s: "sb_step c (SBWriteback accept full) (lsq_sb l) = Some (ok, s)" "lsq_inv c m commits (l\<lparr>lsq_sb := s\<rparr>)"
    "lsq_inv c m commits (l\<lparr>lsq_sb := s, nextStoreBufferOffloadTid := nxt\<rparr>)"
    using sb_event_inv [OF assms, of "SBWriteback accept full" nxt] by auto
  then have wb: "storeBufferWriteback c accept full (lsq_sb l) = Some s"
    by auto
  show ?thesis
  proof (cases "storeBufferBlocked s")
    case True
    then show ?thesis
      using s(2) wb by (simp add: processWriteback_def full_def)
  next
    case False
    let ?l = "l\<lparr>lsq_sb := s, nextStoreBufferOffloadTid := nxt\<rparr>"
    have "processWriteback c active accept l = offload_threads c quota active ?l"
      using False wb qn by (simp add: processWriteback_def full_def)
    moreover have "total_backlog active ?l = total_backlog active l"
      by (simp add: total_backlog_def)
    ultimately show ?thesis
      using offload_threads_ok [OF assms(2) s(3), of active active quota] wb [unfolded full_def] False unfolding qn by auto
  qed
qed

lemma lsq_step_ok:
  assumes "lsq_inv c m commits l" and "cfg_ok c" and "lsq_env c ev l"
  shows "\<exists>new l'. lsq_step c active ev l = Some (new, l') \<and> lsq_inv c m (commits @ new) l'"
proof (cases ev)
  case (LInsert t seq sa old)
  then show ?thesis
    using insert_inv [OF assms(1)] assms(3) by (metis append_Nil2)
next
  case (LExecute t i r data)
  then show ?thesis
    using execute_inv [OF assms(1)] assms(3) by (metis append_Nil2)
next
  case (LNoWrite t i pred fault)
  then show ?thesis
    using no_write_inv [OF assms(1)] assms(3) by (metis append_Nil2)
next
  case (LData t i data)
  then show ?thesis
    using data_inv [OF assms(1)] assms(3) by (metis append_Nil2)
next
  case (LFinish t i)
  then show ?thesis
    using finish_inv [OF assms(1)] assms(3) by (metis append_Nil2)
next
  case (LCommit t y)
  then show ?thesis
    using lsq_commit_inv [OF assms(1)] assms(3) by blast
next
  case (LSquash t sn)
  then show ?thesis
    using squash_inv [OF assms(1), of t sn] by simp
next
  case (LCycle accept)
  then show ?thesis
    using cycle_inv [OF assms(1,2), of accept active] by auto
next
  case (LRetry accept)
  then show ?thesis
    using sb_event_inv [OF assms(1,2), of "SBRetry accept" None] by auto
next
  case (LResponse i)
  then show ?thesis
    using sb_event_inv [OF assms(1,2), of "SBResponse i" None] assms(3) by (auto simp del: sb_env.simps)
next
  case LFlush
  then show ?thesis
    using sb_event_inv [OF assms(1,2), of SBFlush None] by auto
qed

lemma lsq_run_ok:
  assumes "cfg_ok c"
  shows "lsq_inv c m commits l \<Longrightarrow> \<exists>new l'. lsq_run c active evs l = Some (new, l') \<and> lsq_inv c m (commits @ new) l'"
proof (induction evs arbitrary: commits l)
  case (Cons ev evs)
  show ?case
  proof (cases "lsq_env c ev l")
    case True
    obtain new l1 where 1: "lsq_step c active ev l = Some (new, l1)" "lsq_inv c m (commits @ new) l1"
      using lsq_step_ok [OF Cons.prems assms True] by blast
    then show ?thesis
      using Cons.IH [OF 1(2)] True by auto
  next
    case False
    then show ?thesis
      using Cons.IH [OF Cons.prems] by simp
  qed
qed simp

lemma lsq_init_inv: "cfg_ok c \<Longrightarrow> lsq_inv c m [] (lsq_init c cap m)"
  using init_inv [of c m]
  by (auto simp: lsq_inv_def lsq_init_def sq_ok_def sq_init_def sent_def in_queue_def intro!: exI [of _ "[]"])

end
