(* ===== verification/LsqProps.thy ===== *)
theory LsqProps
  imports LsqRun
begin

text \<open>
  The stores that reach the buffer and the loads that search queue and buffer, in any run of the store queues,
  and the arbitration between threads.
\<close>

section \<open>Order\<close>

text \<open>C15: However stores are inserted, executed, committed, squashed and handed over, no assertion fails, and
  the store buffer gets the committed stores of each thread in order, each once: what it has accepted from a
  thread, followed by what waits in the queue, is what the thread has committed.\<close>

theorem stores_leave_in_order:
  assumes "cfg_ok c"
  shows "\<exists>commits l sb_evs log. lsq_run c active evs (lsq_init c cap m) = Some (commits, l) \<and>
    sb_run c sb_evs (sb_init c m) = Some (log, lsq_sb l) \<and>
    (\<forall>t. of_thread t commits = of_thread t log @ waiting t (lsq_units l t))"
proof -
  obtain commits l where r: "lsq_run c active evs (lsq_init c cap m) = Some (commits, l)" "lsq_inv c m commits l"
    using lsq_run_ok [OF assms lsq_init_inv [OF assms]] by fastforce
  then obtain sb_evs log where sb: "sb_run c sb_evs (sb_init c m) = Some (log, lsq_sb l)"
    and th: "\<And>t. \<exists>left. of_thread t log = left @ sent t (lsq_units l t) \<and> of_thread t commits = left @ in_queue t (lsq_units l t)"
    unfolding lsq_inv_def by blast
  have "of_thread t commits = of_thread t log @ waiting t (lsq_units l t)" for t
    using th [of t] by (auto simp: in_queue_def simp flip: sent_waiting)
  then show ?thesis
    using r(1) sb by blast
qed

text \<open>A store of two bytes that is committed and handed over, and a younger one that is executed.\<close>

definition lsq_events0 :: "lsq_event list" where
  "lsq_events0 =
     (let req = (\<lambda>a n. \<lparr>sr_vaddr = 4096 + a, sr_paddr = 2147483648 + a, sr_size = n, sr_mask = replicate n True, sr_isSplit = False,
        sr_reqs = [], sr_direct = False, sr_strict = False, sr_blockZero = False, sr_maintenance = False\<rparr>) in
      [LInsert 0 1 False (replicate 8 0), LExecute 0 0 (req 8 2) [1, 2], LFinish 0 0, LCommit 0 1, LCycle True,
       LInsert 0 2 False (replicate 8 0), LExecute 0 0 (req 9 1) [9]])"

definition lsq_final0 :: "sb_store list \<times> lsq_state" where
  "lsq_final0 = the (lsq_run sb_cfg0 [0] lsq_events0 (lsq_init sb_cfg0 8 (\<lambda>a. 0)))"

definition lsq_load0 :: "addr \<Rightarrow> sq_load" where
  "lsq_load0 a = \<lparr>ld_seqNum = 3, ld_paddr = a, ld_size = 1, ld_isLLSC = False, ld_isSplit = False, ld_reqs = [], ld_sqIt = 2,
     ld_hasFault = False, ld_isStrictlyOrdered = False, ld_isUncacheable = False, ld_isLocalAccess = False, ld_isDataPrefetch = False,
     ld_isHead = False, isAtCommit = False, mdpPredStrictWait = False, mdpProducingStores = [2]\<rparr>"

lemma lsq_final0_run: "lsq_run sb_cfg0 [0] lsq_events0 (lsq_init sb_cfg0 8 (\<lambda>a. 0)) = Some (fst lsq_final0, snd lsq_final0)"
proof -
  have "\<not> Option.is_none (lsq_run sb_cfg0 [0] lsq_events0 (lsq_init sb_cfg0 8 (\<lambda>a. 0)))"
    by code_simp
  then show ?thesis
    by (simp add: lsq_final0_def Option.is_none_def)
qed

lemma lsq_final0_values:
  "fst lsq_final0 = [(0, 2147483656, [1, 2], [True, True])]" "alias_free (storeBuffer (lsq_sb (snd lsq_final0)))"
  "length (sq_entries (lsq_units (snd lsq_final0) 0)) = 1" "sq_head (lsq_units (snd lsq_final0) 0) = 1"
  by code_simp+

theorem stores_leave_in_order_witness:
  "\<exists>sb_evs log. sb_run sb_cfg0 sb_evs (sb_init sb_cfg0 (\<lambda>a. 0)) = Some (log, lsq_sb (snd lsq_final0)) \<and>
     of_thread 0 log = [(0, 2147483656, [1, 2], [True, True])]"
proof -
  obtain sb_evs log where r: "sb_run sb_cfg0 sb_evs (sb_init sb_cfg0 (\<lambda>a. 0)) = Some (log, lsq_sb (snd lsq_final0))"
    "\<forall>t. of_thread t (fst lsq_final0) = of_thread t log @ waiting t (lsq_units (snd lsq_final0) t)"
    using stores_leave_in_order [OF sb_cfg0_ok(1), of "[0]" lsq_events0 8 "\<lambda>a. 0"] unfolding lsq_final0_run option.inject prod.inject by blast
  moreover have "waiting 0 (lsq_units (snd lsq_final0) 0) = []"
    by code_simp
  ultimately have "of_thread 0 log = of_thread 0 (fst lsq_final0)"
    by simp
  then show ?thesis
    using r(1) by (auto simp: lsq_final0_values(1) of_thread_def)
qed

section \<open>Bytes of a sequence of stores\<close>

text \<open>A sequence of stores leaves a byte alone or fixes it.\<close>

lemma stores_byte: "(\<forall>m. fold apply_store xs m a = m a) \<or> (\<exists>v. \<forall>m. fold apply_store xs m a = v)"
proof (induction xs rule: rev_induct)
  case (snoc st xs)
  obtain t p ds ms where st: "st = (t, p, ds, ms)"
    by (cases st)
  have "(\<forall>m. apply_store st m a = m a) \<or> (\<exists>v. \<forall>m. apply_store st m a = v)"
    by (cases "store_byte p ds ms a") (simp_all add: st apply_store_def over_def)
  then show ?case
    using snoc.IH by auto
qed simp

lemma stores_skip:
  assumes "\<forall>m. fold apply_store (xs @ ys) m a = m a"
  shows "fold apply_store xs m a = m a"
proof -
  have "\<not> (\<forall>m. fold apply_store ys m a = v)" for v
  proof
    assume "\<forall>m. fold apply_store ys m a = v"
    then show False
      using assms [rule_format, of "\<lambda>x. v + 1"] by simp
  qed
  then have "\<forall>m. fold apply_store ys m a = m a"
    using stores_byte [of ys a] by blast
  then show ?thesis
    using assms by simp
qed

lemma only_writer_thread:
  assumes "only_writer t log a"
  shows "fold apply_store log m a = fold apply_store (of_thread t log) m a"
  using assms
proof (induction log rule: rev_induct)
  case (snoc st log)
  obtain u p ds ms where st: "st = (u, p, ds, ms)"
    by (cases st)
  have "only_writer t log a" "u \<noteq> t \<Longrightarrow> store_byte p ds ms a = None"
    using snoc.prems by (auto simp: only_writer_def st writes_byte_def)
  then show ?case
    using snoc.IH by (cases "u = t") (simp_all add: of_thread_def st apply_store_def)
qed simp

section \<open>Loads\<close>

text \<open>The stores that are older than a load and not committed.\<close>

definition uncommitted_older :: "sq_load \<Rightarrow> store_queue \<Rightarrow> sq_entry list" where
  "uncommitted_older ld q = dropWhile canWB (older_stores ld q)"

text \<open>A byte of the load is a byte of the store.\<close>

definition overlaps :: "sq_load \<Rightarrow> sq_entry \<Rightarrow> bool" where
  "overlaps ld st \<longleftrightarrow> sq_size st \<noteq> 0 \<and> (\<exists>r\<in>set (load_ranges ld). \<exists>w\<in>set (store_ranges st). \<exists>a. byte_in_range a r \<and> byte_in_range a w)"

text \<open>The load is younger than every committed store and than the stores in front of its position.\<close>

definition load_position :: "sq_load \<Rightarrow> store_queue \<Rightarrow> bool" where
  "load_position ld q \<longleftrightarrow> storeWBIt q + length (takeWhile canWB (sq_entries q)) \<le> ld_sqIt ld \<and>
     (\<forall>st\<in>set (older_stores ld q). sq_seqNum st < ld_seqNum ld)"

lemma older_split:
  assumes "sq_ok c t q" and "load_position ld q"
  shows "concat (map (pieces t) (older_stores ld q)) = in_queue t q @ concat (map (pieces t) (uncommitted_older ld q))"
proof -
  let ?es = "sq_entries q"
  define n where "n = ld_sqIt ld - storeWBIt q"
  define rest where "rest = take (n - length (takeWhile canWB ?es)) (dropWhile canWB ?es)"
  have "older_stores ld q = take n (takeWhile canWB ?es @ dropWhile canWB ?es)"
    using assms(1) by (simp add: older_stores_def sq_ok_def n_def)
  also have "\<dots> = takeWhile canWB ?es @ rest"
    using assms(2) by (simp only: take_append) (auto simp: load_position_def n_def rest_def)
  finally have o: "older_stores ld q = takeWhile canWB ?es @ rest" .
  have "\<forall>e\<in>set rest. \<not> canWB e"
    using assms(1) unfolding sq_ok_def rest_def by (auto dest: in_set_takeD)
  then have "dropWhile canWB rest = rest"
    by (cases rest) simp_all
  then have "uncommitted_older ld q = rest"
    unfolding uncommitted_older_def o by (subst dropWhile_append2) (auto dest: set_takeWhileD)
  then show ?thesis
    unfolding o in_queue_def by simp
qed

lemma inv_memory:
  assumes "cfg_ok c" and "lsq_inv c m commits l" and "t < cacheLineSize c" and "only_writer t commits a"
  shows "\<exists>left. fold apply_store commits m a = fold apply_store (left @ in_queue t (lsq_units l t)) m a \<and>
    view c (lsq_sb l) t a = fold apply_store (left @ sent t (lsq_units l t)) m a"
proof -
  obtain evs log where r: "sb_run c evs (sb_init c m) = Some (log, lsq_sb l)"
    and th: "\<And>t. \<exists>left. of_thread t log = left @ sent t (lsq_units l t) \<and> of_thread t commits = left @ in_queue t (lsq_units l t)"
    using assms(2) unfolding lsq_inv_def by blast
  have "set (of_thread u log) \<subseteq> set (of_thread u commits)" for u
    using th [of u] by (auto simp: in_queue_def simp flip: sent_waiting)
  then have "only_writer t log a"
    using assms(4) by (fastforce simp: only_writer_def of_thread_def)
  then have "view c (lsq_sb l) t a = fold apply_store log m a"
    using run_from_init [OF assms(1), of evs m] r assms(3) by auto
  then show ?thesis
    using th [of t] only_writer_thread [OF \<open>only_writer t log a\<close>, of m] only_writer_thread [OF assms(4), of m] by metis
qed

text \<open>The data of the cache.\<close>

definition mem_data :: "sq_load \<Rightarrow> lsq_state \<Rightarrow> byte list" where
  "mem_data ld l = map (\<lambda>k. goldenMem (lsq_sb l) (ld_addr ld k)) [0..<ld_size ld]"

lemma load_bytes:
  assumes "cfg_ok c" and "lsq_inv c m commits l" and "t < cacheLineSize c" and "load_position ld (lsq_units l t)" and "only_writer t commits a"
  shows "\<exists>f. fold apply_store (commits @ concat (map (pieces t) (uncommitted_older ld (lsq_units l t)))) m a =
      fold apply_store (concat (map (pieces t) (older_stores ld (lsq_units l t)))) f a \<and>
    ((\<forall>m. fold apply_store (concat (map (pieces t) (older_stores ld (lsq_units l t)))) m a = m a) \<longrightarrow> view c (lsq_sb l) t a = f a)"
proof -
  let ?q = "lsq_units l t"
  let ?young = "concat (map (pieces t) (uncommitted_older ld ?q))" and ?older = "concat (map (pieces t) (older_stores ld ?q))"
  obtain left where left: "fold apply_store commits m a = fold apply_store (left @ in_queue t ?q) m a"
    "view c (lsq_sb l) t a = fold apply_store (left @ sent t ?q) m a"
    using inv_memory [OF assms(1-3,5)] by blast
  have "sq_ok c t ?q"
    using assms(2) by (auto simp: lsq_inv_def)
  note o = older_split [OF this assms(4)]
  have "fold apply_store (commits @ ?young) m a = fold apply_store ?older (fold apply_store left m) a"
    using fold_local [of "fold apply_store commits m" a "fold apply_store (left @ in_queue t ?q) m" ?young, OF left(1)] by (simp add: o)
  moreover have "?older = sent t ?q @ waiting t ?q @ ?young"
    by (simp add: o in_queue_def flip: sent_waiting)
  ultimately show ?thesis
    using left(2) stores_skip [of "sent t ?q" "waiting t ?q @ ?young" a "fold apply_store left m"]
    by (intro exI [of _ "fold apply_store left m"]) simp
qed

text \<open>The predictor makes the load wait only for older stores in the queue that it has named and that have no
  address yet, or, when it asks for a strict wait, while the index of completed stores is behind the load.\<close>

lemma mdp_wait_cases:
  assumes "mdp_wait enable next ld q = Some r"
  shows "(\<exists>n. r = MdpStrictWait n \<and> enable \<and> mdpPredStrictWait ld \<and> next < ld_sqIt ld) \<or>
    (\<exists>ws. r = MdpWait ws \<and> enable \<and> ws \<noteq> [] \<and> (\<forall>sn\<in>set ws. sn \<in> set (mdpProducingStores ld) \<and>
       (\<exists>st\<in>set (sq_entries q). sq_seqNum st = sn \<and> sn < ld_seqNum ld \<and> \<not> addrReady st)))"
  using assms unfolding mdp_wait_def
  by (auto simp: wait_stores_def split: if_splits dest!: set_takeWhileD)

definition read_starts :: "sq_load \<Rightarrow> bool" where
  "read_starts ld \<longleftrightarrow> \<not> (ld_hasFault ld \<or> ld_isStrictlyOrdered ld \<and> (\<not> ld_isHead ld \<or> \<not> isAtCommit ld))"

lemma read_steps:
  assumes "read_starts ld"
  shows "mdp_wait enable next ld q = Some r \<Longrightarrow> lsq_read enable next c t ld ans q b = Some r"
    and "mdp_wait enable next ld q = None \<Longrightarrow> ld_isLocalAccess ld \<Longrightarrow> lsq_read enable next c t ld ans q b = Some LocalAccess"
    and "mdp_wait enable next ld q = None \<Longrightarrow> \<not> ld_isLocalAccess ld \<Longrightarrow> \<not> ld_sqIt ld < storeWBIt q \<Longrightarrow> \<not> ld_isDataPrefetch ld \<Longrightarrow>
      lsq_read enable next c t ld ans q b =
        (case sq_search ld (rev (older_stores ld q)) of None \<Rightarrow> None | Some (SQForward bs) \<Rightarrow> Some (ReadData bs)
         | Some SQReplay \<Rightarrow> Some STLFReplay | Some SQStall \<Rightarrow> Some RescheduleReplay | Some SQNone \<Rightarrow> read_buffer c t ld ans b)"
  using assms unfolding lsq_read_def read_starts_def by (simp_all only: if_False de_Morgan_disj simp_thms option.case if_True)



section \<open>Arbitration between threads\<close>

lemma next_granted_rotate:
  "next_granted tids demand quota cursor = None \<Longrightarrow> t \<in> set tids \<Longrightarrow> demand t \<le> quota t"
  "next_granted tids demand quota cursor = Some idx \<Longrightarrow>
   \<exists>k<length tids. idx = (cursor + k) mod length tids \<and> idx < length tids \<and> tids ! idx = rotate cursor tids ! k \<and> quota (tids ! idx) < demand (tids ! idx) \<and>
     (\<forall>j<k. demand (rotate cursor tids ! j) \<le> quota (rotate cursor tids ! j))"
proof -
  assume n: "next_granted tids demand quota cursor = None" and "t \<in> set tids"
  then have "t \<in> set (rotate cursor tids)"
    by simp
  then obtain k where "k < length tids" "t = rotate cursor tids ! k"
    unfolding in_set_conv_nth by auto
  then show "demand t \<le> quota t"
    using n by (auto simp: next_granted_def find_None_iff nth_rotate not_less)
next
  assume "next_granted tids demand quota cursor = Some idx"
  then obtain k where k: "k < length tids" "idx = (cursor + k) mod length tids" "quota (tids ! idx) < demand (tids ! idx)"
    "\<And>j. j < k \<Longrightarrow> demand (tids ! ((cursor + j) mod length tids)) \<le> quota (tids ! ((cursor + j) mod length tids))"
    by (auto simp: next_granted_def find_Some_iff not_less)
  then have "idx < length tids"
    by (cases tids) auto
  with k show "\<exists>k<length tids. idx = (cursor + k) mod length tids \<and> idx < length tids \<and> tids ! idx = rotate cursor tids ! k \<and>
     quota (tids ! idx) < demand (tids ! idx) \<and> (\<forall>j<k. demand (rotate cursor tids ! j) \<le> quota (rotate cursor tids ! j))"
    by (intro exI [of _ k]) (simp add: nth_rotate)
qed

text \<open>In the order of the scan \<open>ts\<close>, a thread is at most one store ahead of one that still asks, and not
  ahead of one that comes later.\<close>

definition balanced :: "thread_id list \<Rightarrow> (thread_id \<Rightarrow> nat) \<Rightarrow> (thread_id \<Rightarrow> nat) \<Rightarrow> bool" where
  "balanced ts demand quota \<longleftrightarrow> (\<forall>a<length ts. \<forall>b<length ts. quota (ts ! b) < demand (ts ! b) \<longrightarrow>
     quota (ts ! a) \<le> quota (ts ! b) + (if b < a then 1 else 0))"

lemma balanced_grant:
  assumes "balanced ts demand quota" and "distinct ts" and "k < length ts" and "\<forall>j<k. demand (ts ! j) \<le> quota (ts ! j)"
  shows "balanced (rotate (Suc k) ts) demand (quota(ts ! k := quota (ts ! k) + 1))"
  unfolding balanced_def
proof (intro allI impI)
  let ?q = "quota(ts ! k := quota (ts ! k) + 1)" and ?n = "length ts"
  fix a b assume "a < length (rotate (Suc k) ts)" "b < length (rotate (Suc k) ts)"
    and u: "?q (rotate (Suc k) ts ! b) < demand (rotate (Suc k) ts ! b)"
  then have ab: "a < ?n" "b < ?n"
    by simp_all
  define A B where "A = (Suc k + a) mod ?n" and "B = (Suc k + b) mod ?n"
  have r: "rotate (Suc k) ts ! a = ts ! A" "rotate (Suc k) ts ! b = ts ! B"
    using ab by (simp_all only: nth_rotate A_def B_def)
  have A: "A = (if Suc k + a < ?n then Suc k + a else Suc k + a - ?n)" and B: "B = (if Suc k + b < ?n then Suc k + b else Suc k + b - ?n)"
    using ab assms(3) by (auto simp: A_def B_def mod_if)
  have lt: "A < ?n" "B < ?n"
    using ab assms(3) by (auto simp: A B split: if_splits)
  have eq: "ts ! A = ts ! k \<longleftrightarrow> A = k" "ts ! B = ts ! k \<longleftrightarrow> B = k"
    using assms(2,3) lt by (simp_all add: nth_eq_iff_index_eq)
  have uB: "quota (ts ! B) < demand (ts ! B)"
    using u r(2) by (simp split: if_splits)
  then have "k \<le> B"
    using assms(4) by (meson not_less)
  moreover have "quota (ts ! A) \<le> quota (ts ! B) + (if B < A then 1 else 0)"
    using assms(1) lt uB unfolding balanced_def by blast
  ultimately show "?q (rotate (Suc k) ts ! a) \<le> ?q (rotate (Suc k) ts ! b) + (if b < a then 1 else 0)"
    using ab unfolding r fun_upd_apply eq by (auto simp: A B split: if_splits)
qed

lemma balanced_ahead:
  assumes "balanced ts demand quota" and "t \<in> set ts" and "u \<in> set ts" and "quota u < demand u"
  shows "quota t \<le> quota u + 1"
proof -
  obtain a b where ab: "a < length ts" "ts ! a = t" "b < length ts" "ts ! b = u"
    using assms(2,3) unfolding in_set_conv_nth by blast
  have "quota t \<le> quota u + (if b < a then 1 else 0)"
    using assms(1) [unfolded balanced_def, rule_format, OF ab(1,3)] assms(4) ab(2,4) by simp
  then show ?thesis
    by (simp split: if_splits)
qed

lemma grant_loop_ok:
  assumes "distinct tids" and "grant_loop tids demand budget cursor quota nxt = (quota', nxt')"
    and "\<forall>t. quota t \<le> demand t" and "\<forall>t. t \<notin> set tids \<longrightarrow> quota t = 0" and "balanced (rotate cursor tids) demand quota"
  shows "(\<forall>t. quota' t \<le> demand t) \<and> (\<forall>t. t \<notin> set tids \<longrightarrow> quota' t = 0) \<and>
    sum quota' (set tids) = min (sum quota (set tids) + budget) (sum demand (set tids)) \<and>
    (\<forall>t\<in>set tids. \<forall>u\<in>set tids. quota' u < demand u \<longrightarrow> quota' t \<le> quota' u + 1)"
  using assms(2-5)
proof (induction budget arbitrary: cursor quota nxt)
  case 0
  then have "sum quota (set tids) \<le> sum demand (set tids)"
    by (intro sum_mono) simp
  moreover have "quota t \<le> quota u + 1" if "t \<in> set tids" "u \<in> set tids" "quota u < demand u" for t u
    using that "0.prems"(4) by (intro balanced_ahead [of "rotate cursor tids" demand]) simp_all
  ultimately show ?case
    using 0 by auto
next
  case (Suc budget)
  show ?case
  proof (cases "next_granted tids demand quota cursor")
    case None
    then have "\<forall>t\<in>set tids. quota t = demand t"
      using next_granted_rotate(1) [OF None] Suc.prems(2) by (meson antisym)
    then show ?thesis
      using None Suc.prems by auto
  next
    case (Some idx)
    let ?ts = "rotate cursor tids" and ?g = "tids ! idx" and ?cursor = "(idx + 1) mod length tids"
    define quota1 where "quota1 = quota(?g := quota ?g + 1)"
    obtain k where k: "k < length tids" "idx = (cursor + k) mod length tids" "idx < length tids" "?g = ?ts ! k" "quota ?g < demand ?g"
      "\<forall>j<k. demand (?ts ! j) \<le> quota (?ts ! j)"
      using next_granted_rotate(2) [OF Some] by blast
    have "rotate ?cursor tids = rotate (Suc k) ?ts"
      unfolding rotate_rotate k(2) by (subst (2) rotate_conv_mod) (simp add: mod_simps ac_simps)
    then have bal: "balanced (rotate ?cursor tids) demand quota1"
      using balanced_grant [OF Suc.prems(4), of k] assms(1) k(1,4,6) by (simp add: quota1_def)
    have "sum quota1 (set tids) = sum quota (set tids) + 1"
      using k(3) by (simp add: quota1_def sum.remove [of "set tids" ?g])
    moreover have "\<forall>t. quota1 t \<le> demand t" "\<forall>t. t \<notin> set tids \<longrightarrow> quota1 t = 0"
      using Suc.prems(2,3) k(3,5) by (auto simp: quota1_def)
    moreover have "grant_loop tids demand budget ?cursor quota1 (Some (tids ! ?cursor)) = (quota', nxt')"
      using Suc.prems(1) Some by (simp add: Let_def quota1_def)
    ultimately show ?thesis
      using Suc.IH [of ?cursor quota1 "Some (tids ! ?cursor)"] bal by simp
  qed
qed

lemma offload_quota_ok:
  assumes "distinct active" and "offload_quota budget active demand nxt = (quota, nxt')"
  shows "(\<forall>t. quota t \<le> demand t) \<and> sum quota (set active) = min budget (sum demand (set active)) \<and>
    (\<forall>t\<in>set active. \<forall>u\<in>set active. quota u < demand u \<longrightarrow> quota t \<le> quota u + 1)"
proof (cases "filter (\<lambda>t. demand t \<noteq> 0) active = []")
  case True
  then have "\<forall>t\<in>set active. demand t = 0"
    by (simp add: filter_empty_conv)
  then show ?thesis
    using assms(2) True by (auto simp: offload_quota_def)
next
  case False
  let ?tids = "filter (\<lambda>t. demand t \<noteq> 0) active"
  obtain start where g: "grant_loop ?tids demand budget start (\<lambda>t. 0) nxt = (quota, nxt')"
    using assms(2) False unfolding offload_quota_def Let_def by metis
  have "balanced (rotate start ?tids) demand (\<lambda>t. 0)"
    by (simp add: balanced_def)
  then have q: "(\<forall>t. quota t \<le> demand t) \<and> (\<forall>t. t \<notin> set ?tids \<longrightarrow> quota t = 0) \<and> sum quota (set ?tids) = min budget (sum demand (set ?tids)) \<and>
    (\<forall>t\<in>set ?tids. \<forall>u\<in>set ?tids. quota u < demand u \<longrightarrow> quota t \<le> quota u + 1)"
    using grant_loop_ok [OF _ g] assms(1) by simp
  have "sum quota (set ?tids) = sum quota (set active)" "sum demand (set ?tids) = sum demand (set active)"
    using q by (intro sum.mono_neutral_left; auto)+
  moreover have "quota t \<le> quota u + 1" if "t \<in> set active" "u \<in> set active" "quota u < demand u" for t u
    using q that by (cases "demand t = 0") auto
  ultimately show ?thesis
    using q by auto
qed

text \<open>C18: The arbiter grants no thread more stores than it can hand over, grants as many in a cycle as the
  budget and the demand allow, and treats the threads alike: none is two stores ahead of one that still asks.\<close>

theorem offload_quota_fair:
  assumes "distinct active" and "offload_quota budget active demand nxt = (quota, nxt')"
  shows "(\<forall>t. quota t \<le> demand t) \<and> sum quota (set active) = min budget (sum demand (set active)) \<and>
    (\<forall>t\<in>set active. \<forall>u\<in>set active. quota u < demand u \<longrightarrow> quota t \<le> quota u + 1)"
  using offload_quota_ok [OF assms] .

theorem offload_quota_fair_witness:
  "\<exists>quota nxt. offload_quota 5 [0, 1, 2] (\<lambda>t. if t = 1 then 1 else 4) (Some 2) = (quota, nxt) \<and> quota 2 = 2 \<and> quota 1 = 1 \<and> nxt = Some 1 \<and>
     sum quota (set [0, 1, 2]) = 5"
proof -
  let ?r = "offload_quota 5 [0, 1, 2] (\<lambda>t. if t = 1 then 1 else 4) (Some 2)"
  have "fst ?r 2 = 2" "fst ?r 1 = 1" "snd ?r = Some 1"
    by code_simp+
  moreover have "sum (fst ?r) (set [0, 1, 2]) = 5"
    using offload_quota_fair [of "[0, 1, 2]" 5 "\<lambda>t. if t = 1 then 1 else 4" "Some 2" "fst ?r" "snd ?r"] by simp
  ultimately show ?thesis
    by (metis prod.collapse)
qed

end
