(* ===== verification/LsqDrain.thy ===== *)
theory LsqDrain
  imports LsqProps
begin

text \<open>
  Progress: the committed stores of the active threads can always be brought to memory.
\<close>

lemma empty_buffer:
  assumes "sb_inv c s" and "storeBufferEmpty s"
  shows "blockedSbufferEntry s = None" "unsentSize (storeBuffer s) = 0" "sb_full (storeBuffer s) \<longleftrightarrow> sbufferEntries c = 0"
proof -
  note ok = sb_invD [OF assms(1)]
  have l: "length (free_list (storeBuffer s)) = sbufferEntries c"
    using sb_okD(1) [OF ok(1)] assms(2) by (simp add: shape_ok_def storeBufferEmpty_def)
  then have no: "\<not> mapped (storeBuffer s) i" for i
    using free_length [OF ok(1), of i] by auto
  then show "blockedSbufferEntry s = None"
    using ok(2) by (auto simp: io_ok_def)
  have "lru_index (storeBuffer s) = []"
    using sb_okD(4) [OF ok(1)] no by (cases "lru_index (storeBuffer s)") (auto simp: lru_ok_def)
  then show "unsentSize (storeBuffer s) = 0"
    by (simp add: unsentSize_def)
  show "sb_full (storeBuffer s) \<longleftrightarrow> sbufferEntries c = 0"
    using l by (auto simp: sb_full_def)
qed

text \<open>A cycle of an empty buffer changes flags only.\<close>

lemma writeback_empty:
  assumes "sb_inv c s" and "storeBufferEmpty s" and "storeBufferWriteback c accept w s = Some s'"
  shows "\<not> storeBufferBlocked s'" "storeBuffer s' = storeBuffer s"
  using assms(3) empty_buffer [OF assms(1,2)]
  by (auto simp: storeBufferWriteback_def Let_def retryBlockedStoreBuffer_def storeBufferBlocked_def split: if_splits)

text \<open>A thread asks for a quota exactly when it has a committed store for the buffer.\<close>

lemma demand_iff:
  assumes "sq_ok c t q" and "0 < n"
  shows "countStoreBufferOffloadableEntries n q \<noteq> 0 \<longleftrightarrow> (\<exists>e\<in>set (takeWhile canWB (sq_entries q)). sq_size e \<noteq> 0)"
proof -
  let ?w = "takeWhile canWB (sq_entries q)"
  have "\<forall>e\<in>set ?w. \<not> isDataPrefetch e"
    using assms(1) by (auto simp: sq_ok_def entry_plain_def dest!: set_takeWhileD)
  then have "filter (\<lambda>e. \<not> (sq_size e = 0 \<or> isDataPrefetch e)) ?w = filter (\<lambda>e. sq_size e \<noteq> 0) ?w"
    by (intro filter_cong) auto
  moreover have "storesToWB q = length ?w" "storeWBIt q = sq_head q" "\<not> isStoreBlocked q"
    using assms(1) by (simp_all add: sq_ok_def)
  ultimately show ?thesis
    using assms(2) unfolding countStoreBufferOffloadableEntries_def by (auto simp: filter_empty_conv)
qed

definition committed_left :: "thread_id list \<Rightarrow> lsq_state \<Rightarrow> bool" where
  "committed_left active l \<longleftrightarrow> (\<exists>t\<in>set active. takeWhile canWB (sq_entries (lsq_units l t)) \<noteq> [])"

lemma some_thread_moves:
  assumes "cfg_ok c" and "run_inv c s" and "\<not> storeBufferBlocked s" and "\<not> sb_full (storeBuffer s)" and "distinct active"
    and "\<forall>t. sq_ok c t (lsq_units l t)" and "committed_left active l"
    and "offload_quota n active (\<lambda>t. countStoreBufferOffloadableEntries n (lsq_units l t)) nxt = (quota, nxt')" and "0 < n"
  shows "\<exists>t\<in>set active. offloadToStoreBuffer c t (quota t) (lsq_units l t) s \<noteq> Some (False, lsq_units l t, s)"
proof (rule ccontr)
  assume no: "\<not> ?thesis"
  have quiet: "takeWhile canWB (sq_entries (lsq_units l t)) = [] \<or>
      quota t = 0 \<and> countStoreBufferOffloadableEntries n (lsq_units l t) \<noteq> 0" if t: "t \<in> set active" for t
  proof (cases "takeWhile canWB (sq_entries (lsq_units l t))")
    case (Cons e xs)
    then obtain es where es: "sq_entries (lsq_units l t) = e # es" "canWB e"
      by (cases "sq_entries (lsq_units l t)") (auto split: if_splits)
    have ok: "sq_ok c t (lsq_units l t)"
      using assms(6) by blast
    have "offload_loop c t (quota t) (lsq_units l t) s = Some (False, lsq_units l t, s)"
      using no t assms(3) ok by (auto simp: offloadToStoreBuffer_def sq_ok_def)
    then have "\<not> (sq_size e = 0 \<or> quota t \<noteq> 0 \<and> \<not> sb_full (storeBuffer s))"
      using offload_moves [OF assms(1-3) ok es, of "quota t"] by blast
    then have "sq_size e \<noteq> 0 \<and> quota t = 0"
      using assms(4) by simp
    then show ?thesis
      using demand_iff [OF ok assms(9)] Cons by auto
  qed simp
  note q = offload_quota_ok [OF assms(5,8)]
  obtain t where t: "t \<in> set active" "countStoreBufferOffloadableEntries n (lsq_units l t) \<noteq> 0"
    using quiet assms(7) unfolding committed_left_def by blast
  have "\<forall>t\<in>set active. quota t = 0"
    using quiet q demand_iff [OF assms(6) [rule_format] assms(9)] by (metis empty_iff empty_set le_zero_eq)
  then have "(\<Sum>t\<in>set active. countStoreBufferOffloadableEntries n (lsq_units l t)) = 0"
    using q assms(9) by (auto simp: min_def split: if_splits)
  then show False
    using t by simp
qed

text \<open>What the cache does to empty the buffer: it accepts packets and answers them.\<close>

definition lsq_drain_event :: "lsq_event \<Rightarrow> bool" where
  "lsq_drain_event ev \<longleftrightarrow> (case ev of LCycle accept \<Rightarrow> accept | LResponse i \<Rightarrow> True | LFlush \<Rightarrow> True | _ \<Rightarrow> False)"

definition drain_less :: "thread_id list \<Rightarrow> lsq_state \<Rightarrow> lsq_state \<Rightarrow> bool" where
  "drain_less active l' l \<longleftrightarrow> total_backlog active l' < total_backlog active l \<or>
     total_backlog active l' = total_backlog active l \<and> drain_work (lsq_sb l') < drain_work (lsq_sb l)"

lemma flushing_step:
  assumes "cfg_ok c" and "lsq_inv c m commits l" and "storeBufferFlushing (lsq_sb l)" and "\<not> storeBufferEmpty (lsq_sb l)"
  shows "\<exists>ev l'. lsq_drain_event ev \<and> lsq_env c ev l \<and> lsq_step c active ev l = Some ([], l') \<and> lsq_inv c m commits l' \<and> drain_less active l' l"
proof -
  let ?s = "lsq_sb l"
  have run: "run_inv c ?s" and inv: "sb_inv c ?s" and size: "sb_size (storeBuffer ?s) \<noteq> 0" and bits: "line_ok c" "lineBits c = 6"
    using assms cfg_okD [OF assms(1)] by (auto simp: lsq_inv_def run_inv_def storeBufferEmpty_def)
  show ?thesis
  proof (cases "dcacheWriteStall ?s \<or> storeBufferBlocked ?s \<or> lru_index (storeBuffer ?s) \<noteq> []")
    case True
    obtain s l' where l': "storeBufferWriteback c True (\<exists>t\<in>set active. storeBufferSQWillFull (lsq_units l t)) ?s = Some s"
      "processWriteback c active True l = Some l'" "lsq_inv c m commits l'"
      "total_backlog active l' < total_backlog active l \<or> lsq_units l' = lsq_units l \<and> lsq_sb l' = s"
      using cycle_inv [OF assms(2,1), of True active] by blast
    moreover have "drain_work s < drain_work ?s"
      using writeback_drains [OF inv bits(2) assms(3) size True, of "\<exists>t\<in>set active. storeBufferSQWillFull (lsq_units l t)"] l'(1) by auto
    ultimately show ?thesis
      by (intro exI [of _ "LCycle True"] exI [of _ l']) (auto simp: lsq_drain_event_def drain_less_def total_backlog_def)
  next
    case False
    then obtain i where i: "sb_env c (SBResponse i) ?s"
      using response_expected [OF inv size] by (auto simp: storeBufferBlocked_def)
    obtain s where s: "completeSbufferEvict c i ?s = Some s" "lsq_inv c m commits (l\<lparr>lsq_sb := s\<rparr>)"
      using sb_event_inv [OF assms(2,1) i, of None] by auto
    then show ?thesis
      using i response_drains(1) [OF s(1)]
      by (intro exI [of _ "LResponse i"] exI [of _ "l\<lparr>lsq_sb := s\<rparr>"])
        (simp add: lsq_drain_event_def drain_less_def total_backlog_def del: sb_env.simps)
  qed
qed

lemma empty_step:
  assumes "cfg_ok c" and "0 < sbufferEntries c" and "distinct active" and "lsq_inv c m commits l" and "storeBufferEmpty (lsq_sb l)"
    and "committed_left active l"
  shows "\<exists>l'. processWriteback c active True l = Some l' \<and> lsq_inv c m commits l' \<and> total_backlog active l' < total_backlog active l"
proof -
  let ?n = maxStoreBufferEntriesAcceptedFromSQPerCycle
  have inv: "sb_inv c (lsq_sb l)" "\<forall>t. sq_ok c t (lsq_units l t)"
    using assms(4) by (auto simp: lsq_inv_def run_inv_def)
  obtain quota nxt where qn: "offload_quota ?n active
      (\<lambda>t. countStoreBufferOffloadableEntries ?n (lsq_units l t)) (nextStoreBufferOffloadTid l) = (quota, nxt)"
    by fastforce
  from cycle_inv [OF assms(4,1), of True active]
  obtain s l' where s: "storeBufferWriteback c True (\<exists>t\<in>set active. storeBufferSQWillFull (lsq_units l t)) (lsq_sb l) = Some s"
    and l': "processWriteback c active True l = Some l'" "lsq_inv c m commits l'"
    and less: "total_backlog active l' < total_backlog active l \<or> lsq_sb l' = s \<and> (\<not> storeBufferBlocked s \<longrightarrow>
      (\<forall>t\<in>set active. offloadToStoreBuffer c t (quota t) (lsq_units l t) s = Some (False, lsq_units l t, s)))"
    unfolding qn fst_conv by blast
  note e = writeback_empty [OF inv(1) assms(5) s]
  have full: "\<not> sb_full (storeBuffer s)"
    using e(2) empty_buffer(3) [OF inv(1) assms(5)] assms(2) by simp
  have "run_inv c s" if "lsq_sb l' = s"
    using l'(2) that by (auto simp: lsq_inv_def)
  then show ?thesis
    using l' less e(1) some_thread_moves [OF assms(1) _ e(1) full assms(3) inv(2) assms(6) qn]
    by (auto simp: maxStoreBufferEntriesAcceptedFromSQPerCycle_def)
qed

lemma drain_turn:
  assumes "cfg_ok c" and "0 < sbufferEntries c" and "distinct active" and "lsq_inv c m commits l"
    and "committed_left active l \<or> \<not> storeBufferEmpty (lsq_sb l)"
  shows "\<exists>evs l'. (\<forall>ev\<in>set evs. lsq_drain_event ev) \<and> lsq_run c active evs l = Some ([], l') \<and> lsq_inv c m commits l' \<and> drain_less active l' l"
proof (cases "storeBufferEmpty (lsq_sb l)")
  case True
  obtain l' where "processWriteback c active True l = Some l'" "lsq_inv c m commits l'" "total_backlog active l' < total_backlog active l"
    using empty_step [OF assms(1-4) True] assms(5) True by blast
  then show ?thesis
    by (intro exI [of _ "[LCycle True]"] exI [of _ l']) (simp add: lsq_drain_event_def drain_less_def)
next
  case False
  let ?l = "l\<lparr>lsq_sb := flushStores (lsq_sb l)\<rparr>"
  have "lsq_inv c m commits ?l"
    using sb_event_inv [OF assms(4,1), of SBFlush None] by simp
  moreover have "storeBufferFlushing (lsq_sb ?l)" "\<not> storeBufferEmpty (lsq_sb ?l)"
    using False by (simp_all add: flushStores_def storeBufferEmpty_def)
  ultimately obtain ev l' where ev: "lsq_drain_event ev" "lsq_env c ev ?l" "lsq_step c active ev ?l = Some ([], l')"
    "lsq_inv c m commits l'" "drain_less active l' ?l"
    using flushing_step [OF assms(1)] by blast
  have "drain_less active l' l"
    using ev(5) by (simp add: drain_less_def total_backlog_def drain_work_def flushStores_def storeBufferBlocked_def)
  then show ?thesis
    using ev by (intro exI [of _ "[LFlush, ev]"] exI [of _ l']) (simp add: lsq_drain_event_def)
qed

lemma lsq_run_append:
  "lsq_run c active evs l = Some (xs, l1) \<Longrightarrow> lsq_run c active evs' l1 = Some (ys, l2) \<Longrightarrow>
   lsq_run c active (evs @ evs') l = Some (xs @ ys, l2)"
  by (induction evs arbitrary: l xs) (auto split: option.splits if_splits)

lemma drain_less_wf: "wf {(l', l). drain_less active l' l}"
  by (rule wf_subset [OF wf_inv_image [OF wf_lex_prod [OF wf_less_than wf_less_than],
        of "\<lambda>l. (total_backlog active l, drain_work (lsq_sb l))"]])
    (auto simp: drain_less_def inv_image_def)

lemma drain_all:
  assumes "cfg_ok c" and "0 < sbufferEntries c" and "distinct active"
  shows "lsq_inv c m commits l \<Longrightarrow> \<exists>evs l'. (\<forall>ev\<in>set evs. lsq_drain_event ev) \<and> lsq_run c active evs l = Some ([], l') \<and>
    lsq_inv c m commits l' \<and> \<not> committed_left active l' \<and> storeBufferEmpty (lsq_sb l')"
proof (induction l rule: wf_induct_rule [OF drain_less_wf [of active]])
  case (1 l)
  show ?case
  proof (cases "committed_left active l \<or> \<not> storeBufferEmpty (lsq_sb l)")
    case True
    obtain evs l1 where t: "\<forall>ev\<in>set evs. lsq_drain_event ev" "lsq_run c active evs l = Some ([], l1)" "lsq_inv c m commits l1"
      "drain_less active l1 l"
      using drain_turn [OF assms 1(2) True] by blast
    then obtain evs' l' where r: "\<forall>ev\<in>set evs'. lsq_drain_event ev" "lsq_run c active evs' l1 = Some ([], l')"
      "lsq_inv c m commits l'" "\<not> committed_left active l'" "storeBufferEmpty (lsq_sb l')"
      using 1(1) [of l1] by blast
    show ?thesis
      using t(1) r lsq_run_append [OF t(2) r(2)] by (intro exI [of _ "evs @ evs'"] exI [of _ l']) auto
  next
    case False
    then show ?thesis
      using 1(2) by (intro exI [of _ "[]"] exI [of _ l]) simp
  qed
qed

text \<open>C17: Committed stores reach memory. From every state that a run of the store queues reaches, cycles in which
  the cache accepts the packets, its responses and flushes, and nothing else, lead without a failed assertion to
  a state where no active thread has a committed store in its queue and the store buffer is empty. Memory then
  holds, at each byte that only one active thread stores to, what its committed stores left. The buffer has at
  least one entry.\<close>

theorem stores_reach_memory:
  assumes "cfg_ok c" and "0 < sbufferEntries c" and "distinct active" and "lsq_run c active evs (lsq_init c cap m) = Some (commits, l)"
  shows "\<exists>drain l'. (\<forall>ev\<in>set drain. lsq_drain_event ev) \<and> lsq_run c active drain l = Some ([], l') \<and> storeBufferEmpty (lsq_sb l') \<and>
    (\<forall>t\<in>set active. takeWhile canWB (sq_entries (lsq_units l' t)) = []) \<and>
    (\<forall>t\<in>set active. \<forall>a. t < cacheLineSize c \<longrightarrow> only_writer t commits a \<longrightarrow> goldenMem (lsq_sb l') a = fold apply_store commits m a)"
proof -
  have "lsq_inv c m commits l"
    using lsq_run_ok [OF assms(1) lsq_init_inv [OF assms(1)], of active evs cap m] assms(4) by simp
  then obtain drain l' where d: "\<forall>ev\<in>set drain. lsq_drain_event ev" "lsq_run c active drain l = Some ([], l')"
    "lsq_inv c m commits l'" "\<not> committed_left active l'" "storeBufferEmpty (lsq_sb l')"
    using drain_all [OF assms(1-3)] by blast
  have none: "takeWhile canWB (sq_entries (lsq_units l' t)) = []" if "t \<in> set active" for t
    using d(4) that by (auto simp: committed_left_def)
  have "goldenMem (lsq_sb l') a = fold apply_store commits m a"
    if "t \<in> set active" "t < cacheLineSize c" "only_writer t commits a" for t a
  proof -
    have "sb_inv c (lsq_sb l')"
      using d(3) by (auto simp: lsq_inv_def run_inv_def)
    moreover have "in_queue t (lsq_units l' t) = []" "sent t (lsq_units l' t) = []"
      using none [OF that(1)] by (simp_all add: in_queue_def sent_def)
    ultimately show ?thesis
      using inv_memory [OF assms(1) d(3) that(2,3)] empty_view [OF _ d(5), of c t a] by auto
  qed
  then show ?thesis
    using d none by (intro exI [of _ drain] exI [of _ l']) blast
qed

theorem stores_reach_memory_witness:
  "\<exists>drain l'. lsq_run sb_cfg0 [0] drain (snd lsq_final0) = Some ([], l') \<and> storeBufferEmpty (lsq_sb l') \<and>
     goldenMem (lsq_sb l') 2147483657 = 2"
proof -
  have c: "0 < sbufferEntries sb_cfg0" "distinct [0 :: thread_id]"
    by code_simp+
  obtain drain l' where d: "lsq_run sb_cfg0 [0] drain (snd lsq_final0) = Some ([], l')" "storeBufferEmpty (lsq_sb l')"
    "\<forall>t\<in>set [0]. \<forall>a. t < cacheLineSize sb_cfg0 \<longrightarrow> only_writer t (fst lsq_final0) a \<longrightarrow>
       goldenMem (lsq_sb l') a = fold apply_store (fst lsq_final0) (\<lambda>a. 0) a"
    using stores_reach_memory [OF sb_cfg0_ok(1) c lsq_final0_run] by blast
  moreover have "only_writer 0 (fst lsq_final0) 2147483657"
    by (simp add: only_writer_def lsq_final0_values(1))
  moreover have "fold apply_store (fst lsq_final0) (\<lambda>a. 0) 2147483657 = 2"
    unfolding lsq_final0_values(1) by code_simp
  ultimately have "goldenMem (lsq_sb l') 2147483657 = 2"
    using sb_cfg0_ok(2) by auto
  then show ?thesis
    using d(1,2) by blast
qed

end
