(* ===== verification/Spec2Isabelle.thy ===== *)
theory Spec2Isabelle
  imports DecodeProps BpuProps CommitProps MemDepProps LsqDrain
begin

text \<open>
  A verification library for the out-of-order core of the simulator under \<open>src/GEM5\<close>, a gem5
  fork with XiangShan's decoupled front end and with instruction fusion. Source paths below
  are relative to \<open>src/GEM5/src\<close>.

  \<^bold>\<open>The parts and how they interact.\<close> Branch prediction runs ahead of fetch: it shifts the
  outcome of every predicted block into history registers, which the predictors read in folded
  form, and it keeps a speculative return address stack. Decode takes groups of fetched
  instructions, fuses some of them and sends at most \<open>decodeWidth\<close> to rename. Rename maps
  architectural to physical registers and records every change in a history buffer. Commit
  puts renamed instructions into the reorder buffer, takes finished ones out in program order and
  carries out the squashes that execution, traps and thread contexts ask for. Memory instructions
  wait in the memory dependence unit for barriers and for the stores a predictor names. Stores wait in the
  store queue of their thread until they are committed and are then handed to the store buffer, which gathers
  them by block and writes blocks to the cache; loads search both. Every part before commit can
  be squashed back to an earlier instruction and must then be as if the younger ones had never been
  seen.

  \<^bold>\<open>Theories.\<close>

  \<^item> \<open>Prelude\<close>: machine types, rewrite collections and generic lemmas.

  \<^item> \<open>RegClass\<close> (\<open>cpu/reg_class.hh\<close>, \<open>cpu/o3/regfile.hh\<close>): register identifiers, the store
  of physical register objects, values of registers with an eliminated immediate.

  \<^item> \<open>FreeList\<close> (\<open>cpu/o3/free_list.hh\<close>): free lists; the locale \<open>register_pool\<close> is what
  renaming relies on, interpreted on the FIFO of the code.

  \<^item> \<open>Rename\<close> (\<open>cpu/o3/rename.cc\<close>, \<open>cpu/o3/rename_map.hh\<close>, \<open>cpu/o3/rename_map.cc\<close>, the
  constructors in \<open>cpu/o3/cpu.cc\<close> and \<open>cpu/o3/regfile.cc\<close>): the rename state and every
  operation on it. \<open>RenameInv\<close> has the invariant (reference counts, free lists, history) and
  that every operation keeps it; \<open>RenameProps\<close> the reachable states and what follows for
  them; \<open>RenameExec\<close> the refinement of architectural execution by execution on physical
  registers.

  \<^item> \<open>Fusion\<close> (\<open>arch/riscv/insts/fusion.hh\<close> and \<open>fusion.cc\<close>, semantics from
  \<open>arch/riscv/isa/decoder.isa\<close>): the six fused classes. \<open>FusionExec\<close> shows, through
  renaming, that a fused instruction does what its parts do one after the other, or exactly
  where it does not. \<open>FusionMap\<close> has both fusion tables, the lookup, and that the entries
  create fusions that meet the conditions of \<open>FusionExec\<close>, apart from two kinds of pairs that are named there.

  \<^item> \<open>Decode\<close> (\<open>cpu/o3/decode.cc\<close>, squash versions of \<open>cpu/o3/comm.hh\<close>): buffers,
  squashes, the decode loop with its three fusion steps and branch checks, and \<open>tick\<close>.
  \<open>DecodeProps\<close>: no instruction is lost or duplicated, squashes are exact, hoisting a load
  over a gap is correct for registers.

  \<^item> \<open>FoldedHist\<close> (\<open>cpu/pred/btb/folded_hist.hh\<close> and \<open>.cc\<close>, the history registers of
  \<open>decoupled_bpred.cc\<close>): the incremental updates equal folding from scratch, through any
  interleaving of predictions and squashes (locale \<open>folded_history\<close>).

  \<^item> \<open>RAS\<close> (\<open>cpu/pred/btb/ras.hh\<close> and \<open>ras.cc\<close>): calls match returns and recovery is exact, as long as the
  in-flight queue has room.

  \<^item> \<open>OrderedQueue\<close>: the locale \<open>squashable_queue\<close>, the contract of structures that are
  filled in program order and squashed to a key, and its extension \<open>squashable_contents\<close>, where the entries
  themselves are known.

  \<^item> \<open>Bpu\<close> (\<open>cpu/pred/btb/common.hh\<close>, \<open>ftq.cc\<close>, \<open>history_manager.hh\<close>,
  \<open>decoupled_bpred.cc\<close>, the history parts of \<open>btb_tage.cc\<close> and \<open>btb_mgsc.cc\<close>): the
  prediction unit, from the predictions of the stages through the fetch target queue to
  squash and commit. \<open>BpuProps\<close>: an invariant over every run from the constructor, which
  composes \<open>FoldedHist\<close>, \<open>RAS\<close> and the two queues (interpretations of
  \<open>squashable_queue\<close> and \<open>squashable_contents\<close>); what a squash recomputes against what was predicted.

  \<^item> \<open>ROB\<close> (\<open>cpu/o3/rob.hh\<close>, \<open>rob.cc\<close>): the reorder buffer with its compressed groups.
  \<open>RobProps\<close>: its invariant, the exact number of cycles of a squash and what it removes; each
  thread is an interpretation of \<open>squashable_queue\<close>.

  \<^item> \<open>Commit\<close> (\<open>cpu/o3/commit.cc\<close>, \<open>commit.hh\<close>): the commit stage, one cycle at a time.
  \<open>CommitProps\<close>: an invariant over every run; precise, in-order commit; which stores are released
  to the store buffer, and a run in which a released store is squashed.

  \<^item> \<open>StoreSet\<close> (\<open>cpu/o3/store_set.cc\<close>, \<open>store_set.hh\<close>): the store set predictor.
  \<open>StoreSetProps\<close>: its tables stay in bounds; after two reported violations the load waits for the
  store, until the tables are cleared.

  \<^item> \<open>MemDep\<close> (\<open>cpu/o3/mem_dep_unit.cc\<close>, \<open>mem_dep_unit.hh\<close>): the memory dependence unit of a
  thread. \<open>MemDepInv\<close>: the invariant of its shared entries and their counters. \<open>MemDepProps\<close>: every
  operation keeps it, no assertion fails, an instruction is released exactly once and exactly when
  what it waits for has left; barriers hold back younger accesses.

  \<^item> \<open>StoreBuffer\<close> (\<open>cpu/o3/lsq.cc\<close>, \<open>lsq.hh\<close>, \<open>LSQUnit::insertStoreBuffer\<close> and the last part of
  \<open>LSQUnit::read\<close> in \<open>lsq_unit.cc\<close>, \<open>cpu/golden_global_mem.cc\<close>): the store buffer the threads share,
  from accepting a store to the response of the cache. \<open>StoreBufferInv\<close>: the structural invariant and
  the bytes pending for a thread. \<open>StoreBufferProps\<close>: insertion of a store. \<open>StoreBufferRun\<close>:
  eviction, completion and runs. \<open>StoreBufferLoad\<close>: no accepted store is lost or reordered for its
  thread, loads see them, and a flush can always empty the buffer.

  \<^item> \<open>StoreQueue\<close> (\<open>cpu/o3/lsq_unit.cc\<close>, \<open>lsq_unit.hh\<close>, \<open>LSQ::processWriteback\<close> in \<open>lsq.cc\<close>, the store
  data part in \<open>arch/riscv/insts/mem.cc\<close>): the store queue of a thread, the read of a load, the
  hand-over to the store buffer and the arbitration between threads. \<open>StoreQueueProps\<close>: the comparison of address
  ranges is exact, and what a search finds is what the older stores left. \<open>StoreQueueRun\<close>: the hand-over
  is a run of the store buffer that accepts a prefix of what waits. \<open>LsqRun\<close>: runs of all queues with the buffer and
  their invariant. \<open>LsqProps\<close>: committed stores reach the buffer in order, each once; loads read what the
  program order says or wait for a stated reason; the arbiter is fair. \<open>LsqDrain\<close>: committed stores can always be
  brought to memory.

  \<^bold>\<open>State, errors, loops.\<close> Objects that the code shares through pointers (physical
  registers, dependence entries) live in a store; per-thread arrays are functions of the thread. A failed
  \<open>assert\<close>, a \<open>panic\<close> or an access out of bounds is \<open>None\<close> (or \<open>Panic\<close>), so a theorem that
  an operation returns also says that none of these happens. Sequence numbers are natural
  numbers (the code has 64 bits and never resets them); register values, addresses and folded
  histories are 64-bit words, folded immediates 32-bit ones. All loops terminate by a measure
  on the data, except the commit loop, which may retire squashed heads without counting them: it is a
  partial function, and its lemmas show that it returns. No definition needs fuel.

  \<^bold>\<open>Parameters.\<close> What an instruction computes is a parameter of \<open>RenameExec\<close>; the
  return address the predictor preserved for an instruction is a parameter of \<open>Decode\<close>;
  the answers of the predictor tables, one prediction per stage, are an argument of \<open>Bpu\<close>;
  whether stores are flushed or wait to be written back, and when instructions execute and fault, are
  inputs of \<open>Commit\<close>, restricted by \<open>legal_commit\<close> to what the other stages send, to completions that
  \<open>markCompletedInsts\<close> finds in the list of thread 0, and to thread-context squashes that do not meet a pending
  trap or squash; the order of the
  calls to the memory dependence unit is the input of its runs, restricted by \<open>md_legal_run\<close>; whether the
  cache accepts a packet and when it answers are inputs of the runs of the store buffer, restricted by
  \<open>sb_env\<close> to answers to packets that are outstanding and to stores inside one block of the memory; the order
  in which stores are inserted, executed, committed and squashed is the input of the runs of the store queues,
  restricted by \<open>lsq_env\<close> to ordinary stores whose parts lie in one block each and to commits of finished
  stores; the answer of the cache to a load, the index of completed stores and the predicted stores of a load are
  arguments of \<open>lsq_read\<close>.

  \<^bold>\<open>Not modelled.\<close> Statistics, tracing, stall-reason reporting and the trace-driven mode;
  the stages fetch, issue and execute, the load queue with its check for ordering violations and the load and
  store pipelines, whose behaviour is tied to ports, packets and events; atomic, conditional and strictly
  ordered stores once they are sent to the cache past the store buffer; when bank conflicts and busy ports refuse
  a packet; the replays of a load after \<open>read\<close> (cache miss, full RAR and RAW queues, nuke); value prediction in
  rename; interrupts, drain and hardware transactions in commit; lookup and training of the predictor tables
  and the folded histories of ITTAGE and microTAGE. The theorem on the prediction unit asks that every folded length
  of the direction histories exceeds the number of branches in a block; with the default tables, a folded length of
  8 and up to 8 branches in a block, it covers all but the fullest blocks. Also not modelled are the memory system, devices, other CPU models and
  instruction sets, Python configuration, and the workloads.
\<close>

end
